(* ===== verification/Prelude.thy ===== *)
theory Prelude
  imports Main "HOL-Library.Word"
begin

text \<open>
  Shared vocabulary of the development: bytes and buffers, the wrap-around of C's unsigned
  integer types, the in-place update of a byte buffer (\<open>patch\<close>, the effect of
  \<open>memmove\<close>, \<open>memset\<close> and \<open>memcpy\<close> into a larger object), and the lemma collections
  the component theories use. C's \<open>unsigned int\<close>, \<open>uint32_t\<close>, \<open>unsigned long\<close> and
  \<open>uint64_t\<close> are naturals with the reduction written out (\<open>u32\<close>, \<open>u64\<close>); the sources
  are built for LP64, so \<open>unsigned long\<close> and \<open>size_t\<close> have 64 bits.
\<close>

section \<open>Lemma collections\<close>

named_theorems width \<open>facts that remove or bound a reduction to a machine width\<close>
named_theorems buf_simps \<open>length and element access of updated buffers\<close>

section \<open>Bytes and machine widths\<close>

type_synonym byte = "8 word"

definition u32 :: "nat \<Rightarrow> nat" where
  "u32 n = n mod 2 ^ 32"

definition u64 :: "nat \<Rightarrow> nat" where
  "u64 n = n mod 2 ^ 64"

text \<open>Subtraction of two \<open>uint64_t\<close> values: it wraps below zero.\<close>

definition sub64 :: "nat \<Rightarrow> nat \<Rightarrow> nat" where
  "sub64 a b = (a + 2 ^ 64 - b) mod 2 ^ 64"

lemma u32_id [width]: "n < 2 ^ 32 \<Longrightarrow> u32 n = n"
  by (simp add: u32_def)

lemma u64_id [width]: "n < 2 ^ 64 \<Longrightarrow> u64 n = n"
  by (simp add: u64_def)

lemma u32_less: "u32 n < 2 ^ 32"
  by (simp add: u32_def)

lemma u64_less: "u64 n < 2 ^ 64"
  by (simp add: u64_def)

lemma u32_le: "u32 n \<le> n"
  by (simp add: u32_def)

lemma u64_le: "u64 n \<le> n"
  by (simp add: u64_def)

lemma u32_0 [simp]: "u32 0 = 0"
  by (simp add: u32_def)

lemma u64_0 [simp]: "u64 0 = 0"
  by (simp add: u64_def)

lemma sub64_id [width]: "b \<le> a \<Longrightarrow> a < 2 ^ 64 \<Longrightarrow> sub64 a b = a - b"
proof -
  assume ab: "b \<le> a" "a < 2 ^ 64"
  then have "a + 2 ^ 64 - b = (a - b) + 2 ^ 64" by simp
  then have "sub64 a b = (a - b) mod 2 ^ 64" by (simp only: sub64_def mod_add_self2)
  with ab show ?thesis by simp
qed

lemma sub64_less: "sub64 a b < 2 ^ 64"
  by (simp add: sub64_def)

section \<open>Ways a run ends without returning\<close>

text \<open>
  \<open>Bus_error\<close>, \<open>Div_zero\<close>: the process is killed by SIGBUS or SIGFPE. \<open>Int_overflow\<close>: an
  \<open>int\<close> computation leaves the range of the type, \<open>Overrun\<close>: a store outside the object, both undefined in C. \<open>Assertion\<close>: a failed \<open>assert\<close>. \<open>Aborted\<close>: \<open>abort()\<close>.
  \<open>Uninit\<close>, \<open>Null_deref\<close>: a read of an object no one has set, an access through a null pointer.
  The last two belong to the model only: a loop that has not finished within the given
  number of rounds, and a supply of \<open>rand()\<close> results that is used up.
\<close>

datatype fault = Bus_error | Div_zero | Int_overflow | Overrun | Assertion | Aborted | Uninit | Null_deref | Out_of_fuel | Out_of_rand

section \<open>Updating a buffer in place\<close>

definition patch :: "nat \<Rightarrow> 'a list \<Rightarrow> 'a list \<Rightarrow> 'a list" where
  "patch off bs xs = take off xs @ bs @ drop (off + length bs) xs"

lemma length_patch [buf_simps]:
  "off + length bs \<le> length xs \<Longrightarrow> length (patch off bs xs) = length xs"
  by (simp add: patch_def)

lemma length_patch_ge:
  "off \<le> length xs \<Longrightarrow> length (patch off bs xs) = max (length xs) (off + length bs)"
  by (simp add: patch_def max_def)

lemma nth_patch [buf_simps]:
  assumes "off \<le> length xs" "i < max (length xs) (off + length bs)"
  shows "patch off bs xs ! i =
    (if off \<le> i \<and> i < off + length bs then bs ! (i - off) else xs ! i)"
  using assms by (auto simp: patch_def nth_append min_def)

lemma patch_Nil [simp]: "patch off [] xs = xs"
  by (simp add: patch_def)

lemma patch_whole: "length bs = length xs \<Longrightarrow> patch 0 bs xs = bs"
  by (simp add: patch_def)

lemma take_drop_patch_same:
  "off + length bs \<le> length xs \<Longrightarrow> take (length bs) (drop off (patch off bs xs)) = bs"
  by (simp add: patch_def)

lemma patch_patch_adjacent:
  assumes "off + length as \<le> length xs"
  shows "patch (off + length as) bs (patch off as xs) = patch off (as @ bs) xs"
  using assms by (simp add: patch_def ac_simps)

text \<open>A slice outside the updated range is unchanged.\<close>

lemma take_drop_patch_other:
  assumes "off + length bs \<le> length xs" "i + n \<le> off \<or> off + length bs \<le> i"
    and "i + n \<le> length xs"
  shows "take n (drop i (patch off bs xs)) = take n (drop i xs)"
  using assms by (intro nth_equalityI) (auto simp: buf_simps)

section \<open>Lists\<close>

lemma list_all_nth_iff: "list_all P xs \<longleftrightarrow> (\<forall>i < length xs. P (xs ! i))"
  by (simp add: list_all_length)

lemma list_eq_replicate_iff:
  "xs = replicate (length xs) c \<longleftrightarrow> (\<forall>i < length xs. xs ! i = c)"
  by (auto simp: list_eq_iff_nth_eq)

lemma take_drop_split:
  "take n (drop i xs) @ take m (drop (i + n) xs) = take (n + m) (drop i xs)"
  by (simp add: take_add add.commute [of n i])

lemma patch_mid: "length xs = off \<Longrightarrow> length ys = length bs \<Longrightarrow> patch off bs (xs @ ys @ zs) = xs @ bs @ zs"
  by (simp add: patch_def)

section \<open>Little-endian integers\<close>

fun le_bytes :: "nat \<Rightarrow> nat \<Rightarrow> byte list" where
  "le_bytes 0 x = []"
| "le_bytes (Suc n) x = of_nat (x mod 256) # le_bytes n (x div 256)"

fun le_val :: "byte list \<Rightarrow> nat" where
  "le_val [] = 0"
| "le_val (b # bs) = unat b + 256 * le_val bs"

lemma length_le_bytes [simp]: "length (le_bytes n x) = n"
  by (induction n x rule: le_bytes.induct) simp_all

lemma le_val_bytes: "x < 256 ^ n \<Longrightarrow> le_val (le_bytes n x) = x"
proof (induction n x rule: le_bytes.induct)
  case (2 n x)
  then have "x div 256 < 256 ^ n" by (simp add: less_mult_imp_div_less)
  with 2 show ?case by (simp add: unat_of_nat)
qed simp

text \<open>For evaluation on concrete inputs.\<close>

lemma replicate_numeral: "replicate (numeral k) x = x # replicate (pred_numeral k) x"
  by (simp add: numeral_eq_Suc)

end
