(* ===== verification/C_Stdio.thy ===== *)
theory C_Stdio
  imports Prelude
begin

text \<open>
  The part of C's standard I/O the programs use on their log files: decimal output
  (\<open>%lu\<close>, \<open>%u\<close>, \<open>%d\<close>), the scanning directives (\<open>%c\<close>, \<open>%lu\<close>, \<open>%s\<close>, white space),
  \<open>atol\<close> and \<open>atoi\<close>, and an input stream with its end-of-file flag. Output is appended
  to a string; input is a \<open>stream\<close>: the text not yet read and the flag that \<open>feof\<close>
  reports, which is set by a read that meets the end of the text.

  Two interfaces are stated as locales. \<open>text_record\<close> is the contract between a writer of
  log records and the \<open>fscanf\<close> call that reads one back; \<open>record_reader\<close> adds a loop
  that consumes a whole log, and proves once that it folds its step over the records written.
\<close>

section \<open>Characters and bytes\<close>

definition char_of_byte :: "byte \<Rightarrow> char" where
  "char_of_byte b = char_of (unat b)"

definition byte_of_char :: "char \<Rightarrow> byte" where
  "byte_of_char c = of_nat (of_char c)"

lemma of_char_less_256: "(of_char c :: nat) < 256"
  using of_char_eq_iff [of c] by (metis char_of_take_bit_eq nat_of_char_less_256)

lemma char_of_byte_of_char [simp]: "char_of_byte (byte_of_char c) = c"
proof -
  have "unat (byte_of_char c) = (of_char c :: nat)"
    using of_char_less_256 [of c] by (simp add: byte_of_char_def unat_of_nat)
  then show ?thesis by (simp add: char_of_byte_def)
qed

lemma byte_of_char_of_byte [simp]: "byte_of_char (char_of_byte b) = b"
proof -
  have "unat b < 2 ^ LENGTH(8)" by (rule unsigned_less)
  then have "unat b < 256" by simp
  then show ?thesis by (simp add: byte_of_char_def char_of_byte_def of_char_of)
qed

definition c_isspace :: "char \<Rightarrow> bool" where
  "c_isspace c \<longleftrightarrow> c \<in> {CHR 0x20, CHR 0x09, CHR 0x0A, CHR 0x0B, CHR 0x0C, CHR 0x0D}"

definition c_isdigit :: "char \<Rightarrow> bool" where
  "c_isdigit c \<longleftrightarrow> 48 \<le> (of_char c :: nat) \<and> (of_char c :: nat) \<le> 57"

definition digit_val :: "char \<Rightarrow> nat" where
  "digit_val c = of_char c - 48"

definition digit_char :: "nat \<Rightarrow> char" where
  "digit_char d = char_of (48 + d)"

lemma of_digit_char: "d < 10 \<Longrightarrow> (of_char (digit_char d) :: nat) = 48 + d"
  by (simp add: digit_char_def of_char_of)

lemma c_isdigit_digit_char [simp]: "d < 10 \<Longrightarrow> c_isdigit (digit_char d)"
  by (simp add: c_isdigit_def of_digit_char)

lemma digit_val_digit_char [simp]: "d < 10 \<Longrightarrow> digit_val (digit_char d) = d"
  by (simp add: digit_val_def of_digit_char)

lemma digit_not_space: "c_isdigit c \<Longrightarrow> \<not> c_isspace c"
  by (auto simp: c_isdigit_def c_isspace_def)

lemma digit_not_sign: "c_isdigit c \<Longrightarrow> c \<noteq> CHR ''-'' \<and> c \<noteq> CHR ''+''"
  by (auto simp: c_isdigit_def)

section \<open>Decimal output and its value\<close>

fun show_dec :: "nat \<Rightarrow> string" where
  "show_dec n = (if n < 10 then [digit_char n] else show_dec (n div 10) @ [digit_char (n mod 10)])"

declare show_dec.simps [simp del]

definition show_int :: "int \<Rightarrow> string" where
  "show_int i = (if i < 0 then CHR ''-'' # show_dec (nat (- i)) else show_dec (nat i))"

definition dec_val :: "string \<Rightarrow> nat" where
  "dec_val s = foldl (\<lambda>a c. 10 * a + digit_val c) 0 s"

lemma show_dec_nonempty [simp]: "show_dec n \<noteq> []"
  by (subst show_dec.simps) simp

lemma show_dec_digits: "list_all c_isdigit (show_dec n)"
proof (induction n rule: show_dec.induct)
  case (1 n)
  then show ?case by (subst show_dec.simps) simp
qed

lemma dec_val_show_dec [simp]: "dec_val (show_dec n) = n"
proof (induction n rule: show_dec.induct)
  case (1 n)
  show ?case
  proof (cases "n < 10")
    case True
    then show ?thesis by (simp add: show_dec.simps [of n] dec_val_def)
  next
    case False
    with 1 have "dec_val (show_dec (n div 10)) = n div 10" by simp
    with False show ?thesis by (simp add: show_dec.simps [of n] dec_val_def)
  qed
qed

lemma show_dec_hd: "\<exists>c cs. show_dec n = c # cs \<and> c_isdigit c"
  using show_dec_digits [of n] show_dec_nonempty [of n] by (cases "show_dec n") auto

section \<open>Input streams\<close>

record stream =
  st_rest :: string
  st_eof :: bool

definition stream_open :: "string \<Rightarrow> stream" where
  "stream_open txt = \<lparr>st_rest = txt, st_eof = False\<rparr>"

text \<open>A white-space directive reads up to the next character that is not white space.\<close>

definition skip_ws :: "stream \<Rightarrow> stream" where
  "skip_ws s = (let r = dropWhile c_isspace (st_rest s)
                in \<lparr>st_rest = r, st_eof = st_eof s \<or> r = []\<rparr>)"

datatype 'a scan = Scan_ok 'a | Scan_eof | Scan_nomatch

definition scan_char :: "stream \<Rightarrow> char scan \<times> stream" where
  "scan_char s = (case st_rest s of
     [] \<Rightarrow> (Scan_eof, s\<lparr>st_eof := True\<rparr>)
   | c # cs \<Rightarrow> (Scan_ok c, s\<lparr>st_rest := cs\<rparr>))"

text \<open>
  \<open>strtoul\<close> of a digit string: the value saturates at \<open>ULONG_MAX\<close>; a minus sign negates
  modulo \<open>2^64\<close>.
\<close>

definition ul_of_digits :: "bool \<Rightarrow> string \<Rightarrow> nat" where
  "ul_of_digits neg ds = (let v = dec_val ds in
     if v \<ge> 2 ^ 64 then 2 ^ 64 - 1 else if neg then u64 (2 ^ 64 - v) else v)"

definition scan_sign :: "string \<Rightarrow> bool \<times> string" where
  "scan_sign r = (case r of
     c # cs \<Rightarrow> if c = CHR ''-'' then (True, cs) else if c = CHR ''+'' then (False, cs) else (False, r)
   | [] \<Rightarrow> (False, r))"

definition scan_ulong :: "stream \<Rightarrow> nat scan \<times> stream" where
  "scan_ulong s = (let s1 = skip_ws s in
     if st_rest s1 = [] then (Scan_eof, s1) else
     let (neg, r) = scan_sign (st_rest s1); ds = takeWhile c_isdigit r;
         r' = dropWhile c_isdigit r; s2 = \<lparr>st_rest = r', st_eof = st_eof s1 \<or> r' = []\<rparr> in
     if ds = [] then (Scan_nomatch, s2) else (Scan_ok (ul_of_digits neg ds), s2))"

text \<open>\<open>%u\<close> stores the low 32 bits of the converted number.\<close>

definition scan_uint :: "stream \<Rightarrow> nat scan \<times> stream" where
  "scan_uint s = (case scan_ulong s of
     (Scan_ok v, s') \<Rightarrow> (Scan_ok (u32 v), s')
   | (r, s') \<Rightarrow> (r, s'))"

text \<open>\<open>%s\<close> reads a non-empty run of characters that are not white space.\<close>

definition scan_word :: "stream \<Rightarrow> string scan \<times> stream" where
  "scan_word s = (let s1 = skip_ws s; w = takeWhile (\<lambda>c. \<not> c_isspace c) (st_rest s1);
       r' = dropWhile (\<lambda>c. \<not> c_isspace c) (st_rest s1) in
     if st_rest s1 = [] then (Scan_eof, s1)
     else (Scan_ok w, \<lparr>st_rest = r', st_eof = st_eof s1 \<or> r' = []\<rparr>))"

text \<open>\<open>atol\<close> (and \<open>atoll\<close>, which agrees with it on LP64) and \<open>atoi\<close>, its low 32 bits as an
  \<open>int\<close>.\<close>

definition c_atol :: "string \<Rightarrow> int" where
  "c_atol s = (let (neg, r) = scan_sign (dropWhile c_isspace s);
       v = int (dec_val (takeWhile c_isdigit r)) in
     if neg then max (- (2 ^ 63)) (- v) else min (2 ^ 63 - 1) v)"

definition to_int32 :: "int \<Rightarrow> int" where
  "to_int32 i = (i + 2 ^ 31) mod 2 ^ 32 - 2 ^ 31"

definition c_atoi :: "string \<Rightarrow> int" where
  "c_atoi s = to_int32 (c_atol s)"

text \<open>\<open>strtoull(s, NULL, 0)\<close>: the prefix selects base 16, 8 or 10.\<close>

definition hex_val :: "char \<Rightarrow> nat" where
  "hex_val c = (let n = of_char c :: nat in
     if 48 \<le> n \<and> n \<le> 57 then n - 48 else if 65 \<le> n \<and> n \<le> 90 then n - 55
     else if 97 \<le> n \<and> n \<le> 122 then n - 87 else 36)"

definition base_val :: "nat \<Rightarrow> string \<Rightarrow> nat" where
  "base_val b s = foldl (\<lambda>a c. b * a + hex_val c) 0 (takeWhile (\<lambda>c. hex_val c < b) s)"

definition strtoull0 :: "string \<Rightarrow> nat" where
  "strtoull0 s = (let (neg, r) = scan_sign (dropWhile c_isspace s);
       v = (case r of
          z # x # h # r' \<Rightarrow> if z = CHR ''0'' \<and> (x = CHR ''x'' \<or> x = CHR ''X'') \<and> hex_val h < 16
                          then base_val 16 (h # r')
                          else if z = CHR ''0'' then base_val 8 r else base_val 10 r
        | z # r' \<Rightarrow> if z = CHR ''0'' then base_val 8 r else base_val 10 r
        | [] \<Rightarrow> 0) in
     if v \<ge> 2 ^ 64 then 2 ^ 64 - 1 else if neg then u64 (2 ^ 64 - v) else v)"

section \<open>What is read after it was written\<close>

lemma takeWhile_dropWhile_digits:
  assumes "list_all P ds" "rest = [] \<or> \<not> P (hd rest)"
  shows "takeWhile P (ds @ rest) = ds" and "dropWhile P (ds @ rest) = rest"
proof -
  have "takeWhile P rest = []" "dropWhile P rest = rest"
    using assms(2) by (cases rest; auto)+
  moreover have "\<forall>x \<in> set ds. P x" using assms(1) by (simp add: list_all_iff)
  ultimately show "takeWhile P (ds @ rest) = ds" "dropWhile P (ds @ rest) = rest"
    by (simp_all add: takeWhile_append2 dropWhile_append2)
qed

lemma scan_sign_show_dec: "scan_sign (show_dec n @ r) = (False, show_dec n @ r)"
  using show_dec_hd [of n] digit_not_sign by (auto simp: scan_sign_def)

lemma skip_ws_show_dec:
  "skip_ws \<lparr>st_rest = show_dec n @ r, st_eof = e\<rparr> = \<lparr>st_rest = show_dec n @ r, st_eof = e\<rparr>"
  using show_dec_hd [of n] digit_not_space by (auto simp: skip_ws_def)

lemma scan_ulong_show_dec:
  assumes "n < 2 ^ 64" "r = [] \<or> \<not> c_isdigit (hd r)"
  shows "scan_ulong \<lparr>st_rest = show_dec n @ r, st_eof = e\<rparr>
       = (Scan_ok n, \<lparr>st_rest = r, st_eof = e \<or> r = []\<rparr>)"
proof -
  have "takeWhile c_isdigit (show_dec n @ r) = show_dec n" "dropWhile c_isdigit (show_dec n @ r) = r"
    using takeWhile_dropWhile_digits [OF show_dec_digits assms(2)] by auto
  with assms(1) show ?thesis
    by (simp add: scan_ulong_def skip_ws_show_dec scan_sign_show_dec ul_of_digits_def
        del: dropWhile_eq_Nil_conv)
qed

lemma scan_uint_show_dec:
  assumes "n < 2 ^ 32" "r = [] \<or> \<not> c_isdigit (hd r)"
  shows "scan_uint \<lparr>st_rest = show_dec n @ r, st_eof = e\<rparr>
       = (Scan_ok n, \<lparr>st_rest = r, st_eof = e \<or> r = []\<rparr>)"
  using assms scan_ulong_show_dec [of n r e] by (simp add: scan_uint_def width)

lemma skip_ws_Cons_space:
  assumes "c_isspace c" "r = [] \<or> \<not> c_isspace (hd r)"
  shows "skip_ws \<lparr>st_rest = c # r, st_eof = e\<rparr> = \<lparr>st_rest = r, st_eof = e \<or> r = []\<rparr>"
  using assms by (cases r) (auto simp: skip_ws_def)

lemma scan_word_text:
  assumes "w \<noteq> []" "list_all (\<lambda>c. \<not> c_isspace c) w" "r = [] \<or> c_isspace (hd r)"
  shows "scan_word \<lparr>st_rest = w @ r, st_eof = e\<rparr>
       = (Scan_ok w, \<lparr>st_rest = r, st_eof = e \<or> r = []\<rparr>)"
proof -
  obtain c cs where w: "w = c # cs" "\<not> c_isspace c" using assms(1,2) by (cases w) auto
  have "skip_ws \<lparr>st_rest = w @ r, st_eof = e\<rparr> = \<lparr>st_rest = w @ r, st_eof = e\<rparr>"
    using w by (simp add: skip_ws_def)
  moreover have "r = [] \<or> \<not> \<not> c_isspace (hd r)" using assms(3) by simp
  ultimately show ?thesis
    using takeWhile_dropWhile_digits [OF assms(2)] w by (simp add: scan_word_def)
qed

lemma takeWhile_show_dec: "takeWhile c_isdigit (show_dec n) = show_dec n"
  using takeWhile_dropWhile_digits(1) [OF show_dec_digits, of "[]" n] by simp

lemma c_atol_show_dec:
  assumes "n < 2 ^ 63"
  shows "c_atol (show_dec n) = int n"
proof -
  have "dropWhile c_isspace (show_dec n) = show_dec n"
    using show_dec_hd [of n] digit_not_space by auto
  moreover have "scan_sign (show_dec n) = (False, show_dec n)"
    using scan_sign_show_dec [of n "[]"] by simp
  moreover have "int n \<le> 2 ^ 63 - 1" using assms by simp
  ultimately show ?thesis by (simp add: c_atol_def takeWhile_show_dec min_def)
qed

text \<open>The conversions \<open>%0wd\<close> and \<open>%0wld\<close> of a number that is not negative.\<close>

definition zero_pad :: "nat \<Rightarrow> nat \<Rightarrow> string" where
  "zero_pad w n = replicate (w - length (show_dec n)) CHR ''0'' @ show_dec n"

lemma digit_zero: "c_isdigit CHR ''0''" "digit_val CHR ''0'' = 0"
  by (simp_all add: c_isdigit_def digit_val_def)

lemma zero_pad_digits: "list_all c_isdigit (zero_pad w n)"
  using show_dec_digits [of n] by (auto simp: zero_pad_def digit_zero list_all_iff)

lemma dec_val_zeros: "dec_val (replicate k CHR ''0'' @ s) = dec_val s"
  by (induction k) (simp_all add: dec_val_def digit_zero)

lemma dec_val_zero_pad [simp]: "dec_val (zero_pad w n) = n"
  by (simp add: zero_pad_def dec_val_zeros)

lemma zero_pad_inject: "zero_pad w m = zero_pad w n \<longleftrightarrow> m = n"
  by (metis dec_val_zero_pad)

lemma length_show_dec_le: "0 < w \<Longrightarrow> n < 10 ^ w \<Longrightarrow> length (show_dec n) \<le> w"
proof (induction n arbitrary: w rule: show_dec.induct)
  case (1 n)
  show ?case
  proof (cases "n < 10")
    case True
    then show ?thesis using 1 by (simp add: show_dec.simps [of n])
  next
    case False
    then obtain v where v: "w = Suc v" "0 < v" using 1(2,3) by (cases w; cases "w - 1") auto
    have "n div 10 < 10 ^ v" using 1(3) v by (simp add: less_mult_imp_div_less mult.commute)
    then show ?thesis using 1(1) [OF False v(2)] False v by (simp add: show_dec.simps [of n])
  qed
qed

lemma length_zero_pad: "0 < w \<Longrightarrow> n < 10 ^ w \<Longrightarrow> length (zero_pad w n) = w"
  using length_show_dec_le [of w n] by (simp add: zero_pad_def)

lemma c_atol_digits:
  assumes "list_all c_isdigit s" "s \<noteq> []" "dec_val s < 2 ^ 63"
  shows "c_atol s = int (dec_val s)"
proof -
  obtain c cs where s: "s = c # cs" using assms(2) by (cases s) auto
  have "dropWhile c_isspace s = s" using assms(1) s digit_not_space [of c] by simp
  moreover have "scan_sign s = (False, s)" using assms(1) s digit_not_sign [of c] by (simp add: scan_sign_def)
  moreover have tw: "takeWhile c_isdigit s = s" using assms(1) by (simp add: list_all_iff)
  moreover have "int (dec_val s) \<le> 2 ^ 63 - 1" using assms(3) by simp
  ultimately show ?thesis unfolding c_atol_def by (simp only: tw prod.case Let_def if_False min_absorb2)
qed

lemma c_atol_show_int:
  assumes "- (2 ^ 63) \<le> i" "i < 2 ^ 63"
  shows "c_atol (show_int i) = i"
proof (cases "i < 0")
  case True
  have "dropWhile c_isspace (show_int i) = CHR ''-'' # show_dec (nat (- i))"
    using True by (simp add: show_int_def c_isspace_def)
  moreover have "- (2 ^ 63) \<le> - int (nat (- i))" using True assms by simp
  ultimately show ?thesis using True
    by (simp add: c_atol_def scan_sign_def takeWhile_show_dec max_absorb2)
next
  case False
  with assms have "nat i < 2 ^ 63" by (simp add: nat_less_iff)
  with False show ?thesis using c_atol_show_dec [of "nat i"] by (simp add: show_int_def)
qed

lemma to_int32_id: "- (2 ^ 31) \<le> i \<Longrightarrow> i < 2 ^ 31 \<Longrightarrow> to_int32 i = i"
  by (simp add: to_int32_def)

lemma c_atoi_zero_pad: "n < 2 ^ 31 \<Longrightarrow> c_atoi (zero_pad w n) = int n"
  using c_atol_digits [OF zero_pad_digits [of w n]] by (simp add: c_atoi_def to_int32_id) (simp add: zero_pad_def to_int32_id)

section \<open>Every conversion consumes input\<close>

lemma skip_ws_length: "length (st_rest (skip_ws s)) \<le> length (st_rest s)"
  by (simp add: skip_ws_def Let_def length_dropWhile_le)

lemma scan_char_length: "scan_char s = (Scan_ok c, s') \<Longrightarrow> length (st_rest s') < length (st_rest s)"
  by (auto simp: scan_char_def split: list.splits)

lemma scan_sign_length: "scan_sign r = (b, r') \<Longrightarrow> length r' \<le> length r"
  by (auto simp: scan_sign_def split: list.splits if_splits)

lemma scan_ulong_length: "scan_ulong s = (v, s') \<Longrightarrow> length (st_rest s') \<le> length (st_rest s)"
proof -
  assume a: "scan_ulong s = (v, s')"
  obtain b r where br: "scan_sign (st_rest (skip_ws s)) = (b, r)" by fastforce
  have "length (st_rest s') \<le> length (st_rest (skip_ws s))"
    using a scan_sign_length [OF br] length_dropWhile_le [of c_isdigit r]
    by (auto simp: scan_ulong_def Let_def br split: if_splits)
  with skip_ws_length [of s] show ?thesis by simp
qed

lemma scan_uint_length: "scan_uint s = (v, s') \<Longrightarrow> length (st_rest s') \<le> length (st_rest s)"
  by (auto simp: scan_uint_def split: prod.splits scan.splits dest: scan_ulong_length)

lemma scan_word_length:
  assumes "scan_word s = (Scan_ok w, s')"
  shows "length (st_rest s') < length (st_rest s)"
proof -
  have ne: "st_rest (skip_ws s) \<noteq> []" and r: "st_rest s' = dropWhile (\<lambda>c. \<not> c_isspace c) (st_rest (skip_ws s))"
    using assms by (auto simp: scan_word_def Let_def split: if_splits)
  have sk: "st_rest (skip_ws s) = dropWhile c_isspace (st_rest s)" by (simp add: skip_ws_def Let_def)
  then obtain c cs where c: "st_rest (skip_ws s) = c # cs" "\<not> c_isspace c"
    using ne hd_dropWhile [of c_isspace "st_rest s"] by (metis list.collapse)
  have "length (st_rest s') \<le> length cs" using r c length_dropWhile_le [of "\<lambda>c. \<not> c_isspace c" cs] by simp
  then show ?thesis using c(1) skip_ws_length [of s] by simp
qed

section \<open>Interfaces: a log record and a log reader\<close>

locale text_record =
  fixes show_rec :: "'r \<Rightarrow> string"
    and scan_rec :: "stream \<Rightarrow> 'r option \<times> stream"
    and wf_rec :: "'r \<Rightarrow> bool"
    and may_follow :: "string \<Rightarrow> bool"
  assumes scan_show: "wf_rec r \<Longrightarrow> may_follow rest \<Longrightarrow>
      scan_rec \<lparr>st_rest = show_rec r @ rest, st_eof = False\<rparr>
        = (Some r, \<lparr>st_rest = rest, st_eof = (rest = [])\<rparr>)"
    and show_nonempty: "wf_rec r \<Longrightarrow> show_rec r \<noteq> []"
    and may_follow_Nil: "may_follow []"
    and may_follow_rec: "wf_rec r \<Longrightarrow> may_follow (show_rec r @ rest)"
begin

lemma may_follow_log: "list_all wf_rec rs \<Longrightarrow> may_follow (concat (map show_rec rs))"
  by (cases rs) (simp_all add: may_follow_Nil may_follow_rec)

end

locale record_reader = text_record +
  fixes loop :: "stream \<Rightarrow> 'a \<Rightarrow> 'b"
    and step :: "'r \<Rightarrow> 'a \<Rightarrow> 'a"
    and fin :: "'a \<Rightarrow> 'b"
    and inv :: "'a \<Rightarrow> bool"
  assumes loop_rec: "wf_rec r \<Longrightarrow> inv a \<Longrightarrow> \<not> st_eof s \<Longrightarrow> scan_rec s = (Some r, s') \<Longrightarrow>
      loop s a = loop s' (step r a)"
    and loop_end: "inv a \<Longrightarrow> loop \<lparr>st_rest = [], st_eof = True\<rparr> a = fin a"
    and step_inv: "wf_rec r \<Longrightarrow> inv a \<Longrightarrow> inv (step r a)"
begin

lemma fold_inv: "list_all wf_rec rs \<Longrightarrow> inv a \<Longrightarrow> inv (fold step rs a)"
  by (induction rs arbitrary: a) (simp_all add: step_inv)

lemma loop_log:
  assumes "list_all wf_rec rs" "inv a" "rs \<noteq> []"
  shows "loop (stream_open (concat (map show_rec rs))) a = fin (fold step rs a)"
  using assms
proof (induction rs arbitrary: a)
  case (Cons r rs)
  then have r: "wf_rec r" "list_all wf_rec rs" "inv a" by simp_all
  let ?txt = "concat (map show_rec rs)"
  have "scan_rec (stream_open (show_rec r @ ?txt)) = (Some r, \<lparr>st_rest = ?txt, st_eof = (?txt = [])\<rparr>)"
    unfolding stream_open_def by (rule scan_show [OF r(1) may_follow_log [OF r(2)]])
  then have step: "loop (stream_open (show_rec r @ ?txt)) a
      = loop \<lparr>st_rest = ?txt, st_eof = (?txt = [])\<rparr> (step r a)"
    by (rule loop_rec [OF r(1,3), rotated]) (simp add: stream_open_def)
  show ?case
  proof (cases rs)
    case Nil
    with step step_inv [OF r(1,3)] show ?thesis by (simp add: loop_end)
  next
    case (Cons q qs)
    with r(2) have "show_rec q \<noteq> []" using show_nonempty [of q] by simp
    with step Cons.IH [OF r(2) step_inv [OF r(1,3)]] Cons show ?thesis
      by (simp add: stream_open_def)
  qed
qed simp

end

end
