(* ===== verification/Posix_File.thy ===== *)
theory Posix_File
  imports C_Stdio
begin

text \<open>
  The system calls the programs make on regular files. The contents of a file are a byte
  list; a read past the end is short, a write past the end fills the gap with zero bytes,
  \<open>ftruncate\<close> cuts or extends with zero bytes.

  A call may fail or transfer fewer bytes than asked. What the kernel decides is an input
  of the model: a list of decisions, one taken per call (\<open>io_next\<close>); an exhausted list
  means that every further call succeeds in full. A short transfer moves at least one byte,
  as it does on a regular file. Offsets and counts are within \<open>off_t\<close> and \<open>ssize_t\<close>
  (the kernel never transfers more than \<open>0x7ffff000\<close> bytes at once, so assigning the
  result of \<open>pread\<close> to an \<open>int\<close>, as the programs do, loses nothing).
\<close>

section \<open>Contents of a file\<close>

type_synonym content = "byte list"

definition file_byte :: "content \<Rightarrow> nat \<Rightarrow> byte" where
  "file_byte f i = (if i < length f then f ! i else 0)"

definition file_write :: "nat \<Rightarrow> byte list \<Rightarrow> content \<Rightarrow> content" where
  "file_write off bs f = (if bs = [] then f else patch off bs (f @ replicate (off - length f) 0))"

definition file_truncate :: "nat \<Rightarrow> content \<Rightarrow> content" where
  "file_truncate n f = take n f @ replicate (n - length f) 0"

lemma file_write_Nil [simp]: "file_write off [] f = f"
  by (simp add: file_write_def)

lemma length_file_write [buf_simps]:
  "length (file_write off bs f) = (if bs = [] then length f else max (length f) (off + length bs))"
  by (auto simp: file_write_def length_patch_ge)

lemma nth_file_write [buf_simps]:
  assumes "i < length (file_write off bs f)"
  shows "file_write off bs f ! i =
    (if off \<le> i \<and> i < off + length bs then bs ! (i - off) else file_byte f i)"
proof (cases "bs = []")
  case True
  with assms show ?thesis by (auto simp: file_byte_def)
next
  case False
  let ?g = "f @ replicate (off - length f) 0"
  have len: "off \<le> length ?g" "length ?g = max (length f) off" by auto
  have "i < max (length ?g) (off + length bs)"
    using assms False by (auto simp: buf_simps)
  with len(1) have "file_write off bs f ! i =
      (if off \<le> i \<and> i < off + length bs then bs ! (i - off) else ?g ! i)"
    using False by (simp add: file_write_def nth_patch del: length_append)
  moreover have "?g ! i = file_byte f i" if "\<not> (off \<le> i \<and> i < off + length bs)"
    using that assms False by (auto simp: file_byte_def nth_append buf_simps)
  ultimately show ?thesis by simp
qed

lemma file_byte_write [buf_simps]:
  "file_byte (file_write off bs f) i =
    (if off \<le> i \<and> i < off + length bs then bs ! (i - off) else file_byte f i)"
proof (cases "i < length (file_write off bs f)")
  case True
  then show ?thesis by (subst file_byte_def) (simp add: nth_file_write)
next
  case False
  then show ?thesis by (auto simp: file_byte_def buf_simps split: if_splits)
qed

lemma length_file_truncate [buf_simps]: "length (file_truncate n f) = n"
  by (simp add: file_truncate_def)

lemma file_byte_truncate [buf_simps]:
  "file_byte (file_truncate n f) i = (if i < n then file_byte f i else 0)"
  by (auto simp: file_truncate_def file_byte_def nth_append)

lemma file_eqI:
  assumes "length f = length g" "\<And>i. i < length f \<Longrightarrow> file_byte f i = file_byte g i"
  shows "f = g"
proof (rule nth_equalityI [OF assms(1)])
  fix i assume "i < length f"
  with assms(2) [of i] assms(1) show "f ! i = g ! i" by (simp add: file_byte_def)
qed

lemma file_write_append:
  "file_write (off + length as) bs (file_write off as f) = file_write off (as @ bs) f"
proof (rule file_eqI)
  show "length (file_write (off + length as) bs (file_write off as f)) = length (file_write off (as @ bs) f)"
    by (auto simp: buf_simps)
next
  fix i
  show "file_byte (file_write (off + length as) bs (file_write off as f)) i
      = file_byte (file_write off (as @ bs) f) i"
    by (auto simp: buf_simps nth_append)
qed

lemma file_slice_write_same:
  "take (length bs) (drop off (file_write off bs f)) = bs"
proof (rule nth_equalityI)
  show "length (take (length bs) (drop off (file_write off bs f))) = length bs"
    by (auto simp: buf_simps)
qed (auto simp: buf_simps)

section \<open>Decisions of the kernel\<close>

datatype io = Io_ok | Io_short nat | Io_err nat

type_synonym io_env = "io list"

definition io_next :: "io_env \<Rightarrow> io \<times> io_env" where
  "io_next env = (case env of [] \<Rightarrow> (Io_ok, []) | d # ds \<Rightarrow> (d, ds))"

definition io_fails :: "io \<Rightarrow> bool" where
  "io_fails d \<longleftrightarrow> (case d of Io_err _ \<Rightarrow> True | _ \<Rightarrow> False)"

lemma io_next_Nil [simp]: "io_next [] = (Io_ok, [])"
  by (simp add: io_next_def)

lemma io_next_Cons [simp]: "io_next (d # ds) = (d, ds)"
  by (simp add: io_next_def)

section \<open>Reading, writing, truncating\<close>

definition sys_pread :: "io_env \<Rightarrow> content \<Rightarrow> nat \<Rightarrow> nat \<Rightarrow> (nat + byte list) \<times> io_env" where
  "sys_pread env f count off = (case io_next env of
     (Io_ok, env') \<Rightarrow> (Inr (take count (drop off f)), env')
   | (Io_short k, env') \<Rightarrow> (Inr (take (min (Suc k) count) (drop off f)), env')
   | (Io_err e, env') \<Rightarrow> (Inl e, env'))"

definition sys_pwrite :: "io_env \<Rightarrow> content \<Rightarrow> byte list \<Rightarrow> nat \<Rightarrow> (nat + nat) \<times> content \<times> io_env" where
  "sys_pwrite env f bs off = (case io_next env of
     (Io_ok, env') \<Rightarrow> (Inr (length bs), file_write off bs f, env')
   | (Io_short k, env') \<Rightarrow>
       (Inr (length (take (Suc k) bs)), file_write off (take (Suc k) bs) f, env')
   | (Io_err e, env') \<Rightarrow> (Inl e, f, env'))"

text \<open>A call that either fails or takes effect: \<open>ftruncate\<close>, \<open>open\<close>, \<open>mmap\<close>, \<open>ioctl\<close>.\<close>

definition sys_call :: "io_env \<Rightarrow> (nat option) \<times> io_env" where
  "sys_call env = (case io_next env of (Io_err e, env') \<Rightarrow> (Some e, env') | (_, env') \<Rightarrow> (None, env'))"

definition sys_ftruncate :: "io_env \<Rightarrow> content \<Rightarrow> nat \<Rightarrow> nat option \<times> content \<times> io_env" where
  "sys_ftruncate env f n = (case sys_call env of
     (Some e, env') \<Rightarrow> (Some e, f, env')
   | (None, env') \<Rightarrow> (None, file_truncate n f, env'))"

lemma sys_call_Nil [simp]: "sys_call [] = (None, [])"
  by (simp add: sys_call_def)

lemma sys_pread_Nil [simp]: "sys_pread [] f count off = (Inr (take count (drop off f)), [])"
  by (simp add: sys_pread_def)

lemma sys_pwrite_Nil [simp]: "sys_pwrite [] f bs off = (Inr (length bs), file_write off bs f, [])"
  by (simp add: sys_pwrite_def)

lemma sys_ftruncate_Nil [simp]: "sys_ftruncate [] f n = (None, file_truncate n f, [])"
  by (simp add: sys_ftruncate_def)

text \<open>What every successful transfer does, whatever the kernel decided.\<close>

lemma sys_pread_InrD:
  assumes "sys_pread env f count off = (Inr bs, env')"
  shows "bs = take (length bs) (drop off f)" "length bs \<le> count" "off + length bs \<le> max off (length f)"
    and "off < length f \<Longrightarrow> 0 < count \<Longrightarrow> 0 < length bs"
proof -
  obtain n where n: "bs = take n (drop off f)" "n \<le> count" "0 < count \<Longrightarrow> 0 < n"
    using assms by (auto simp: sys_pread_def split: prod.splits io.splits intro: that)
  then show "bs = take (length bs) (drop off f)" "length bs \<le> count"
    "off + length bs \<le> max off (length f)" "off < length f \<Longrightarrow> 0 < count \<Longrightarrow> 0 < length bs"
    by (auto simp: min_def)
qed

lemma sys_pread_InlD: "sys_pread env f count off = (Inl e, env') \<Longrightarrow> env = Io_err e # env'"
  by (cases env) (auto simp: sys_pread_def io_next_def split: prod.splits io.splits)

lemma sys_pwrite_InrD:
  assumes "sys_pwrite env f bs off = (Inr n, f', env')"
  shows "f' = file_write off (take n bs) f" "n \<le> length bs" "bs \<noteq> [] \<Longrightarrow> 0 < n"
  using assms by (auto simp: sys_pwrite_def min_def split: prod.splits io.splits if_splits)

text \<open>The form a termination proof of a write loop meets.\<close>

lemma sys_pwrite_progress:
  "(Inr n, q) = sys_pwrite env f bs off \<Longrightarrow> bs \<noteq> [] \<Longrightarrow> 0 < n"
  by (cases q) (metis sys_pwrite_InrD(3))

lemma sys_pwrite_InlD: "sys_pwrite env f bs off = (Inl e, f', env') \<Longrightarrow> env = Io_err e # env' \<and> f' = f"
  by (cases env) (auto simp: sys_pwrite_def io_next_def split: prod.splits io.splits)

lemma sys_pread_env: "sys_pread env f count off = (r, env') \<Longrightarrow> env' = tl env"
  by (cases env) (auto simp: sys_pread_def io_next_def split: prod.splits io.splits)

text \<open>\<open>errno\<close> after a failed call is never 0.\<close>

definition env_ok :: "io_env \<Rightarrow> bool" where
  "env_ok env \<longleftrightarrow> Io_err 0 \<notin> set env"

lemma env_ok_Nil [simp]: "env_ok []"
  by (simp add: env_ok_def)

lemma env_ok_tl: "env_ok env \<Longrightarrow> env_ok (tl env)"
  by (cases env) (simp_all add: env_ok_def)

lemma sys_pwrite_env: "sys_pwrite env f bs off = (r, f', env') \<Longrightarrow> env' = tl env"
  by (cases env) (auto simp: sys_pwrite_def io_next_def split: prod.splits io.splits)

section \<open>Named files\<close>

text \<open>The files of the volume by path. Opening without \<open>O_CREAT\<close> fails on a missing path.\<close>

type_synonym fs = "string \<rightharpoonup> content"

definition ENOENT :: nat where
  "ENOENT = 2"

definition EINVAL :: nat where
  "EINVAL = 22"

definition sys_open_ro :: "io_env \<Rightarrow> fs \<Rightarrow> string \<Rightarrow> (nat + content) \<times> io_env" where
  "sys_open_ro env vol path = (case sys_call env of
     (Some e, env') \<Rightarrow> (Inl e, env')
   | (None, env') \<Rightarrow> (case vol path of None \<Rightarrow> (Inl ENOENT, env') | Some f \<Rightarrow> (Inr f, env')))"

text \<open>\<open>open\<close> with \<open>O_CREAT|O_RDWR\<close>: an existing file keeps its contents.\<close>

definition sys_open_creat :: "io_env \<Rightarrow> fs \<Rightarrow> string \<Rightarrow> (nat + content) \<times> io_env" where
  "sys_open_creat env vol path = (case sys_call env of
     (Some e, env') \<Rightarrow> (Inl e, env')
   | (None, env') \<Rightarrow> (case vol path of None \<Rightarrow> (Inr [], env') | Some f \<Rightarrow> (Inr f, env')))"

section \<open>Shared mappings\<close>

text \<open>
  A shared mapping shows the file up to its end, zero bytes up to the end of the last page,
  and raises SIGBUS beyond that page; stores past the end of the file are lost.
\<close>

definition page_ceil :: "nat \<Rightarrow> nat \<Rightarrow> nat" where
  "page_ceil page n = (n + page - 1) div page * page"

definition map_load :: "nat \<Rightarrow> content \<Rightarrow> nat \<Rightarrow> nat \<Rightarrow> fault + byte list" where
  "map_load page f off n = (if n = 0 then Inr [] else if off + n \<le> page_ceil page (length f)
     then Inr (map (file_byte f) [off ..< off + n]) else Inl Bus_error)"

definition map_store :: "nat \<Rightarrow> content \<Rightarrow> nat \<Rightarrow> byte list \<Rightarrow> fault + content" where
  "map_store page f off bs = (if bs = [] then Inr f else if off + length bs \<le> page_ceil page (length f)
     then Inr (take (length f) (file_write off bs f)) else Inl Bus_error)"

lemma page_ceil_ge: "0 < page \<Longrightarrow> n \<le> page_ceil page n"
  using mod_less_divisor [of page "n + page - 1"] div_mult_mod_eq [of "n + page - 1" page]
  unfolding page_ceil_def by linarith

lemma map_file_byte_slice: "off + n \<le> length f \<Longrightarrow> map (file_byte f) [off ..< off + n] = take n (drop off f)"
  by (intro nth_equalityI) (auto simp: file_byte_def)

lemma map_load_inside:
  "0 < page \<Longrightarrow> off + n \<le> length f \<Longrightarrow> map_load page f off n = Inr (take n (drop off f))"
  using page_ceil_ge [of page "length f"] by (simp add: map_load_def map_file_byte_slice)

lemma map_store_inside:
  "0 < page \<Longrightarrow> off + length bs \<le> length f \<Longrightarrow> map_store page f off bs = Inr (file_write off bs f)"
  using page_ceil_ge [of page "length f"] by (auto simp: map_store_def buf_simps)

lemma map_store_length: "map_store page f off bs = Inr g \<Longrightarrow> length g = length f"
  by (auto simp: map_store_def buf_simps split: if_splits)

section \<open>Interface: a byte store read back where it was written\<close>

text \<open>
  What the verification programs rely on: a slice that was written is read back, a slice
  that the write does not touch is unchanged, and a write that was split is the same as
  one write.
\<close>

locale byte_store =
  fixes store :: "nat \<Rightarrow> byte list \<Rightarrow> 's \<Rightarrow> 's"
    and peek :: "'s \<Rightarrow> nat \<Rightarrow> byte"
  assumes peek_store: "peek (store off bs s) i =
      (if off \<le> i \<and> i < off + length bs then bs ! (i - off) else peek s i)"
begin

lemma peek_store_other: "i < off \<or> off + length bs \<le> i \<Longrightarrow> peek (store off bs s) i = peek s i"
  by (auto simp: peek_store)

lemma peek_store_replicate:
  "peek (store off (replicate n c) s) i = (if off \<le> i \<and> i < off + n then c else peek s i)"
  by (auto simp: peek_store)

text \<open>Replaying a list of writes: the byte read is that of the last write that covers it.\<close>

lemma peek_fold_other:
  assumes "\<And>off bs. (off, bs) \<in> set ws \<Longrightarrow> i < off \<or> off + length bs \<le> i"
  shows "peek (fold (\<lambda>(off, bs). store off bs) ws s) i = peek s i"
  using assms
proof (induction ws arbitrary: s)
  case (Cons w ws)
  obtain off bs where w: "w = (off, bs)" by (cases w)
  with Cons.prems have "i < off \<or> off + length bs \<le> i" by simp
  moreover have "peek (fold (\<lambda>(off, bs). store off bs) ws (store off bs s)) i = peek (store off bs s) i"
    using Cons.prems by (intro Cons.IH) auto
  ultimately show ?case using w by (simp add: peek_store_other)
qed simp

end

interpretation file_store: byte_store file_write file_byte
  by unfold_locales (rule file_byte_write)

end
