(* ===== verification/File_Ops.thy ===== *)
theory File_Ops
  imports Posix_File
begin

text \<open>
  \<open>programs/libocfs2test/file_ops.c\<close>: random numbers and names, the read and write loops
  over \<open>pread\<close> and \<open>pwrite\<close>, their \<open>mmap\<close> counterparts, the variants that open a file by
  path, and \<open>do_write\<close>. An operation returns C's result code beside the data it fills or
  the new contents of the file; \<open>Inl\<close> of a fault where it does not return.
\<close>

section \<open>Random values\<close>

text \<open>\<open>get_rand\<close> on the result \<open>r\<close> of its call of \<open>rand()\<close>; the modulus may be zero.\<close>

definition get_rand :: "nat \<Rightarrow> nat \<Rightarrow> nat \<Rightarrow> fault + nat" where
  "get_rand mn mx r = (if mn = 0 \<and> mx = 0 then Inr 0 else
     let m = u64 (sub64 mx mn + 1) in
     if m = 0 then Inl Div_zero else Inr (u64 (mn + r mod m)))"

definition get_rand_char :: "nat \<Rightarrow> fault + byte" where
  "get_rand_char r = (case get_rand 0 25 r of Inl e \<Rightarrow> Inl e | Inr v \<Rightarrow> Inr (65 + of_nat v))"

definition OCFS2_MAX_FILENAME_LEN :: nat where
  "OCFS2_MAX_FILENAME_LEN = 255"

text \<open>The loop that fills a name, one \<open>rand()\<close> result per character.\<close>

fun rand_nam_chars :: "nat \<Rightarrow> nat list \<Rightarrow> fault + (byte list \<times> nat list)" where
  "rand_nam_chars 0 rs = Inr ([], rs)"
| "rand_nam_chars (Suc n) [] = Inl Out_of_rand"
| "rand_nam_chars (Suc n) (r # rs) = (case get_rand_char r of
     Inl e \<Rightarrow> Inl e
   | Inr c \<Rightarrow> (case rand_nam_chars n rs of Inl e \<Rightarrow> Inl e | Inr (cs, rs') \<Rightarrow> Inr (c # cs, rs')))"

text \<open>
  \<open>get_rand_nam\<close> clears the first \<open>OCFS2_MAX_FILENAME_LEN\<close> bytes of the caller's buffer,
  stores the characters from index 0 and a zero byte at index \<open>nam_len\<close>. A buffer too short
  for either store is overrun.
\<close>

definition get_rand_nam :: "byte list \<Rightarrow> nat \<Rightarrow> nat \<Rightarrow> nat list \<Rightarrow> fault + (nat \<times> byte list \<times> nat list)" where
  "get_rand_nam str least most rs = (case rs of [] \<Rightarrow> Inl Out_of_rand | r # rs1 \<Rightarrow>
     (case get_rand least most r of Inl e \<Rightarrow> Inl e | Inr v \<Rightarrow>
       let nam_len = u32 v in
       if length str < OCFS2_MAX_FILENAME_LEN \<or> length str \<le> nam_len then Inl Overrun else
       (case rand_nam_chars nam_len rs1 of Inl e \<Rightarrow> Inl e | Inr (cs, rs2) \<Rightarrow>
         Inr (nam_len, patch nam_len [0]
                (patch 0 cs (patch 0 (replicate OCFS2_MAX_FILENAME_LEN 0) str)), rs2))))"

section \<open>Reading\<close>

fun read_at_loop :: "nat \<Rightarrow> io_env \<Rightarrow> content \<Rightarrow> nat \<Rightarrow> nat \<Rightarrow> byte list
    \<Rightarrow> fault + (int \<times> byte list \<times> io_env)" where
  "read_at_loop 0 env f count off acc = Inl Out_of_fuel"
| "read_at_loop (Suc fuel) env f count off acc =
     (if length acc < count then
        (case sys_pread env f (count - length acc) (off + length acc) of
           (Inl e, env') \<Rightarrow> Inr (-1, acc, env')
         | (Inr bs, env') \<Rightarrow> read_at_loop fuel env' f count off (acc @ bs))
      else Inr (0, acc, env))"

definition read_at :: "nat \<Rightarrow> io_env \<Rightarrow> content \<Rightarrow> nat \<Rightarrow> nat \<Rightarrow> fault + (int \<times> byte list \<times> io_env)" where
  "read_at fuel env f count off = (case sys_pread env f count off of
     (Inl e, env') \<Rightarrow> Inr (-1, [], env')
   | (Inr bs, env') \<Rightarrow> read_at_loop fuel env' f count off bs)"

definition read_at_file :: "nat \<Rightarrow> io_env \<Rightarrow> fs \<Rightarrow> string \<Rightarrow> nat \<Rightarrow> nat
    \<Rightarrow> fault + (int \<times> byte list \<times> io_env)" where
  "read_at_file fuel env vol path count off = (case sys_open_ro env vol path of
     (Inl e, env') \<Rightarrow> Inr (int e, [], env')
   | (Inr f, env') \<Rightarrow> (case read_at fuel env' f count off of
        Inl flt \<Rightarrow> Inl flt
      | Inr (ret, bs, env'') \<Rightarrow> if ret < 0 then Inr (ret, bs, env'') else Inr (0, bs, env'')))"

text \<open>\<open>while (mmap_size < size) mmap_size += page_size\<close>: it never ends with a page size of 0.\<close>

function mmap_size_loop :: "nat \<Rightarrow> nat \<Rightarrow> nat \<Rightarrow> fault + nat" where
  "mmap_size_loop m page sz =
     (if m < sz then if page = 0 then Inl Out_of_fuel else mmap_size_loop (m + page) page sz
      else Inr m)"
  by pat_completeness auto
termination by (relation "measure (\<lambda>(m, page, sz). sz - m)") auto

declare mmap_size_loop.simps [simp del]

definition mmap_read_at :: "io_env \<Rightarrow> content \<Rightarrow> nat \<Rightarrow> nat \<Rightarrow> nat \<Rightarrow> fault + (int \<times> byte list \<times> io_env)" where
  "mmap_read_at env f count off page = (case mmap_size_loop page page (off + count) of
     Inl flt \<Rightarrow> Inl flt
   | Inr _ \<Rightarrow> (case sys_call env of
        (Some e, env') \<Rightarrow> Inr (-1, [], env')
      | (None, env') \<Rightarrow> (case map_load page f off count of
           Inl flt \<Rightarrow> Inl flt | Inr bs \<Rightarrow> Inr (0, bs, env'))))"

definition mmap_read_at_file :: "io_env \<Rightarrow> fs \<Rightarrow> string \<Rightarrow> nat \<Rightarrow> nat \<Rightarrow> nat
    \<Rightarrow> fault + (int \<times> byte list \<times> io_env)" where
  "mmap_read_at_file env vol path count off page = (case sys_open_ro env vol path of
     (Inl e, env') \<Rightarrow> Inr (int e, [], env')
   | (Inr f, env') \<Rightarrow> mmap_read_at env' f count off page)"

section \<open>Writing\<close>

function write_at_loop :: "io_env \<Rightarrow> content \<Rightarrow> byte list \<Rightarrow> nat \<Rightarrow> int \<times> content \<times> io_env" where
  "write_at_loop env f bs off =
     (if bs = [] then (0, f, env) else
      (case sys_pwrite env f bs off of
         (Inl e, f', env') \<Rightarrow> (-1, f', env')
       | (Inr n, f', env') \<Rightarrow> write_at_loop env' f' (drop n bs) (off + n)))"
  by pat_completeness auto
termination
  by (relation "measure (\<lambda>(env, f, bs, off). length bs)") (auto dest: sys_pwrite_progress)

declare write_at_loop.simps [simp del]

definition write_at :: "io_env \<Rightarrow> content \<Rightarrow> byte list \<Rightarrow> nat \<Rightarrow> int \<times> content \<times> io_env" where
  "write_at env f bs off = (case sys_pwrite env f bs off of
     (Inl e, f', env') \<Rightarrow> (-1, f', env')
   | (Inr n, f', env') \<Rightarrow> write_at_loop env' f' (drop n bs) (off + n))"

definition write_at_file :: "io_env \<Rightarrow> fs \<Rightarrow> string \<Rightarrow> byte list \<Rightarrow> nat \<Rightarrow> int \<times> fs \<times> io_env" where
  "write_at_file env vol path bs off = (case sys_open_creat env vol path of
     (Inl e, env') \<Rightarrow> (int e, vol, env')
   | (Inr f, env') \<Rightarrow> (case write_at env' f bs off of (ret, f', env'') \<Rightarrow>
        if ret < 0 then (ret, vol(path \<mapsto> f'), env'') else (0, vol(path \<mapsto> f'), env'')))"

definition mmap_write_at :: "io_env \<Rightarrow> content \<Rightarrow> byte list \<Rightarrow> nat \<Rightarrow> nat \<Rightarrow> fault + (int \<times> content \<times> io_env)" where
  "mmap_write_at env f bs off page = (case mmap_size_loop page page (off + length bs) of
     Inl flt \<Rightarrow> Inl flt
   | Inr _ \<Rightarrow> (case sys_call env of
        (Some e, env') \<Rightarrow> Inr (-1, f, env')
      | (None, env') \<Rightarrow> (case map_store page f off bs of
           Inl flt \<Rightarrow> Inl flt | Inr f' \<Rightarrow> Inr (0, f', env'))))"

definition mmap_write_at_file :: "io_env \<Rightarrow> fs \<Rightarrow> string \<Rightarrow> byte list \<Rightarrow> nat \<Rightarrow> nat
    \<Rightarrow> fault + (int \<times> fs \<times> io_env)" where
  "mmap_write_at_file env vol path bs off page = (case sys_open_creat env vol path of
     (Inl e, env') \<Rightarrow> Inr (int e, vol, env')
   | (Inr f, env') \<Rightarrow> (case mmap_write_at env' f bs off page of
        Inl flt \<Rightarrow> Inl flt
      | Inr (ret, f', env'') \<Rightarrow>
          if ret < 0 then Inr (ret, vol(path \<mapsto> f'), env'') else Inr (0, vol(path \<mapsto> f'), env'')))"

section \<open>Writing a unit of one character\<close>

definition MAX_WRITE_SIZE :: nat where
  "MAX_WRITE_SIZE = 32768"

text \<open>\<open>struct write_unit\<close> of \<open>file_ops.h\<close>; \<open>struct fh_write_unit\<close> of \<open>fill_holes.h\<close> has the
  same fields.\<close>

record write_unit =
  w_char :: byte
  w_offset :: nat
  w_len :: nat

definition do_write :: "io_env \<Rightarrow> content \<Rightarrow> write_unit \<Rightarrow> int \<Rightarrow> nat \<Rightarrow> fault + (int \<times> content \<times> io_env)" where
  "do_write env f wu write_method page =
     (if MAX_WRITE_SIZE < w_len wu then Inl Overrun else
      let buf = replicate (w_len wu) (w_char wu) in
      if write_method = 1 then mmap_write_at env f buf (w_offset wu) page
      else Inr (write_at env f buf (w_offset wu)))"

definition do_write_file :: "io_env \<Rightarrow> fs \<Rightarrow> string \<Rightarrow> write_unit \<Rightarrow> int \<Rightarrow> nat
    \<Rightarrow> fault + (int \<times> fs \<times> io_env)" where
  "do_write_file env vol path wu write_method page = (case sys_open_creat env vol path of
     (Inl e, env') \<Rightarrow> Inr (int e, vol, env')
   | (Inr f, env') \<Rightarrow> (case do_write env' f wu write_method page of
        Inl flt \<Rightarrow> Inl flt
      | Inr (ret, f', env'') \<Rightarrow> Inr (ret, vol(path \<mapsto> f'), env'')))"

text \<open>
  \<open>punch_hole\<close>: the \<open>OCFS2_IOC_UNRESVSP64\<close> ioctl is the file system's; what it does to the
  contents is the parameter \<open>unresv\<close>.
\<close>

definition punch_hole :: "(nat \<Rightarrow> nat \<Rightarrow> content \<Rightarrow> content) \<Rightarrow> io_env \<Rightarrow> content \<Rightarrow> write_unit
    \<Rightarrow> int \<times> content \<times> io_env" where
  "punch_hole unresv env f wu = (case sys_call env of
     (Some e, env') \<Rightarrow> (-1, f, env')
   | (None, env') \<Rightarrow> (0, unresv (w_offset wu) (w_len wu) f, env'))"

section \<open>Lemmas\<close>

lemma read_at_loop_ok:
  assumes "off + count \<le> length f" "acc = take (length acc) (drop off f)" "length acc \<le> count"
    and "count - length acc < fuel" "\<not> list_ex io_fails env"
  shows "\<exists>env'. read_at_loop fuel env f count off acc = Inr (0, take count (drop off f), env')"
  using assms(2-)
proof (induction fuel arbitrary: env acc)
  case (Suc fuel)
  show ?case
  proof (cases "length acc < count")
    case True
    obtain r env' where r: "sys_pread env f (count - length acc) (off + length acc) = (r, env')"
      by (cases "sys_pread env f (count - length acc) (off + length acc)")
    show ?thesis
    proof (cases r)
      case (Inl e)
      with r Suc.prems(4) show ?thesis by (auto dest!: sys_pread_InlD simp: io_fails_def)
    next
      case (Inr bs)
      note d = sys_pread_InrD [OF r [unfolded Inr]]
      have "acc @ bs = take (length acc) (drop off f) @ take (length bs) (drop (off + length acc) f)"
        using Suc.prems(1) d(1) by simp
      also have "\<dots> = take (length acc + length bs) (drop off f)" by (rule take_drop_split)
      finally have *: "acc @ bs = take (length (acc @ bs)) (drop off f)"
        unfolding length_append .
      have "0 < length bs" using d(4) assms(1) True by linarith
      then have "count - length (acc @ bs) < fuel" "length (acc @ bs) \<le> count"
        using Suc.prems(3) d(2) True unfolding length_append by linarith+
      moreover have "\<not> list_ex io_fails env'"
        using Suc.prems(4) sys_pread_env [OF r] by (cases env) auto
      ultimately show ?thesis using Suc.IH [OF *] True r Inr by simp
    qed
  next
    case False
    with Suc.prems(1,2) show ?thesis by simp
  qed
qed simp

lemma read_at_ok:
  assumes "off + count \<le> length f" "count < fuel" "\<not> list_ex io_fails env"
  shows "\<exists>env'. read_at fuel env f count off = Inr (0, take count (drop off f), env')"
proof (cases "sys_pread env f count off")
  case (Pair r env')
  have env': "\<not> list_ex io_fails env'"
    using assms(3) sys_pread_env [OF Pair] by (cases env) auto
  show ?thesis
  proof (cases r)
    case (Inl e)
    with Pair assms(3) show ?thesis by (auto dest!: sys_pread_InlD simp: io_fails_def)
  next
    case (Inr bs)
    note d = sys_pread_InrD [OF Pair [unfolded Inr]]
    have "count - length bs < fuel" using assms(2) by simp
    with read_at_loop_ok [OF assms(1) d(1,2) _ env'] Pair Inr show ?thesis
      by (simp add: read_at_def)
  qed
qed

lemma read_at_loop_eof:
  assumes "length f < off + count" "0 < count"
    and "off + length acc \<le> max off (length f)" "\<not> list_ex io_fails env"
  shows "read_at_loop fuel env f count off acc = Inl Out_of_fuel"
  using assms(3-)
proof (induction fuel arbitrary: env acc)
  case (Suc fuel)
  from assms(1,2) Suc.prems(1) have lt: "length acc < count" by (auto simp: max_def split: if_splits)
  obtain r env' where r: "sys_pread env f (count - length acc) (off + length acc) = (r, env')"
    by (cases "sys_pread env f (count - length acc) (off + length acc)")
  show ?case
  proof (cases r)
    case (Inl e)
    with r Suc.prems(2) show ?thesis by (auto dest!: sys_pread_InlD simp: io_fails_def)
  next
    case (Inr bs)
    have "off + length (acc @ bs) \<le> max off (length f)"
      using sys_pread_InrD(3) [OF r [unfolded Inr]] Suc.prems(1) by auto
    moreover have "\<not> list_ex io_fails env'"
      using Suc.prems(2) sys_pread_env [OF r] by (cases env) auto
    ultimately show ?thesis using Suc.IH lt r Inr by simp
  qed
qed simp

lemma write_at_loop_ok:
  assumes "\<not> list_ex io_fails env"
  shows "\<exists>env'. write_at_loop env f bs off = (0, file_write off bs f, env')"
  using assms
proof (induction env f bs off rule: write_at_loop.induct)
  case (1 env f bs off)
  show ?case
  proof (cases "bs = []")
    case False
    obtain r f' env' where r: "sys_pwrite env f bs off = (r, f', env')"
      by (cases "sys_pwrite env f bs off")
    show ?thesis
    proof (cases r)
      case (Inl e)
      with r "1.prems" show ?thesis by (auto dest!: sys_pwrite_InlD simp: io_fails_def)
    next
      case (Inr n)
      note d = sys_pwrite_InrD [OF r [unfolded Inr]]
      have "\<not> list_ex io_fails env'"
        using "1.prems" sys_pwrite_env [OF r] by (cases env) auto
      then obtain e where "write_at_loop env' f' (drop n bs) (off + n)
          = (0, file_write (off + n) (drop n bs) f', e)"
        using "1.IH" [OF False r [unfolded Inr, symmetric] refl] by auto
      moreover have "file_write (off + n) (drop n bs) f' = file_write off bs f"
        using file_write_append [of off "take n bs" "drop n bs" f] d(1,2) by (simp add: min_absorb2)
      ultimately show ?thesis using False r Inr by (simp add: write_at_loop.simps [of env f bs off])
    qed
  qed (simp add: write_at_loop.simps)
qed

lemma write_at_ok:
  assumes "\<not> list_ex io_fails env"
  shows "\<exists>env'. write_at env f bs off = (0, file_write off bs f, env')"
proof (cases "bs = []")
  case True
  with assms show ?thesis
    by (cases env) (auto simp: write_at_def sys_pwrite_def write_at_loop.simps io_fails_def
        split: io.splits)
next
  case False
  then have "write_at env f bs off = write_at_loop env f bs off"
    by (simp add: write_at_def write_at_loop.simps [of env f bs off])
  with write_at_loop_ok [OF assms] show ?thesis by simp
qed

lemma mmap_size_loop_ge: "mmap_size_loop m page sz = Inr k \<Longrightarrow> sz \<le> k"
proof (induction m page sz rule: mmap_size_loop.induct)
  case (1 m page sz)
  from "1.prems" "1.IH" show ?case
    by (subst (asm) mmap_size_loop.simps) (auto split: if_splits)
qed

lemma mmap_size_loop_ok: "0 < page \<Longrightarrow> \<exists>k. mmap_size_loop m page sz = Inr k"
proof (induction m page sz rule: mmap_size_loop.induct)
  case (1 m page sz)
  then show ?case by (simp add: mmap_size_loop.simps [of m page sz])
qed

lemma get_rand_range:
  assumes "mn \<le> mx" "mx < 2 ^ 64 - 1"
  shows "\<exists>v. get_rand mn mx r = Inr v \<and> mn \<le> v \<and> v \<le> mx"
proof (cases "mn = 0 \<and> mx = 0")
  case False
  have m: "u64 (sub64 mx mn + 1) = mx - mn + 1" using assms by (simp add: width)
  have "r mod (mx - mn + 1) < mx - mn + 1" by simp
  then have "mn + r mod (mx - mn + 1) \<le> mx" using assms(1) by linarith
  with False m assms show ?thesis by (simp add: get_rand_def width)
qed (simp add: get_rand_def)

lemma get_rand_char_ok: "\<exists>d < 26. get_rand_char r = Inr (65 + of_nat d)"
proof -
  obtain v where "get_rand 0 25 r = Inr v" "v \<le> 25" using get_rand_range [of 0 25 r] by auto
  then show ?thesis by (intro exI [of _ v]) (simp add: get_rand_char_def)
qed

lemma rand_nam_chars_ok:
  "n \<le> length rs \<Longrightarrow> \<exists>cs. rand_nam_chars n rs = Inr (cs, drop n rs) \<and> length cs = n \<and>
     list_all (\<lambda>c. \<exists>d < 26. c = 65 + of_nat d) cs"
proof (induction n rs rule: rand_nam_chars.induct)
  case (3 n r rs)
  obtain d where d: "d < 26" "get_rand_char r = Inr (65 + of_nat d)"
    using get_rand_char_ok by blast
  from 3 obtain cs where "rand_nam_chars n rs = Inr (cs, drop n rs)" "length cs = n"
    "list_all (\<lambda>c. \<exists>d < 26. c = 65 + of_nat d) cs" using d by auto
  with d show ?case by auto
qed auto

end
