(* ===== verification/Aio.thy ===== *)
theory Aio
  imports File_Ops
begin

text \<open>
  \<open>programs/libocfs2test/aio.c\<close>: the wrapper around the kernel's asynchronous I/O that the
  test programs use to write through \<open>io_submit\<close>. A context holds \<open>o2a_nr_events\<close> control
  blocks, filled in order; \<open>aio_queue\<close> is the kernel's side of the context, the requests
  submitted and not yet reaped. A request takes effect when \<open>o2test_aio_query\<close> reaps it. The
  result of a request (\<open>ev.res\<close>) is not looked at by the code and is dropped here as well.
\<close>

datatype aio_req = Aio_pwrite nat "byte list" | Aio_pread nat nat

record o2test_aio =
  o2a_ctx :: bool
  o2a_nr_events :: nat
  o2a_cr_event :: nat
  o2a_iocbs :: nat
  aio_queue :: "aio_req list"

definition o2test_aio_setup :: "io_env \<Rightarrow> nat \<Rightarrow> int \<times> o2test_aio \<times> io_env" where
  "o2test_aio_setup env nr_events = (case sys_call env of (err, env') \<Rightarrow>
     (case err of None \<Rightarrow> 0 | Some e \<Rightarrow> -1,
      \<lparr>o2a_ctx = (err = None), o2a_nr_events = nr_events, o2a_cr_event = 0,
       o2a_iocbs = nr_events, aio_queue = []\<rparr>, env'))"

text \<open>
  Both submitting functions read \<open>o2a_iocbs[o2a_cr_event]\<close> in an initialiser before they
  compare the index with \<open>o2a_nr_events\<close>, so with all control blocks used the read is past
  the end of the array.
\<close>

definition aio_submit :: "io_env \<Rightarrow> o2test_aio \<Rightarrow> aio_req \<Rightarrow> fault + (int \<times> o2test_aio \<times> io_env)" where
  "aio_submit env o2a req =
     (if o2a_iocbs o2a \<le> o2a_cr_event o2a then Inl Overrun
      else if o2a_nr_events o2a \<le> o2a_cr_event o2a then Inr (-1, o2a, env)
      else case sys_call env of
        (Some e, env') \<Rightarrow> Inr (-1, o2a\<lparr>o2a_cr_event := o2a_cr_event o2a + 1\<rparr>, env')
      | (None, env') \<Rightarrow> Inr (1, o2a\<lparr>o2a_cr_event := o2a_cr_event o2a + 1,
                                    aio_queue := aio_queue o2a @ [req]\<rparr>, env'))"

definition o2test_aio_pwrite :: "io_env \<Rightarrow> o2test_aio \<Rightarrow> byte list \<Rightarrow> nat
    \<Rightarrow> fault + (int \<times> o2test_aio \<times> io_env)" where
  "o2test_aio_pwrite env o2a buf off = aio_submit env o2a (Aio_pwrite off buf)"

definition o2test_aio_pread :: "io_env \<Rightarrow> o2test_aio \<Rightarrow> nat \<Rightarrow> nat
    \<Rightarrow> fault + (int \<times> o2test_aio \<times> io_env)" where
  "o2test_aio_pread env o2a count off = aio_submit env o2a (Aio_pread off count)"

text \<open>The kernel completing requests; a failed or short transfer is not an error of the reaping call.\<close>

fun aio_complete :: "io_env \<Rightarrow> content \<Rightarrow> aio_req list \<Rightarrow> content \<times> io_env" where
  "aio_complete env f [] = (f, env)"
| "aio_complete env f (Aio_pwrite off bs # reqs) =
     (case sys_pwrite env f bs off of (_, f', env') \<Rightarrow> aio_complete env' f' reqs)"
| "aio_complete env f (Aio_pread off n # reqs) =
     (case sys_pread env f n off of (_, env') \<Rightarrow> aio_complete env' f reqs)"

text \<open>
  \<open>o2test_aio_query\<close> passes one \<open>struct io_event\<close> whatever \<open>nr\<close> is, so reaping two or more
  events at once overruns it. With fewer requests than \<open>min_nr\<close> the call has no time-out and
  does not return.
\<close>

definition o2test_aio_query :: "io_env \<Rightarrow> o2test_aio \<Rightarrow> content \<Rightarrow> nat \<Rightarrow> nat
    \<Rightarrow> fault + (int \<times> o2test_aio \<times> content \<times> io_env)" where
  "o2test_aio_query env o2a f min_nr nr = (case sys_call env of
     (Some e, env') \<Rightarrow> Inr (if 0 < min_nr then -1 else 0, o2a, f, env')
   | (None, env') \<Rightarrow>
       let k = min nr (length (aio_queue o2a)) in
       if length (aio_queue o2a) < min_nr then Inl Out_of_fuel
       else if 1 < k then Inl Overrun
       else case aio_complete env' f (take k (aio_queue o2a)) of (f', env'') \<Rightarrow>
         Inr (if k < min_nr then -1 else int k, o2a\<lparr>aio_queue := drop k (aio_queue o2a)\<rparr>, f', env''))"

definition o2test_aio_destroy :: "io_env \<Rightarrow> o2test_aio \<Rightarrow> int \<times> o2test_aio \<times> io_env" where
  "o2test_aio_destroy env o2a = (case sys_call env of (err, env') \<Rightarrow>
     (case err of None \<Rightarrow> 0 | Some e \<Rightarrow> -1,
      o2a\<lparr>o2a_ctx := False, o2a_nr_events := 0, o2a_cr_event := 0, o2a_iocbs := 0\<rparr>, env'))"

section \<open>The sequence the programs use\<close>

text \<open>
  Set up one control block, submit one write, reap it, read the range back, compare, destroy.
  A mismatch between what was written and what is read back is printed and does not change
  the result.
\<close>

definition aio_write_back :: "io_env \<Rightarrow> content \<Rightarrow> byte list \<Rightarrow> nat \<Rightarrow> fault + (int \<times> content \<times> io_env)" where
  "aio_write_back env f buf off = (case o2test_aio_setup env 1 of (ret, o2a, env1) \<Rightarrow>
     if ret < 0 then Inr (ret, f, env1) else
     case o2test_aio_pwrite env1 o2a buf off of Inl flt \<Rightarrow> Inl flt | Inr (ret, o2a, env2) \<Rightarrow>
     if ret < 0 then Inr (ret, f, env2) else
     case o2test_aio_query env2 o2a f 1 1 of Inl flt \<Rightarrow> Inl flt | Inr (ret, o2a, f', env3) \<Rightarrow>
     if ret < 0 then Inr (ret, f', env3) else
     case sys_pread env3 f' (length buf) off of
       (Inl e, env4) \<Rightarrow> Inr (-1, f', env4)
     | (Inr buf_cmp, env4) \<Rightarrow>
         (case o2test_aio_destroy env4 o2a of (ret, _, env5) \<Rightarrow> Inr (ret, f', env5)))"

definition aio_wf :: "o2test_aio \<Rightarrow> bool" where
  "aio_wf o2a \<longleftrightarrow> o2a_iocbs o2a = o2a_nr_events o2a \<and> length (aio_queue o2a) \<le> o2a_cr_event o2a
     \<and> o2a_cr_event o2a \<le> o2a_nr_events o2a"

lemma aio_setup_wf: "o2test_aio_setup env n = (ret, o2a, env') \<Longrightarrow> aio_wf o2a"
  by (auto simp: o2test_aio_setup_def aio_wf_def split: prod.splits)

lemma aio_submit_wf:
  "aio_wf o2a \<Longrightarrow> aio_submit env o2a req = Inr (ret, o2a', env') \<Longrightarrow> aio_wf o2a'"
  by (auto simp: aio_submit_def aio_wf_def split: prod.splits option.splits if_splits)

lemma aio_query_wf:
  "aio_wf o2a \<Longrightarrow> o2test_aio_query env o2a f m n = Inr (ret, o2a', f', env') \<Longrightarrow> aio_wf o2a'"
  by (auto simp: o2test_aio_query_def aio_wf_def Let_def split: prod.splits option.splits if_splits)

lemma aio_write_back_Nil: "aio_write_back [] f buf off = Inr (0, file_write off buf f, [])"
  by (simp add: aio_write_back_def o2test_aio_setup_def o2test_aio_pwrite_def aio_submit_def
      o2test_aio_query_def o2test_aio_destroy_def Let_def)

end
