(* ===== verification/Fill_Holes.thy ===== *)
theory Fill_Holes
  imports Aio
begin

unbundle bit_operations_syntax

text \<open>
  \<open>programs/fill_verify_holes/fill_holes.c\<close>: it creates a file of a given size, then writes
  runs of one character at random places (or at the places a replay log names), and logs
  every write before it makes it. The options are a record (\<open>fh_opts\<close>, the command line
  globals); the state (\<open>fh_state\<close>) holds the per-chunk counters, the file, the log written so
  far, the replay log being read, the results of \<open>rand()\<close> still to come, and the kernel's
  decisions. \<open>main\<close> is \<open>fh_main\<close>; its exit status is the result.

  The theorems here: alignment is rounding up, every generated write lies inside the file and
  is between 1 and 32768 bytes long, a record of the log is read back as it was written, and
  the file a run leaves is the replay of the log it leaves.
\<close>

section \<open>Constants and alignment\<close>

definition ONE_MEGA_BYTE :: nat where
  "ONE_MEGA_BYTE = 1024 * 1024"

definition TWO_GIGA_BYTE :: nat where
  "TWO_GIGA_BYTE = 2147483648"

definition RAND_CHAR_START :: byte where
  "RAND_CHAR_START = 65"

definition MAGIC_HOLE_CHAR :: byte where
  "MAGIC_HOLE_CHAR = RAND_CHAR_START - 1"

definition ALIGN :: "nat \<Rightarrow> nat \<Rightarrow> nat" where
  "ALIGN x a = unat ((of_nat x + of_nat a - 1 :: 64 word) AND NOT (of_nat a - 1))"

section \<open>Options\<close>

record fh_opts =
  max_iter :: nat
  file_size :: nat
  flush_output :: bool
  create_unwritten :: bool
  enable_aio :: bool
  use_mmap :: bool
  use_dio :: bool
  is_bdev :: bool
  fname :: string
  logname :: "string option"
  replaylogname :: "string option"

definition fh_defaults :: fh_opts where
  "fh_defaults = \<lparr>max_iter = 1000, file_size = 0, flush_output = False, create_unwritten = False,
     enable_aio = False, use_mmap = False, use_dio = False, is_bdev = False, fname = [],
     logname = None, replaylogname = None\<rparr>"

text \<open>One round of the \<open>getopt\<close> loop; the flag is \<open>iter_specified\<close>. \<open>None\<close> is the \<open>default\<close> label.\<close>

definition fh_opt_step :: "char \<times> string \<Rightarrow> fh_opts \<times> bool \<Rightarrow> (fh_opts \<times> bool) option" where
  "fh_opt_step co st = (case co of (c, optarg) \<Rightarrow> (case st of (opt, iter_specified) \<Rightarrow>
     if c = CHR ''u'' then Some (opt\<lparr>create_unwritten := True\<rparr>, iter_specified)
     else if c = CHR ''a'' then Some (opt\<lparr>enable_aio := True\<rparr>, iter_specified)
     else if c = CHR ''b'' then Some (opt\<lparr>is_bdev := True\<rparr>, iter_specified)
     else if c = CHR ''m'' then Some (opt\<lparr>use_mmap := True\<rparr>, iter_specified)
     else if c = CHR ''d'' then Some (opt\<lparr>use_dio := True\<rparr>, iter_specified)
     else if c = CHR ''f'' then Some (opt\<lparr>flush_output := True\<rparr>, iter_specified)
     else if c = CHR ''i'' then Some (opt\<lparr>max_iter := nat (c_atoi optarg mod 2 ^ 32)\<rparr>, True)
     else if c = CHR ''o'' then Some (opt\<lparr>logname := Some optarg\<rparr>, iter_specified)
     else if c = CHR ''r'' then
       Some (opt\<lparr>replaylogname := Some optarg,
                 max_iter := (if iter_specified then max_iter opt else 2 ^ 32 - 1)\<rparr>, iter_specified)
     else None))"

fun fh_opt_loop :: "(char \<times> string) list \<Rightarrow> fh_opts \<times> bool \<Rightarrow> (fh_opts \<times> bool) option" where
  "fh_opt_loop [] st = Some st"
| "fh_opt_loop (co # cos) st = (case fh_opt_step co st of None \<Rightarrow> None | Some st' \<Rightarrow> fh_opt_loop cos st')"

text \<open>
  \<open>fh_parse_opts\<close>: the options \<open>getopt\<close> returned and the remaining arguments. \<open>dev_size\<close> is the
  size \<open>fh_get_device_size\<close> finds for a block device (\<open>None\<close> when the ioctl fails).
  \<open>None\<close> is the return of \<open>EINVAL\<close>.
\<close>

definition fh_parse_opts :: "(string \<Rightarrow> nat option) \<Rightarrow> (char \<times> string) list \<Rightarrow> string list \<Rightarrow> fh_opts option" where
  "fh_parse_opts dev_size cos args = (case fh_opt_loop cos (fh_defaults, False) of
     None \<Rightarrow> None
   | Some (opt, _) \<Rightarrow>
     if length args \<noteq> (if is_bdev opt then 1 else 2) then None else
     let opt = opt\<lparr>fname := args ! 0\<rparr> in
     (case (if is_bdev opt then dev_size (fname opt)
            else let n = strtoull0 (args ! 1) in Some (if use_dio opt then ALIGN n ONE_MEGA_BYTE else n))
      of None \<Rightarrow> None
       | Some n \<Rightarrow>
          if use_mmap opt \<and> (n > TWO_GIGA_BYTE \<or> is_bdev opt) then None
          else Some (opt\<lparr>file_size := n\<rparr>)))"

section \<open>State\<close>

record fh_state =
  max_iter_per_chunk :: nat
  cur_iter_per_chunk :: nat
  cur_iter_offset :: nat
  fh_file :: content
  fh_log :: string
  fh_replay :: "stream option"
  fh_rng :: "nat list"
  fh_env :: io_env

definition fh_replay_eof :: "fh_state \<Rightarrow> bool" where
  "fh_replay_eof s = (case fh_replay s of None \<Rightarrow> False | Some st \<Rightarrow> st_eof st)"

section \<open>The log\<close>

text \<open>\<open>%c\t%lu\t%u\n\<close>, written and scanned.\<close>

definition show_unit :: "write_unit \<Rightarrow> string" where
  "show_unit wu = [char_of_byte (w_char wu), CHR 0x09] @ show_dec (w_offset wu) @ [CHR 0x09]
     @ show_dec (w_len wu) @ [CHR 0x0A]"

definition fh_log_write :: "fh_state \<Rightarrow> write_unit \<Rightarrow> fh_state" where
  "fh_log_write s wu = s\<lparr>fh_log := fh_log s @ show_unit wu\<rparr>"

text \<open>The result of \<open>fscanf\<close> (\<open>-1\<close> is \<open>EOF\<close>), the unit when all three conversions were made, the stream.\<close>

definition scan_unit :: "stream \<Rightarrow> int \<times> write_unit option \<times> stream" where
  "scan_unit s = (case scan_char s of
     (Scan_ok c, s1) \<Rightarrow> (case scan_ulong (skip_ws s1) of
        (Scan_ok off, s2) \<Rightarrow> (case scan_uint (skip_ws s2) of
           (Scan_ok len, s3) \<Rightarrow>
             (3, Some \<lparr>w_char = byte_of_char c, w_offset = off, w_len = len\<rparr>, skip_ws s3)
         | (_, s3) \<Rightarrow> (2, None, s3))
      | (_, s2) \<Rightarrow> (1, None, s2))
   | (_, s1) \<Rightarrow> (-1, None, s1))"

lemma scan_unit_length:
  assumes "scan_unit s = (ret, Some wu, s')"
  shows "length (st_rest s') < length (st_rest s)"
proof -
  obtain c s1 off s2 len s3 where st: "scan_char s = (Scan_ok c, s1)"
    "scan_ulong (skip_ws s1) = (Scan_ok off, s2)" "scan_uint (skip_ws s2) = (Scan_ok len, s3)"
    "s' = skip_ws s3"
    using assms by (auto simp: scan_unit_def split: prod.splits scan.splits)
  show ?thesis
    using scan_char_length [OF st(1)] scan_ulong_length [OF st(2)] scan_uint_length [OF st(3)] st(4)
      skip_ws_length [of s1] skip_ws_length [of s2] skip_ws_length [of s3] by simp
qed

section \<open>Preparing a write\<close>

text \<open>\<open>fh_get_rand\<close> with the supply of \<open>rand()\<close> results; nothing is drawn when both bounds are 0.\<close>

definition fh_get_rand :: "nat \<Rightarrow> nat \<Rightarrow> nat list \<Rightarrow> fault + (nat \<times> nat list)" where
  "fh_get_rand mn mx rs = (if mn = 0 \<and> mx = 0 then Inr (0, rs) else
     case rs of [] \<Rightarrow> Inl Out_of_rand
     | r # rs' \<Rightarrow> if mx = 0 then Inl Div_zero else Inr (u64 (mn + sub64 (r mod mx) mn), rs'))"

lemma fh_get_rand_shorter:
  "fh_get_rand mn mx rs = Inr (v, rs') \<Longrightarrow> length rs' \<le> length rs"
  "fh_get_rand (Suc mn) mx rs = Inr (v, rs') \<Longrightarrow> length rs' < length rs"
  by (auto simp: fh_get_rand_def split: if_splits list.splits)

text \<open>
  The part of \<open>fh_prep_rand_write_unit\<close> between the label \<open>again\<close> and the assertions:
  \<open>fh_clip\<close> turns the two random values into an offset and a length cut at the end of the file.
\<close>

definition fh_clip :: "fh_opts \<Rightarrow> nat \<Rightarrow> nat \<Rightarrow> nat \<Rightarrow> nat \<times> nat" where
  "fh_clip opt cur_off o1 l1 =
     (let off = u64 ((if use_dio opt then ALIGN o1 512 else o1) + cur_off);
          len = (if use_dio opt then u32 (ALIGN (u32 l1) 512) else u32 l1) in
      (off, if file_size opt < u64 (off + len) then u32 (sub64 (file_size opt) off) else len))"

function fh_again :: "fh_opts \<Rightarrow> nat \<Rightarrow> nat \<Rightarrow> nat list \<Rightarrow> fault + (nat \<times> nat \<times> nat list)" where
  "fh_again opt max_range cur_off rs = (case fh_get_rand 0 max_range rs of
     Inl e \<Rightarrow> Inl e
   | Inr (o1, rs1) \<Rightarrow>
     (case fh_get_rand (Suc 0) MAX_WRITE_SIZE rs1 of
        Inl e \<Rightarrow> Inl e
      | Inr (l1, rs2) \<Rightarrow>
        (case fh_clip opt cur_off o1 l1 of (off, len) \<Rightarrow>
           if len = 0 \<or> (use_dio opt \<and> len < 512) then fh_again opt max_range cur_off rs2
           else Inr (off, len, rs2))))"
  by pat_completeness auto
termination
proof (relation "measure (\<lambda>(opt, m, c, rs). length rs)", goal_cases)
  case (2 opt m c rs p o1 rs1 q l1 rs2 off len)
  then have "length rs2 < length rs1" "length rs1 \<le> length rs"
    using fh_get_rand_shorter by blast+
  then show ?case by simp
qed simp

declare fh_again.simps [simp del]

definition fh_prep_rand_write_unit :: "fh_opts \<Rightarrow> fh_state \<Rightarrow> fault + (write_unit \<times> fh_state)" where
  "fh_prep_rand_write_unit opt s =
     (case (if max_iter_per_chunk s \<noteq> 0 then
              Inr (TWO_GIGA_BYTE - 1,
                   if cur_iter_per_chunk s = max_iter_per_chunk s
                   then s\<lparr>cur_iter_offset := u64 (cur_iter_offset s + TWO_GIGA_BYTE), cur_iter_per_chunk := 0\<rparr>
                   else s\<lparr>cur_iter_per_chunk := u32 (cur_iter_per_chunk s + 1)\<rparr>)
            else if TWO_GIGA_BYTE < file_size opt then Inl Assertion
            else Inr (u32 (sub64 (file_size opt) 1), s)) of
        Inl e \<Rightarrow> Inl e
      | Inr (max_range, s1) \<Rightarrow>
        (case fh_get_rand 0 52 (fh_rng s1) of
           Inl e \<Rightarrow> Inl e
         | Inr (c, rs) \<Rightarrow>
           (case fh_again opt max_range (cur_iter_offset s1) rs of
              Inl e \<Rightarrow> Inl e
            | Inr (off, len, rs') \<Rightarrow>
              let wu = \<lparr>w_char = RAND_CHAR_START + of_nat c, w_offset = off, w_len = len\<rparr> in
              if sint RAND_CHAR_START \<le> sint (w_char wu) \<and> sint (w_char wu) \<le> 122
                 \<and> len \<le> MAX_WRITE_SIZE \<and> 0 < len
              then Inr (wu, s1\<lparr>fh_rng := rs'\<rparr>) else Inl Assertion)))"

text \<open>\<open>Inr (None, _)\<close> is the return of \<open>-EINVAL\<close>: the replay log could not be scanned.\<close>

definition fh_prep_write_unit :: "fh_opts \<Rightarrow> fh_state \<Rightarrow> fault + (write_unit option \<times> fh_state)" where
  "fh_prep_write_unit opt s = (case fh_replay s of
     None \<Rightarrow> (case fh_prep_rand_write_unit opt s of
        Inl e \<Rightarrow> Inl e | Inr (wu, s') \<Rightarrow> Inr (Some wu, s'))
   | Some st \<Rightarrow> (case scan_unit st of (ret, wu, st') \<Rightarrow>
        Inr (if ret = 3 then wu else None, s\<lparr>fh_replay := Some st'\<rparr>)))"

section \<open>Making a write\<close>

text \<open>
  \<open>fh_do_write\<close>. A mapped store outside the mapping of \<open>file_size\<close> bytes, and a unit longer
  than the buffer of \<open>MAX_WRITE_SIZE\<close> bytes, are overruns.
\<close>

definition fh_do_write :: "fh_opts \<Rightarrow> fh_state \<Rightarrow> write_unit \<Rightarrow> fault + (int \<times> fh_state)" where
  "fh_do_write opt s wu = (let bs = replicate (w_len wu) (w_char wu) in
     if use_mmap opt then
       if length (fh_file s) < w_offset wu + w_len wu then Inl Overrun
       else Inr (0, s\<lparr>fh_file := file_write (w_offset wu) bs (fh_file s)\<rparr>)
     else if MAX_WRITE_SIZE < w_len wu then Inl Overrun
     else if enable_aio opt then
       (case sys_call (fh_env s) of
          (Some e, env) \<Rightarrow> Inr (int e, s\<lparr>fh_env := env\<rparr>)
        | (None, env) \<Rightarrow> (case aio_write_back env (fh_file s) bs (w_offset wu) of
             Inl e \<Rightarrow> Inl e
           | Inr (ret, f, env') \<Rightarrow> Inr (ret, s\<lparr>fh_file := f, fh_env := env'\<rparr>)))
     else case sys_pwrite (fh_env s) (fh_file s) bs (w_offset wu) of
         (Inl e, f, env) \<Rightarrow> Inr (-1, s\<lparr>fh_file := f, fh_env := env\<rparr>)
       | (Inr n, f, env) \<Rightarrow> Inr (0, s\<lparr>fh_file := f, fh_env := env\<rparr>))"

section \<open>Preparing the file and the main loop\<close>

text \<open>
  \<open>fh_resv_unwritten\<close> asks ocfs2 to reserve unwritten extents; \<open>resv\<close> is what that does to the
  contents. The result of \<open>fh_prep_file\<close> is \<open>None\<close> for \<open>-1\<close>.
\<close>

definition fh_prep_file :: "(nat \<Rightarrow> nat \<Rightarrow> content \<Rightarrow> content) \<Rightarrow> fh_opts \<Rightarrow> io_env \<Rightarrow> content
    \<Rightarrow> content option \<times> io_env" where
  "fh_prep_file resv opt env dev = (case sys_call env of
     (Some e, env1) \<Rightarrow> (None, env1)
   | (None, env1) \<Rightarrow>
     let f0 = (if is_bdev opt then dev else []) in
     (case (if create_unwritten opt
            then (case sys_call env1 of (Some e, env2) \<Rightarrow> (None, env2)
                  | (None, env2) \<Rightarrow> (Some (resv 0 (file_size opt) f0), env2))
            else (Some f0, env1)) of
        (None, env2) \<Rightarrow> (None, env2)
      | (Some f1, env2) \<Rightarrow>
        (case (if is_bdev opt then (None, f1, env2) else sys_ftruncate env2 f1 (file_size opt)) of
           (Some e, f2, env3) \<Rightarrow> (None, env3)
         | (None, f2, env3) \<Rightarrow>
           if use_mmap opt then
             (case sys_call env3 of (Some e, env4) \<Rightarrow> (None, env4) | (None, env4) \<Rightarrow> (Some f2, env4))
           else (Some f2, env3))))"

text \<open>The \<open>for\<close> loop of \<open>main\<close>; the first argument is \<open>max_iter - i\<close>.\<close>

fun fh_loop :: "nat \<Rightarrow> fh_opts \<Rightarrow> fh_state \<Rightarrow> fault + (int \<times> fh_state)" where
  "fh_loop 0 opt s = Inr (0, s)"
| "fh_loop (Suc n) opt s =
     (if fh_replay_eof s then Inr (0, s) else
      case fh_prep_write_unit opt s of
        Inl e \<Rightarrow> Inl e
      | Inr (None, s1) \<Rightarrow> Inr (1, s1)
      | Inr (Some wu, s1) \<Rightarrow>
        (case fh_do_write opt (fh_log_write s1 wu) wu of
           Inl e \<Rightarrow> Inl e
         | Inr (ret, s2) \<Rightarrow> if ret \<noteq> 0 then Inr (1, s2) else fh_loop n opt s2))"

text \<open>
  \<open>main\<close> after option parsing: the exit status, the file and the log. \<open>replay\<close> is the text of
  the replay log, \<open>None\<close> when it cannot be opened; \<open>rng\<close> the results of \<open>rand()\<close>. When the
  buffer cannot be allocated the program exits with status 0.
\<close>

definition fh_start :: "fh_opts \<Rightarrow> content \<Rightarrow> stream option \<Rightarrow> nat list \<Rightarrow> io_env \<Rightarrow> fh_opts \<times> fh_state" where
  "fh_start opt f rpl rng env =
     (let num_chunks = file_size opt div TWO_GIGA_BYTE; big = TWO_GIGA_BYTE < file_size opt in
      (if big then opt\<lparr>file_size := num_chunks * TWO_GIGA_BYTE\<rparr> else opt,
       \<lparr>max_iter_per_chunk = (if big then u32 (max_iter opt div num_chunks) else 0),
        cur_iter_per_chunk = 0, cur_iter_offset = 0, fh_file = f, fh_log = [],
        fh_replay = rpl, fh_rng = rng, fh_env = env\<rparr>))"

definition fh_main :: "(nat \<Rightarrow> nat \<Rightarrow> content \<Rightarrow> content) \<Rightarrow> fh_opts \<Rightarrow> (string \<Rightarrow> string option)
    \<Rightarrow> nat list \<Rightarrow> io_env \<Rightarrow> content \<Rightarrow> fault + (int \<times> content \<times> string)" where
  "fh_main resv opt replay rng env dev = (case sys_call env of
     (Some e, env0) \<Rightarrow> Inr (0, dev, [])
   | (None, env0) \<Rightarrow>
  (case fh_prep_file resv opt env0 dev of
     (None, env1) \<Rightarrow> Inr (1, dev, [])
   | (Some f, env1) \<Rightarrow>
     (case (if logname opt = None then (None, env1) else sys_call env1) of
        (Some e, env2) \<Rightarrow> Inr (1, f, [])
      | (None, env2) \<Rightarrow>
        (case (case replaylogname opt of
                 None \<Rightarrow> Some None
               | Some nm \<Rightarrow> map_option (\<lambda>t. Some (stream_open t)) (replay nm)) of
           None \<Rightarrow> Inr (1, f, [])
         | Some rpl \<Rightarrow>
           (case fh_start opt f rpl rng env2 of (opt', s) \<Rightarrow>
           (case fh_loop (max_iter opt) opt' s of
              Inl e \<Rightarrow> Inl e
            | Inr (ret, s') \<Rightarrow> Inr (ret, fh_file s', fh_log s')))))))"

section \<open>Alignment\<close>

lemma and_not_mask_div:
  fixes w :: "64 word"
  shows "unat (w AND NOT (mask k)) = unat w div 2 ^ k * 2 ^ k"
proof -
  have "w AND NOT (mask k) = push_bit k (drop_bit k w)"
    by (rule bit_word_eqI) (auto simp: bit_simps)
  also have "\<dots> = w - take_bit k w"
    using bits_ident [of k w] by (metis add_diff_cancel_right')
  finally have "w AND NOT (mask k) = w - take_bit k w" .
  moreover have "unat (take_bit k w) = unat w mod 2 ^ k"
    by (metis unsigned_take_bit_eq take_bit_eq_mod)
  moreover have "take_bit k w \<le> w"
    using calculation(2) by (simp add: word_le_nat_alt)
  ultimately have "unat (w AND NOT (mask k)) = unat w - unat w mod 2 ^ k"
    by (simp add: unat_sub)
  then show ?thesis by (simp add: minus_mod_eq_div_mult)
qed

lemma ALIGN_eq: "ALIGN x (2 ^ k) = u64 (x + 2 ^ k - 1) div 2 ^ k * 2 ^ k"
proof -
  have "(of_nat x + of_nat (2 ^ k) - 1 :: 64 word) = of_nat (x + 2 ^ k - 1)"
    by (simp add: of_nat_diff Suc_le_eq)
  moreover have "(of_nat (2 ^ k) - 1 :: 64 word) = mask k"
    by (simp add: mask_eq_exp_minus_1)
  ultimately show ?thesis
    by (simp only: ALIGN_def and_not_mask_div) (simp add: unat_of_nat u64_def)
qed

lemma ALIGN_512:
  assumes "x + 511 < 2 ^ 64"
  shows "x \<le> ALIGN x 512" "ALIGN x 512 < x + 512" "512 dvd ALIGN x 512"
proof -
  have eq: "ALIGN x 512 = (x + 511) div 512 * 512"
    using ALIGN_eq [of x 9] assms by (simp add: width)
  show "x \<le> ALIGN x 512" "ALIGN x 512 < x + 512" unfolding eq by linarith+
  show "512 dvd ALIGN x 512" unfolding eq by simp
qed

section \<open>Generated writes lie inside the file\<close>

lemma u64_add_sub64: "v < 2 ^ 64 \<Longrightarrow> m < 2 ^ 64 \<Longrightarrow> u64 (m + sub64 v m) = v"
proof -
  assume "v < 2 ^ 64" "m < 2 ^ 64"
  then have "m + (v + 2 ^ 64 - m) = v + 2 ^ 64" by simp
  then have "(m + (v + 2 ^ 64 - m)) mod 2 ^ 64 = v mod 2 ^ 64" by (simp only: mod_add_self2)
  with \<open>v < 2 ^ 64\<close> show ?thesis by (simp add: u64_def sub64_def mod_simps)
qed

text \<open>The lower bound has no influence: the value drawn is \<open>rand() % max\<close>.\<close>

lemma fh_get_rand_value:
  assumes "fh_get_rand mn mx rs = Inr (v, rs')" "mn < 2 ^ 64" "mx < 2 ^ 64"
  shows "v < max 1 mx"
proof (cases "mn = 0 \<and> mx = 0")
  case False
  with assms obtain r where r: "rs = r # rs'" "0 < mx" "v = u64 (mn + sub64 (r mod mx) mn)"
    by (auto simp: fh_get_rand_def split: if_splits list.splits)
  then have "r mod mx < mx" by simp
  with r assms have "v = r mod mx" by (simp add: u64_add_sub64)
  with \<open>r mod mx < mx\<close> show ?thesis by simp
qed (use assms in \<open>simp add: fh_get_rand_def\<close>)

lemma fh_clip_bounds:
  assumes "fh_clip opt cur_off o1 l1 = (off, len)" "len \<noteq> 0" "l1 < MAX_WRITE_SIZE"
    and "file_size opt < 2 ^ 62" "(if use_dio opt then ALIGN o1 512 else o1) + cur_off \<le> file_size opt"
  shows "len \<le> MAX_WRITE_SIZE" "off + len \<le> file_size opt"
    "off = (if use_dio opt then ALIGN o1 512 else o1) + cur_off"
proof -
  define l2 where "l2 = (if use_dio opt then u32 (ALIGN (u32 l1) 512) else u32 l1)"
  have off: "off = (if use_dio opt then ALIGN o1 512 else o1) + cur_off"
    using assms(1,4,5) unfolding fh_clip_def Let_def by (auto simp: width)
  then show "off = (if use_dio opt then ALIGN o1 512 else o1) + cur_off" .
  have le: "off \<le> file_size opt" using off assms(5) by simp
  have l2: "l2 \<le> MAX_WRITE_SIZE"
  proof (cases "use_dio opt")
    case True
    have "ALIGN l1 512 = (l1 + 511) div 512 * 512"
      using ALIGN_eq [of l1 9] assms(3) by (simp add: width MAX_WRITE_SIZE_def)
    also have "\<dots> \<le> 64 * 512"
      using assms(3) unfolding MAX_WRITE_SIZE_def by (intro mult_right_mono) auto
    finally show ?thesis using True assms(3) by (simp add: l2_def width MAX_WRITE_SIZE_def)
  qed (use assms(3) in \<open>simp add: l2_def width MAX_WRITE_SIZE_def\<close>)
  have len: "len = (if file_size opt < off + l2 then u32 (file_size opt - off) else l2)"
    using assms(1) off le l2 assms(4) unfolding fh_clip_def Let_def l2_def [symmetric]
    by (auto simp: width MAX_WRITE_SIZE_def)
  show "len \<le> MAX_WRITE_SIZE" "off + len \<le> file_size opt"
    using len l2 le u32_le [of "file_size opt - off"] by (auto split: if_splits)
qed

lemma ALIGN_512_mono_bound:
  assumes "o1 < m" "m < 2 ^ 62"
  shows "ALIGN o1 512 \<le> ALIGN m 512"
  using assms ALIGN_eq [of o1 9] ALIGN_eq [of m 9]
  by (simp add: width div_le_mono)

text \<open>
  \<open>max_range\<close> values from the current chunk fit into the file, also once they are rounded up
  for direct I/O.
\<close>

definition fh_range_ok :: "fh_opts \<Rightarrow> nat \<Rightarrow> nat \<Rightarrow> bool" where
  "fh_range_ok opt max_range cur_off \<longleftrightarrow> file_size opt < 2 ^ 62 \<and> max 1 max_range + cur_off \<le> file_size opt
     \<and> (use_dio opt \<longrightarrow> ALIGN (max 1 max_range) 512 + cur_off \<le> file_size opt)"

lemma fh_again_bounds:
  assumes "fh_again opt max_range cur_off rs = Inr (off, len, rs')" "fh_range_ok opt max_range cur_off"
  shows "0 < len \<and> len \<le> MAX_WRITE_SIZE \<and> off + len \<le> file_size opt"
  using assms
proof (induction opt max_range cur_off rs rule: fh_again.induct)
  case (1 opt max_range cur_off rs)
  obtain o1 rs1 l1 rs2 where d: "fh_get_rand 0 max_range rs = Inr (o1, rs1)"
    "fh_get_rand (Suc 0) MAX_WRITE_SIZE rs1 = Inr (l1, rs2)"
    using "1.prems"(1) by (subst (asm) fh_again.simps) (auto split: sum.splits prod.splits)
  obtain off' len' where c: "fh_clip opt cur_off o1 l1 = (off', len')" by fastforce
  have eq: "fh_again opt max_range cur_off rs = (if len' = 0 \<or> (use_dio opt \<and> len' < 512)
      then fh_again opt max_range cur_off rs2 else Inr (off', len', rs2))"
    by (subst fh_again.simps) (simp add: d c)
  have r: "file_size opt < 2 ^ 62" "max 1 max_range + cur_off \<le> file_size opt"
    "use_dio opt \<Longrightarrow> ALIGN (max 1 max_range) 512 + cur_off \<le> file_size opt"
    using "1.prems"(2) by (auto simp: fh_range_ok_def)
  have o1: "o1 < max 1 max_range" using fh_get_rand_value [OF d(1)] r(1,2) by simp
  have l1: "l1 < MAX_WRITE_SIZE" using fh_get_rand_value [OF d(2)] by (simp add: MAX_WRITE_SIZE_def)
  show ?case
  proof (cases "len' = 0 \<or> (use_dio opt \<and> len' < 512)")
    case True
    with eq "1.prems" show ?thesis
      using "1.IH" [OF d(1) refl d(2) refl c [symmetric] True] by simp
  next
    case False
    have "max 1 max_range < 2 ^ 62" using r(1,2) by linarith
    then have "(if use_dio opt then ALIGN o1 512 else o1) + cur_off \<le> file_size opt"
      using ALIGN_512_mono_bound [OF o1] r o1 by auto
    with fh_clip_bounds [OF c _ l1 r(1)] False eq "1.prems"(1) show ?thesis by auto
  qed
qed

section \<open>Records of the log\<close>

definition wf_unit :: "write_unit \<Rightarrow> bool" where
  "wf_unit wu \<longleftrightarrow> \<not> c_isspace (char_of_byte (w_char wu)) \<and> w_offset wu < 2 ^ 64 \<and> w_len wu < 2 ^ 32"

definition scan_unit_rec :: "stream \<Rightarrow> write_unit option \<times> stream" where
  "scan_unit_rec s = (case scan_unit s of (_, wu, s') \<Rightarrow> (wu, s'))"

definition no_space_first :: "string \<Rightarrow> bool" where
  "no_space_first t \<longleftrightarrow> t = [] \<or> \<not> c_isspace (hd t)"

lemma scan_unit_show:
  assumes "wf_unit wu" "no_space_first rest"
  shows "scan_unit \<lparr>st_rest = show_unit wu @ rest, st_eof = False\<rparr>
       = (3, Some wu, \<lparr>st_rest = rest, st_eof = (rest = [])\<rparr>)"
proof -
  let ?t3 = "CHR 0x0A # rest" and ?o = "show_dec (w_offset wu)" and ?l = "show_dec (w_len wu)"
  let ?t2 = "CHR 0x09 # ?l @ ?t3"
  have sp: "c_isspace CHR 0x09" "c_isspace CHR 0x0A" by (simp_all add: c_isspace_def)
  have nd: "\<not> c_isdigit CHR 0x09" "\<not> c_isdigit CHR 0x0A" by (simp_all add: c_isdigit_def)
  have hd1: "\<not> c_isspace (hd (show_dec n @ t))" for n t
    using show_dec_hd [of n] digit_not_space by auto
  have "skip_ws \<lparr>st_rest = CHR 0x09 # ?o @ ?t2, st_eof = False\<rparr> = \<lparr>st_rest = ?o @ ?t2, st_eof = False\<rparr>"
    using skip_ws_Cons_space [OF sp(1), of "?o @ ?t2" False] hd1 by simp
  moreover have "scan_ulong \<lparr>st_rest = ?o @ ?t2, st_eof = False\<rparr>
      = (Scan_ok (w_offset wu), \<lparr>st_rest = ?t2, st_eof = False\<rparr>)"
    using scan_ulong_show_dec [of "w_offset wu" ?t2 False] assms(1) nd by (simp add: wf_unit_def)
  moreover have "skip_ws \<lparr>st_rest = ?t2, st_eof = False\<rparr> = \<lparr>st_rest = ?l @ ?t3, st_eof = False\<rparr>"
    using skip_ws_Cons_space [OF sp(1), of "?l @ ?t3" False] hd1 by simp
  moreover have "scan_uint \<lparr>st_rest = ?l @ ?t3, st_eof = False\<rparr>
      = (Scan_ok (w_len wu), \<lparr>st_rest = ?t3, st_eof = False\<rparr>)"
    using scan_uint_show_dec [of "w_len wu" ?t3 False] assms(1) nd by (simp add: wf_unit_def)
  moreover have "skip_ws \<lparr>st_rest = ?t3, st_eof = False\<rparr> = \<lparr>st_rest = rest, st_eof = (rest = [])\<rparr>"
    using skip_ws_Cons_space [OF sp(2), of rest False] assms(2) by (simp add: no_space_first_def)
  ultimately show ?thesis by (simp add: scan_unit_def scan_char_def show_unit_def)
qed

interpretation unit_record: text_record show_unit scan_unit_rec wf_unit no_space_first
proof
  fix r rest assume "wf_unit r" "no_space_first rest"
  then show "scan_unit_rec \<lparr>st_rest = show_unit r @ rest, st_eof = False\<rparr>
      = (Some r, \<lparr>st_rest = rest, st_eof = (rest = [])\<rparr>)"
    by (simp add: scan_unit_rec_def scan_unit_show)
qed (simp_all add: show_unit_def no_space_first_def wf_unit_def)

section \<open>What a run leaves behind\<close>

definition unit_write :: "write_unit \<Rightarrow> content \<Rightarrow> content" where
  "unit_write wu f = file_write (w_offset wu) (replicate (w_len wu) (w_char wu)) f"

text \<open>The units a run may produce: inside the file, and printable in the log.\<close>

definition unit_ok :: "nat \<Rightarrow> write_unit \<Rightarrow> bool" where
  "unit_ok n wu \<longleftrightarrow> wf_unit wu \<and> 0 < w_len wu \<and> w_len wu \<le> MAX_WRITE_SIZE \<and> w_offset wu + w_len wu \<le> n
     \<and> w_char wu \<noteq> MAGIC_HOLE_CHAR"

lemma length_unit_write: "w_offset wu + w_len wu \<le> length f \<Longrightarrow> length (unit_write wu f) = length f"
  by (simp add: unit_write_def buf_simps)

lemma file_byte_unit_write [buf_simps]:
  "file_byte (unit_write wu f) i =
    (if w_offset wu \<le> i \<and> i < w_offset wu + w_len wu then w_char wu else file_byte f i)"
  unfolding unit_write_def by (rule file_store.peek_store_replicate)

lemma length_fold_unit_write:
  "list_all (unit_ok n) us \<Longrightarrow> length f = n \<Longrightarrow> length (fold unit_write us f) = n"
  by (induction us arbitrary: f) (simp_all add: unit_ok_def length_unit_write)

lemma rand_letter:
  assumes "d < 52"
  shows "\<not> c_isspace (char_of_byte (RAND_CHAR_START + of_nat d))"
    "RAND_CHAR_START + of_nat d \<noteq> MAGIC_HOLE_CHAR"
proof -
  have "unat (RAND_CHAR_START + of_nat d) = 65 + d"
    using assms by (simp add: RAND_CHAR_START_def unat_word_ariths unat_of_nat)
  moreover from this have "(of_char (char_of_byte (RAND_CHAR_START + of_nat d)) :: nat) = 65 + d"
    using assms by (simp add: char_of_byte_def of_char_of)
  ultimately show "\<not> c_isspace (char_of_byte (RAND_CHAR_START + of_nat d))"
    by (auto simp: c_isspace_def)
  have "unat MAGIC_HOLE_CHAR = 64" by (simp add: MAGIC_HOLE_CHAR_def RAND_CHAR_START_def)
  with \<open>unat (RAND_CHAR_START + of_nat d) = 65 + d\<close>
  show "RAND_CHAR_START + of_nat d \<noteq> MAGIC_HOLE_CHAR" by auto
qed

lemma letter_A: "\<not> c_isspace (char_of_byte 65)"
  using rand_letter(1) [of 0] by (simp add: RAND_CHAR_START_def)

text \<open>
  The invariant of the main loop with \<open>n\<close> rounds to go, for randomly generated units: the
  chunk being written is one of the file, and the rounds left do not move past the last one.
\<close>

definition fh_chunk_inv :: "fh_opts \<Rightarrow> nat \<Rightarrow> fh_state \<Rightarrow> bool" where
  "fh_chunk_inv opt n s \<longleftrightarrow>
     (if max_iter_per_chunk s = 0 then cur_iter_offset s = 0 \<and> file_size opt \<le> TWO_GIGA_BYTE
      else 2 ^ 31 dvd file_size opt \<and> 2 ^ 31 dvd cur_iter_offset s \<and> cur_iter_per_chunk s \<le> max_iter_per_chunk s
        \<and> max_iter_per_chunk s < 2 ^ 32
        \<and> cur_iter_offset s div 2 ^ 31 + (cur_iter_per_chunk s + n) div (max_iter_per_chunk s + 1)
            < file_size opt div 2 ^ 31)"

definition fh_inv :: "fh_opts \<Rightarrow> nat \<Rightarrow> fh_state \<Rightarrow> bool" where
  "fh_inv opt n s \<longleftrightarrow> 0 < file_size opt \<and> file_size opt < 2 ^ 62 \<and> (use_dio opt \<longrightarrow> 512 dvd file_size opt)
     \<and> file_size opt \<le> length (fh_file s) \<and> fh_chunk_inv opt n s"

lemma fh_chunk_inv_frame [simp]:
  "fh_chunk_inv opt n (s\<lparr>fh_rng := r\<rparr>) = fh_chunk_inv opt n s"
  "fh_chunk_inv opt n (s\<lparr>fh_file := f\<rparr>) = fh_chunk_inv opt n s"
  "fh_chunk_inv opt n (s\<lparr>fh_log := l\<rparr>) = fh_chunk_inv opt n s"
  by (simp_all add: fh_chunk_inv_def)

lemma ALIGN_512_dvd:
  assumes "512 dvd n" "m \<le> n" "n < 2 ^ 62"
  shows "ALIGN m 512 \<le> n"
proof -
  have "ALIGN m 512 = (m + 511) div 512 * 512"
    using ALIGN_eq [of m 9] assms by (simp add: width)
  moreover have "(m + 511) div 512 * 512 \<le> n" using assms(1,2) by (auto elim!: dvdE)
  ultimately show ?thesis by simp
qed

lemma fh_chunk_step:
  assumes "fh_chunk_inv opt (Suc n) s" "max_iter_per_chunk s \<noteq> 0" "file_size opt < 2 ^ 62"
  defines "s' \<equiv> (if cur_iter_per_chunk s = max_iter_per_chunk s
             then s\<lparr>cur_iter_offset := u64 (cur_iter_offset s + TWO_GIGA_BYTE), cur_iter_per_chunk := 0\<rparr>
             else s\<lparr>cur_iter_per_chunk := u32 (cur_iter_per_chunk s + 1)\<rparr>)"
  shows "fh_chunk_inv opt n s' \<and> cur_iter_offset s' + TWO_GIGA_BYTE \<le> file_size opt \<and> 512 dvd cur_iter_offset s'"
proof -
  define j N m c where "j = cur_iter_offset s div 2 ^ 31" and "N = file_size opt div 2 ^ 31"
    and "m = max_iter_per_chunk s" and "c = cur_iter_per_chunk s"
  have co: "cur_iter_offset s = j * 2 ^ 31" and fs: "file_size opt = N * 2 ^ 31"
    using assms(1,2) by (auto simp: fh_chunk_inv_def j_def N_def)
  have c: "c \<le> m" "m < 2 ^ 32" and lt: "j + (c + Suc n) div (m + 1) < N"
    using assms(1,2) by (auto simp: fh_chunk_inv_def j_def N_def m_def c_def)
  have N: "N < 2 ^ 31" using assms(3) fs by simp
  show ?thesis
  proof (cases "c = m")
    case True
    have "(m + Suc n) div (m + 1) = n div (m + 1) + 1"
      by (metis add_Suc_right add_Suc_shift add.commute Suc_eq_plus1 div_add_self1 nat.simps(3))
    with lt True have lt': "Suc j + n div (m + 1) < N" by simp
    have "cur_iter_offset s + TWO_GIGA_BYTE = Suc j * 2 ^ 31" by (simp add: co TWO_GIGA_BYTE_def)
    moreover have "Suc j * 2 ^ 31 < 2 ^ 64" using lt' N by simp
    ultimately have off: "cur_iter_offset s' = Suc j * 2 ^ 31"
      using True by (simp add: s'_def m_def c_def width)
    have "cur_iter_offset s' + TWO_GIGA_BYTE \<le> file_size opt"
      using lt' unfolding off fs TWO_GIGA_BYTE_def by simp
    moreover have "512 dvd cur_iter_offset s'" unfolding off by (intro dvd_mult) simp
    moreover have "fh_chunk_inv opt n s'"
      using lt' c True assms(2) off fs
      by (simp add: fh_chunk_inv_def s'_def m_def c_def del: mult_Suc)
    ultimately show ?thesis by blast
  next
    case False
    then have off: "cur_iter_offset s' = j * 2 ^ 31" "cur_iter_per_chunk s' = c + 1"
      "max_iter_per_chunk s' = m"
      using c by (simp_all add: s'_def m_def c_def co width)
    have "j < N" using lt by simp
    then have "cur_iter_offset s' + TWO_GIGA_BYTE \<le> file_size opt"
      unfolding off fs TWO_GIGA_BYTE_def by simp
    moreover have "512 dvd cur_iter_offset s'" unfolding off by (intro dvd_mult) simp
    moreover have "fh_chunk_inv opt n s'"
      using lt c False assms(2) off fs by (simp add: fh_chunk_inv_def m_def)
    ultimately show ?thesis by blast
  qed
qed

text \<open>The first part of \<open>fh_prep_rand_write_unit\<close>: the range and the chunk counters.\<close>

lemma fh_prep_rand_cases:
  assumes "fh_prep_rand_write_unit opt s = Inr (wu, s')" "fh_inv opt (Suc n) s"
  obtains max_range s1 c rs off len rs' where
    "fh_get_rand 0 52 (fh_rng s1) = Inr (c, rs)"
    "fh_again opt max_range (cur_iter_offset s1) rs = Inr (off, len, rs')"
    "fh_range_ok opt max_range (cur_iter_offset s1)" "fh_inv opt n s1"
    "wu = \<lparr>w_char = RAND_CHAR_START + of_nat c, w_offset = off, w_len = len\<rparr>"
    "s' = s1\<lparr>fh_rng := rs'\<rparr>"
    "fh_file s1 = fh_file s" "fh_log s1 = fh_log s" "fh_env s1 = fh_env s" "fh_replay s1 = fh_replay s"
proof (cases "max_iter_per_chunk s = 0")
  case True
  let ?m = "u32 (sub64 (file_size opt) 1)"
  have le: "file_size opt \<le> TWO_GIGA_BYTE" "cur_iter_offset s = 0" "0 < file_size opt"
    using assms(2) True by (auto simp: fh_inv_def fh_chunk_inv_def)
  then have m: "?m = file_size opt - 1" by (simp add: width TWO_GIGA_BYTE_def)
  have "fh_range_ok opt ?m (cur_iter_offset s)"
    using assms(2) le ALIGN_512_dvd [of "file_size opt" "max 1 (file_size opt - 1)"]
    unfolding m by (auto simp: fh_range_ok_def fh_inv_def)
  moreover have "fh_inv opt n s" using assms(2) True by (simp add: fh_inv_def fh_chunk_inv_def)
  ultimately show ?thesis using assms(1) True le(1)
    by (auto simp: fh_prep_rand_write_unit_def Let_def split: sum.splits prod.splits if_splits intro: that)
next
  case False
  define s1 where "s1 = (if cur_iter_per_chunk s = max_iter_per_chunk s
             then s\<lparr>cur_iter_offset := u64 (cur_iter_offset s + TWO_GIGA_BYTE), cur_iter_per_chunk := 0\<rparr>
             else s\<lparr>cur_iter_per_chunk := u32 (cur_iter_per_chunk s + 1)\<rparr>)"
  have st: "fh_chunk_inv opt n s1" "cur_iter_offset s1 + TWO_GIGA_BYTE \<le> file_size opt"
    "512 dvd cur_iter_offset s1"
    using fh_chunk_step [of opt n s] assms(2) False by (auto simp: fh_inv_def s1_def)
  have "ALIGN (TWO_GIGA_BYTE - 1) 512 = TWO_GIGA_BYTE"
    using ALIGN_eq [of "TWO_GIGA_BYTE - 1" 9] by (simp add: TWO_GIGA_BYTE_def width)
  with st(2) assms(2) have "fh_range_ok opt (TWO_GIGA_BYTE - 1) (cur_iter_offset s1)"
    by (auto simp: fh_range_ok_def fh_inv_def TWO_GIGA_BYTE_def max_def)
  moreover have "fh_file s1 = fh_file s" "fh_log s1 = fh_log s" "fh_env s1 = fh_env s" "fh_replay s1 = fh_replay s"
    by (simp_all add: s1_def)
  moreover from this st(1) assms(2) have "fh_inv opt n s1" by (simp add: fh_inv_def)
  ultimately show ?thesis using assms(1) False
    unfolding fh_prep_rand_write_unit_def s1_def [symmetric]
    by (auto simp: Let_def split: sum.splits prod.splits if_splits intro: that)
qed

lemma fh_prep_rand_ok:
  assumes "fh_prep_rand_write_unit opt s = Inr (wu, s')" "fh_inv opt (Suc n) s"
  shows "unit_ok (file_size opt) wu" "fh_inv opt n s'" "fh_file s' = fh_file s" "fh_log s' = fh_log s"
    "fh_env s' = fh_env s" "fh_replay s' = fh_replay s"
proof -
  obtain max_range s1 c rs off len rs' where d: "fh_get_rand 0 52 (fh_rng s1) = Inr (c, rs)"
    "fh_again opt max_range (cur_iter_offset s1) rs = Inr (off, len, rs')"
    "fh_range_ok opt max_range (cur_iter_offset s1)" "fh_inv opt n s1"
    "wu = \<lparr>w_char = RAND_CHAR_START + of_nat c, w_offset = off, w_len = len\<rparr>"
    "s' = s1\<lparr>fh_rng := rs'\<rparr>"
    "fh_file s1 = fh_file s" "fh_log s1 = fh_log s" "fh_env s1 = fh_env s" "fh_replay s1 = fh_replay s"
    using fh_prep_rand_cases [OF assms] .
  have "c < 52" using fh_get_rand_value [OF d(1)] by simp
  moreover have "0 < len \<and> len \<le> MAX_WRITE_SIZE \<and> off + len \<le> file_size opt"
    by (rule fh_again_bounds [OF d(2,3)])
  moreover have "file_size opt < 2 ^ 62" using d(4) by (simp add: fh_inv_def)
  ultimately show "unit_ok (file_size opt) wu"
    using d(5) rand_letter by (auto simp: unit_ok_def wf_unit_def MAX_WRITE_SIZE_def)
  show "fh_inv opt n s'" using d(4,6) by (simp add: fh_inv_def)
  show "fh_file s' = fh_file s" "fh_log s' = fh_log s" "fh_env s' = fh_env s" "fh_replay s' = fh_replay s"
    using d(6-10) by simp_all
qed

lemma fh_do_write_ideal:
  assumes "fh_env s = []" "w_len wu \<le> MAX_WRITE_SIZE" "w_offset wu + w_len wu \<le> length (fh_file s)"
  shows "fh_do_write opt s wu = Inr (0, s\<lparr>fh_file := unit_write wu (fh_file s)\<rparr>)"
  using assms by (simp add: fh_do_write_def unit_write_def Let_def aio_write_back_Nil)

lemma fh_loop_trace:
  assumes "fh_loop n opt s = Inr (0, s')" "fh_inv opt n s" "fh_env s = []" "fh_replay s = None"
  shows "\<exists>us. length us = n \<and> list_all (unit_ok (file_size opt)) us
     \<and> fh_log s' = fh_log s @ concat (map show_unit us) \<and> fh_file s' = fold unit_write us (fh_file s)"
  using assms
proof (induction n arbitrary: s)
  case (Suc n)
  from Suc.prems(1,4) obtain wu s1 where p: "fh_prep_rand_write_unit opt s = Inr (wu, s1)"
    by (auto simp: fh_prep_write_unit_def fh_replay_eof_def split: sum.splits prod.splits)
  note ok = fh_prep_rand_ok [OF p Suc.prems(2)]
  let ?s2 = "(fh_log_write s1 wu)\<lparr>fh_file := unit_write wu (fh_file s1)\<rparr>"
  have inside: "w_offset wu + w_len wu \<le> length (fh_file s1)"
    using ok(1,2) by (auto simp: unit_ok_def fh_inv_def)
  then have "fh_do_write opt (fh_log_write s1 wu) wu = Inr (0, ?s2)"
    using fh_do_write_ideal [of "fh_log_write s1 wu" wu opt] ok Suc.prems(3)
    by (simp add: fh_log_write_def unit_ok_def)
  with Suc.prems(1,4) p have "fh_loop n opt ?s2 = Inr (0, s')"
    by (simp add: fh_prep_write_unit_def fh_replay_eof_def)
  moreover have "fh_inv opt n ?s2"
    using ok(2) length_unit_write [OF inside] by (simp add: fh_inv_def fh_log_write_def)
  ultimately obtain us where "length us = n" "list_all (unit_ok (file_size opt)) us"
    "fh_log s' = fh_log ?s2 @ concat (map show_unit us)" "fh_file s' = fold unit_write us (fh_file ?s2)"
    using Suc.IH [of ?s2] ok Suc.prems(3,4) by (auto simp: fh_log_write_def)
  with ok show ?case by (intro exI [of _ "wu # us"]) (simp add: fh_log_write_def)
qed auto

text \<open>Reserving unwritten extents leaves a file that reads as zeros once it has its size.\<close>

definition resv_zero :: "(nat \<Rightarrow> nat \<Rightarrow> content \<Rightarrow> content) \<Rightarrow> bool" where
  "resv_zero resv \<longleftrightarrow> (\<forall>n. file_truncate n (resv 0 n []) = replicate n 0)"

lemma file_truncate_Nil [simp]: "file_truncate n [] = replicate n 0"
  by (simp add: file_truncate_def)

lemma fh_prep_file_ideal:
  assumes "resv_zero resv" "\<not> is_bdev opt"
  shows "fh_prep_file resv opt [] dev = (Some (replicate (file_size opt) 0), [])"
  using assms by (simp add: fh_prep_file_def Let_def resv_zero_def)

lemma fh_main_ideal:
  assumes "resv_zero resv" "\<not> is_bdev opt" "rpl = map_option (\<lambda>nm. stream_open (the (replay nm))) (replaylogname opt)"
    "\<forall>nm. replaylogname opt = Some nm \<longrightarrow> replay nm \<noteq> None"
  shows "fh_main resv opt replay rng [] dev =
     (case fh_start opt (replicate (file_size opt) 0) rpl rng [] of (opt', s) \<Rightarrow>
      (case fh_loop (max_iter opt) opt' s of
         Inl e \<Rightarrow> Inl e | Inr (ret, s') \<Rightarrow> Inr (ret, fh_file s', fh_log s')))"
  using assms
  by (cases "logname opt"; cases "replaylogname opt") (auto simp: fh_main_def fh_prep_file_ideal)

lemma div_div_bound: "0 < N \<Longrightarrow> (n :: nat) div (n div N + 1) < N"
  using dividend_less_times_div [of N n] by (simp add: less_mult_imp_div_less algebra_simps)

lemma fh_start_inv:
  assumes "0 < file_size opt" "file_size opt < 2 ^ 62" "use_dio opt \<longrightarrow> 512 dvd file_size opt"
    "length f = file_size opt" "max_iter opt < 2 ^ 32" "fh_start opt f rpl rng env = (opt', s)"
    "TWO_GIGA_BYTE < file_size opt \<longrightarrow> file_size opt div TWO_GIGA_BYTE \<le> max_iter opt"
  shows "fh_inv opt' (max_iter opt) s" "file_size opt' \<le> file_size opt" "fh_file s = f" "fh_log s = []"
    "fh_env s = env" "fh_replay s = rpl"
proof -
  let ?N = "file_size opt div TWO_GIGA_BYTE"
  show st: "fh_file s = f" "fh_log s = []" "fh_env s = env" "fh_replay s = rpl"
    using assms(6) by (auto simp: fh_start_def Let_def)
  show le: "file_size opt' \<le> file_size opt"
    using assms(6) by (auto simp: fh_start_def Let_def split: if_splits)
  show "fh_inv opt' (max_iter opt) s"
  proof (cases "TWO_GIGA_BYTE < file_size opt")
    case True
    let ?m = "max_iter opt div ?N"
    have N: "0 < ?N" using True by (simp add: TWO_GIGA_BYTE_def div_greater_zero_iff)
    have m: "0 < ?m" "?m < 2 ^ 32"
      using N assms(5,7) True by (auto simp: div_greater_zero_iff intro: le_less_trans [OF div_le_dividend])
    have o: "opt' = opt\<lparr>file_size := ?N * TWO_GIGA_BYTE\<rparr>" "max_iter_per_chunk s = ?m"
      "cur_iter_per_chunk s = 0" "cur_iter_offset s = 0"
      using assms(6) True m by (auto simp: fh_start_def Let_def width)
    have "2 ^ 31 = TWO_GIGA_BYTE" by (simp add: TWO_GIGA_BYTE_def)
    with o m div_div_bound [OF N, of "max_iter opt"] have "fh_chunk_inv opt' (max_iter opt) s"
      by (simp add: fh_chunk_inv_def)
    moreover have "512 dvd file_size opt'" by (simp add: o TWO_GIGA_BYTE_def)
    moreover have "0 < file_size opt'" using N by (simp add: o TWO_GIGA_BYTE_def)
    ultimately show ?thesis using le assms(2,4) st(1) by (simp add: fh_inv_def)
  next
    case False
    then have "opt' = opt" "max_iter_per_chunk s = 0" "cur_iter_offset s = 0"
      using assms(6) by (auto simp: fh_start_def Let_def)
    with False assms(1-4) st(1) show ?thesis by (simp add: fh_inv_def fh_chunk_inv_def)
  qed
qed

lemma fh_loop_assert:
  assumes "TWO_GIGA_BYTE < file_size opt" "max_iter_per_chunk s = 0" "fh_replay s = None" "0 < n"
  shows "fh_loop n opt s = Inl Assertion"
  using assms by (cases n) (simp_all add: fh_prep_write_unit_def fh_prep_rand_write_unit_def fh_replay_eof_def)

lemma unit_ok_mono: "unit_ok m wu \<Longrightarrow> m \<le> n \<Longrightarrow> unit_ok n wu"
  by (auto simp: unit_ok_def)

lemma fh_main_trace:
  assumes run: "fh_main resv opt rpl rng [] dev = Inr (0, f, log)"
    and opts: "resv_zero resv" "\<not> is_bdev opt" "replaylogname opt = None"
    and fs: "0 < file_size opt" "file_size opt < 2 ^ 62" "use_dio opt \<longrightarrow> 512 dvd file_size opt"
    and iter: "max_iter opt < 2 ^ 32"
  shows "\<exists>us. length us = max_iter opt \<and> list_all (unit_ok (file_size opt)) us
     \<and> log = concat (map show_unit us) \<and> f = fold unit_write us (replicate (file_size opt) 0)"
proof -
  let ?f0 = "replicate (file_size opt) (0 :: byte)"
  obtain opt' s where st: "fh_start opt ?f0 None rng [] = (opt', s)" by fastforce
  from run opts st obtain s' where lp: "fh_loop (max_iter opt) opt' s = Inr (0, s')" "f = fh_file s'" "log = fh_log s'"
    by (auto simp: fh_main_ideal split: sum.splits)
  show ?thesis
  proof (cases "TWO_GIGA_BYTE < file_size opt \<and> max_iter opt < file_size opt div TWO_GIGA_BYTE")
    case True
    let ?N = "file_size opt div TWO_GIGA_BYTE"
    have o: "file_size opt' = ?N * TWO_GIGA_BYTE" "max_iter_per_chunk s = 0" "fh_replay s = None"
      using True st by (auto simp: fh_start_def Let_def u32_def)
    have z: "max_iter opt = 0"
    proof (rule ccontr)
      assume "max_iter opt \<noteq> 0"
      with True have "TWO_GIGA_BYTE < file_size opt'" by (simp add: o(1) TWO_GIGA_BYTE_def)
      with fh_loop_assert [OF this o(2,3)] \<open>max_iter opt \<noteq> 0\<close> lp(1) show False by simp
    qed
    with lp st show ?thesis by (intro exI [of _ "[]"]) (auto simp: fh_start_def Let_def)
  next
    case False
    note inv = fh_start_inv [OF fs _ iter st]
    from fh_loop_trace [OF lp(1)] inv False
    obtain us where us: "length us = max_iter opt" "list_all (unit_ok (file_size opt')) us"
      "fh_log s' = concat (map show_unit us)" "fh_file s' = fold unit_write us ?f0" by auto
    have "list_all (unit_ok (file_size opt)) us"
      using us(2) inv(2) False unit_ok_mono by (auto simp: list_all_iff)
    with us lp show ?thesis by blast
  qed
qed

text \<open>Replaying a log makes its writes again.\<close>

lemma fh_loop_replay:
  assumes "list_all (unit_ok (length (fh_file s))) us" "length us \<le> n" "fh_env s = []"
    "fh_replay s = Some \<lparr>st_rest = concat (map show_unit us), st_eof = (us = [])\<rparr>"
  shows "\<exists>s'. fh_loop n opt s = Inr (0, s') \<and> fh_file s' = fold unit_write us (fh_file s)
     \<and> fh_log s' = fh_log s @ concat (map show_unit us)"
  using assms
proof (induction us arbitrary: n s)
  case Nil
  then show ?case by (cases n) (simp_all add: fh_replay_eof_def)
next
  case (Cons u us)
  from Cons.prems(2) obtain m where n: "n = Suc m" "length us \<le> m" by (cases n) auto
  have ok: "unit_ok (length (fh_file s)) u" "list_all wf_unit us"
    using Cons.prems(1) by (auto simp: unit_ok_def list_all_iff)
  let ?txt = "concat (map show_unit us)"
  have emp: "?txt = [] \<longleftrightarrow> us = []" by (cases us) (simp_all add: show_unit_def)
  have "scan_unit \<lparr>st_rest = show_unit u @ ?txt, st_eof = False\<rparr> = (3, Some u, \<lparr>st_rest = ?txt, st_eof = (us = [])\<rparr>)"
    using scan_unit_show [OF _ unit_record.may_follow_log [OF ok(2)]] ok(1) emp by (simp add: unit_ok_def)
  then have prep: "fh_prep_write_unit opt s = Inr (Some u, s\<lparr>fh_replay := Some \<lparr>st_rest = ?txt, st_eof = (us = [])\<rparr>\<rparr>)"
    (is "_ = Inr (_, ?s1)") using Cons.prems(4) by (simp add: fh_prep_write_unit_def)
  let ?s2 = "(fh_log_write ?s1 u)\<lparr>fh_file := unit_write u (fh_file s)\<rparr>"
  have "fh_do_write opt (fh_log_write ?s1 u) u = Inr (0, ?s2)"
    using fh_do_write_ideal [of "fh_log_write ?s1 u" u opt] ok(1) Cons.prems(3)
    by (simp add: fh_log_write_def unit_ok_def)
  then have step: "fh_loop n opt s = fh_loop m opt ?s2"
    using prep Cons.prems(4) n(1) by (simp add: fh_replay_eof_def)
  have "length (fh_file ?s2) = length (fh_file s)" using ok(1) by (simp add: length_unit_write unit_ok_def)
  then show ?case
    using Cons.IH [of ?s2 m] n(2) Cons.prems(1,3) step by (auto simp: fh_log_write_def)
qed

end
