(* ===== verification/Verify_Holes.thy ===== *)
theory Verify_Holes
  imports Fill_Holes "HOL-Library.Tree"
begin

text \<open>
  \<open>programs/fill_verify_holes/verify_holes.c\<close>: it reads the log that \<open>fill_holes\<close> or
  \<open>punch_holes\<close> left, builds from it a search tree of disjoint chunks, later records
  overwriting earlier ones, and compares every chunk with the file.

  The tree is the kernel's red-black tree, whose functions (\<open>rb_link_node\<close>,
  \<open>rb_insert_color\<close>, \<open>rb_erase\<close>) are not part of this repository: they are the fields of the
  parameter \<open>rb_ops\<close>, and \<open>rb_laws\<close> states what their documentation promises, that the
  in-order sequence gains the linked node, keeps its nodes when rebalanced, and loses the
  erased one. A node is named by its path from the root, and carries the library's own field
  (\<open>fc_node\<close>), so that the functions may depend on colours the model does not look at.

  Recursion and restarts of \<open>vh_insert_chunk\<close> are counted down by a fuel argument; the
  insertion theorem shows that a fuel of the number of chunks plus three is enough, and that
  the recursion guard of the code never fires.
\<close>

section \<open>Trees\<close>

record 'rb file_chunk =
  fc_write :: write_unit
  fc_node :: 'rb

datatype dir = Rb_left | Rb_right

fun rb_subtree :: "dir list \<Rightarrow> 'a tree \<Rightarrow> 'a tree option" where
  "rb_subtree [] t = Some t"
| "rb_subtree (d # p) \<langle>\<rangle> = None"
| "rb_subtree (Rb_left # p) \<langle>l, a, r\<rangle> = rb_subtree p l"
| "rb_subtree (Rb_right # p) \<langle>l, a, r\<rangle> = rb_subtree p r"

text \<open>The nodes that precede and follow the position of a path in order.\<close>

fun rb_before :: "dir list \<Rightarrow> 'a tree \<Rightarrow> 'a list" where
  "rb_before p \<langle>\<rangle> = []"
| "rb_before [] \<langle>l, a, r\<rangle> = inorder l"
| "rb_before (Rb_left # p) \<langle>l, a, r\<rangle> = rb_before p l"
| "rb_before (Rb_right # p) \<langle>l, a, r\<rangle> = inorder l @ a # rb_before p r"

fun rb_after :: "dir list \<Rightarrow> 'a tree \<Rightarrow> 'a list" where
  "rb_after p \<langle>\<rangle> = []"
| "rb_after [] \<langle>l, a, r\<rangle> = inorder r"
| "rb_after (Rb_left # p) \<langle>l, a, r\<rangle> = rb_after p l @ a # inorder r"
| "rb_after (Rb_right # p) \<langle>l, a, r\<rangle> = rb_after p r"

definition writes :: "'rb file_chunk tree \<Rightarrow> write_unit list" where
  "writes t = map fc_write (inorder t)"

record 'rb rb_ops =
  rb_link_node :: "dir list \<Rightarrow> 'rb file_chunk \<Rightarrow> 'rb file_chunk tree \<Rightarrow> 'rb file_chunk tree"
  rb_insert_color :: "dir list \<Rightarrow> 'rb file_chunk tree \<Rightarrow> 'rb file_chunk tree"
  rb_erase :: "dir list \<Rightarrow> 'rb file_chunk tree \<Rightarrow> 'rb file_chunk tree"
  rb_zero :: 'rb

definition rb_laws :: "'rb rb_ops \<Rightarrow> bool" where
  "rb_laws ops \<longleftrightarrow>
     (\<forall>p c t. rb_subtree p t = Some \<langle>\<rangle> \<longrightarrow>
        writes (rb_link_node ops p c t) = map fc_write (rb_before p t) @ fc_write c # map fc_write (rb_after p t))
   \<and> (\<forall>p t. writes (rb_insert_color ops p t) = writes t)
   \<and> (\<forall>p t l a r. rb_subtree p t = Some \<langle>l, a, r\<rangle> \<longrightarrow>
        writes (rb_erase ops p t) = map fc_write (rb_before p t) @ map fc_write (rb_after p t))"

section \<open>Inserting a chunk\<close>

definition w_end :: "write_unit \<Rightarrow> nat" where
  "w_end wu = u64 (w_offset wu + w_len wu)"

datatype vh_case = Encompass | Middle | Left_straddle | Right_straddle | Go_left | Go_right

text \<open>The chain of conditions in the descent, in its order.\<close>

definition vh_compare :: "nat \<Rightarrow> nat \<Rightarrow> nat \<Rightarrow> nat \<Rightarrow> vh_case" where
  "vh_compare off en tmpoff tmpend =
     (if off \<le> tmpoff \<and> tmpend \<le> en then Encompass
      else if tmpoff < off \<and> en < tmpend then Middle
      else if off \<le> tmpoff \<and> en \<le> tmpend \<and> tmpoff < en then Left_straddle
      else if tmpoff < off \<and> off < tmpend \<and> tmpend \<le> en then Right_straddle
      else if off < tmpoff then Go_left else Go_right)"

text \<open>The descent: the path where it stops, and the chunk met there with its case, if any.\<close>

fun vh_search :: "nat \<Rightarrow> nat \<Rightarrow> 'rb file_chunk tree \<Rightarrow> dir list \<times> ('rb file_chunk \<times> vh_case) option" where
  "vh_search off en \<langle>\<rangle> = ([], None)"
| "vh_search off en \<langle>l, tmp, r\<rangle> =
     (case vh_compare off en (w_offset (fc_write tmp)) (w_end (fc_write tmp)) of
        Go_left \<Rightarrow> (case vh_search off en l of (p, res) \<Rightarrow> (Rb_left # p, res))
      | Go_right \<Rightarrow> (case vh_search off en r of (p, res) \<Rightarrow> (Rb_right # p, res))
      | k \<Rightarrow> ([], Some (tmp, k)))"

text \<open>\<open>wu->w_len = off - tmpoff\<close> and \<open>wu->w_offset = end; wu->w_len = tmpend - end\<close>.\<close>

definition keep_left :: "write_unit \<Rightarrow> nat \<Rightarrow> write_unit" where
  "keep_left wu off = wu\<lparr>w_len := u32 (sub64 off (w_offset wu))\<rparr>"

definition keep_right :: "write_unit \<Rightarrow> nat \<Rightarrow> write_unit" where
  "keep_right wu en = wu\<lparr>w_offset := en, w_len := u32 (sub64 (w_end wu) en)\<rparr>"

text \<open>
  \<open>vh_insert_chunk\<close> checks the recursion level it was entered at, \<open>vh_restart_search\<close> is its
  body from the label \<open>restart_search\<close>.
\<close>

fun vh_insert_chunk :: "'rb rb_ops \<Rightarrow> nat \<Rightarrow> nat \<Rightarrow> 'rb file_chunk \<Rightarrow> 'rb file_chunk tree
      \<Rightarrow> fault + 'rb file_chunk tree"
  and vh_restart_search :: "'rb rb_ops \<Rightarrow> nat \<Rightarrow> nat \<Rightarrow> 'rb file_chunk \<Rightarrow> 'rb file_chunk tree
      \<Rightarrow> fault + 'rb file_chunk tree" where
  "vh_insert_chunk ops 0 lvl chunk t = Inl Out_of_fuel"
| "vh_insert_chunk ops (Suc fuel) lvl chunk t =
     (if 2 < lvl + 1 then Inl Aborted else vh_restart_search ops fuel (lvl + 1) chunk t)"
| "vh_restart_search ops 0 lvl chunk t = Inl Out_of_fuel"
| "vh_restart_search ops (Suc fuel) lvl chunk t =
     (let off = w_offset (fc_write chunk); en = w_end (fc_write chunk) in
      case vh_search off en t of
        (p, None) \<Rightarrow> Inr (rb_insert_color ops p (rb_link_node ops p chunk t))
      | (p, Some (tmp, k)) \<Rightarrow>
        let t1 = rb_erase ops p t in
        (case k of
           Middle \<Rightarrow>
             (case vh_insert_chunk ops fuel lvl (tmp\<lparr>fc_write := keep_left (fc_write tmp) off\<rparr>) t1 of
                Inl e \<Rightarrow> Inl e
              | Inr t2 \<Rightarrow>
                (case vh_insert_chunk ops fuel lvl
                    \<lparr>fc_write = keep_right (fc_write tmp) en, fc_node = rb_zero ops\<rparr> t2 of
                   Inl e \<Rightarrow> Inl e
                 | Inr t3 \<Rightarrow> vh_restart_search ops fuel lvl chunk t3))
         | Left_straddle \<Rightarrow>
             (case vh_insert_chunk ops fuel lvl (tmp\<lparr>fc_write := keep_right (fc_write tmp) en\<rparr>) t1 of
                Inl e \<Rightarrow> Inl e
              | Inr t2 \<Rightarrow> vh_restart_search ops fuel lvl chunk t2)
         | Right_straddle \<Rightarrow>
             (case vh_insert_chunk ops fuel lvl (tmp\<lparr>fc_write := keep_left (fc_write tmp) off\<rparr>) t1 of
                Inl e \<Rightarrow> Inl e
              | Inr t2 \<Rightarrow> vh_restart_search ops fuel lvl chunk t2)
         | _ \<Rightarrow> vh_restart_search ops fuel lvl chunk t1))"

text \<open>An insertion from outside: level 0, and fuel for every chunk of the tree.\<close>

definition vh_insert :: "'rb rb_ops \<Rightarrow> write_unit \<Rightarrow> 'rb file_chunk tree \<Rightarrow> fault + 'rb file_chunk tree" where
  "vh_insert ops wu t = vh_insert_chunk ops (size t + 3) 0 \<lparr>fc_write = wu, fc_node = rb_zero ops\<rparr> t"

definition vh_init_tree :: "'rb rb_ops \<Rightarrow> nat \<Rightarrow> fault + 'rb file_chunk tree" where
  "vh_init_tree ops fsize = vh_insert ops \<lparr>w_char = 0, w_offset = 0, w_len = u32 fsize\<rparr> \<langle>\<rangle>"

section \<open>Reading the log\<close>

text \<open>A punched hole is logged with the character before \<open>'A'\<close> and reads as zero bytes.\<close>

definition unmagic :: "write_unit \<Rightarrow> write_unit" where
  "unmagic wu = (if w_char wu = MAGIC_HOLE_CHAR then wu\<lparr>w_char := 0\<rparr> else wu)"

function vh_read_log :: "'rb rb_ops \<Rightarrow> stream \<Rightarrow> 'rb file_chunk tree \<Rightarrow> fault + (int \<times> 'rb file_chunk tree)" where
  "vh_read_log ops s t = (case scan_unit s of
     (ret, Some wu, s') \<Rightarrow> (case vh_insert ops (unmagic wu) t of
        Inl e \<Rightarrow> Inl e | Inr t' \<Rightarrow> vh_read_log ops s' t')
   | (ret, None, s') \<Rightarrow> Inr (if ret = -1 then 0 else int EINVAL, t))"
  by pat_completeness auto
termination
  by (relation "measure (\<lambda>(ops, s, t). length (st_rest s))") (auto dest: scan_unit_length [OF sym])

declare vh_read_log.simps [simp del]

section \<open>Checking the file\<close>

text \<open>The \<open>while\<close> loop of \<open>vh_check_chunk\<close>; the result is its return value.\<close>

function vh_check_loop :: "io_env \<Rightarrow> content \<Rightarrow> byte \<Rightarrow> nat \<Rightarrow> nat \<Rightarrow> int \<times> io_env" where
  "vh_check_loop env f c off len =
     (if len = 0 then (0, env) else
      let count = (if MAX_WRITE_SIZE < len then MAX_WRITE_SIZE else len) in
      (case sys_pread env f count off of
         (Inl e, env') \<Rightarrow> (int e, env')
       | (Inr buf, env') \<Rightarrow>
         if length buf = 0 then (int EINVAL, env')
         else if length buf \<noteq> count then (int EINVAL, env')
         else if \<not> list_all (\<lambda>b. b = c) buf then (1, env')
         else vh_check_loop env' f c (u64 (off + count)) (len - count)))"
  by pat_completeness auto
termination
  by (relation "measure (\<lambda>(env, f, c, off, len). len)") (auto simp: MAX_WRITE_SIZE_def Let_def)

declare vh_check_loop.simps [simp del]

definition vh_check_chunk :: "io_env \<Rightarrow> content \<Rightarrow> write_unit \<Rightarrow> int \<times> io_env" where
  "vh_check_chunk env f wu = vh_check_loop env f (w_char wu) (w_offset wu) (w_len wu)"

text \<open>\<open>rb_first\<close> and \<open>rb_next\<close> visit the nodes in order.\<close>

fun vh_check_list :: "io_env \<Rightarrow> content \<Rightarrow> write_unit list \<Rightarrow> int" where
  "vh_check_list env f [] = 0"
| "vh_check_list env f (wu # ws) =
     (case vh_check_chunk env f wu of (ret, env') \<Rightarrow>
        if ret \<noteq> 0 then int EINVAL else vh_check_list env' f ws)"

definition vh_check_file :: "io_env \<Rightarrow> content \<Rightarrow> 'rb file_chunk tree \<Rightarrow> int" where
  "vh_check_file env f t = vh_check_list env f (writes t)"

text \<open>\<open>main\<close> after the arguments were parsed: open both files, stat, build the tree, check.\<close>

definition vh_main :: "'rb rb_ops \<Rightarrow> io_env \<Rightarrow> string option \<Rightarrow> content option \<Rightarrow> fault + int" where
  "vh_main ops env log file = (case log of None \<Rightarrow> Inr 1 | Some txt \<Rightarrow>
     (case file of None \<Rightarrow> Inr 1 | Some f \<Rightarrow>
     (case sys_call env of (Some e, env1) \<Rightarrow> Inr 1 | (None, env1) \<Rightarrow>
     (case vh_init_tree ops (length f) of Inl e \<Rightarrow> Inl e | Inr t0 \<Rightarrow>
     (case vh_read_log ops (stream_open txt) t0 of Inl e \<Rightarrow> Inl e | Inr (ret, t) \<Rightarrow>
        if ret \<noteq> 0 then Inr 1
        else if vh_check_file env1 f t \<noteq> 0 then Inr 1 else Inr 0)))))"

section \<open>Paths and order\<close>

lemma inorder_at_leaf:
  "rb_subtree p t = Some \<langle>\<rangle> \<Longrightarrow> inorder t = rb_before p t @ rb_after p t"
  by (induction p t rule: rb_subtree.induct) auto

lemma inorder_at_node:
  "rb_subtree p t = Some \<langle>l, a, r\<rangle> \<Longrightarrow> inorder t = rb_before p t @ a # rb_after p t"
  by (induction p t rule: rb_subtree.induct) auto

lemma writes_at_node:
  "rb_subtree p t = Some \<langle>l, a, r\<rangle> \<Longrightarrow>
     writes t = map fc_write (rb_before p t) @ fc_write a # map fc_write (rb_after p t)"
  unfolding writes_def by (simp only: inorder_at_node map_append list.map)

lemma vh_search_hit:
  assumes "vh_search off en t = (p, Some (tmp, k))"
  shows "\<exists>l r. rb_subtree p t = Some \<langle>l, tmp, r\<rangle>"
    and "k = vh_compare off en (w_offset (fc_write tmp)) (w_end (fc_write tmp))"
    and "k \<noteq> Go_left" "k \<noteq> Go_right"
proof -
  have "(\<exists>l r. rb_subtree p t = Some \<langle>l, tmp, r\<rangle>) \<and> k = vh_compare off en (w_offset (fc_write tmp)) (w_end (fc_write tmp))
     \<and> k \<noteq> Go_left \<and> k \<noteq> Go_right"
    using assms by (induction t arbitrary: p) (auto split: vh_case.splits prod.splits)
  then show "\<exists>l r. rb_subtree p t = Some \<langle>l, tmp, r\<rangle>"
    "k = vh_compare off en (w_offset (fc_write tmp)) (w_end (fc_write tmp))" "k \<noteq> Go_left" "k \<noteq> Go_right"
    by blast+
qed

section \<open>Disjoint chunks\<close>

definition covers :: "write_unit \<Rightarrow> nat \<Rightarrow> bool" where
  "covers wu i \<longleftrightarrow> w_offset wu \<le> i \<and> i < w_offset wu + w_len wu"

text \<open>A chunk the code can handle: not empty, its fields within their types, its end too.\<close>

definition chunk_ok :: "write_unit \<Rightarrow> bool" where
  "chunk_ok wu \<longleftrightarrow> 0 < w_len wu \<and> w_len wu < 2 ^ 32 \<and> w_offset wu + w_len wu < 2 ^ 64"

definition vh_inv :: "write_unit list \<Rightarrow> bool" where
  "vh_inv ws \<longleftrightarrow> sorted_wrt (\<lambda>a b. w_end a \<le> w_offset b) ws \<and> (\<forall>w \<in> set ws. chunk_ok w)"

definition vh_map :: "write_unit list \<Rightarrow> (nat \<times> byte) set" where
  "vh_map ws = {(i, w_char w) |i w. w \<in> set ws \<and> covers w i}"

definition overlaps :: "write_unit \<Rightarrow> write_unit \<Rightarrow> bool" where
  "overlaps c w \<longleftrightarrow> w_offset c < w_end w \<and> w_offset w < w_end c"

lemma chunk_end: "chunk_ok w \<Longrightarrow> w_end w = w_offset w + w_len w \<and> w_offset w < w_end w \<and> w_end w < 2 ^ 64"
  by (auto simp: chunk_ok_def w_end_def width)

lemma vh_compare_hit:
  assumes "chunk_ok c" "chunk_ok w"
  shows "overlaps c w \<longleftrightarrow> vh_compare (w_offset c) (w_end c) (w_offset w) (w_end w) \<notin> {Go_left, Go_right}"
  using chunk_end [OF assms(1)] chunk_end [OF assms(2)]
  by (auto simp: overlaps_def vh_compare_def split: if_splits)

lemma vh_compare_go:
  assumes "chunk_ok c" "chunk_ok w"
  shows "vh_compare (w_offset c) (w_end c) (w_offset w) (w_end w) = Go_left \<Longrightarrow> w_end c \<le> w_offset w"
    and "vh_compare (w_offset c) (w_end c) (w_offset w) (w_end w) = Go_right \<Longrightarrow> w_end w \<le> w_offset c"
  using chunk_end [OF assms(1)] chunk_end [OF assms(2)]
  by (auto simp: vh_compare_def split: if_splits)

lemma vh_search_miss:
  assumes "vh_search (w_offset c) (w_end c) t = (p, None)" "chunk_ok c" "vh_inv (writes t)"
  shows "rb_subtree p t = Some \<langle>\<rangle> \<and> (\<forall>x \<in> set (rb_before p t). w_end (fc_write x) \<le> w_offset c)
     \<and> (\<forall>x \<in> set (rb_after p t). w_end c \<le> w_offset (fc_write x))"
  using assms
proof (induction t arbitrary: p)
  case (Node l a r)
  have inv: "vh_inv (writes l)" "vh_inv (writes r)" "chunk_ok (fc_write a)"
    "\<And>x. x \<in> set (inorder l) \<Longrightarrow> w_end (fc_write x) \<le> w_offset (fc_write a)"
    "\<And>x. x \<in> set (inorder r) \<Longrightarrow> w_end (fc_write a) \<le> w_offset (fc_write x)"
    using Node.prems(3) by (auto simp: vh_inv_def writes_def sorted_wrt_append)
  note en = chunk_end [OF inv(3)]
  show ?case
  proof (cases "vh_compare (w_offset c) (w_end c) (w_offset (fc_write a)) (w_end (fc_write a))")
    case Go_left
    obtain q where q: "vh_search (w_offset c) (w_end c) l = (q, None)" "p = Rb_left # q"
      using Node.prems(1) Go_left by (auto split: prod.splits)
    have "w_end c \<le> w_offset (fc_write a)" using vh_compare_go(1) [OF Node.prems(2) inv(3) Go_left] .
    with Node.IH(1) [OF q(1) Node.prems(2) inv(1)] q(2) inv(5) en show ?thesis by fastforce
  next
    case Go_right
    obtain q where q: "vh_search (w_offset c) (w_end c) r = (q, None)" "p = Rb_right # q"
      using Node.prems(1) Go_right by (auto split: prod.splits)
    have "w_end (fc_write a) \<le> w_offset c" using vh_compare_go(2) [OF Node.prems(2) inv(3) Go_right] .
    with Node.IH(2) [OF q(1) Node.prems(2) inv(2)] q(2) inv(4) en show ?thesis by fastforce
  qed (use Node.prems(1) in auto)
qed simp

section \<open>The insertion\<close>

lemma sorted_wrt_insert_mid:
  assumes "sorted_wrt R (xs @ ys)" "\<forall>x \<in> set xs. R x c" "\<forall>y \<in> set ys. R c y"
  shows "sorted_wrt R (xs @ c # ys)"
  using assms by (auto simp: sorted_wrt_append)

text \<open>A chunk that overlaps nothing is linked in, on the first round.\<close>

lemma vh_restart_disjoint:
  assumes laws: "rb_laws ops" and inv: "vh_inv (writes t)" and c: "chunk_ok (fc_write c)"
    and dis: "\<forall>w \<in> set (writes t). \<not> overlaps (fc_write c) w"
  shows "\<exists>t'. vh_restart_search ops (Suc fuel) lvl c t = Inr t' \<and> vh_inv (writes t')
     \<and> set (writes t') = insert (fc_write c) (set (writes t))"
proof -
  obtain p res where s: "vh_search (w_offset (fc_write c)) (w_end (fc_write c)) t = (p, res)" by fastforce
  have res: "res = None"
  proof (rule ccontr)
    assume "res \<noteq> None"
    then obtain tmp k where k: "res = Some (tmp, k)" by auto
    note hit = vh_search_hit [OF s [unfolded k]]
    from hit(1) have mem: "fc_write tmp \<in> set (writes t)" using writes_at_node by fastforce
    with inv have "chunk_ok (fc_write tmp)" by (simp add: vh_inv_def)
    from vh_compare_hit [OF c this] hit(2-) have "overlaps (fc_write c) (fc_write tmp)" by auto
    with dis mem show False by simp
  qed
  note miss = vh_search_miss [OF s [unfolded res] c inv]
  let ?b = "map fc_write (rb_before p t)" and ?a = "map fc_write (rb_after p t)"
  have w: "writes t = ?b @ ?a" using inorder_at_leaf [of p t] miss by (simp add: writes_def)
  let ?t' = "rb_insert_color ops p (rb_link_node ops p c t)"
  have w': "writes ?t' = ?b @ fc_write c # ?a" using laws miss by (simp add: rb_laws_def)
  moreover have "sorted_wrt (\<lambda>a b. w_end a \<le> w_offset b) (?b @ fc_write c # ?a)"
    by (rule sorted_wrt_insert_mid) (use inv w miss in \<open>auto simp: vh_inv_def\<close>)
  ultimately have "vh_inv (writes ?t')" using inv c w by (auto simp: vh_inv_def)
  moreover have "set (writes ?t') = insert (fc_write c) (set (writes t))" using w w' by auto
  ultimately show ?thesis using s res by (simp add: Let_def)
qed

text \<open>What is left of a chunk once another has overwritten part of it.\<close>

definition remains :: "write_unit \<Rightarrow> write_unit \<Rightarrow> write_unit list" where
  "remains c w = (if w_offset w < w_offset c then [keep_left w (w_offset c)] else [])
     @ (if w_end c < w_end w then [keep_right w (w_end c)] else [])"

lemma keep_left_ok:
  assumes "chunk_ok c" "chunk_ok w" "overlaps c w" "w_offset w < w_offset c"
  defines "k \<equiv> keep_left w (w_offset c)"
  shows "chunk_ok k" "w_offset k = w_offset w" "w_end k = w_offset c" "w_char k = w_char w"
    "w_len k = w_offset c - w_offset w"
proof -
  have len: "w_offset c - w_offset w < 2 ^ 32"
    using assms(3,4) chunk_end [OF assms(2)] assms(2) by (auto simp: overlaps_def chunk_ok_def)
  have lt: "w_offset c < 2 ^ 64" using assms(1) by (simp add: chunk_ok_def)
  show l: "w_len k = w_offset c - w_offset w"
    using len lt assms(4) by (simp add: k_def keep_left_def width)
  show o: "w_offset k = w_offset w" and "w_char k = w_char w" by (simp_all add: k_def keep_left_def)
  show "w_end k = w_offset c" using l o lt assms(4) by (simp add: w_end_def width)
  show "chunk_ok k" using l o lt len assms(4) by (simp add: chunk_ok_def)
qed

lemma keep_right_ok:
  assumes "chunk_ok c" "chunk_ok w" "overlaps c w" "w_end c < w_end w"
  defines "k \<equiv> keep_right w (w_end c)"
  shows "chunk_ok k" "w_offset k = w_end c" "w_end k = w_end w" "w_char k = w_char w"
    "w_len k = w_end w - w_end c"
proof -
  note e = chunk_end [OF assms(1)] chunk_end [OF assms(2)]
  have len: "w_end w - w_end c < 2 ^ 32"
    using assms(2-4) e by (auto simp: overlaps_def chunk_ok_def)
  show l: "w_len k = w_end w - w_end c"
    using len e assms(4) by (simp add: k_def keep_right_def width)
  show o: "w_offset k = w_end c" and "w_char k = w_char w" by (simp_all add: k_def keep_right_def)
  show "w_end k = w_end w" using l o e assms(4) by (simp add: w_end_def [of k] width)
  show "chunk_ok k" using l o e len assms(4) by (simp add: chunk_ok_def)
qed

lemma remains_ok:
  assumes "chunk_ok c" "chunk_ok w" "overlaps c w" "k \<in> set (remains c w)"
  shows "chunk_ok k" "w_offset w \<le> w_offset k" "w_end k \<le> w_end w" "\<not> overlaps c k"
proof -
  have "k = keep_left w (w_offset c) \<and> w_offset w < w_offset c \<or> k = keep_right w (w_end c) \<and> w_end c < w_end w"
    using assms(4) by (auto simp: remains_def split: if_splits)
  then have "chunk_ok k \<and> w_offset w \<le> w_offset k \<and> w_end k \<le> w_end w \<and> \<not> overlaps c k"
    using keep_left_ok [OF assms(1-3)] keep_right_ok [OF assms(1-3)] chunk_end [OF assms(1)] chunk_end [OF assms(2)]
      assms(3) by (auto simp: overlaps_def)
  then show "chunk_ok k" "w_offset w \<le> w_offset k" "w_end k \<le> w_end w" "\<not> overlaps c k" by simp_all
qed

lemma remains_covers:
  assumes "chunk_ok c" "chunk_ok w" "overlaps c w"
  shows "(\<exists>k \<in> set (remains c w). covers k i \<and> b = w_char k) \<longleftrightarrow> covers w i \<and> \<not> covers c i \<and> b = w_char w"
  using keep_left_ok [OF assms] keep_right_ok [OF assms] chunk_end [OF assms(1)] chunk_end [OF assms(2)] assms(3)
  by (auto simp: remains_def covers_def overlaps_def)

text \<open>Erasing a node, and inserting a disjoint chunk through the recursion guard.\<close>

lemma rb_erase_writes:
  assumes laws: "rb_laws ops" and inv: "vh_inv (writes t)" and at: "rb_subtree p t = Some \<langle>l, a, r\<rangle>"
  shows "vh_inv (writes (rb_erase ops p t))" "set (writes (rb_erase ops p t)) = set (writes t) - {fc_write a}"
    "\<forall>w \<in> set (writes (rb_erase ops p t)). \<not> overlaps (fc_write a) w"
proof -
  let ?b = "map fc_write (rb_before p t)" and ?a = "map fc_write (rb_after p t)"
  have w: "writes t = ?b @ fc_write a # ?a" by (rule writes_at_node [OF at])
  have w': "writes (rb_erase ops p t) = ?b @ ?a" using laws at by (auto simp: rb_laws_def)
  have ok: "chunk_ok (fc_write a)" using inv w by (simp add: vh_inv_def)
  have sep: "\<forall>x \<in> set ?b. w_end x \<le> w_offset (fc_write a)" "\<forall>x \<in> set ?a. w_end (fc_write a) \<le> w_offset x"
    using inv w by (auto simp: vh_inv_def sorted_wrt_append)
  show "vh_inv (writes (rb_erase ops p t))" using inv w w' by (auto simp: vh_inv_def sorted_wrt_append)
  show "\<forall>w \<in> set (writes (rb_erase ops p t)). \<not> overlaps (fc_write a) w"
    using sep unfolding w' overlaps_def by auto
  have "fc_write a \<notin> set (?b @ ?a)" using sep chunk_end [OF ok] by fastforce
  then show "set (writes (rb_erase ops p t)) = set (writes t) - {fc_write a}" using w w' by auto
qed

lemma vh_insert_disjoint:
  assumes "rb_laws ops" "vh_inv (writes t)" "chunk_ok (fc_write c)"
    "\<forall>w \<in> set (writes t). \<not> overlaps (fc_write c) w" "lvl \<le> 1" "2 \<le> fuel"
  shows "\<exists>t'. vh_insert_chunk ops fuel lvl c t = Inr t' \<and> vh_inv (writes t')
     \<and> set (writes t') = insert (fc_write c) (set (writes t))"
proof -
  obtain n where "fuel = Suc (Suc n)" using assms(6) by (metis add_2_eq_Suc le_Suc_ex)
  with vh_restart_disjoint [OF assms(1-4)] assms(5) show ?thesis by simp
qed

text \<open>
  One round that meets a chunk: it is erased, what remains of it is put back, and the search
  starts again with one overlapping chunk less.
\<close>

lemma vh_restart_hit:
  assumes laws: "rb_laws ops" and inv: "vh_inv (writes t)" and c: "chunk_ok (fc_write c)"
    and s: "vh_search (w_offset (fc_write c)) (w_end (fc_write c)) t = (p, Some (tmp, k))"
    and lvl: "lvl \<le> 1" and fuel: "2 \<le> fuel"
  shows "\<exists>t'. vh_restart_search ops (Suc fuel) lvl c t = vh_restart_search ops fuel lvl c t'
     \<and> vh_inv (writes t') \<and> fc_write tmp \<in> set (writes t) \<and> overlaps (fc_write c) (fc_write tmp)
     \<and> set (writes t') = set (writes t) - {fc_write tmp} \<union> set (remains (fc_write c) (fc_write tmp))"
proof -
  let ?c = "fc_write c" and ?w = "fc_write tmp"
  note hit = vh_search_hit [OF s]
  from hit(1) obtain l r where at: "rb_subtree p t = Some \<langle>l, tmp, r\<rangle>" by blast
  have mem: "?w \<in> set (writes t)" using writes_at_node [OF at] by simp
  with inv have w: "chunk_ok ?w" by (simp add: vh_inv_def)
  have ov: "overlaps ?c ?w" using vh_compare_hit [OF c w] hit(2-4) by auto
  define t1 where "t1 = rb_erase ops p t"
  note er = rb_erase_writes [OF laws inv at, folded t1_def]
  note e = chunk_end [OF c] chunk_end [OF w]
  have piece: "\<forall>v \<in> set (writes t1). \<not> overlaps x v" if "x \<in> set (remains ?c ?w)" for x
    using er(3) remains_ok [OF c w ov that] by (fastforce simp: overlaps_def)
  note kl = keep_left_ok [OF c w ov] and kr = keep_right_ok [OF c w ov]
  have one: "\<exists>t'. vh_insert_chunk ops fuel lvl x t1 = Inr t' \<and> vh_inv (writes t')
      \<and> set (writes t') = insert (fc_write x) (set (writes t1))" if "fc_write x \<in> set (remains ?c ?w)" for x
    using vh_insert_disjoint [OF laws er(1) remains_ok(1) [OF c w ov that] piece [OF that] lvl fuel] .
  have "\<exists>t'. vh_restart_search ops (Suc fuel) lvl c t = vh_restart_search ops fuel lvl c t'
     \<and> vh_inv (writes t') \<and> set (writes t') = set (writes t1) \<union> set (remains ?c ?w)"
  proof (cases k)
    case Encompass
    then have "remains ?c ?w = []" using hit(2) by (auto simp: remains_def vh_compare_def split: if_splits)
    with Encompass er show ?thesis using s by (intro exI [of _ t1]) (simp add: Let_def t1_def)
  next
    case Middle
    then have lt: "w_offset ?w < w_offset ?c" "w_end ?c < w_end ?w"
      using hit(2) by (auto simp: vh_compare_def split: if_splits)
    then have rem: "remains ?c ?w = [keep_left ?w (w_offset ?c), keep_right ?w (w_end ?c)]" by (simp add: remains_def)
    let ?l = "tmp\<lparr>fc_write := keep_left ?w (w_offset ?c)\<rparr>"
    let ?r = "\<lparr>fc_write = keep_right ?w (w_end ?c), fc_node = rb_zero ops\<rparr>"
    obtain t2 where t2: "vh_insert_chunk ops fuel lvl ?l t1 = Inr t2" "vh_inv (writes t2)"
      "set (writes t2) = insert (fc_write ?l) (set (writes t1))"
      using one [of ?l] rem by auto
    have "\<forall>v \<in> set (writes t2). \<not> overlaps (fc_write ?r) v"
      using piece [of "fc_write ?r"] rem t2(3) kl(3) [OF lt(1)] kr(2) [OF lt(2)] e by (auto simp: overlaps_def)
    from vh_insert_disjoint [OF laws t2(2) _ this lvl fuel] kr(1) [OF lt(2)]
    obtain t3 where t3: "vh_insert_chunk ops fuel lvl ?r t2 = Inr t3" "vh_inv (writes t3)"
      "set (writes t3) = insert (fc_write ?r) (set (writes t2))" by auto
    show ?thesis using s Middle t2 t3 rem by (intro exI [of _ t3]) (auto simp: Let_def t1_def)
  next
    case Left_straddle
    then have lt: "w_offset ?c \<le> w_offset ?w" "w_end ?c < w_end ?w"
      using hit(2) by (auto simp: vh_compare_def split: if_splits)
    then have rem: "remains ?c ?w = [keep_right ?w (w_end ?c)]" by (simp add: remains_def)
    show ?thesis using one [of "tmp\<lparr>fc_write := keep_right ?w (w_end ?c)\<rparr>"] s Left_straddle rem
      by (auto simp: Let_def t1_def)
  next
    case Right_straddle
    then have lt: "w_offset ?w < w_offset ?c" "w_end ?w \<le> w_end ?c"
      using hit(2) by (auto simp: vh_compare_def split: if_splits)
    then have rem: "remains ?c ?w = [keep_left ?w (w_offset ?c)]" by (simp add: remains_def)
    show ?thesis using one [of "tmp\<lparr>fc_write := keep_left ?w (w_offset ?c)\<rparr>"] s Right_straddle rem
      by (auto simp: Let_def t1_def)
  qed (use hit(3,4) in auto)
  then show ?thesis using er(2) mem ov by auto
qed

lemma vh_map_iff: "(i, b) \<in> vh_map ws \<longleftrightarrow> (\<exists>w \<in> set ws. covers w i \<and> b = w_char w)"
  by (auto simp: vh_map_def)

text \<open>The contents the chunks describe, after a write over them.\<close>

definition map_write :: "write_unit \<Rightarrow> (nat \<times> byte) set \<Rightarrow> (nat \<times> byte) set" where
  "map_write wu m = {(i, b). if covers wu i then b = w_char wu else (i, b) \<in> m}"

lemma disjoint_covers:
  assumes "chunk_ok c" "chunk_ok w" "\<not> overlaps c w" "covers w i"
  shows "\<not> covers c i"
  using chunk_end [OF assms(1)] chunk_end [OF assms(2)] assms(3,4) by (auto simp: overlaps_def covers_def)

lemma map_write_remains:
  assumes "chunk_ok c" "chunk_ok w" "overlaps c w" "w \<in> set ws" "set ws' = set ws - {w} \<union> set (remains c w)"
  shows "map_write c (vh_map ws') = map_write c (vh_map ws)"
proof -
  have "(i, b) \<in> vh_map ws' \<longleftrightarrow> (i, b) \<in> vh_map ws" if "\<not> covers c i" for i b
    using remains_covers [OF assms(1-3), of i b] that assms(4) unfolding vh_map_iff assms(5) by blast
  then show ?thesis by (auto simp: map_write_def)
qed

lemma vh_restart_ok:
  assumes "rb_laws ops" "chunk_ok (fc_write c)" "lvl \<le> 1" "vh_inv (writes t)"
    "card {w \<in> set (writes t). overlaps (fc_write c) w} + 2 \<le> fuel"
  shows "\<exists>t'. vh_restart_search ops fuel lvl c t = Inr t' \<and> vh_inv (writes t')
     \<and> vh_map (writes t') = map_write (fc_write c) (vh_map (writes t))"
  using assms(4,5)
proof (induction fuel arbitrary: t)
  case (Suc fuel)
  let ?c = "fc_write c"
  let ?ov = "\<lambda>t. {w \<in> set (writes t). overlaps ?c w}"
  show ?case
  proof (cases "?ov t = {}")
    case True
    then have dis: "\<forall>w \<in> set (writes t). \<not> overlaps ?c w" by auto
    obtain t' where t': "vh_restart_search ops (Suc fuel) lvl c t = Inr t'" "vh_inv (writes t')"
      "set (writes t') = insert ?c (set (writes t))"
      using vh_restart_disjoint [OF assms(1) Suc.prems(1) assms(2) dis] by blast
    have nc: "\<not> covers ?c i" if "w \<in> set (writes t)" "covers w i" for w i
      by (rule disjoint_covers [OF assms(2) _ _ that(2)]) (use dis that(1) Suc.prems(1) in \<open>auto simp: vh_inv_def\<close>)
    have "vh_map (writes t') = map_write ?c (vh_map (writes t))"
      using nc t'(3) by (auto simp: map_write_def vh_map_def split: if_splits)
    with t' show ?thesis by blast
  next
    case False
    obtain p res where s: "vh_search (w_offset ?c) (w_end ?c) t = (p, res)" by fastforce
    have fin: "finite (?ov t)" by simp
    have "0 < card (?ov t)" using False fin by (simp add: card_gt_0_iff)
    then have f2: "2 \<le> fuel" using Suc.prems(2) by simp
    show ?thesis
    proof (cases res)
      case None
      from vh_search_miss [OF s [unfolded None] assms(2) Suc.prems(1)]
      have "\<forall>w \<in> set (writes t). \<not> overlaps ?c w"
        using inorder_at_leaf [of p t] by (fastforce simp: writes_def overlaps_def simp del: set_inorder)
      with False show ?thesis by auto
    next
      case (Some a)
      then obtain tmp k where k: "res = Some (tmp, k)" by (cases a) auto
      let ?w = "fc_write tmp"
      obtain t1 where t1: "vh_restart_search ops (Suc fuel) lvl c t = vh_restart_search ops fuel lvl c t1"
        "vh_inv (writes t1)" "?w \<in> set (writes t)" "overlaps ?c ?w"
        "set (writes t1) = set (writes t) - {?w} \<union> set (remains ?c ?w)"
        using vh_restart_hit [OF assms(1) Suc.prems(1) assms(2) s [unfolded k] assms(3) f2] by blast
      have w: "chunk_ok ?w" using t1(3) Suc.prems(1) by (simp add: vh_inv_def)
      have ov1: "?ov t1 = ?ov t - {?w}" using t1(5) remains_ok(4) [OF assms(2) w t1(4)] by auto
      have "?w \<in> ?ov t" using t1(3,4) by simp
      from card_Diff1_less [OF fin this] have "card (?ov t1) < card (?ov t)" unfolding ov1 .
      then have "card (?ov t1) + 2 \<le> fuel" using Suc.prems(2) by simp
      from Suc.IH [OF t1(2) this] obtain t' where t': "vh_restart_search ops fuel lvl c t1 = Inr t'"
        "vh_inv (writes t')" "vh_map (writes t') = map_write ?c (vh_map (writes t1))" by blast
      with map_write_remains [OF assms(2) w t1(4,3,5)] t1(1) show ?thesis by auto
    qed
  qed
qed simp

lemma vh_insert_ok:
  assumes "rb_laws ops" "vh_inv (writes t)" "chunk_ok wu"
  shows "\<exists>t'. vh_insert ops wu t = Inr t' \<and> vh_inv (writes t')
     \<and> vh_map (writes t') = map_write wu (vh_map (writes t))"
proof -
  let ?c = "\<lparr>fc_write = wu, fc_node = rb_zero ops\<rparr>"
  have "card {w \<in> set (writes t). overlaps (fc_write ?c) w} \<le> card (set (writes t))"
    by (rule card_mono) auto
  also have "\<dots> \<le> size t" using card_length [of "writes t"] by (simp add: writes_def)
  finally have "card {w \<in> set (writes t). overlaps (fc_write ?c) w} + 2 \<le> size t + 2" by simp
  with vh_restart_ok [of ops ?c 1 t "size t + 2"] assms show ?thesis
    by (simp add: vh_insert_def numeral_3_eq_3)
qed

section \<open>The log becomes a map\<close>

text \<open>
  \<open>vh_read_log\<close> is a reader of the records \<open>fill_holes\<close> writes: the state of its loop is the
  tree (with the tree operations, which do not change).
\<close>

definition vh_rec_ok :: "write_unit \<Rightarrow> bool" where
  "vh_rec_ok wu \<longleftrightarrow> wf_unit wu \<and> chunk_ok wu"

definition vh_step :: "write_unit \<Rightarrow> 'rb rb_ops \<times> 'rb file_chunk tree \<Rightarrow> 'rb rb_ops \<times> 'rb file_chunk tree" where
  "vh_step wu st = (fst st, projr (vh_insert (fst st) (unmagic wu) (snd st)))"

definition vh_state_ok :: "'rb rb_ops \<times> 'rb file_chunk tree \<Rightarrow> bool" where
  "vh_state_ok st \<longleftrightarrow> rb_laws (fst st) \<and> vh_inv (writes (snd st))"

lemma unmagic_fields [simp]: "w_offset (unmagic wu) = w_offset wu" "w_len (unmagic wu) = w_len wu"
  by (simp_all add: unmagic_def)

lemma chunk_ok_unmagic [simp]: "chunk_ok (unmagic wu) = chunk_ok wu"
  by (simp add: chunk_ok_def)

lemma covers_unmagic [simp]: "covers (unmagic wu) = covers wu"
  by (simp add: covers_def fun_eq_iff)

lemma vh_step_ok:
  assumes "vh_rec_ok wu" "vh_state_ok st"
  shows "vh_insert (fst st) (unmagic wu) (snd st) = Inr (snd (vh_step wu st))" "vh_state_ok (vh_step wu st)"
    "vh_map (writes (snd (vh_step wu st))) = map_write (unmagic wu) (vh_map (writes (snd st)))"
proof -
  obtain t' where t': "vh_insert (fst st) (unmagic wu) (snd st) = Inr t'" "vh_inv (writes t')"
    "vh_map (writes t') = map_write (unmagic wu) (vh_map (writes (snd st)))"
    using vh_insert_ok [of "fst st" "snd st" "unmagic wu"] assms by (auto simp: vh_rec_ok_def vh_state_ok_def)
  then show "vh_insert (fst st) (unmagic wu) (snd st) = Inr (snd (vh_step wu st))" "vh_state_ok (vh_step wu st)"
    "vh_map (writes (snd (vh_step wu st))) = map_write (unmagic wu) (vh_map (writes (snd st)))"
    using assms(2) by (simp_all add: vh_step_def vh_state_ok_def)
qed

interpretation vh_log: record_reader show_unit scan_unit_rec vh_rec_ok no_space_first
  "\<lambda>s st. vh_read_log (fst st) s (snd st)" vh_step "\<lambda>st. Inr (0, snd st)" vh_state_ok
proof (unfold_locales, goal_cases)
  case (1 r rest)
  then show ?case by (simp add: vh_rec_ok_def unit_record.scan_show)
next
  case (5 r a s s')
  then obtain ret where "scan_unit s = (ret, Some r, s')"
    by (auto simp: scan_unit_rec_def split: prod.splits)
  moreover have "fst (vh_step r a) = fst a" by (simp add: vh_step_def)
  ultimately show ?case using vh_step_ok(1) [OF 5(1,2)] by (subst vh_read_log.simps) simp
next
  case (6 a)
  then show ?case by (subst vh_read_log.simps) (simp add: scan_unit_def scan_char_def)
next
  case (7 r a)
  then show ?case by (rule vh_step_ok(2))
qed (simp_all add: vh_rec_ok_def unit_record.show_nonempty unit_record.may_follow_Nil unit_record.may_follow_rec)

lemma vh_map_fold:
  assumes "list_all vh_rec_ok us" "vh_state_ok st"
  shows "vh_map (writes (snd (fold vh_step us st))) = fold (map_write \<circ> unmagic) us (vh_map (writes (snd st)))"
  using assms by (induction us arbitrary: st) (simp_all add: vh_step_ok)

lemma fst_fold_vh_step [simp]: "fst (fold vh_step us st) = fst st"
  by (induction us arbitrary: st) (simp_all add: vh_step_def)

lemma vh_read_log_ok:
  assumes "rb_laws ops" "vh_inv (writes t)" "list_all vh_rec_ok us"
  shows "\<exists>t'. vh_read_log ops (stream_open (concat (map show_unit us))) t = Inr (0, t')
     \<and> vh_inv (writes t') \<and> vh_map (writes t') = fold (map_write \<circ> unmagic) us (vh_map (writes t))"
proof (cases "us = []")
  case True
  then show ?thesis using assms
    by (subst vh_read_log.simps) (simp add: stream_open_def scan_unit_def scan_char_def)
next
  case False
  have st: "vh_state_ok (ops, t)" using assms by (simp add: vh_state_ok_def)
  from vh_log.loop_log [OF assms(3) st False] vh_log.fold_inv [OF assms(3) st] vh_map_fold [OF assms(3) st]
  show ?thesis by (auto simp: vh_state_ok_def)
qed

lemma vh_inv_Leaf [simp]: "vh_inv (writes \<langle>\<rangle>)" "vh_map (writes \<langle>\<rangle>) = {}"
  by (simp_all add: writes_def vh_inv_def vh_map_def)

lemma vh_init_tree_ok:
  assumes "rb_laws ops" "0 < n" "n < 2 ^ 32"
  shows "\<exists>t. vh_init_tree ops n = Inr t \<and> vh_inv (writes t) \<and> vh_map (writes t) = {(i, 0) |i. i < n}"
proof -
  let ?w = "\<lparr>w_char = 0, w_offset = 0, w_len = u32 n\<rparr>"
  have "chunk_ok ?w" using assms by (simp add: chunk_ok_def width)
  moreover have "map_write ?w {} = {(i, 0) |i. i < n}" using assms by (auto simp: map_write_def covers_def width)
  ultimately show ?thesis using vh_insert_ok [OF assms(1), of "\<langle>\<rangle>" ?w] by (auto simp: vh_init_tree_def)
qed

section \<open>Checking is comparing\<close>

text \<open>Whatever the kernel answers, a chunk that passes is in the file.\<close>

lemma slice_all_iff:
  "length (take n (drop off f)) = n \<and> list_all (\<lambda>b. b = c) (take n (drop off f)) \<longleftrightarrow>
     (n = 0 \<or> off + n \<le> length f) \<and> (\<forall>i. off \<le> i \<and> i < off + n \<longrightarrow> file_byte f i = c)"
proof (cases "n = 0 \<or> off + n \<le> length f")
  case True
  have "list_all (\<lambda>b. b = c) (take n (drop off f)) \<longleftrightarrow> (\<forall>i<n. file_byte f (off + i) = c)"
    using True by (auto simp: list_all_length file_byte_def)
  also have "\<dots> \<longleftrightarrow> (\<forall>i. off \<le> i \<and> i < off + n \<longrightarrow> file_byte f i = c)"
    by (metis add_less_cancel_left le_add1 le_Suc_ex)
  finally show ?thesis using True by auto
qed auto

definition chunk_in_file :: "content \<Rightarrow> byte \<Rightarrow> nat \<Rightarrow> nat \<Rightarrow> bool" where
  "chunk_in_file f c off len \<longleftrightarrow> (len = 0 \<or> off + len \<le> length f)
     \<and> (\<forall>i. off \<le> i \<and> i < off + len \<longrightarrow> file_byte f i = c)"

lemma chunk_in_file_0 [simp]: "chunk_in_file f c off 0"
  by (auto simp: chunk_in_file_def)

lemma chunk_in_file_split:
  assumes "0 < n" "n \<le> len"
  shows "chunk_in_file f c off len \<longleftrightarrow> chunk_in_file f c off n \<and> chunk_in_file f c (off + n) (len - n)"
proof -
  have "(\<forall>i. off \<le> i \<and> i < off + len \<longrightarrow> file_byte f i = c) \<longleftrightarrow>
     (\<forall>i. off \<le> i \<and> i < off + n \<longrightarrow> file_byte f i = c) \<and>
     (\<forall>i. off + n \<le> i \<and> i < off + n + (len - n) \<longrightarrow> file_byte f i = c)" (is "?a = (?b \<and> ?c)")
  proof
    assume a: ?a
    show "?b \<and> ?c" using a assms(2) by auto
  next
    assume bc: "?b \<and> ?c"
    show ?a
    proof (intro allI impI)
      fix i assume "off \<le> i \<and> i < off + len"
      then show "file_byte f i = c" using bc assms(2) by (cases "i < off + n") auto
    qed
  qed
  then show ?thesis using assms by (auto simp: chunk_in_file_def)
qed

lemma vh_check_loop_round:
  assumes "0 < len"
  defines "n \<equiv> min MAX_WRITE_SIZE len"
  shows "vh_check_loop env f c off len = (case sys_pread env f n off of
         (Inl e, env') \<Rightarrow> (int e, env')
       | (Inr buf, env') \<Rightarrow>
         if length buf \<noteq> n then (int EINVAL, env')
         else if \<not> list_all (\<lambda>b. b = c) buf then (1, env')
         else vh_check_loop env' f c (u64 (off + n)) (len - n))"
proof -
  have "n = (if MAX_WRITE_SIZE < len then MAX_WRITE_SIZE else len)" "n \<noteq> 0"
    using assms(1) by (auto simp: n_def MAX_WRITE_SIZE_def)
  with assms(1) show ?thesis
    by (subst vh_check_loop.simps) (auto simp: Let_def split: prod.splits sum.splits)
qed

lemma vh_check_loop_sound:
  assumes "vh_check_loop env f c off len = (0, env')" "off + len < 2 ^ 64" "env_ok env"
  shows "chunk_in_file f c off len \<and> env_ok env'"
  using assms
proof (induction len arbitrary: env off rule: less_induct)
  case (less len)
  show ?case
  proof (cases "len = 0")
    case False
    define n where "n = min MAX_WRITE_SIZE len"
    have n: "0 < n" "n \<le> len" using False by (auto simp: MAX_WRITE_SIZE_def n_def)
    obtain r env1 where pr: "sys_pread env f n off = (r, env1)" by fastforce
    from less.prems(1) pr False obtain buf where b: "r = Inr buf" "length buf = n" "list_all (\<lambda>b. b = c) buf"
      "vh_check_loop env1 f c (u64 (off + n)) (len - n) = (0, env')"
      using vh_check_loop_round [of len env f c off, folded n_def] sys_pread_InlD [of env f n off _ env1] less.prems(3)
      by (auto simp: env_ok_def EINVAL_def split: sum.splits if_splits)
    have "u64 (off + n) = off + n" using n less.prems(2) by (simp add: width)
    moreover have "env_ok env1" using sys_pread_env [OF pr] less.prems(3) by (simp add: env_ok_tl)
    ultimately have rest: "chunk_in_file f c (off + n) (len - n)" "env_ok env'"
      using less.IH [OF _ b(4)] n less.prems(2) by simp_all
    have "buf = take n (drop off f)"
      using sys_pread_InrD [of env f n off buf env1] pr b(1,2) by auto
    then have "chunk_in_file f c off n"
      using slice_all_iff [of n off f c] b(2,3) unfolding chunk_in_file_def by simp
    with rest show ?thesis using chunk_in_file_split [OF n] by blast
  qed (use less.prems in \<open>simp add: vh_check_loop.simps\<close>)
qed

lemma vh_check_loop_ideal:
  assumes "off + len < 2 ^ 64"
  shows "fst (vh_check_loop [] f c off len) = 0 \<longleftrightarrow> chunk_in_file f c off len" "snd (vh_check_loop [] f c off len) = []"
  using assms
proof (induction len arbitrary: off rule: less_induct)
  case (less len)
  define n where "n = min MAX_WRITE_SIZE len"
  {
    case 1
    show ?case
    proof (cases "len = 0")
      case False
      have n: "0 < n" "n \<le> len" "u64 (off + n) = off + n" "len - n < len" "off + n + (len - n) < 2 ^ 64"
        using False 1 by (auto simp: n_def MAX_WRITE_SIZE_def width)
      have "fst (vh_check_loop [] f c off len) = 0 \<longleftrightarrow>
          chunk_in_file f c off n \<and> fst (vh_check_loop [] f c (off + n) (len - n)) = 0"
        unfolding chunk_in_file_def slice_all_iff [symmetric]
        using False n(3) vh_check_loop_round [of len "[]" f c off, folded n_def] by (auto simp: EINVAL_def)
      then show ?thesis using less.IH(1) [OF n(4,5)] chunk_in_file_split [OF n(1,2)] by blast
    qed (simp add: vh_check_loop.simps)
  next
    case 2
    show ?case
    proof (cases "len = 0")
      case False
      have n: "u64 (off + n) = off + n" "len - n < len" "off + n + (len - n) < 2 ^ 64"
        using False 2 by (auto simp: n_def MAX_WRITE_SIZE_def width)
      then show ?thesis
        using less.IH(2) [OF n(2,3)] False vh_check_loop_round [of len "[]" f c off, folded n_def] by simp
    qed (simp add: vh_check_loop.simps)
  }
qed

definition map_in_file :: "content \<Rightarrow> (nat \<times> byte) set \<Rightarrow> bool" where
  "map_in_file f m \<longleftrightarrow> (\<forall>(i, b) \<in> m. i < length f \<and> file_byte f i = b)"

lemma vh_map_in_file:
  assumes "\<forall>w \<in> set ws. chunk_ok w"
  shows "map_in_file f (vh_map ws) \<longleftrightarrow> (\<forall>w \<in> set ws. chunk_in_file f (w_char w) (w_offset w) (w_len w))"
proof -
  have "chunk_in_file f (w_char w) (w_offset w) (w_len w) \<longleftrightarrow>
      (\<forall>i. covers w i \<longrightarrow> i < length f \<and> file_byte f i = w_char w)" if "w \<in> set ws" for w
  proof
    assume "\<forall>i. covers w i \<longrightarrow> i < length f \<and> file_byte f i = w_char w"
    moreover from this have "covers w (w_offset w + (w_len w - 1)) \<longrightarrow> w_offset w + (w_len w - 1) < length f" by blast
    then have "w_offset w + w_len w \<le> length f" using assms that by (auto simp: covers_def chunk_ok_def)
    ultimately show "chunk_in_file f (w_char w) (w_offset w) (w_len w)"
      by (simp add: chunk_in_file_def covers_def)
  qed (auto simp: chunk_in_file_def covers_def)
  then show ?thesis by (auto simp: map_in_file_def vh_map_def)
qed

lemma vh_check_list_sound:
  assumes "vh_check_list env f ws = 0" "env_ok env" "\<forall>w \<in> set ws. chunk_ok w"
  shows "\<forall>w \<in> set ws. chunk_in_file f (w_char w) (w_offset w) (w_len w)"
  using assms
proof (induction ws arbitrary: env)
  case (Cons w ws)
  obtain ret env' where r: "vh_check_chunk env f w = (ret, env')" by fastforce
  with Cons.prems have "ret = 0" "vh_check_list env' f ws = 0" by (auto simp: EINVAL_def split: if_splits)
  moreover have "w_offset w + w_len w < 2 ^ 64" using Cons.prems(3) by (simp add: chunk_ok_def)
  ultimately have "chunk_in_file f (w_char w) (w_offset w) (w_len w)" "env_ok env'"
    using vh_check_loop_sound r Cons.prems(2) unfolding vh_check_chunk_def by blast+
  with Cons.IH [OF \<open>vh_check_list env' f ws = 0\<close>] Cons.prems(3) show ?case by simp
qed simp

lemma vh_check_list_ideal:
  assumes "\<forall>w \<in> set ws. chunk_ok w"
  shows "vh_check_list [] f ws = 0 \<longleftrightarrow> (\<forall>w \<in> set ws. chunk_in_file f (w_char w) (w_offset w) (w_len w))"
  using assms
proof (induction ws)
  case (Cons w ws)
  obtain ret env' where r: "vh_check_chunk [] f w = (ret, env')" by fastforce
  have "w_offset w + w_len w < 2 ^ 64" using Cons.prems by (simp add: chunk_ok_def)
  from vh_check_loop_ideal [OF this, of f "w_char w"] r
  have "env' = []" "ret = 0 \<longleftrightarrow> chunk_in_file f (w_char w) (w_offset w) (w_len w)" by (simp_all add: vh_check_chunk_def)
  with Cons r show ?case by (simp add: EINVAL_def)
qed simp

section \<open>The whole program\<close>

lemma fst_map_write: "fst ` map_write wu m = {i. covers wu i} \<union> fst ` m"
proof -
  have "(\<exists>b. (i, b) \<in> map_write wu m) \<longleftrightarrow> covers wu i \<or> (\<exists>b. (i, b) \<in> m)" for i
    by (auto simp: map_write_def)
  then show ?thesis unfolding fst_eq_Domain set_eq_iff Un_iff mem_Collect_eq Domain_iff by simp
qed

lemma fst_fold_map_write: "fst ` fold (map_write \<circ> unmagic) us m = fst ` m \<union> {i. \<exists>u \<in> set us. covers u i}"
  by (induction us arbitrary: m) (auto simp: fst_map_write)

text \<open>A list of units replayed over a file of zeros: what the log describes.\<close>

definition replayed :: "write_unit list \<Rightarrow> nat \<Rightarrow> content" where
  "replayed us n = fold unit_write (map unmagic us) (replicate n 0)"

lemma map_of_replay:
  assumes "\<forall>u \<in> set us. w_offset u + w_len u \<le> length g" "m = {(i, file_byte g i) |i. i < length g}"
  shows "fold (map_write \<circ> unmagic) us m
     = {(i, file_byte (fold unit_write (map unmagic us) g) i) |i. i < length g}"
  using assms
proof (induction us arbitrary: g m)
  case (Cons u us)
  let ?g = "unit_write (unmagic u) g"
  have len: "length ?g = length g" using Cons.prems(1) by (simp add: length_unit_write)
  have "map_write (unmagic u) m = {(i, file_byte ?g i) |i. i < length ?g}"
    using Cons.prems by (auto simp: map_write_def covers_def file_byte_unit_write len split: if_splits)
  from Cons.IH [OF _ this] Cons.prems(1) show ?case by (simp add: len)
qed simp

lemma length_fold_inside:
  "\<forall>u \<in> set us. w_offset u + w_len u \<le> length g \<Longrightarrow> length (fold unit_write us g) = length g"
  by (induction us arbitrary: g) (simp_all add: length_unit_write)

lemma length_replay_ge: "length g \<le> length (fold unit_write us g)
    \<and> (\<forall>u \<in> set us. 0 < w_len u \<longrightarrow> w_offset u + w_len u \<le> length (fold unit_write us g))"
proof (induction us arbitrary: g)
  case (Cons u us)
  have "length g \<le> length (unit_write u g)"
    "0 < w_len u \<longrightarrow> w_offset u + w_len u \<le> length (unit_write u g)"
    by (auto simp: unit_write_def buf_simps)
  with Cons.IH [of "unit_write u g"] show ?case by fastforce
qed simp

lemma replay_in_file:
  assumes "list_all vh_rec_ok us"
  shows "map_in_file f (fold (map_write \<circ> unmagic) us {(i, 0) |i. i < length f}) \<longleftrightarrow> f = replayed us (length f)"
proof (cases "\<forall>u \<in> set us. w_offset u + w_len u \<le> length f")
  case True
  let ?z = "replicate (length f) (0 :: byte)"
  have z: "{(i, 0) |i. i < length f} = {(i, file_byte ?z i) |i. i < length ?z}" by (auto simp: file_byte_def)
  have len: "length (fold unit_write (map unmagic us) ?z) = length f"
    using length_fold_inside [of "map unmagic us" ?z] True by simp
  have "map_in_file f (fold (map_write \<circ> unmagic) us {(i, 0) |i. i < length f})
      \<longleftrightarrow> (\<forall>i < length f. file_byte f i = file_byte (replayed us (length f)) i)"
    using map_of_replay [of us ?z, OF _ z] True by (auto simp: map_in_file_def replayed_def)
  also have "\<dots> \<longleftrightarrow> f = replayed us (length f)"
    using len file_eqI [of f "replayed us (length f)"] by (auto simp: replayed_def)
  finally show ?thesis .
next
  case False
  then obtain u where u: "u \<in> set us" "length f < w_offset u + w_len u" by fastforce
  then have "vh_rec_ok u" using assms by (simp add: list_all_iff)
  then have pos: "0 < w_len u" by (simp add: vh_rec_ok_def chunk_ok_def)
  then have "covers u (w_offset u + (w_len u - 1))" "\<not> w_offset u + (w_len u - 1) < length f"
    using u(2) by (auto simp: covers_def)
  then have "\<exists>i \<in> fst ` fold (map_write \<circ> unmagic) us {(i, 0) |i. i < length f}. \<not> i < length f"
    unfolding fst_fold_map_write using u(1) by blast
  then have "\<not> map_in_file f (fold (map_write \<circ> unmagic) us {(i, 0) |i. i < length f})"
    by (auto simp: map_in_file_def)
  moreover have "w_offset u + w_len u \<le> length (replayed us (length f))"
    using length_replay_ge [of "replicate (length f) 0" "map unmagic us"] u(1) pos
    unfolding replayed_def by (auto simp: dest!: bspec [of _ _ "unmagic u"])
  ultimately show ?thesis using u(2) by auto
qed

lemma vh_main_eq:
  fixes ops :: "'rb rb_ops"
  assumes "rb_laws ops" "list_all vh_rec_ok us" "0 < length f" "length f < 2 ^ 32"
  shows "\<exists>t :: 'rb file_chunk tree. vh_inv (writes t) \<and> (map_in_file f (vh_map (writes t)) \<longleftrightarrow> f = replayed us (length f))
     \<and> vh_main ops env (Some (concat (map show_unit us))) (Some f)
        = (if fst (sys_call env) = None \<and> vh_check_file (snd (sys_call env)) f t = 0 then Inr 0 else Inr 1)"
proof -
  obtain t0 where t0: "vh_init_tree ops (length f) = Inr t0" "vh_inv (writes t0)"
    "vh_map (writes t0) = {(i, 0) |i. i < length f}"
    using vh_init_tree_ok [OF assms(1,3,4)] by blast
  obtain t where t: "vh_read_log ops (stream_open (concat (map show_unit us))) t0 = Inr (0, t)"
    "vh_inv (writes t)" "vh_map (writes t) = fold (map_write \<circ> unmagic) us (vh_map (writes t0))"
    using vh_read_log_ok [OF assms(1) t0(2) assms(2)] by blast
  have "map_in_file f (vh_map (writes t)) \<longleftrightarrow> f = replayed us (length f)"
    using replay_in_file [OF assms(2), of f] t(3) t0(3) by simp
  moreover have "vh_main ops env (Some (concat (map show_unit us))) (Some f)
        = (if fst (sys_call env) = None \<and> vh_check_file (snd (sys_call env)) f t = 0 then Inr 0 else Inr 1)"
    using t0(1) t(1) by (auto simp: vh_main_def split: prod.splits option.splits)
  ultimately show ?thesis using t(2) by blast
qed

text \<open>A binary tree without rebalancing satisfies the laws: they can hold.\<close>

fun bst_link :: "dir list \<Rightarrow> 'a \<Rightarrow> 'a tree \<Rightarrow> 'a tree" where
  "bst_link p c \<langle>\<rangle> = \<langle>\<langle>\<rangle>, c, \<langle>\<rangle>\<rangle>"
| "bst_link [] c \<langle>l, a, r\<rangle> = \<langle>l, a, r\<rangle>"
| "bst_link (Rb_left # p) c \<langle>l, a, r\<rangle> = \<langle>bst_link p c l, a, r\<rangle>"
| "bst_link (Rb_right # p) c \<langle>l, a, r\<rangle> = \<langle>l, a, bst_link p c r\<rangle>"

fun bst_join :: "'a tree \<Rightarrow> 'a tree \<Rightarrow> 'a tree" where
  "bst_join \<langle>\<rangle> r = r"
| "bst_join \<langle>l1, a, l2\<rangle> r = \<langle>l1, a, bst_join l2 r\<rangle>"

fun bst_erase :: "dir list \<Rightarrow> 'a tree \<Rightarrow> 'a tree" where
  "bst_erase p \<langle>\<rangle> = \<langle>\<rangle>"
| "bst_erase [] \<langle>l, a, r\<rangle> = bst_join l r"
| "bst_erase (Rb_left # p) \<langle>l, a, r\<rangle> = \<langle>bst_erase p l, a, r\<rangle>"
| "bst_erase (Rb_right # p) \<langle>l, a, r\<rangle> = \<langle>l, a, bst_erase p r\<rangle>"

definition bst_ops :: "unit rb_ops" where
  "bst_ops = \<lparr>rb_link_node = bst_link, rb_insert_color = (\<lambda>p t. t), rb_erase = bst_erase, rb_zero = ()\<rparr>"

lemma inorder_bst_link:
  "rb_subtree p t = Some \<langle>\<rangle> \<Longrightarrow> inorder (bst_link p c t) = rb_before p t @ c # rb_after p t"
  by (induction p c t rule: bst_link.induct) auto

lemma inorder_bst_join: "inorder (bst_join l r) = inorder l @ inorder r"
  by (induction l r rule: bst_join.induct) auto

lemma inorder_bst_erase:
  "rb_subtree p t = Some \<langle>l, a, r\<rangle> \<Longrightarrow> inorder (bst_erase p t) = rb_before p t @ rb_after p t"
  by (induction p t rule: bst_erase.induct) (auto simp: inorder_bst_join)

lemma rb_laws_bst: "rb_laws bst_ops"
  by (auto simp: rb_laws_def bst_ops_def writes_def inorder_bst_link inorder_bst_erase)

text \<open>Evaluation on concrete inputs, with numerals as fuel.\<close>

lemmas vh_fuel_numeral =
  vh_insert_chunk.simps(2) [where fuel = "pred_numeral k", folded numeral_eq_Suc]
  vh_restart_search.simps(2) [where fuel = "pred_numeral k", folded numeral_eq_Suc] for k

lemmas vh_eval = vh_init_tree_def vh_insert_def vh_fuel_numeral w_end_def width bst_ops_def unmagic_def
  vh_compare_def keep_left_def keep_right_def MAGIC_HOLE_CHAR_def RAND_CHAR_START_def

end
