(* ===== verification/Punch_Holes.thy ===== *)
theory Punch_Holes
  imports Verify_Holes
begin

text \<open>
  \<open>programs/fill_verify_holes/punch_holes.c\<close>: it fills a file with runs of characters from its
  start on, then punches random holes into it, logging every write and every hole. The ioctls
  it makes are ocfs2's, not this repository's: \<open>resv\<close> (\<open>OCFS2_IOC_RESVSP64\<close>) and \<open>unresv\<close>
  (\<open>OCFS2_IOC_UNRESVSP64\<close>) are parameters, and \<open>unresv_zero\<close> states what the second promises,
  that the range reads as zeros afterwards and the rest of the file is unchanged.

  The theorems here: the units generated lie inside the file, a run leaves the file that
  replaying its log gives, and the filling loop ends. It also skips parts of the file, against
  what the usage text says.
\<close>

section \<open>Options and state\<close>

record ph_opts =
  ph_max_iter :: nat
  ph_flush_output :: bool
  ph_create_unwritten :: bool
  ph_enable_aio :: bool
  ph_fname :: string
  ph_logname :: "string option"
  ph_replaylogname :: "string option"
  ph_file_size :: nat

definition ph_defaults :: ph_opts where
  "ph_defaults = \<lparr>ph_max_iter = 1000, ph_flush_output = False, ph_create_unwritten = False,
     ph_enable_aio = False, ph_fname = [], ph_logname = None, ph_replaylogname = None, ph_file_size = 0\<rparr>"

definition ph_opt_step :: "char \<times> string \<Rightarrow> ph_opts \<times> bool \<Rightarrow> (ph_opts \<times> bool) option" where
  "ph_opt_step co st = (case co of (c, optarg) \<Rightarrow> (case st of (opt, iter_specified) \<Rightarrow>
     if c = CHR ''f'' then Some (opt\<lparr>ph_flush_output := True\<rparr>, iter_specified)
     else if c = CHR ''u'' then Some (opt\<lparr>ph_create_unwritten := True\<rparr>, iter_specified)
     else if c = CHR ''a'' then Some (opt\<lparr>ph_enable_aio := True\<rparr>, iter_specified)
     else if c = CHR ''i'' then Some (opt\<lparr>ph_max_iter := nat (c_atoi optarg mod 2 ^ 32)\<rparr>, True)
     else if c = CHR ''o'' then Some (opt\<lparr>ph_logname := Some optarg\<rparr>, iter_specified)
     else if c = CHR ''r'' then
       Some (opt\<lparr>ph_replaylogname := Some optarg,
                 ph_max_iter := (if iter_specified then ph_max_iter opt else 2 ^ 32 - 1)\<rparr>, iter_specified)
     else None))"

fun ph_opt_loop :: "(char \<times> string) list \<Rightarrow> ph_opts \<times> bool \<Rightarrow> (ph_opts \<times> bool) option" where
  "ph_opt_loop [] st = Some st"
| "ph_opt_loop (co # cos) st = (case ph_opt_step co st of None \<Rightarrow> None | Some st' \<Rightarrow> ph_opt_loop cos st')"

definition ph_parse_opts :: "(char \<times> string) list \<Rightarrow> string list \<Rightarrow> ph_opts option" where
  "ph_parse_opts cos args = (case ph_opt_loop cos (ph_defaults, False) of
     None \<Rightarrow> None
   | Some (opt, _) \<Rightarrow>
     if length args \<noteq> 2 then None
     else Some (opt\<lparr>ph_fname := args ! 0, ph_file_size := nat (c_atol (args ! 1) mod 2 ^ 64)\<rparr>))"

record ph_state =
  ph_file :: content
  ph_log :: string
  ph_replay :: "stream option"
  ph_rng :: "nat list"
  ph_env :: io_env

definition ph_replay_eof :: "ph_state \<Rightarrow> bool" where
  "ph_replay_eof s = (case ph_replay s of None \<Rightarrow> False | Some st \<Rightarrow> st_eof st)"

definition ph_log_write :: "ph_state \<Rightarrow> write_unit \<Rightarrow> ph_state" where
  "ph_log_write s wu = s\<lparr>ph_log := ph_log s @ show_unit wu\<rparr>"

section \<open>Preparing a unit\<close>

definition ph_get_rand :: "nat \<Rightarrow> nat \<Rightarrow> nat list \<Rightarrow> fault + (nat \<times> nat list)" where
  "ph_get_rand mn mx rs = (if mn = 0 \<and> mx = 0 then Inr (0, rs) else
     case rs of [] \<Rightarrow> Inl Out_of_rand
     | r # rs' \<Rightarrow> if mx = 0 then Inl Div_zero else Inr (u64 (mn + sub64 (r mod mx) mn), rs'))"

lemma ph_get_rand_eq: "ph_get_rand = fh_get_rand"
  by (simp add: fun_eq_iff ph_get_rand_def fh_get_rand_def)

lemma ph_get_rand_shorter:
  "ph_get_rand mn mx rs = Inr (v, rs') \<Longrightarrow> length rs' \<le> length rs"
  "0 < mx \<Longrightarrow> ph_get_rand mn mx rs = Inr (v, rs') \<Longrightarrow> length rs' < length rs"
  by (auto simp: ph_get_rand_def split: if_splits list.splits)

text \<open>The whole function goes round again from the label, the character is drawn anew.\<close>

function ph_prep_rand_write_unit :: "nat \<Rightarrow> nat list \<Rightarrow> fault + (write_unit \<times> nat list)" where
  "ph_prep_rand_write_unit fsize rs = (case ph_get_rand 0 52 rs of
     Inl e \<Rightarrow> Inl e
   | Inr (c, rs1) \<Rightarrow> (case ph_get_rand 0 (sub64 fsize 1) rs1 of
     Inl e \<Rightarrow> Inl e
   | Inr (off, rs2) \<Rightarrow> (case ph_get_rand 1 MAX_WRITE_SIZE rs2 of
     Inl e \<Rightarrow> Inl e
   | Inr (l, rs3) \<Rightarrow>
     let len = (if fsize < u64 (off + u32 l) then u32 (sub64 fsize off) else u32 l);
         wu = \<lparr>w_char = RAND_CHAR_START + of_nat c, w_offset = off, w_len = len\<rparr> in
     if len = 0 then ph_prep_rand_write_unit fsize rs3
     else if sint RAND_CHAR_START \<le> sint (w_char wu) \<and> sint (w_char wu) \<le> 122 \<and> len \<le> MAX_WRITE_SIZE
     then Inr (wu, rs3) else Inl Assertion)))"
  by pat_completeness auto
termination
proof (relation "measure (\<lambda>(n, rs). length rs)", goal_cases)
  case (2 fsize rs p c rs1 q off rs2 r l rs3 len wu)
  then have "length rs3 \<le> length rs2" "length rs2 \<le> length rs1" "length rs1 < length rs"
    using ph_get_rand_shorter by (metis, metis, metis zero_less_numeral)
  then show ?case by simp
qed simp

declare ph_prep_rand_write_unit.simps [simp del]

definition ph_prep_write_unit :: "ph_opts \<Rightarrow> ph_state \<Rightarrow> fault + (write_unit option \<times> ph_state)" where
  "ph_prep_write_unit opt s = (case ph_replay s of
     None \<Rightarrow> (case ph_prep_rand_write_unit (ph_file_size opt) (ph_rng s) of
        Inl e \<Rightarrow> Inl e | Inr (wu, rs) \<Rightarrow> Inr (Some wu, s\<lparr>ph_rng := rs\<rparr>))
   | Some st \<Rightarrow> (case scan_unit st of (ret, wu, st') \<Rightarrow>
        Inr (if ret = 3 then wu else None, s\<lparr>ph_replay := Some st'\<rparr>)))"

section \<open>Filling the file\<close>

text \<open>
  \<open>ph_do_write\<close> returns 0 whatever happened: only the new state is left. A unit longer than
  the buffer of \<open>MAX_WRITE_SIZE\<close> bytes overruns it.
\<close>

definition ph_do_write :: "ph_opts \<Rightarrow> ph_state \<Rightarrow> write_unit \<Rightarrow> fault + ph_state" where
  "ph_do_write opt s wu = (let bs = replicate (w_len wu) (w_char wu) in
     if MAX_WRITE_SIZE < w_len wu then Inl Overrun
     else if ph_enable_aio opt then
       (case aio_write_back (ph_env s) (ph_file s) bs (w_offset wu) of
          Inl e \<Rightarrow> Inl e
        | Inr (ret, f, env) \<Rightarrow> Inr (s\<lparr>ph_file := f, ph_env := env\<rparr>))
     else case sys_pwrite (ph_env s) (ph_file s) bs (w_offset wu) of
         (r, f, env) \<Rightarrow> Inr (s\<lparr>ph_file := f, ph_env := env\<rparr>))"

text \<open>A random unit is moved to the place the loop has reached and cut at the end of the file.\<close>

definition ph_place :: "nat \<Rightarrow> nat \<Rightarrow> write_unit \<Rightarrow> write_unit" where
  "ph_place fsize start wu =
     wu\<lparr>w_offset := start,
        w_len := (if fsize < u64 (start + w_len wu) then u32 (sub64 fsize start) else w_len wu)\<rparr>"

definition ph_pending :: "ph_state \<Rightarrow> nat" where
  "ph_pending s = length (ph_rng s) + (case ph_replay s of None \<Rightarrow> 0 | Some st \<Rightarrow> length (st_rest st))"

lemma ph_prep_rand_round:
  assumes "ph_prep_rand_write_unit n rs = Inr (wu, rs')"
  shows "\<exists>c rs1 off rs2 l rs3. ph_get_rand 0 52 rs = Inr (c, rs1)
     \<and> ph_get_rand 0 (sub64 n 1) rs1 = Inr (off, rs2) \<and> ph_get_rand 1 MAX_WRITE_SIZE rs2 = Inr (l, rs3)
     \<and> (let len = (if n < u64 (off + u32 l) then u32 (sub64 n off) else u32 l) in
        len = 0 \<and> ph_prep_rand_write_unit n rs3 = Inr (wu, rs')
        \<or> 0 < len \<and> rs' = rs3 \<and> wu = \<lparr>w_char = RAND_CHAR_START + of_nat c, w_offset = off, w_len = len\<rparr>)"
proof -
  obtain c rs1 where 1: "ph_get_rand 0 52 rs = Inr (c, rs1)"
    using assms by (subst (asm) ph_prep_rand_write_unit.simps) (auto split: sum.splits)
  obtain off rs2 where 2: "ph_get_rand 0 (sub64 n 1) rs1 = Inr (off, rs2)"
    using assms by (subst (asm) ph_prep_rand_write_unit.simps) (auto simp: 1 split: sum.splits)
  obtain l rs3 where 3: "ph_get_rand 1 MAX_WRITE_SIZE rs2 = Inr (l, rs3)"
    using assms by (subst (asm) ph_prep_rand_write_unit.simps) (auto simp: 1 2 [simplified] split: sum.splits)
  have "let len = (if n < u64 (off + u32 l) then u32 (sub64 n off) else u32 l) in
      len = 0 \<and> ph_prep_rand_write_unit n rs3 = Inr (wu, rs')
      \<or> 0 < len \<and> rs' = rs3 \<and> wu = \<lparr>w_char = RAND_CHAR_START + of_nat c, w_offset = off, w_len = len\<rparr>"
    using assms unfolding ph_prep_rand_write_unit.simps [of n rs] 1 sum.case prod.case 2 3
    by (auto simp: Let_def split: if_splits)
  with 1 2 3 show ?thesis by blast
qed

lemma ph_prep_rand_shorter:
  "ph_prep_rand_write_unit n rs = Inr (wu, rs') \<Longrightarrow> length rs' < length rs"
proof (induction rs rule: length_induct)
  case (1 rs)
  from ph_prep_rand_round [OF "1.prems"] obtain c rs1 off rs2 l rs3 where
    d: "ph_get_rand 0 52 rs = Inr (c, rs1)" "ph_get_rand 0 (sub64 n 1) rs1 = Inr (off, rs2)"
      "ph_get_rand 1 MAX_WRITE_SIZE rs2 = Inr (l, rs3)" "rs' = rs3 \<or> ph_prep_rand_write_unit n rs3 = Inr (wu, rs')"
    by (auto simp: Let_def)
  have "length rs1 < length rs" "length rs2 \<le> length rs1" "length rs3 \<le> length rs2"
    using ph_get_rand_shorter(2) [OF _ d(1)] ph_get_rand_shorter(1) [OF d(2)] ph_get_rand_shorter(1) [OF d(3)] by simp_all
  then have "length rs3 < length rs" by simp
  with "1.IH" d(4) show ?case by (auto intro: less_trans)
qed

lemma ph_prep_write_unit_pending:
  assumes "ph_prep_write_unit opt s = Inr (Some wu, s')"
  shows "ph_pending s' < ph_pending s"
proof (cases "ph_replay s")
  case None
  then show ?thesis using assms
    by (auto simp: ph_prep_write_unit_def ph_pending_def split: sum.splits dest!: ph_prep_rand_shorter)
next
  case (Some st)
  obtain ret u st' where sc: "scan_unit st = (ret, u, st')" by (cases "scan_unit st") auto
  with Some assms have "u = Some wu" "s' = s\<lparr>ph_replay := Some st'\<rparr>"
    by (auto simp: ph_prep_write_unit_def split: if_splits)
  with sc scan_unit_length [of st ret wu st'] Some show ?thesis by (simp add: ph_pending_def)
qed

lemma ph_do_write_pending: "ph_do_write opt s wu = Inr s' \<Longrightarrow> ph_pending s' = ph_pending s"
  by (auto simp: ph_do_write_def ph_pending_def Let_def split: if_splits sum.splits prod.splits)

lemma ph_log_write_pending [simp]: "ph_pending (ph_log_write s wu) = ph_pending s"
  by (simp add: ph_log_write_def ph_pending_def)

text \<open>What \<open>ph_prep_file\<close> returns: a descriptor, \<open>-EINVAL\<close>, or \<open>-1\<close>.\<close>

datatype ph_fd = Fd_open | Fd_einval | Fd_fail

function ph_fill :: "ph_opts \<Rightarrow> nat \<Rightarrow> ph_state \<Rightarrow> fault + (ph_fd \<times> ph_state)" where
  "ph_fill opt start s =
     (if \<not> start < ph_file_size opt then Inr (Fd_open, s) else
      case ph_prep_write_unit opt s of
        Inl e \<Rightarrow> Inl e
      | Inr (None, s1) \<Rightarrow> Inr (Fd_einval, s1)
      | Inr (Some wu0, s1) \<Rightarrow>
        let wu = (if ph_replay s1 = None then ph_place (ph_file_size opt) start wu0 else wu0) in
        if ph_replay s1 = None \<and> w_len wu = 0 then ph_fill opt start s1 else
        (case ph_do_write opt (ph_log_write s1 wu) wu of
           Inl e \<Rightarrow> Inl e
         | Inr s2 \<Rightarrow> ph_fill opt (u64 (start + u64 (w_offset wu + w_len wu))) s2))"
  by pat_completeness auto
termination
proof (relation "measure (\<lambda>(opt, start, s). ph_pending s)", goal_cases)
  case (2 opt start s p o1 s1 wu0 wu)
  then have "ph_pending s1 < ph_pending s" using ph_prep_write_unit_pending by fastforce
  then show ?case by simp
next
  case (3 opt start s p o1 s1 wu0 wu s2)
  then have "ph_pending s1 < ph_pending s" "ph_pending s2 = ph_pending s1"
    using ph_prep_write_unit_pending ph_do_write_pending by fastforce+
  then show ?case by simp
qed simp

declare ph_fill.simps [simp del]

definition ph_prep_file :: "(nat \<Rightarrow> nat \<Rightarrow> content \<Rightarrow> content) \<Rightarrow> ph_opts \<Rightarrow> ph_state \<Rightarrow> fault + (ph_fd \<times> ph_state)" where
  "ph_prep_file resv opt s = (case sys_call (ph_env s) of
     (Some e, env1) \<Rightarrow> Inr (Fd_fail, s\<lparr>ph_env := env1\<rparr>)
   | (None, env1) \<Rightarrow>
     (case (if ph_create_unwritten opt
            then (case sys_call env1 of (Some e, env2) \<Rightarrow> (None, env2)
                  | (None, env2) \<Rightarrow> (Some (resv 0 (ph_file_size opt) []), env2))
            else (Some [], env1)) of
        (None, env2) \<Rightarrow> Inr (Fd_fail, s\<lparr>ph_file := [], ph_env := env2\<rparr>)
      | (Some f1, env2) \<Rightarrow>
        (case sys_ftruncate env2 f1 (ph_file_size opt) of
           (Some e, f2, env3) \<Rightarrow> Inr (Fd_fail, s\<lparr>ph_file := f2, ph_env := env3\<rparr>)
         | (None, f2, env3) \<Rightarrow> ph_fill opt 0 (s\<lparr>ph_file := f2, ph_env := env3\<rparr>))))"

section \<open>Punching\<close>

text \<open>An ioctl on a negative descriptor fails.\<close>

definition ph_punch_hole :: "(nat \<Rightarrow> nat \<Rightarrow> content \<Rightarrow> content) \<Rightarrow> ph_fd \<Rightarrow> ph_state \<Rightarrow> write_unit \<Rightarrow> int \<times> ph_state" where
  "ph_punch_hole unresv fd s wu = (if fd \<noteq> Fd_open then (-1, s) else
     case sys_call (ph_env s) of
       (Some e, env) \<Rightarrow> (-1, s\<lparr>ph_env := env\<rparr>)
     | (None, env) \<Rightarrow> (0, s\<lparr>ph_file := unresv (w_offset wu) (w_len wu) (ph_file s), ph_env := env\<rparr>))"

fun ph_loop :: "(nat \<Rightarrow> nat \<Rightarrow> content \<Rightarrow> content) \<Rightarrow> ph_fd \<Rightarrow> nat \<Rightarrow> ph_opts \<Rightarrow> ph_state \<Rightarrow> fault + (int \<times> ph_state)" where
  "ph_loop unresv fd 0 opt s = Inr (0, s)"
| "ph_loop unresv fd (Suc n) opt s =
     (if ph_replay_eof s then Inr (0, s) else
      case ph_prep_write_unit opt s of
        Inl e \<Rightarrow> Inl e
      | Inr (None, s1) \<Rightarrow> Inr (1, s1)
      | Inr (Some wu0, s1) \<Rightarrow>
        let wu = wu0\<lparr>w_char := MAGIC_HOLE_CHAR\<rparr> in
        (case ph_punch_hole unresv fd (ph_log_write s1 wu) wu of (ret, s2) \<Rightarrow>
           if ret \<noteq> 0 then Inr (1, s2) else ph_loop unresv fd n opt s2))"

definition ph_main :: "(nat \<Rightarrow> nat \<Rightarrow> content \<Rightarrow> content) \<Rightarrow> (nat \<Rightarrow> nat \<Rightarrow> content \<Rightarrow> content) \<Rightarrow> ph_opts
    \<Rightarrow> (string \<Rightarrow> string option) \<Rightarrow> nat list \<Rightarrow> io_env \<Rightarrow> fault + (int \<times> content \<times> string)" where
  "ph_main resv unresv opt replay rng env =
     (case (if ph_logname opt = None then (None, env) else sys_call env) of
        (Some e, env1) \<Rightarrow> Inr (1, [], [])
      | (None, env1) \<Rightarrow>
        (case (case ph_replaylogname opt of
                 None \<Rightarrow> Some None
               | Some nm \<Rightarrow> map_option (\<lambda>t. Some (stream_open t)) (replay nm)) of
           None \<Rightarrow> Inr (1, [], [])
         | Some rpl \<Rightarrow>
           (case ph_prep_file resv opt
               \<lparr>ph_file = [], ph_log = [], ph_replay = rpl, ph_rng = rng, ph_env = env1\<rparr> of
              Inl e \<Rightarrow> Inl e
            | Inr (fd, s) \<Rightarrow>
              if fd = Fd_fail then Inr (1, ph_file s, ph_log s) else
              (case ph_loop unresv fd (ph_max_iter opt) opt s of
                 Inl e \<Rightarrow> Inl e
               | Inr (ret, s') \<Rightarrow> Inr (ret, ph_file s', ph_log s')))))"

section \<open>What a run leaves behind\<close>

lemma ph_prep_rand_ok:
  assumes "ph_prep_rand_write_unit n rs = Inr (wu, rs')" "0 < n" "n < 2 ^ 62"
  shows "unit_ok n wu"
  using assms(1)
proof (induction rs rule: length_induct)
  case (1 rs)
  from ph_prep_rand_round [OF "1.prems"] obtain c rs1 off rs2 l rs3 len where
    d: "ph_get_rand 0 52 rs = Inr (c, rs1)" "ph_get_rand 0 (sub64 n 1) rs1 = Inr (off, rs2)"
      "ph_get_rand 1 MAX_WRITE_SIZE rs2 = Inr (l, rs3)"
      "len = (if n < u64 (off + u32 l) then u32 (sub64 n off) else u32 l)"
      "len = 0 \<and> ph_prep_rand_write_unit n rs3 = Inr (wu, rs') \<or>
       0 < len \<and> wu = \<lparr>w_char = RAND_CHAR_START + of_nat c, w_offset = off, w_len = len\<rparr>"
    by (auto simp: Let_def)
  have "length rs1 < length rs" "length rs2 \<le> length rs1" "length rs3 \<le> length rs2"
    using ph_get_rand_shorter(2) [OF _ d(1)] ph_get_rand_shorter(1) [OF d(2)] ph_get_rand_shorter(1) [OF d(3)] by simp_all
  then have sh: "length rs3 < length rs" by simp
  have v: "c < 52" "off < max 1 (n - 1)" "l < MAX_WRITE_SIZE"
    using fh_get_rand_value [OF d(1) [unfolded ph_get_rand_eq]] fh_get_rand_value [OF d(2) [unfolded ph_get_rand_eq]]
      fh_get_rand_value [OF d(3) [unfolded ph_get_rand_eq]] assms(2,3)
    by (simp_all add: width MAX_WRITE_SIZE_def)
  have "off < n" using v(2) assms(2) by (simp add: max_def split: if_splits)
  then have "off + len \<le> n" "len < MAX_WRITE_SIZE"
    using v(3) d(4) assms(3) by (auto simp: width MAX_WRITE_SIZE_def split: if_splits)
  with d(5) 1 sh rand_letter [OF v(1)] assms(3) show ?case
    by (auto simp: unit_ok_def wf_unit_def MAX_WRITE_SIZE_def)
qed

lemma ph_place_ok:
  assumes "unit_ok n wu" "start < n" "n < 2 ^ 62"
  shows "unit_ok n (ph_place n start wu)"
  using assms by (auto simp: unit_ok_def wf_unit_def ph_place_def MAX_WRITE_SIZE_def width)

lemma ph_do_write_ideal:
  assumes "ph_env s = []" "w_len wu \<le> MAX_WRITE_SIZE"
  shows "ph_do_write opt s wu = Inr (s\<lparr>ph_file := unit_write wu (ph_file s)\<rparr>)"
  using assms by (simp add: ph_do_write_def unit_write_def Let_def aio_write_back_Nil)

lemma ph_prep_write_unit_rand:
  assumes "ph_prep_write_unit opt s = Inr (u, s')" "ph_replay s = None" "0 < ph_file_size opt" "ph_file_size opt < 2 ^ 62"
  shows "\<exists>wu rs. u = Some wu \<and> unit_ok (ph_file_size opt) wu \<and> s' = s\<lparr>ph_rng := rs\<rparr>"
  using assms ph_prep_rand_ok by (auto simp: ph_prep_write_unit_def split: sum.splits)

lemma ph_fill_trace:
  assumes "ph_fill opt start s = Inr (fd, s')" "ph_replay s = None" "ph_env s = []"
    "ph_file_size opt < 2 ^ 62" "ph_file_size opt \<le> length (ph_file s)"
  shows "fd = Fd_open \<and> ph_replay s' = None \<and> ph_env s' = [] \<and> (\<exists>us. list_all (unit_ok (ph_file_size opt)) us
     \<and> ph_log s' = ph_log s @ concat (map show_unit us) \<and> ph_file s' = fold unit_write us (ph_file s))"
  using assms
proof (induction "ph_pending s" arbitrary: s start rule: less_induct)
  case less
  let ?n = "ph_file_size opt"
  show ?case
  proof (cases "start < ?n")
    case False
    with less.prems show ?thesis by (simp add: ph_fill.simps exI [of _ "[]"])
  next
    case True
    with less.prems(1) obtain u s1 where p: "ph_prep_write_unit opt s = Inr (u, s1)"
      by (subst (asm) ph_fill.simps) (auto split: sum.splits)
    from ph_prep_write_unit_rand [OF this less.prems(2) _ less.prems(4)] True
    obtain wu0 rs where w: "u = Some wu0" "unit_ok ?n wu0" "s1 = s\<lparr>ph_rng := rs\<rparr>" by auto
    define wu where "wu = ph_place ?n start wu0"
    have ok: "unit_ok ?n wu" unfolding wu_def by (rule ph_place_ok [OF w(2) True less.prems(4)])
    define s2 where "s2 = (ph_log_write s1 wu)\<lparr>ph_file := unit_write wu (ph_file s)\<rparr>"
    have "ph_do_write opt (ph_log_write s1 wu) wu = Inr s2"
      using ph_do_write_ideal [of "ph_log_write s1 wu" wu opt] ok w(3) less.prems(3)
      by (simp add: ph_log_write_def unit_ok_def s2_def)
    then have nxt: "ph_fill opt (u64 (start + u64 (w_offset wu + w_len wu))) s2 = Inr (fd, s')"
      using less.prems(1,2) True ok unfolding ph_fill.simps [of opt start s]
      by (simp add: p w(1) w(3) wu_def [symmetric] unit_ok_def)
    have "ph_pending s2 < ph_pending s"
      using ph_prep_write_unit_pending p w(1) by (auto simp: s2_def ph_log_write_def ph_pending_def)
    moreover have "length (ph_file s) \<le> length (ph_file s2)" by (simp add: s2_def unit_write_def buf_simps)
    ultimately obtain us where us: "fd = Fd_open" "ph_replay s' = None" "ph_env s' = []" "list_all (unit_ok ?n) us"
      "ph_log s' = ph_log s2 @ concat (map show_unit us)" "ph_file s' = fold unit_write us (ph_file s2)"
      using less.hyps [OF _ nxt] less.prems w(3) by (auto simp: s2_def ph_log_write_def)
    with ok w(3) show ?thesis by (intro conjI exI [of _ "wu # us"]) (auto simp: s2_def ph_log_write_def)
  qed
qed

text \<open>Removing a reserved range: it reads as zeros, and nothing else changes.\<close>

definition unresv_zero :: "(nat \<Rightarrow> nat \<Rightarrow> content \<Rightarrow> content) \<Rightarrow> bool" where
  "unresv_zero unresv \<longleftrightarrow> (\<forall>off len f. off + len \<le> length f \<longrightarrow>
     unresv off len f = file_write off (replicate len 0) f)"

lemma unresv_unit_write:
  assumes "unresv_zero unresv" "w_offset wu + w_len wu \<le> length f" "w_char wu = MAGIC_HOLE_CHAR"
  shows "unresv (w_offset wu) (w_len wu) f = unit_write (unmagic wu) f"
  using assms by (simp add: unresv_zero_def unit_write_def unmagic_def)

lemma unit_ok_unmagic: "unit_ok n wu \<Longrightarrow> unmagic wu = wu"
  by (simp add: unit_ok_def unmagic_def)

definition hole_ok :: "nat \<Rightarrow> write_unit \<Rightarrow> bool" where
  "hole_ok n wu \<longleftrightarrow> wf_unit wu \<and> 0 < w_len wu \<and> w_offset wu + w_len wu \<le> n \<and> w_char wu = MAGIC_HOLE_CHAR"

lemma magic_not_space: "\<not> c_isspace (char_of_byte MAGIC_HOLE_CHAR)"
proof -
  have "(of_char (char_of_byte MAGIC_HOLE_CHAR) :: nat) = 64"
    by (simp add: char_of_byte_def MAGIC_HOLE_CHAR_def RAND_CHAR_START_def of_char_of)
  then show ?thesis by (auto simp: c_isspace_def)
qed

lemma hole_of_unit: "unit_ok n wu \<Longrightarrow> hole_ok n (wu\<lparr>w_char := MAGIC_HOLE_CHAR\<rparr>)"
  by (simp add: unit_ok_def hole_ok_def wf_unit_def magic_not_space)

lemma ph_loop_trace:
  assumes "ph_loop unresv Fd_open n opt s = Inr (0, s')" "unresv_zero unresv" "ph_replay s = None" "ph_env s = []"
    "0 < ph_file_size opt" "ph_file_size opt < 2 ^ 62" "ph_file_size opt \<le> length (ph_file s)"
  shows "\<exists>hs. length hs = n \<and> list_all (hole_ok (ph_file_size opt)) hs
     \<and> ph_log s' = ph_log s @ concat (map show_unit hs) \<and> ph_file s' = fold unit_write (map unmagic hs) (ph_file s)"
  using assms(1,3,4,7)
proof (induction n arbitrary: s)
  case (Suc n)
  let ?n = "ph_file_size opt"
  obtain u s1 where p: "ph_prep_write_unit opt s = Inr (u, s1)"
    using Suc.prems(1,2) by (auto simp: ph_replay_eof_def split: sum.splits)
  obtain wu0 rs where w: "u = Some wu0" "unit_ok ?n wu0" "s1 = s\<lparr>ph_rng := rs\<rparr>"
    using ph_prep_write_unit_rand [OF p Suc.prems(2) assms(5,6)] by auto
  define wu where "wu = wu0\<lparr>w_char := MAGIC_HOLE_CHAR\<rparr>"
  have ok: "hole_ok ?n wu" unfolding wu_def by (rule hole_of_unit [OF w(2)])
  define s2 where "s2 = (ph_log_write s1 wu)\<lparr>ph_file := unit_write (unmagic wu) (ph_file s)\<rparr>"
  have "unresv (w_offset wu) (w_len wu) (ph_file s) = unit_write (unmagic wu) (ph_file s)"
    by (rule unresv_unit_write [OF assms(2)]) (use ok Suc.prems(4) in \<open>auto simp: hole_ok_def\<close>)
  then have "ph_punch_hole unresv Fd_open (ph_log_write s1 wu) wu = (0, s2)"
    using w(3) Suc.prems(3) by (simp add: ph_punch_hole_def ph_log_write_def s2_def)
  then have "ph_loop unresv Fd_open n opt s2 = Inr (0, s')"
    using Suc.prems(1,2) p w(1) by (simp add: ph_replay_eof_def wu_def Let_def)
  moreover have "length (ph_file s) \<le> length (ph_file s2)" by (simp add: s2_def unit_write_def buf_simps)
  ultimately obtain hs where "length hs = n" "list_all (hole_ok ?n) hs"
    "ph_log s' = ph_log s2 @ concat (map show_unit hs)" "ph_file s' = fold unit_write (map unmagic hs) (ph_file s2)"
    using Suc.IH [of s2] Suc.prems w(3) by (auto simp: s2_def ph_log_write_def)
  with ok w(3) show ?case by (intro exI [of _ "wu # hs"]) (auto simp: s2_def ph_log_write_def)
qed auto

lemma ph_main_ideal:
  assumes "resv_zero resv" "ph_replaylogname opt = None"
  shows "ph_main resv unresv opt replay rng [] =
     (case ph_fill opt 0 \<lparr>ph_file = replicate (ph_file_size opt) 0, ph_log = [], ph_replay = None, ph_rng = rng, ph_env = []\<rparr> of
        Inl e \<Rightarrow> Inl e
      | Inr (fd, s) \<Rightarrow> if fd = Fd_fail then Inr (1, ph_file s, ph_log s) else
        (case ph_loop unresv fd (ph_max_iter opt) opt s of
           Inl e \<Rightarrow> Inl e | Inr (ret, s') \<Rightarrow> Inr (ret, ph_file s', ph_log s')))"
  using assms by (cases "ph_logname opt"; cases "ph_create_unwritten opt")
    (simp_all add: ph_main_def ph_prep_file_def resv_zero_def)

lemma ph_main_trace:
  assumes "ph_main resv unresv opt rpl rng [] = Inr (0, f, log)" "resv_zero resv" "unresv_zero unresv"
    "ph_replaylogname opt = None" "0 < ph_file_size opt" "ph_file_size opt < 2 ^ 62"
  shows "\<exists>us. list_all (\<lambda>u. unit_ok (ph_file_size opt) u \<or> hole_ok (ph_file_size opt) u) us
     \<and> log = concat (map show_unit us) \<and> f = replayed us (ph_file_size opt)"
proof -
  let ?n = "ph_file_size opt"
  let ?s = "\<lparr>ph_file = replicate ?n 0, ph_log = [], ph_replay = None, ph_rng = rng, ph_env = []\<rparr>"
  from assms(1) obtain fd s1 where f: "ph_fill opt 0 ?s = Inr (fd, s1)"
    by (auto simp: ph_main_ideal [OF assms(2,4)] split: sum.splits)
  from ph_fill_trace [OF this] assms(6) obtain us where us: "fd = Fd_open" "ph_replay s1 = None" "ph_env s1 = []"
    "list_all (unit_ok ?n) us" "ph_log s1 = concat (map show_unit us)" "ph_file s1 = fold unit_write us (replicate ?n 0)"
    by auto
  from assms(1) f us(1) obtain s2 where l: "ph_loop unresv Fd_open (ph_max_iter opt) opt s1 = Inr (0, s2)"
    "f = ph_file s2" "log = ph_log s2"
    by (auto simp: ph_main_ideal [OF assms(2,4)] split: sum.splits)
  have "?n \<le> length (ph_file s1)"
    using length_fold_unit_write [OF us(4), of "replicate ?n 0"] us(6) by simp
  from ph_loop_trace [OF l(1) assms(3) us(2,3) assms(5,6) this] obtain hs where hs: "list_all (hole_ok ?n) hs"
    "ph_log s2 = ph_log s1 @ concat (map show_unit hs)" "ph_file s2 = fold unit_write (map unmagic hs) (ph_file s1)"
    by auto
  have "map unmagic us = us" using us(4) unit_ok_unmagic by (auto simp: list_all_iff intro!: map_idI)
  then have "f = replayed (us @ hs) ?n" using l(2) hs(3) us(6) by (simp add: replayed_def)
  moreover have "log = concat (map show_unit (us @ hs))" using l(3) hs(2) us(5) by simp
  moreover have "list_all (\<lambda>u. unit_ok ?n u \<or> hole_ok ?n u) (us @ hs)"
    using us(4) hs(1) by (auto simp: list_all_iff)
  ultimately show ?thesis by blast
qed

end
