(* ===== verification/Crc32.thy ===== *)
theory Crc32
  imports Prelude
begin

unbundle bit_operations_syntax

text \<open>
  The CRC-32 of \<open>libocfs2test\<close>: \<open>crc32_checksum\<close> of \<open>file_verify.c\<close> with the table
  \<open>crc32table_le\<close> of \<open>crc32table.h\<close>, for a little-endian machine. The buffer is a list of bytes
  and its address, of which only the two low bits matter: they select how many bytes the first
  loop takes before the loop over 32-bit words.

  The theorems: the word-wise routine is the byte-wise one at every address, the table holds the
  eight-fold division step by the reversed polynomial \<open>0xedb88320\<close>, and so the routine is
  the bit-serial reference definition.
\<close>

section \<open>The routine\<close>

definition crc32table_le :: "32 word list" where
  "crc32table_le = [
    0x00000000, 0x77073096, 0xee0e612c, 0x990951ba, 0x076dc419, 0x706af48f, 0xe963a535, 0x9e6495a3,
    0x0edb8832, 0x79dcb8a4, 0xe0d5e91e, 0x97d2d988, 0x09b64c2b, 0x7eb17cbd, 0xe7b82d07, 0x90bf1d91,
    0x1db71064, 0x6ab020f2, 0xf3b97148, 0x84be41de, 0x1adad47d, 0x6ddde4eb, 0xf4d4b551, 0x83d385c7,
    0x136c9856, 0x646ba8c0, 0xfd62f97a, 0x8a65c9ec, 0x14015c4f, 0x63066cd9, 0xfa0f3d63, 0x8d080df5,
    0x3b6e20c8, 0x4c69105e, 0xd56041e4, 0xa2677172, 0x3c03e4d1, 0x4b04d447, 0xd20d85fd, 0xa50ab56b,
    0x35b5a8fa, 0x42b2986c, 0xdbbbc9d6, 0xacbcf940, 0x32d86ce3, 0x45df5c75, 0xdcd60dcf, 0xabd13d59,
    0x26d930ac, 0x51de003a, 0xc8d75180, 0xbfd06116, 0x21b4f4b5, 0x56b3c423, 0xcfba9599, 0xb8bda50f,
    0x2802b89e, 0x5f058808, 0xc60cd9b2, 0xb10be924, 0x2f6f7c87, 0x58684c11, 0xc1611dab, 0xb6662d3d,
    0x76dc4190, 0x01db7106, 0x98d220bc, 0xefd5102a, 0x71b18589, 0x06b6b51f, 0x9fbfe4a5, 0xe8b8d433,
    0x7807c9a2, 0x0f00f934, 0x9609a88e, 0xe10e9818, 0x7f6a0dbb, 0x086d3d2d, 0x91646c97, 0xe6635c01,
    0x6b6b51f4, 0x1c6c6162, 0x856530d8, 0xf262004e, 0x6c0695ed, 0x1b01a57b, 0x8208f4c1, 0xf50fc457,
    0x65b0d9c6, 0x12b7e950, 0x8bbeb8ea, 0xfcb9887c, 0x62dd1ddf, 0x15da2d49, 0x8cd37cf3, 0xfbd44c65,
    0x4db26158, 0x3ab551ce, 0xa3bc0074, 0xd4bb30e2, 0x4adfa541, 0x3dd895d7, 0xa4d1c46d, 0xd3d6f4fb,
    0x4369e96a, 0x346ed9fc, 0xad678846, 0xda60b8d0, 0x44042d73, 0x33031de5, 0xaa0a4c5f, 0xdd0d7cc9,
    0x5005713c, 0x270241aa, 0xbe0b1010, 0xc90c2086, 0x5768b525, 0x206f85b3, 0xb966d409, 0xce61e49f,
    0x5edef90e, 0x29d9c998, 0xb0d09822, 0xc7d7a8b4, 0x59b33d17, 0x2eb40d81, 0xb7bd5c3b, 0xc0ba6cad,
    0xedb88320, 0x9abfb3b6, 0x03b6e20c, 0x74b1d29a, 0xead54739, 0x9dd277af, 0x04db2615, 0x73dc1683,
    0xe3630b12, 0x94643b84, 0x0d6d6a3e, 0x7a6a5aa8, 0xe40ecf0b, 0x9309ff9d, 0x0a00ae27, 0x7d079eb1,
    0xf00f9344, 0x8708a3d2, 0x1e01f268, 0x6906c2fe, 0xf762575d, 0x806567cb, 0x196c3671, 0x6e6b06e7,
    0xfed41b76, 0x89d32be0, 0x10da7a5a, 0x67dd4acc, 0xf9b9df6f, 0x8ebeeff9, 0x17b7be43, 0x60b08ed5,
    0xd6d6a3e8, 0xa1d1937e, 0x38d8c2c4, 0x4fdff252, 0xd1bb67f1, 0xa6bc5767, 0x3fb506dd, 0x48b2364b,
    0xd80d2bda, 0xaf0a1b4c, 0x36034af6, 0x41047a60, 0xdf60efc3, 0xa867df55, 0x316e8eef, 0x4669be79,
    0xcb61b38c, 0xbc66831a, 0x256fd2a0, 0x5268e236, 0xcc0c7795, 0xbb0b4703, 0x220216b9, 0x5505262f,
    0xc5ba3bbe, 0xb2bd0b28, 0x2bb45a92, 0x5cb36a04, 0xc2d7ffa7, 0xb5d0cf31, 0x2cd99e8b, 0x5bdeae1d,
    0x9b64c2b0, 0xec63f226, 0x756aa39c, 0x026d930a, 0x9c0906a9, 0xeb0e363f, 0x72076785, 0x05005713,
    0x95bf4a82, 0xe2b87a14, 0x7bb12bae, 0x0cb61b38, 0x92d28e9b, 0xe5d5be0d, 0x7cdcefb7, 0x0bdbdf21,
    0x86d3d2d4, 0xf1d4e242, 0x68ddb3f8, 0x1fda836e, 0x81be16cd, 0xf6b9265b, 0x6fb077e1, 0x18b74777,
    0x88085ae6, 0xff0f6a70, 0x66063bca, 0x11010b5c, 0x8f659eff, 0xf862ae69, 0x616bffd3, 0x166ccf45,
    0xa00ae278, 0xd70dd2ee, 0x4e048354, 0x3903b3c2, 0xa7672661, 0xd06016f7, 0x4969474d, 0x3e6e77db,
    0xaed16a4a, 0xd9d65adc, 0x40df0b66, 0x37d83bf0, 0xa9bcae53, 0xdebb9ec5, 0x47b2cf7f, 0x30b5ffe9,
    0xbdbdf21c, 0xcabac28a, 0x53b39330, 0x24b4a3a6, 0xbad03605, 0xcdd70693, 0x54de5729, 0x23d967bf,
    0xb3667a2e, 0xc4614ab8, 0x5d681b02, 0x2a6f2b94, 0xb40bbe37, 0xc30c8ea1, 0x5a05df1b, 0x2d02ef8d]"

definition DO_CRC :: "32 word \<Rightarrow> 32 word \<Rightarrow> 32 word" where
  "DO_CRC crc x = (crc32table_le ! unat ((crc XOR x) AND 255)) XOR drop_bit 8 crc"

fun crc_bytes :: "32 word \<Rightarrow> byte list \<Rightarrow> 32 word" where
  "crc_bytes crc [] = crc"
| "crc_bytes crc (b # bs) = crc_bytes (DO_CRC crc (ucast b)) bs"

text \<open>The alignment loop; its result is the checksum so far and the bytes left.\<close>

fun crc_align :: "nat \<Rightarrow> 32 word \<Rightarrow> byte list \<Rightarrow> 32 word \<times> byte list" where
  "crc_align addr crc [] = (crc, [])"
| "crc_align addr crc (b # bs) =
     (if addr mod 4 = 0 then (crc, b # bs) else crc_align (addr + 1) (DO_CRC crc (ucast b)) bs)"

definition le32 :: "byte \<Rightarrow> byte \<Rightarrow> byte \<Rightarrow> byte \<Rightarrow> 32 word" where
  "le32 b0 b1 b2 b3 = ucast b0 OR push_bit 8 (ucast b1) OR push_bit 16 (ucast b2) OR push_bit 24 (ucast b3)"

fun crc_words :: "32 word \<Rightarrow> byte list \<Rightarrow> 32 word \<times> byte list" where
  "crc_words crc (b0 # b1 # b2 # b3 # bs) =
     crc_words (DO_CRC (DO_CRC (DO_CRC (DO_CRC (crc XOR le32 b0 b1 b2 b3) 0) 0) 0) 0) bs"
| "crc_words crc bs = (crc, bs)"

definition crc32_checksum :: "nat \<Rightarrow> 32 word \<Rightarrow> byte list \<Rightarrow> 32 word" where
  "crc32_checksum addr crc bs =
     (case crc_align addr crc bs of (crc1, bs1) \<Rightarrow>
      (case crc_words crc1 bs1 of (crc2, bs2) \<Rightarrow> crc_bytes crc2 bs2))"

section \<open>The reference\<close>

definition crc_bit :: "32 word \<Rightarrow> 32 word" where
  "crc_bit c = (if bit c 0 then drop_bit 1 c XOR 0xedb88320 else drop_bit 1 c)"

definition crc_ref :: "32 word \<Rightarrow> byte list \<Rightarrow> 32 word" where
  "crc_ref crc bs = foldl (\<lambda>c b. (crc_bit ^^ 8) (c XOR ucast b)) crc bs"

section \<open>Words against bytes\<close>

lemma DO_CRC_xor: "DO_CRC (c XOR w) 0 = DO_CRC c (w AND 255) XOR drop_bit 8 w"
proof -
  have "(c XOR (w AND 255)) AND 255 = (c XOR w) AND 255"
    by (rule bit_word_eqI) (auto simp: bit_simps)
  moreover have "drop_bit 8 (c XOR w) = drop_bit 8 c XOR drop_bit 8 w"
    by (rule bit_word_eqI) (auto simp: bit_simps)
  ultimately show ?thesis by (simp add: DO_CRC_def xor.assoc)
qed

lemma le32_byte:
  "le32 b0 b1 b2 b3 AND 255 = ucast b0"
  "drop_bit 8 (le32 b0 b1 b2 b3) AND 255 = ucast b1"
  "drop_bit 16 (le32 b0 b1 b2 b3) AND 255 = ucast b2"
  "drop_bit 24 (le32 b0 b1 b2 b3) AND 255 = ucast b3"
  "drop_bit 32 (le32 b0 b1 b2 b3) = 0"
proof -
  have m: "bit (255 :: int) n \<longleftrightarrow> n < 8" for n
    using bit_mask_iff [of 8 n, where 'a = int] by (auto simp: mask_eq_exp_minus_1)
  have b: "bit b n \<Longrightarrow> n < 8" for b :: byte and n using bit_imp_le_length [of b n] by simp
  show "le32 b0 b1 b2 b3 AND 255 = ucast b0" "drop_bit 8 (le32 b0 b1 b2 b3) AND 255 = ucast b1"
    "drop_bit 16 (le32 b0 b1 b2 b3) AND 255 = ucast b2"
    "drop_bit 24 (le32 b0 b1 b2 b3) AND 255 = ucast b3"
    "drop_bit 32 (le32 b0 b1 b2 b3) = 0"
    unfolding le32_def
    by (rule bit_word_eqI; auto simp: bit_simps m dest: b)+
qed

lemma DO_CRC_word:
  "DO_CRC (DO_CRC (DO_CRC (DO_CRC (c XOR le32 b0 b1 b2 b3) 0) 0) 0) 0
     = DO_CRC (DO_CRC (DO_CRC (DO_CRC c (ucast b0)) (ucast b1)) (ucast b2)) (ucast b3)"
  by (simp add: DO_CRC_xor le32_byte)

lemma crc_bytes_append: "crc_bytes c (xs @ ys) = crc_bytes (crc_bytes c xs) ys"
  by (induction c xs rule: crc_bytes.induct) simp_all

lemma crc_words_bytes: "crc_words c bs = (c', bs') \<Longrightarrow> crc_bytes c' bs' = crc_bytes c bs"
  by (induction c bs rule: crc_words.induct) (auto simp: DO_CRC_word)

lemma crc_align_bytes: "crc_align a c bs = (c', bs') \<Longrightarrow> crc_bytes c' bs' = crc_bytes c bs"
  by (induction a c bs rule: crc_align.induct) (auto split: if_splits)

lemma crc32_checksum_bytes: "crc32_checksum addr crc bs = crc_bytes crc bs"
  by (auto simp: crc32_checksum_def split: prod.splits dest!: crc_words_bytes crc_align_bytes)

section \<open>The table against the polynomial\<close>

lemma crc_bit_xor: "crc_bit (a XOR b) = crc_bit a XOR crc_bit b"
proof -
  have "bit (a XOR b) 0 \<longleftrightarrow> bit a 0 \<noteq> bit b 0" by (simp only: bit_xor_iff)
  moreover have "drop_bit 1 (a XOR b) = drop_bit 1 a XOR drop_bit 1 b"
    by (rule bit_word_eqI) (auto simp: bit_simps)
  ultimately show ?thesis unfolding crc_bit_def by (auto simp: ac_simps)
qed

lemma crc_bit_pow_xor: "(crc_bit ^^ n) (a XOR b) = (crc_bit ^^ n) a XOR (crc_bit ^^ n) b"
  by (induction n) (simp_all add: crc_bit_xor)

lemma crc_bit_push:
  assumes "Suc n \<le> k"
  shows "crc_bit (push_bit (Suc n) (drop_bit k c)) = push_bit n (drop_bit k c)"
proof -
  have "\<not> bit (push_bit (Suc n) (drop_bit k c) :: 32 word) 0" by (simp only: bit_push_bit_iff) simp
  moreover have "drop_bit 1 (push_bit (Suc n) (drop_bit k c)) = (push_bit n (drop_bit k c) :: 32 word)"
  proof (rule bit_word_eqI)
    fix i assume "i < LENGTH(32)"
    then show "bit (drop_bit 1 (push_bit (Suc n) (drop_bit k c))) i = bit (push_bit n (drop_bit k c) :: 32 word) i"
      using assms bit_imp_le_length [of c "k + (i - n)"]
      by (auto simp: bit_simps simp del: push_bit_Suc)
  qed
  ultimately show ?thesis by (simp add: crc_bit_def del: push_bit_Suc)
qed

lemma crc_bit_pow_push: "n \<le> k \<Longrightarrow> (crc_bit ^^ n) (push_bit n (drop_bit k c)) = drop_bit k c"
  by (induction n) (simp_all add: funpow_swap1 crc_bit_push del: push_bit_Suc)

lemma funpow_8: "(f ^^ 8) x = f (f (f (f (f (f (f (f x)))))))"
  by (simp add: numeral_eq_Suc)


lemma table_entries: "map (crc_bit ^^ 8) [0, 1, 2, 3, 4, 5, 6, 7, 8, 9, 10, 11, 12, 13, 14, 15, 16, 17, 18, 19, 20, 21, 22, 23, 24, 25, 26, 27, 28, 29, 30, 31, 32, 33, 34, 35, 36, 37, 38, 39, 40, 41, 42, 43, 44, 45, 46, 47, 48, 49, 50, 51, 52, 53, 54, 55, 56, 57, 58, 59, 60, 61, 62, 63, 64, 65, 66, 67, 68, 69, 70, 71, 72, 73, 74, 75, 76, 77, 78, 79, 80, 81, 82, 83, 84, 85, 86, 87, 88, 89, 90, 91, 92, 93, 94, 95, 96, 97, 98, 99, 100, 101, 102, 103, 104, 105, 106, 107, 108, 109, 110, 111, 112, 113, 114, 115, 116, 117, 118, 119, 120, 121, 122, 123, 124, 125, 126, 127, 128, 129, 130, 131, 132, 133, 134, 135, 136, 137, 138, 139, 140, 141, 142, 143, 144, 145, 146, 147, 148, 149, 150, 151, 152, 153, 154, 155, 156, 157, 158, 159, 160, 161, 162, 163, 164, 165, 166, 167, 168, 169, 170, 171, 172, 173, 174, 175, 176, 177, 178, 179, 180, 181, 182, 183, 184, 185, 186, 187, 188, 189, 190, 191, 192, 193, 194, 195, 196, 197, 198, 199, 200, 201, 202, 203, 204, 205, 206, 207, 208, 209, 210, 211, 212, 213, 214, 215, 216, 217, 218, 219, 220, 221, 222, 223, 224, 225, 226, 227, 228, 229, 230, 231, 232, 233, 234, 235, 236, 237, 238, 239, 240, 241, 242, 243, 244, 245, 246, 247, 248, 249, 250, 251, 252, 253, 254, 255] = crc32table_le"
  by (simp only: list.map funpow_8, simp add: crc_bit_def, simp add: crc32table_le_def)

lemma upt_256: "map of_nat [0..<256] = [0 :: 32 word, 1, 2, 3, 4, 5, 6, 7, 8, 9, 10, 11, 12, 13, 14, 15, 16, 17, 18, 19, 20, 21, 22, 23, 24, 25, 26, 27, 28, 29, 30, 31, 32, 33, 34, 35, 36, 37, 38, 39, 40, 41, 42, 43, 44, 45, 46, 47, 48, 49, 50, 51, 52, 53, 54, 55, 56, 57, 58, 59, 60, 61, 62, 63, 64, 65, 66, 67, 68, 69, 70, 71, 72, 73, 74, 75, 76, 77, 78, 79, 80, 81, 82, 83, 84, 85, 86, 87, 88, 89, 90, 91, 92, 93, 94, 95, 96, 97, 98, 99, 100, 101, 102, 103, 104, 105, 106, 107, 108, 109, 110, 111, 112, 113, 114, 115, 116, 117, 118, 119, 120, 121, 122, 123, 124, 125, 126, 127, 128, 129, 130, 131, 132, 133, 134, 135, 136, 137, 138, 139, 140, 141, 142, 143, 144, 145, 146, 147, 148, 149, 150, 151, 152, 153, 154, 155, 156, 157, 158, 159, 160, 161, 162, 163, 164, 165, 166, 167, 168, 169, 170, 171, 172, 173, 174, 175, 176, 177, 178, 179, 180, 181, 182, 183, 184, 185, 186, 187, 188, 189, 190, 191, 192, 193, 194, 195, 196, 197, 198, 199, 200, 201, 202, 203, 204, 205, 206, 207, 208, 209, 210, 211, 212, 213, 214, 215, 216, 217, 218, 219, 220, 221, 222, 223, 224, 225, 226, 227, 228, 229, 230, 231, 232, 233, 234, 235, 236, 237, 238, 239, 240, 241, 242, 243, 244, 245, 246, 247, 248, 249, 250, 251, 252, 253, 254, 255]"
  by (simp add: upt_conv_Cons)

lemma table_entry: "n < 256 \<Longrightarrow> crc32table_le ! n = (crc_bit ^^ 8) (of_nat n)"
  unfolding table_entries [symmetric] upt_256 [symmetric] by simp

lemma DO_CRC_ref: "DO_CRC c (ucast b) = (crc_bit ^^ 8) (c XOR ucast b)" for b :: byte
proof -
  let ?x = "c XOR ucast b"
  have m: "bit (255 :: int) n \<longleftrightarrow> n < 8" for n
    using bit_mask_iff [of 8 n, where 'a = int] by (auto simp: mask_eq_exp_minus_1)
  have b: "bit b n \<Longrightarrow> n < 8" for n using bit_imp_le_length [of b n] by simp
  have split: "?x = (?x AND 255) XOR push_bit 8 (drop_bit 8 ?x)"
    by (rule bit_word_eqI) (auto simp: bit_simps m)
  have hi: "drop_bit 8 ?x = drop_bit 8 c"
    by (rule bit_word_eqI) (auto simp: bit_simps dest: b)
  have "?x AND 255 = take_bit 8 ?x" by (rule bit_word_eqI) (auto simp: bit_simps m)
  then have lt: "unat (?x AND 255) < 256"
    using unsigned_take_bit_eq [of 8 ?x, where 'a = nat] take_bit_nat_less_exp [of 8 "unat ?x"] by simp
  have "(crc_bit ^^ 8) ?x = (crc_bit ^^ 8) (?x AND 255) XOR (crc_bit ^^ 8) (push_bit 8 (drop_bit 8 ?x))"
    by (subst split) (rule crc_bit_pow_xor)
  also have "(crc_bit ^^ 8) (?x AND 255) = crc32table_le ! unat (?x AND 255)"
    using table_entry [OF lt] by simp
  also have "(crc_bit ^^ 8) (push_bit 8 (drop_bit 8 ?x)) = drop_bit 8 c"
    unfolding hi by (rule crc_bit_pow_push) simp
  finally show ?thesis by (simp add: DO_CRC_def)
qed

lemma crc_bytes_ref: "crc_bytes crc bs = crc_ref crc bs"
  by (induction crc bs rule: crc_bytes.induct) (simp_all add: crc_ref_def DO_CRC_ref)

text \<open>
  C7. The optimised checksum (a loop to align the address, a loop over 32-bit words, a loop over
  the rest) equals, at every address and for every buffer, the bit-serial division by the
  reversed CRC-32 polynomial.
\<close>

theorem crc32_checksum_reference: "crc32_checksum addr crc bs = crc_ref crc bs"
  by (simp add: crc32_checksum_bytes crc_bytes_ref)

end
