(* ===== verification/File_Verify.thy ===== *)
theory File_Verify
  imports Crc32 Fill_Holes
begin

text \<open>
  \<open>libocfs2test/file_verify.c\<close>: files made of self-describing chunks. A chunk holds its number,
  a time stamp, a checksum, a run of one character, and the three fields again in reverse order;
  writers log every chunk they write, and \<open>verify_file\<close> compares a file with such a log.

  The \<open>struct write_unit\<close> of this file is the record \<open>cwu\<close>; buffers are byte lists, little-endian
  fields are read and written by \<open>le_val\<close> and \<open>le_bytes\<close>. The static functions \<open>read_at\<close> and
  \<open>write_at\<close> have the loops of those of \<open>file_ops.c\<close>, whose definitions are used here.
  The contents of a buffer fresh from \<open>malloc\<close> are a parameter (\<open>junk\<close>), and so are the results of
  \<open>rand()\<close> and \<open>gettimeofday()\<close>.

  The theorems: the layout of a chunk, that reading back its fields gives what was written, what
  the verification of a log decides, and what it does not look at.
\<close>

section \<open>Random values and transfers\<close>

record cwu =
  wu_chunk_no :: nat
  wu_timestamp :: nat
  wu_chunksize :: nat
  wu_checksum :: "32 word"
  wu_char :: byte

definition cwu_zero :: cwu where
  "cwu_zero = \<lparr>wu_chunk_no = 0, wu_timestamp = 0, wu_chunksize = 0, wu_checksum = 0, wu_char = 0\<rparr>"

definition fv_get_rand_ul :: "nat \<Rightarrow> nat \<Rightarrow> nat \<Rightarrow> fault + nat" where
  "fv_get_rand_ul mn mx r = (if mn = 0 \<and> mx = 0 then Inr 0
     else let d = u64 (sub64 mx mn + 1) in if d = 0 then Inl Div_zero else Inr (u64 (mn + r mod d)))"

definition fv_rand_char :: "nat \<Rightarrow> fault + byte" where
  "fv_rand_char r = (case fv_get_rand_ul 0 25 r of Inl e \<Rightarrow> Inl e | Inr v \<Rightarrow> Inr (65 + of_nat v))"

definition fv_get_i_size :: "io_env \<Rightarrow> fs \<Rightarrow> string \<Rightarrow> int \<times> nat \<times> io_env" where
  "fv_get_i_size env vol fnam = (case sys_open_ro env vol fnam of
     (Inl e, env1) \<Rightarrow> (-1, 0, env1)
   | (Inr f, env1) \<Rightarrow> (case sys_call env1 of
        (Some e, env2) \<Rightarrow> (int e, 0, env2)
      | (None, env2) \<Rightarrow> (0, length f, env2)))"

text \<open>\<open>read_at\<close>: the count is cut at the size of the file before anything is read.\<close>

definition fv_read_at :: "nat \<Rightarrow> io_env \<Rightarrow> content \<Rightarrow> nat \<Rightarrow> nat \<Rightarrow> nat \<Rightarrow> fault + (int \<times> byte list \<times> io_env)" where
  "fv_read_at fuel env f count off i_size =
     (let count = (if i_size < off + count \<and> off \<le> i_size then i_size - off else count) in
      if count = 0 then Inr (0, [], env) else
      (case read_at fuel env f count off of
         Inl e \<Rightarrow> Inl e
       | Inr (ret, bs, env') \<Rightarrow> Inr (if ret < 0 then -1 else to_int32 (int count), bs, env')))"

definition fv_write_at :: "io_env \<Rightarrow> content \<Rightarrow> byte list \<Rightarrow> nat \<Rightarrow> int \<times> content \<times> io_env" where
  "fv_write_at env f bs off = (case write_at env f bs off of
     (ret, f', env') \<Rightarrow> (if ret < 0 then -1 else to_int32 (int (length bs)), f', env'))"

section \<open>Chunks\<close>

text \<open>
  The stores of \<open>fill_chunk_pattern\<close> in their order. A chunk size below 40 makes the length of
  the character run wrap around and the \<open>memset\<close> run past the buffer.
\<close>

definition fill_chunk_pattern :: "cwu \<Rightarrow> fault + (byte list \<times> cwu)" where
  "fill_chunk_pattern wu = (let chunksize = wu_chunksize wu in
     if chunksize < 40 then Inl Overrun else
     let p = replicate chunksize 0;
         p = patch 0 (le_bytes 8 (wu_chunk_no wu)) p;
         p = patch 8 (le_bytes 8 (wu_timestamp wu)) p;
         p = patch 20 (replicate (chunksize - 40) (wu_char wu)) p;
         checksum = crc32_checksum 20 (- 1) (take (chunksize - 40) (drop 20 p));
         off = chunksize - 20;
         p = patch off (le_bytes 4 (unat checksum)) p;
         p = patch (off + 4) (le_bytes 8 (wu_timestamp wu)) p;
         p = patch (off + 12) (le_bytes 8 (wu_chunk_no wu)) p;
         p = patch 16 (le_bytes 4 (unat checksum)) p
     in Inr (p, wu\<lparr>wu_checksum := checksum\<rparr>))"

definition le_field :: "nat \<Rightarrow> nat \<Rightarrow> byte list \<Rightarrow> nat" where
  "le_field off n p = le_val (take n (drop off p))"

text \<open>The leading copies of the fields are read first and overwritten by the trailing ones.\<close>

definition dump_pattern :: "byte list \<Rightarrow> nat \<Rightarrow> fault + cwu" where
  "dump_pattern p chunksize = (if chunksize < 21 \<or> length p < chunksize then Inl Overrun else
     let wu = cwu_zero\<lparr>wu_chunksize := chunksize\<rparr>;
         wu = wu\<lparr>wu_chunk_no := le_field 0 8 p, wu_timestamp := le_field 8 8 p,
                 wu_checksum := of_nat (le_field 16 4 p), wu_char := p ! 20\<rparr>;
         off = chunksize - 20;
         wu = wu\<lparr>wu_checksum := of_nat (le_field off 4 p), wu_timestamp := le_field (off + 4) 8 p,
                 wu_chunk_no := le_field (off + 12) 8 p\<rparr>
     in Inr wu)"

definition verify_chunk_pattern :: "byte list \<Rightarrow> cwu \<Rightarrow> fault + (bool \<times> cwu)" where
  "verify_chunk_pattern p wu = (case fill_chunk_pattern wu of
     Inl e \<Rightarrow> Inl e
   | Inr (tmp, wu') \<Rightarrow> Inr (take (wu_chunksize wu) p = tmp, wu'))"

definition prep_rand_dest_write_unit :: "nat \<Rightarrow> nat \<Rightarrow> nat \<Rightarrow> nat \<Rightarrow> fault + cwu" where
  "prep_rand_dest_write_unit r now chunk_no chunksize = (case fv_rand_char r of
     Inl e \<Rightarrow> Inl e
   | Inr c \<Rightarrow> (case fill_chunk_pattern \<lparr>wu_chunk_no = chunk_no, wu_timestamp = now, wu_chunksize = chunksize,
                     wu_checksum = 0, wu_char = c\<rparr> of
        Inl e \<Rightarrow> Inl e
      | Inr (_, wu) \<Rightarrow> Inr wu))"

definition do_write_chunk :: "io_env \<Rightarrow> content \<Rightarrow> cwu \<Rightarrow> fault + (int \<times> content \<times> io_env)" where
  "do_write_chunk env f wu = (case fill_chunk_pattern wu of
     Inl e \<Rightarrow> Inl e
   | Inr (p, _) \<Rightarrow> Inr (fv_write_at env f p (u64 (wu_chunksize wu * wu_chunk_no wu))))"

text \<open>\<open>Inr (ret, None, _)\<close>: the unit was not filled in.\<close>

definition do_read_chunk :: "nat \<Rightarrow> (nat \<Rightarrow> byte list) \<Rightarrow> io_env \<Rightarrow> content \<Rightarrow> nat \<Rightarrow> nat
    \<Rightarrow> fault + (int \<times> cwu option \<times> io_env)" where
  "do_read_chunk fuel junk env f chunk_no chunksize = (case sys_call env of
     (Some e, env1) \<Rightarrow> Inr (int e, None, env1)
   | (None, env1) \<Rightarrow>
     (case fv_read_at fuel env1 f chunksize (u64 (chunksize * chunk_no)) (length f) of
        Inl e \<Rightarrow> Inl e
      | Inr (ret, bs, env2) \<Rightarrow>
        if ret < 0 then Inr (ret, None, env2) else
        (case dump_pattern (bs @ drop (length bs) (junk chunk_no)) chunksize of
           Inl e \<Rightarrow> Inl e
         | Inr wu \<Rightarrow> Inr (ret, Some wu, env2))))"

text \<open>
  The loop of \<open>prep_orig_file_in_chunks\<close>; the list holds the results of \<open>rand()\<close> and the times, one
  pair per chunk. A failed write ends the loop, and the function returns 0 all the same.
\<close>

fun prep_orig_loop :: "(nat \<times> nat) list \<Rightarrow> io_env \<Rightarrow> content \<Rightarrow> nat \<Rightarrow> nat \<Rightarrow> nat \<Rightarrow> nat
    \<Rightarrow> fault + (content \<times> io_env)" where
  "prep_orig_loop rts env f off filesize chunk_no chunksize =
     (if \<not> off < filesize then Inr (f, env) else
      case rts of [] \<Rightarrow> Inl Out_of_rand
      | (r, now) # rts' \<Rightarrow>
        (case prep_rand_dest_write_unit r now chunk_no chunksize of
           Inl e \<Rightarrow> Inl e
         | Inr wu \<Rightarrow> (case do_write_chunk env f wu of
              Inl e \<Rightarrow> Inl e
            | Inr (ret, f', env') \<Rightarrow>
              if ret < 0 then Inr (f', env')
              else prep_orig_loop rts' env' f' (u64 (off + chunksize)) filesize (u64 (chunk_no + 1)) chunksize)))"

declare prep_orig_loop.simps [simp del]

definition prep_orig_file_in_chunks :: "(nat \<times> nat) list \<Rightarrow> io_env \<Rightarrow> fs \<Rightarrow> string \<Rightarrow> nat \<Rightarrow> nat
    \<Rightarrow> fault + (int \<times> fs \<times> io_env)" where
  "prep_orig_file_in_chunks rts env vol fnam filesize chunksize = (case sys_open_creat env vol fnam of
     (Inl e, env1) \<Rightarrow> Inr (-1, vol, env1)
   | (Inr f, env1) \<Rightarrow> (case prep_orig_loop rts env1 f 0 filesize 0 chunksize of
        Inl e \<Rightarrow> Inl e
      | Inr (f', env2) \<Rightarrow> Inr (0, vol(fnam \<mapsto> f'), env2)))"

section \<open>The log\<close>

text \<open>\<open>%lu\t%llu\t%d\t%c\n\<close>: the checksum is printed as a signed number.\<close>

definition show_cwu :: "cwu \<Rightarrow> string" where
  "show_cwu wu = show_dec (wu_chunk_no wu) @ CHR 0x09 # show_dec (wu_timestamp wu) @ CHR 0x09
     # show_int (sint (wu_checksum wu)) @ [CHR 0x09, char_of_byte (wu_char wu), CHR 0x0A]"

text \<open>
  \<open>log_write\<close>: to a local log the record is appended, and 0 returned; to a socket it is sent with
  its terminating zero, and the number of bytes sent (or \<open>-EINVAL\<close>) returned.
\<close>

definition log_write :: "io_env \<Rightarrow> bool \<Rightarrow> string \<Rightarrow> cwu \<Rightarrow> int \<times> string \<times> io_env" where
  "log_write env remote log wu = (if remote then
       let rec = take 1023 (show_cwu wu) @ [CHR 0x00] in
       (case sys_pwrite env (map byte_of_char log) (map byte_of_char rec) (length log) of
          (Inl e, f, env') \<Rightarrow> (- int EINVAL, log, env')
        | (Inr n, f, env') \<Rightarrow> (int n, map char_of_byte f, env'))
     else (0, log @ show_cwu wu, env))"

definition open_logfile :: "io_env \<Rightarrow> string option \<Rightarrow> int \<times> io_env" where
  "open_logfile env logn = (case logn of None \<Rightarrow> (0, env) | Some _ \<Rightarrow>
     (case sys_call env of (Some e, env') \<Rightarrow> (- int EINVAL, env') | (None, env') \<Rightarrow> (0, env')))"

text \<open>\<open>fscanf("%s\t%s\t%s\t%s\n")\<close>.\<close>

definition scan_args :: "stream \<Rightarrow> (string \<times> string \<times> string \<times> string) option \<times> stream" where
  "scan_args s = (case scan_word s of
     (Scan_ok a1, s1) \<Rightarrow> (case scan_word (skip_ws s1) of
        (Scan_ok a2, s2) \<Rightarrow> (case scan_word (skip_ws s2) of
           (Scan_ok a3, s3) \<Rightarrow> (case scan_word (skip_ws s3) of
              (Scan_ok a4, s4) \<Rightarrow> (Some (a1, a2, a3, a4), skip_ws s4)
            | (_, s4) \<Rightarrow> (None, s4))
         | (_, s3) \<Rightarrow> (None, s3))
      | (_, s2) \<Rightarrow> (None, s2))
   | (_, s1) \<Rightarrow> (None, s1))"

definition args_cwu :: "nat \<Rightarrow> string \<times> string \<times> string \<times> string \<Rightarrow> cwu" where
  "args_cwu chunksize a = (case a of (a1, a2, a3, a4) \<Rightarrow>
     \<lparr>wu_chunk_no = nat (c_atol a1 mod 2 ^ 64), wu_timestamp = nat (c_atol a2 mod 2 ^ 64),
      wu_chunksize = chunksize, wu_checksum = word_of_int (c_atoi a3), wu_char = byte_of_char (hd a4)\<rparr>)"

definition args_fit :: "string \<times> string \<times> string \<times> string \<Rightarrow> bool" where
  "args_fit a = (case a of (a1, a2, a3, a4) \<Rightarrow> list_all (\<lambda>w. length w < 100) [a1, a2, a3, a4])"

text \<open>A record replaces the entry of its chunk unless that has a later time stamp.\<close>

definition wus_update :: "cwu \<Rightarrow> cwu list \<Rightarrow> cwu list" where
  "wus_update wu wus = (if wu_timestamp (wus ! wu_chunk_no wu) \<le> wu_timestamp wu
     then wus[wu_chunk_no wu := wu] else wus)"

lemma scan_args_length:
  assumes "scan_args s = (Some a, s')"
  shows "length (st_rest s') < length (st_rest s)"
proof -
  obtain a1 s1 a2 s2 a3 s3 a4 s4 where st: "scan_word s = (Scan_ok a1, s1)" "scan_word (skip_ws s1) = (Scan_ok a2, s2)"
    "scan_word (skip_ws s2) = (Scan_ok a3, s3)" "scan_word (skip_ws s3) = (Scan_ok a4, s4)" "s' = skip_ws s4"
    using assms by (auto simp: scan_args_def split: prod.splits scan.splits)
  show ?thesis
    using st(1-4) [THEN scan_word_length] skip_ws_length [of s1] skip_ws_length [of s2] skip_ws_length [of s3]
      skip_ws_length [of s4] st(5) by simp
qed

text \<open>
  The loop over the log. \<open>Inr (Some ret, _)\<close> is a return from the function. The check of the chunk
  number lets the number of chunks itself pass, which is one past the end of the array.
\<close>

function fv_read_log :: "nat \<Rightarrow> nat \<Rightarrow> stream \<Rightarrow> cwu list \<Rightarrow> fault + (int option \<times> cwu list)" where
  "fv_read_log num_chunks chunksize s wus =
     (if st_eof s then Inr (None, wus) else
      (case scan_args s of
         (None, s') \<Rightarrow> Inr (Some (- int EINVAL), wus)
       | (Some a, s') \<Rightarrow>
         if \<not> args_fit a then Inl Overrun else
         let wu = args_cwu chunksize a in
         if num_chunks < wu_chunk_no wu then Inr (Some (- int EINVAL), wus)
         else if \<not> wu_chunk_no wu < length wus then Inl Overrun
         else fv_read_log num_chunks chunksize s' (wus_update wu wus)))"
  by pat_completeness auto
termination
  by (relation "measure (\<lambda>(n, c, s, wus). length (st_rest s))") (auto dest: scan_args_length [OF sym])

declare fv_read_log.simps [simp del]

section \<open>Verifying a file\<close>

text \<open>The body of the \<open>for\<close> loop: \<open>None\<close> goes on with the next chunk, \<open>Some ret\<close> returns.\<close>

definition verify_chunk :: "nat \<Rightarrow> cwu \<Rightarrow> int \<Rightarrow> nat \<Rightarrow> cwu \<Rightarrow> fault + int option" where
  "verify_chunk chunksize ewu ret i wu =
     (if wu_timestamp ewu = 0 then
        if wu_timestamp wu = 0 then Inr None
        else if wu_chunk_no wu \<noteq> i then Inr (Some (- int EINVAL))
        else (case fill_chunk_pattern wu of
           Inl e \<Rightarrow> Inl e
         | Inr (_, ewu') \<Rightarrow> if wu_checksum wu \<noteq> wu_checksum ewu' then Inr (Some (-1)) else Inr None)
      else if ret < int chunksize then Inr (Some (-1))
      else (case fill_chunk_pattern wu of
         Inl e \<Rightarrow> Inl e
       | Inr (p, _) \<Rightarrow> (case verify_chunk_pattern p ewu of
            Inl e \<Rightarrow> Inl e
          | Inr (match, _) \<Rightarrow> if match then Inr None else Inr (Some (-1)))))"

function verify_body :: "nat \<Rightarrow> (nat \<Rightarrow> byte list) \<Rightarrow> io_env \<Rightarrow> content \<Rightarrow> nat \<Rightarrow> cwu list \<Rightarrow> nat \<Rightarrow> nat \<Rightarrow> fault + int" where
  "verify_body fuel junk env f i_size wus chunksize i =
     (if \<not> i < length wus then Inr 0
      else if i_size \<le> u64 (i * chunksize) then Inr 0
      else (case do_read_chunk fuel junk env f i chunksize of
         Inl e \<Rightarrow> Inl e
       | Inr (ret, owu, env') \<Rightarrow>
         if ret < 0 then Inr ret else
         (case verify_chunk chunksize (wus ! i) ret i (case owu of None \<Rightarrow> cwu_zero | Some wu \<Rightarrow> wu) of
            Inl e \<Rightarrow> Inl e
          | Inr (Some r) \<Rightarrow> Inr r
          | Inr None \<Rightarrow> verify_body fuel junk env' f i_size wus chunksize (i + 1))))"
  by pat_completeness auto
termination by (relation "measure (\<lambda>(fuel, junk, env, f, i_size, wus, chunksize, i). length wus - i)") auto

declare verify_body.simps [simp del]

definition init_wus :: "nat \<Rightarrow> nat \<Rightarrow> cwu list" where
  "init_wus num_chunks chunksize =
     map (\<lambda>i. cwu_zero\<lparr>wu_chunk_no := i, wu_chunksize := chunksize\<rparr>) [0..<num_chunks]"

text \<open>\<open>src\<close> is the log, or the array of a remote test, whose first \<open>num_chunks\<close> entries are copied.\<close>

definition verify_file :: "nat \<Rightarrow> (nat \<Rightarrow> byte list) \<Rightarrow> io_env \<Rightarrow> fs \<Rightarrow> string + cwu list \<Rightarrow> string \<Rightarrow> nat \<Rightarrow> nat
    \<Rightarrow> fault + int" where
  "verify_file fuel junk env vol src fnam filesize chunksize =
     (if chunksize = 0 then Inl Div_zero else
      let num_chunks = filesize div chunksize in
      (case fv_get_i_size env vol fnam of (ret, i_size, env1) \<Rightarrow>
       if ret \<noteq> 0 then Inr ret else
       (case (case src of
                Inr remote_wus \<Rightarrow> if length remote_wus < num_chunks then Inl Overrun
                  else Inr (None, take num_chunks remote_wus)
              | Inl txt \<Rightarrow> fv_read_log num_chunks chunksize (stream_open txt) (init_wus num_chunks chunksize)) of
          Inl e \<Rightarrow> Inl e
        | Inr (Some r, _) \<Rightarrow> Inr r
        | Inr (None, wus) \<Rightarrow>
          (case sys_open_ro env1 vol fnam of
             (Inl e, env2) \<Rightarrow> Inr (-1)
           | (Inr f, env2) \<Rightarrow> verify_body fuel junk env2 f i_size wus chunksize 0))))"

section \<open>The layout of a chunk\<close>

definition body_crc :: "cwu \<Rightarrow> 32 word" where
  "body_crc wu = crc_ref (- 1) (replicate (wu_chunksize wu - 40) (wu_char wu))"

definition chunk_bytes :: "cwu \<Rightarrow> byte list" where
  "chunk_bytes wu = le_bytes 8 (wu_chunk_no wu) @ le_bytes 8 (wu_timestamp wu) @ le_bytes 4 (unat (body_crc wu))
     @ replicate (wu_chunksize wu - 40) (wu_char wu)
     @ le_bytes 4 (unat (body_crc wu)) @ le_bytes 8 (wu_timestamp wu) @ le_bytes 8 (wu_chunk_no wu)"

lemma length_chunk_bytes: "40 \<le> wu_chunksize wu \<Longrightarrow> length (chunk_bytes wu) = wu_chunksize wu"
  by (simp add: chunk_bytes_def)

lemma fill_chunk_bytes:
  assumes "40 \<le> wu_chunksize wu"
  shows "fill_chunk_pattern wu = Inr (chunk_bytes wu, wu\<lparr>wu_checksum := body_crc wu\<rparr>)"
proof -
  let ?cs = "wu_chunksize wu" and ?c = "wu_char wu"
  let ?n = "le_bytes 8 (wu_chunk_no wu)" and ?t = "le_bytes 8 (wu_timestamp wu)" and ?k = "le_bytes 4 (unat (body_crc wu))"
  let ?b = "replicate (?cs - 40) ?c" and ?z = "\<lambda>n. replicate n (0 :: byte)"
  have z: "?z ?cs = ?z 8 @ ?z 8 @ ?z 4 @ ?z (?cs - 40) @ ?z 4 @ ?z 8 @ ?z 8"
    using assms by (simp add: replicate_add [symmetric])
  have p1: "patch 0 ?n (?z ?cs) = ?n @ ?z 8 @ ?z 4 @ ?z (?cs - 40) @ ?z 4 @ ?z 8 @ ?z 8"
    unfolding z by (simp add: patch_mid [of "[]", simplified])
  have p2: "patch 8 ?t (?n @ ?z 8 @ ?z 4 @ ?z (?cs - 40) @ ?z 4 @ ?z 8 @ ?z 8)
      = ?n @ ?t @ ?z 4 @ ?z (?cs - 40) @ ?z 4 @ ?z 8 @ ?z 8"
    by (rule patch_mid) simp_all
  have p3: "patch 20 ?b (?n @ ?t @ ?z 4 @ ?z (?cs - 40) @ ?z 4 @ ?z 8 @ ?z 8)
      = ?n @ ?t @ ?z 4 @ ?b @ ?z 4 @ ?z 8 @ ?z 8"
    using patch_mid [of "?n @ ?t @ ?z 4" 20 "?z (?cs - 40)" ?b] by simp
  have crc: "crc32_checksum 20 (- 1) (take (?cs - 40) (drop 20 (?n @ ?t @ ?z 4 @ ?b @ ?z 4 @ ?z 8 @ ?z 8))) = body_crc wu"
    by (simp add: crc32_checksum_bytes crc_bytes_ref body_crc_def)
  have p4: "patch (?cs - 20) ?k (?n @ ?t @ ?z 4 @ ?b @ ?z 4 @ ?z 8 @ ?z 8) = ?n @ ?t @ ?z 4 @ ?b @ ?k @ ?z 8 @ ?z 8"
    using patch_mid [of "?n @ ?t @ ?z 4 @ ?b" "?cs - 20" "?z 4" ?k] assms by simp
  have p5: "patch (?cs - 20 + 4) ?t (?n @ ?t @ ?z 4 @ ?b @ ?k @ ?z 8 @ ?z 8) = ?n @ ?t @ ?z 4 @ ?b @ ?k @ ?t @ ?z 8"
    using patch_mid [of "?n @ ?t @ ?z 4 @ ?b @ ?k" "?cs - 20 + 4" "?z 8" ?t] assms by simp
  have p6: "patch (?cs - 20 + 12) ?n (?n @ ?t @ ?z 4 @ ?b @ ?k @ ?t @ ?z 8) = ?n @ ?t @ ?z 4 @ ?b @ ?k @ ?t @ ?n"
    using patch_mid [of "?n @ ?t @ ?z 4 @ ?b @ ?k @ ?t" "?cs - 20 + 12" "?z 8" ?n "[]"] assms by simp
  have p7: "patch 16 ?k (?n @ ?t @ ?z 4 @ ?b @ ?k @ ?t @ ?n) = chunk_bytes wu"
    using patch_mid [of "?n @ ?t" 16 "?z 4" ?k] by (simp add: chunk_bytes_def)
  show ?thesis
    using assms unfolding fill_chunk_pattern_def Let_def p1 p2 p3 crc p4 p5 p6 p7 by simp
qed

lemma le_field_slice:
  assumes "length xs = off" "length ys = n" "ys = le_bytes n x" "x < 256 ^ n"
  shows "le_field off n (xs @ ys @ zs) = x"
  using assms by (simp add: le_field_def le_val_bytes)

lemma dump_chunk_bytes:
  assumes "40 < wu_chunksize wu" "wu_chunk_no wu < 2 ^ 64" "wu_timestamp wu < 2 ^ 64"
  shows "dump_pattern (chunk_bytes wu @ rest) (wu_chunksize wu) = Inr (wu\<lparr>wu_checksum := body_crc wu\<rparr>)"
proof -
  let ?cs = "wu_chunksize wu" and ?p = "chunk_bytes wu @ rest"
  let ?n = "le_bytes 8 (wu_chunk_no wu)" and ?t = "le_bytes 8 (wu_timestamp wu)" and ?k = "le_bytes 4 (unat (body_crc wu))"
  let ?b = "replicate (?cs - 40) (wu_char wu)"
  have "unat (body_crc wu) < 2 ^ LENGTH(32)" by (rule unsigned_less)
  then have lt: "unat (body_crc wu) < 256 ^ 4" by simp
  have "le_field (?cs - 20) 4 ?p = unat (body_crc wu)"
    using le_field_slice [of "?n @ ?t @ ?k @ ?b" "?cs - 20" ?k 4 "unat (body_crc wu)"] assms lt by (simp add: chunk_bytes_def)
  moreover have "le_field (?cs - 20 + 4) 8 ?p = wu_timestamp wu"
    using le_field_slice [of "?n @ ?t @ ?k @ ?b @ ?k" "?cs - 20 + 4" ?t 8 "wu_timestamp wu"] assms by (simp add: chunk_bytes_def)
  moreover have "le_field (?cs - 20 + 12) 8 ?p = wu_chunk_no wu"
    using le_field_slice [of "?n @ ?t @ ?k @ ?b @ ?k @ ?t" "?cs - 20 + 12" ?n 8 "wu_chunk_no wu"] assms by (simp add: chunk_bytes_def)
  moreover have "?p ! 20 = wu_char wu" using assms(1) by (simp add: chunk_bytes_def nth_append)
  moreover have "?cs \<le> length ?p" using length_chunk_bytes [of wu] assms(1) by simp
  ultimately show ?thesis using assms(1) by (simp add: dump_pattern_def Let_def cwu_zero_def)
qed

text \<open>Two units with the same chunk differ only in the checksum field, which is not written.\<close>

lemma chunk_bytes_inj:
  assumes "chunk_bytes a = chunk_bytes b" "wu_chunksize a = wu_chunksize b" "40 < wu_chunksize a"
    "wu_chunk_no a < 2 ^ 64" "wu_timestamp a < 2 ^ 64" "wu_chunk_no b < 2 ^ 64" "wu_timestamp b < 2 ^ 64"
  shows "wu_chunk_no a = wu_chunk_no b \<and> wu_timestamp a = wu_timestamp b \<and> wu_char a = wu_char b"
proof -
  have "Inr (a\<lparr>wu_checksum := body_crc a\<rparr>) = (Inr (b\<lparr>wu_checksum := body_crc b\<rparr>) :: fault + cwu)"
    using dump_chunk_bytes [of a "[]"] dump_chunk_bytes [of b "[]"] assms by simp
  then have "a\<lparr>wu_checksum := body_crc a\<rparr> = b\<lparr>wu_checksum := body_crc b\<rparr>" by simp
  from arg_cong [OF this, of wu_chunk_no] arg_cong [OF this, of wu_timestamp] arg_cong [OF this, of wu_char]
  show ?thesis by simp
qed

lemma chunk_bytes_cong:
  "wu_chunk_no a = wu_chunk_no b \<Longrightarrow> wu_timestamp a = wu_timestamp b \<Longrightarrow> wu_char a = wu_char b
     \<Longrightarrow> wu_chunksize a = wu_chunksize b \<Longrightarrow> chunk_bytes a = chunk_bytes b"
  by (simp add: chunk_bytes_def body_crc_def)

lemma dump_pattern_fields:
  assumes "21 \<le> chunksize" "chunksize \<le> length p"
  shows "\<exists>wu. dump_pattern p chunksize = Inr wu \<and> wu_chunksize wu = chunksize
     \<and> wu_chunk_no wu = le_field (chunksize - 8) 8 p \<and> wu_timestamp wu = le_field (chunksize - 16) 8 p
     \<and> wu_checksum wu = of_nat (le_field (chunksize - 20) 4 p) \<and> wu_char wu = p ! 20"
proof -
  have "chunksize - 20 + 12 = chunksize - 8" "chunksize - 20 + 4 = chunksize - 16" using assms(1) by simp_all
  then show ?thesis using assms by (simp add: dump_pattern_def Let_def)
qed

lemma le_val_less: "le_val bs < 256 ^ length bs"
proof (induction bs)
  case (Cons b bs)
  have "unat b < 2 ^ LENGTH(8)" by (rule unsigned_less)
  with Cons show ?case by simp
qed simp

lemma le_field_less: "le_field off 8 p < 2 ^ 64"
proof -
  have "le_field off 8 p < 256 ^ length (take 8 (drop off p))" unfolding le_field_def by (rule le_val_less)
  also have "\<dots> \<le> 256 ^ 8" by (rule power_increasing) simp_all
  finally show ?thesis by simp
qed

section \<open>One chunk verified\<close>

text \<open>
  For a chunk with a record, verification compares the chunk number, the time stamp and the
  character; the checksum on disk is replaced before the comparison.
\<close>

lemma verify_chunk_logged:
  assumes "wu_timestamp ewu \<noteq> 0" "wu_chunksize ewu = chunksize" "wu_chunksize wu = chunksize" "40 < chunksize"
    "wu_chunk_no wu < 2 ^ 64" "wu_timestamp wu < 2 ^ 64" "wu_chunk_no ewu < 2 ^ 64" "wu_timestamp ewu < 2 ^ 64"
  shows "verify_chunk chunksize ewu (int chunksize) i wu =
     Inr (if wu_chunk_no wu = wu_chunk_no ewu \<and> wu_timestamp wu = wu_timestamp ewu \<and> wu_char wu = wu_char ewu
          then None else Some (-1))"
proof -
  have "take chunksize (chunk_bytes wu) = chunk_bytes wu" using length_chunk_bytes [of wu] assms by simp
  moreover have "chunk_bytes wu = chunk_bytes ewu \<longleftrightarrow>
      wu_chunk_no wu = wu_chunk_no ewu \<and> wu_timestamp wu = wu_timestamp ewu \<and> wu_char wu = wu_char ewu"
    using chunk_bytes_inj [of wu ewu] chunk_bytes_cong [of wu ewu] assms by auto
  ultimately show ?thesis
    using assms by (simp add: verify_chunk_def verify_chunk_pattern_def fill_chunk_bytes)
qed

lemma verify_chunk_unlogged:
  assumes "wu_timestamp ewu = 0" "wu_chunksize wu = chunksize" "40 \<le> chunksize"
  shows "verify_chunk chunksize ewu ret i wu =
     Inr (if wu_timestamp wu = 0 then None else if wu_chunk_no wu \<noteq> i then Some (- int EINVAL)
          else if wu_checksum wu \<noteq> body_crc wu then Some (-1) else None)"
  using assms by (simp add: verify_chunk_def fill_chunk_bytes)

section \<open>The log read back\<close>

definition wf_cwu :: "nat \<Rightarrow> nat \<Rightarrow> cwu \<Rightarrow> bool" where
  "wf_cwu n chunksize wu \<longleftrightarrow> wu_chunk_no wu < n \<and> wu_chunk_no wu < 2 ^ 63 \<and> wu_timestamp wu < 2 ^ 63
     \<and> wu_chunksize wu = chunksize \<and> \<not> c_isspace (char_of_byte (wu_char wu))"

definition scan_cwu :: "nat \<Rightarrow> stream \<Rightarrow> cwu option \<times> stream" where
  "scan_cwu chunksize s = (case scan_args s of
     (Some a, s') \<Rightarrow> (if args_fit a then Some (args_cwu chunksize a) else None, s')
   | (None, s') \<Rightarrow> (None, s'))"

lemma length_show_dec: "0 < k \<Longrightarrow> n < 10 ^ k \<Longrightarrow> length (show_dec n) \<le> k"
proof (induction n arbitrary: k rule: show_dec.induct)
  case (1 n)
  show ?case
  proof (cases "n < 10")
    case True
    with 1 show ?thesis by (subst show_dec.simps) simp
  next
    case False
    then obtain j where j: "k = Suc j" "0 < j" using "1.prems" by (cases k; cases "k - 1") auto
    then have "n div 10 < 10 ^ j" using "1.prems"(2) by (simp add: less_mult_imp_div_less)
    with "1.IH" [OF False j(2)] False j(1) show ?thesis by (subst show_dec.simps) simp
  qed
qed

lemma show_dec_word: "list_all (\<lambda>c. \<not> c_isspace c) (show_dec n)" "length (show_dec n) < 100" if "n < 2 ^ 64"
proof -
  show "list_all (\<lambda>c. \<not> c_isspace c) (show_dec n)"
    using show_dec_digits [of n] digit_not_space by (auto simp: list_all_iff)
  show "length (show_dec n) < 100" using length_show_dec [of 20 n] that by simp
qed

lemma show_int_word:
  assumes "\<bar>i\<bar> < 2 ^ 64"
  shows "list_all (\<lambda>c. \<not> c_isspace c) (show_int i)" "length (show_int i) < 100" "show_int i \<noteq> []"
proof -
  have "nat (- i) < 2 ^ 64" "nat i < 2 ^ 64" using assms by (simp_all add: nat_less_iff)
  then show "list_all (\<lambda>c. \<not> c_isspace c) (show_int i)" "length (show_int i) < 100" "show_int i \<noteq> []"
    using show_dec_word [of "nat (- i)"] show_dec_word [of "nat i"] length_show_dec [of 20 "nat (- i)"]
    by (auto simp: show_int_def c_isspace_def)
qed

lemma sint_range: "- (2 ^ 31) \<le> sint w" "sint w < 2 ^ 31" for w :: "32 word"
  using sint_ge [of w] sint_less [of w] by simp_all

lemma args_of_show:
  assumes "wf_cwu n chunksize wu"
  shows "args_cwu chunksize (show_dec (wu_chunk_no wu), show_dec (wu_timestamp wu), show_int (sint (wu_checksum wu)),
     [char_of_byte (wu_char wu)]) = wu"
proof -
  have "c_atoi (show_int (sint (wu_checksum wu))) = sint (wu_checksum wu)"
    using sint_range [of "wu_checksum wu"] by (simp add: c_atoi_def c_atol_show_int to_int32_id)
  then show ?thesis using assms
    by (cases wu) (simp add: args_cwu_def wf_cwu_def c_atol_show_dec nat_mod_distrib)
qed

text \<open>A word followed by a tab, as the format strings write and read it.\<close>

lemma scan_word_tab:
  assumes "w \<noteq> []" "list_all (\<lambda>c. \<not> c_isspace c) w" "r \<noteq> []" "\<not> c_isspace (hd r)"
  shows "scan_word \<lparr>st_rest = w @ CHR 0x09 # r, st_eof = False\<rparr> = (Scan_ok w, \<lparr>st_rest = CHR 0x09 # r, st_eof = False\<rparr>)"
    "skip_ws \<lparr>st_rest = CHR 0x09 # r, st_eof = False\<rparr> = \<lparr>st_rest = r, st_eof = False\<rparr>"
proof -
  have "c_isspace CHR 0x09" by (simp add: c_isspace_def)
  then show "scan_word \<lparr>st_rest = w @ CHR 0x09 # r, st_eof = False\<rparr> = (Scan_ok w, \<lparr>st_rest = CHR 0x09 # r, st_eof = False\<rparr>)"
    "skip_ws \<lparr>st_rest = CHR 0x09 # r, st_eof = False\<rparr> = \<lparr>st_rest = r, st_eof = False\<rparr>"
    using scan_word_text [OF assms(1,2), of "CHR 0x09 # r" False] skip_ws_Cons_space [of "CHR 0x09" r False] assms(3,4)
    by simp_all
qed

lemma word_hd: "w \<noteq> [] \<Longrightarrow> list_all (\<lambda>c. \<not> c_isspace c) w \<Longrightarrow> w @ r \<noteq> [] \<and> \<not> c_isspace (hd (w @ r))"
  by (cases w) simp_all

lemma scan_args_show:
  assumes "list_all (\<lambda>w. w \<noteq> [] \<and> list_all (\<lambda>c. \<not> c_isspace c) w) [a1, a2, a3, a4]" "no_space_first rest"
  shows "scan_args \<lparr>st_rest = a1 @ CHR 0x09 # a2 @ CHR 0x09 # a3 @ CHR 0x09 # a4 @ CHR 0x0A # rest, st_eof = False\<rparr>
     = (Some (a1, a2, a3, a4), \<lparr>st_rest = rest, st_eof = (rest = [])\<rparr>)"
proof -
  let ?t4 = "a4 @ CHR 0x0A # rest" let ?t3 = "a3 @ CHR 0x09 # ?t4" let ?t2 = "a2 @ CHR 0x09 # ?t3"
  have w: "a1 \<noteq> []" "a2 \<noteq> []" "a3 \<noteq> []" "a4 \<noteq> []" "list_all (\<lambda>c. \<not> c_isspace c) a1"
    "list_all (\<lambda>c. \<not> c_isspace c) a2" "list_all (\<lambda>c. \<not> c_isspace c) a3" "list_all (\<lambda>c. \<not> c_isspace c) a4"
    using assms(1) by simp_all
  have nl: "c_isspace CHR 0x0A" by (simp add: c_isspace_def)
  note h4 = word_hd [OF w(4,8), of "CHR 0x0A # rest"] and h3 = word_hd [OF w(3,7), of "CHR 0x09 # ?t4"]
    and h2 = word_hd [OF w(2,6), of "CHR 0x09 # ?t3"]
  have "scan_word \<lparr>st_rest = ?t4, st_eof = False\<rparr> = (Scan_ok a4, \<lparr>st_rest = CHR 0x0A # rest, st_eof = False\<rparr>)"
    using scan_word_text [OF w(4,8), of "CHR 0x0A # rest" False] nl by simp
  moreover have "skip_ws \<lparr>st_rest = CHR 0x0A # rest, st_eof = False\<rparr> = \<lparr>st_rest = rest, st_eof = (rest = [])\<rparr>"
    using skip_ws_Cons_space [OF nl, of rest False] assms(2) by (simp add: no_space_first_def)
  ultimately show ?thesis
    unfolding scan_args_def scan_word_tab [OF w(1,5) conjunct1 [OF h2] conjunct2 [OF h2]] prod.case scan.case
      scan_word_tab [OF w(2,6) conjunct1 [OF h3] conjunct2 [OF h3]] scan_word_tab [OF w(3,7) conjunct1 [OF h4] conjunct2 [OF h4]]
    by simp
qed

lemma scan_cwu_show:
  assumes "wf_cwu n chunksize wu" "no_space_first rest"
  shows "scan_cwu chunksize \<lparr>st_rest = show_cwu wu @ rest, st_eof = False\<rparr>
     = (Some wu, \<lparr>st_rest = rest, st_eof = (rest = [])\<rparr>)"
proof -
  let ?a1 = "show_dec (wu_chunk_no wu)" and ?a2 = "show_dec (wu_timestamp wu)"
    and ?a3 = "show_int (sint (wu_checksum wu))" and ?a4 = "[char_of_byte (wu_char wu)]"
  have lt: "wu_chunk_no wu < 2 ^ 64" "wu_timestamp wu < 2 ^ 64" "\<bar>sint (wu_checksum wu)\<bar> < 2 ^ 64"
    using assms(1) sint_range [of "wu_checksum wu"] by (auto simp: wf_cwu_def abs_if)
  have sp: "\<not> c_isspace (char_of_byte (wu_char wu))" using assms(1) by (simp add: wf_cwu_def)
  have words: "list_all (\<lambda>w. w \<noteq> [] \<and> list_all (\<lambda>c. \<not> c_isspace c) w) [?a1, ?a2, ?a3, ?a4]"
    using show_dec_word(1) [OF lt(1)] show_dec_word(1) [OF lt(2)] show_int_word(1,3) [OF lt(3)] sp by simp
  have "args_fit (?a1, ?a2, ?a3, ?a4)"
    using show_dec_word(2) [OF lt(1)] show_dec_word(2) [OF lt(2)] show_int_word(2) [OF lt(3)] by (simp add: args_fit_def)
  with scan_args_show [OF words assms(2)] args_of_show [OF assms(1)] show ?thesis
    by (simp add: scan_cwu_def show_cwu_def)
qed

lemma show_cwu_hd: "\<not> c_isspace (hd (show_cwu wu)) \<and> show_cwu wu \<noteq> []"
  using show_dec_hd [of "wu_chunk_no wu"] digit_not_space by (auto simp: show_cwu_def)

interpretation fv_log: record_reader show_cwu "scan_cwu chunksize" "wf_cwu n chunksize" no_space_first
  "fv_read_log n chunksize" wus_update "\<lambda>wus. Inr (None, wus)" "\<lambda>wus. length wus = n" for n chunksize
proof (unfold_locales, goal_cases)
  case (5 r a s s')
  then obtain ar where ar: "scan_args s = (Some ar, s')" "args_fit ar" "args_cwu chunksize ar = r"
    by (auto simp: scan_cwu_def split: prod.splits option.splits if_splits)
  with 5 show ?case by (subst fv_read_log.simps) (simp add: wf_cwu_def)
next
  case (6 a)
  then show ?case by (simp add: fv_read_log.simps)
next
  case (7 r a)
  then show ?case by (simp add: wus_update_def)
qed (simp_all add: scan_cwu_show show_cwu_hd no_space_first_def)

text \<open>The table of expected chunks after a log.\<close>

definition expected :: "nat \<Rightarrow> nat \<Rightarrow> cwu list \<Rightarrow> cwu list" where
  "expected n chunksize us = fold wus_update us (init_wus n chunksize)"

definition table_ok :: "nat \<Rightarrow> nat \<Rightarrow> cwu list \<Rightarrow> bool" where
  "table_ok n chunksize wus \<longleftrightarrow> length wus = n \<and> (\<forall>i < n. wu_chunk_no (wus ! i) = i
     \<and> wu_chunksize (wus ! i) = chunksize \<and> wu_timestamp (wus ! i) < 2 ^ 64)"

lemma table_ok_update: "table_ok n chunksize wus \<Longrightarrow> wf_cwu n chunksize wu \<Longrightarrow> table_ok n chunksize (wus_update wu wus)"
  by (auto simp: table_ok_def wus_update_def wf_cwu_def nth_list_update)

lemma table_ok_expected: "list_all (wf_cwu n chunksize) us \<Longrightarrow> table_ok n chunksize (expected n chunksize us)"
proof -
  have "table_ok n chunksize wus \<Longrightarrow> list_all (wf_cwu n chunksize) us \<Longrightarrow> table_ok n chunksize (fold wus_update us wus)" for wus
    by (induction us arbitrary: wus) (simp_all add: table_ok_update)
  moreover have "table_ok n chunksize (init_wus n chunksize)" by (simp add: table_ok_def init_wus_def cwu_zero_def)
  ultimately show "list_all (wf_cwu n chunksize) us \<Longrightarrow> table_ok n chunksize (expected n chunksize us)"
    by (simp add: expected_def)
qed

section \<open>A whole file verified\<close>

definition disk_cwu :: "content \<Rightarrow> nat \<Rightarrow> nat \<Rightarrow> cwu" where
  "disk_cwu f chunksize i = \<lparr>wu_chunk_no = le_field (i * chunksize + chunksize - 8) 8 f,
     wu_timestamp = le_field (i * chunksize + chunksize - 16) 8 f, wu_chunksize = chunksize,
     wu_checksum = of_nat (le_field (i * chunksize + chunksize - 20) 4 f), wu_char = file_byte f (i * chunksize + 20)\<rparr>"

definition chunk_passes :: "cwu \<Rightarrow> nat \<Rightarrow> cwu \<Rightarrow> bool" where
  "chunk_passes ewu i wu \<longleftrightarrow> (if wu_timestamp ewu = 0
     then wu_timestamp wu = 0 \<or> wu_chunk_no wu = i \<and> wu_checksum wu = body_crc wu
     else wu_chunk_no wu = wu_chunk_no ewu \<and> wu_timestamp wu = wu_timestamp ewu \<and> wu_char wu = wu_char ewu)"

lemma le_field_drop: "le_field a n (drop k f) = le_field (k + a) n f"
  by (simp add: le_field_def add.commute)

lemma le_field_take: "a + n \<le> c \<Longrightarrow> le_field a n (take c f) = le_field a n f"
  by (simp add: le_field_def drop_take min_absorb1 take_take)

lemma dump_disk:
  assumes "40 < chunksize" "i * chunksize + chunksize \<le> length f"
  shows "dump_pattern (take chunksize (drop (i * chunksize) f)) chunksize = Inr (disk_cwu f chunksize i)"
proof -
  let ?p = "take chunksize (drop (i * chunksize) f)"
  have len: "chunksize \<le> length ?p" using assms(2) by simp
  obtain wu where wu: "dump_pattern ?p chunksize = Inr wu" "wu_chunksize wu = chunksize"
    "wu_chunk_no wu = le_field (chunksize - 8) 8 ?p" "wu_timestamp wu = le_field (chunksize - 16) 8 ?p"
    "wu_checksum wu = of_nat (le_field (chunksize - 20) 4 ?p)" "wu_char wu = ?p ! 20"
    using dump_pattern_fields [OF _ len] assms(1) by auto
  have "?p ! 20 = file_byte f (i * chunksize + 20)" using assms by (simp add: file_byte_def)
  with wu assms(1) have "wu = disk_cwu f chunksize i"
    by (cases wu) (simp add: disk_cwu_def le_field_take le_field_drop)
  with wu(1) show ?thesis by simp
qed

lemma read_at_Nil:
  assumes "off + count \<le> length f"
  shows "read_at (Suc fuel) [] f count off = Inr (0, take count (drop off f), [])"
  using assms by (simp add: read_at_def)

lemma do_read_chunk_ideal:
  assumes "40 < chunksize" "chunksize < 2 ^ 31" "i * chunksize + chunksize \<le> length f" "length f < 2 ^ 63"
    "length (junk i) = chunksize"
  shows "do_read_chunk (Suc fuel) junk [] f i chunksize = Inr (int chunksize, Some (disk_cwu f chunksize i), [])"
proof -
  have "u64 (chunksize * i) = i * chunksize" using assms(3,4) by (simp add: width mult.commute)
  moreover have "to_int32 (int chunksize) = int chunksize" using assms(2) by (simp add: to_int32_id)
  ultimately have "fv_read_at (Suc fuel) [] f chunksize (u64 (chunksize * i)) (length f)
      = Inr (int chunksize, take chunksize (drop (i * chunksize) f), [])"
    using assms(1,3) by (simp add: fv_read_at_def read_at_Nil)
  moreover have "drop (length (take chunksize (drop (i * chunksize) f))) (junk i) = []" using assms(3,5) by simp
  ultimately show ?thesis using dump_disk [OF assms(1,3)] by (simp add: do_read_chunk_def)
qed

lemma verify_chunk_decides:
  assumes "40 < chunksize" "table_ok n chunksize wus" "i < n" "i < 2 ^ 64"
  shows "\<exists>o1. verify_chunk chunksize (wus ! i) (int chunksize) i (disk_cwu f chunksize i) = Inr o1
     \<and> (o1 = None \<longleftrightarrow> chunk_passes (wus ! i) i (disk_cwu f chunksize i)) \<and> o1 \<noteq> Some 0"
proof -
  let ?d = "disk_cwu f chunksize i" and ?e = "wus ! i"
  have e: "wu_chunk_no ?e = i" "wu_chunksize ?e = chunksize" "wu_timestamp ?e < 2 ^ 64"
    using assms(2,3) by (auto simp: table_ok_def)
  have d: "wu_chunksize ?d = chunksize" "wu_chunk_no ?d < 2 ^ 64" "wu_timestamp ?d < 2 ^ 64"
    using le_field_less by (simp_all add: disk_cwu_def)
  show ?thesis
    using verify_chunk_logged [of ?e chunksize ?d i] verify_chunk_unlogged [of ?e ?d chunksize "int chunksize" i]
      d e assms(1,4) by (cases "wu_timestamp ?e = 0") (auto simp: chunk_passes_def EINVAL_def)
qed

lemma verify_body_ideal:
  assumes "40 < chunksize" "chunksize < 2 ^ 31" "length f = n * chunksize" "length f < 2 ^ 63"
    "\<forall>i. length (junk i) = chunksize" "table_ok n chunksize wus"
  shows "\<exists>r. verify_body (Suc fuel) junk [] f (length f) wus chunksize i = Inr r
     \<and> (r = 0 \<longleftrightarrow> (\<forall>j. i \<le> j \<and> j < n \<longrightarrow> chunk_passes (wus ! j) j (disk_cwu f chunksize j)))"
proof (induction "n - i" arbitrary: i)
  case 0
  then show ?case using assms(6) by (subst verify_body.simps) (auto simp: table_ok_def)
next
  case (Suc m)
  then have i: "i < n" by simp
  have "Suc i * chunksize \<le> n * chunksize" using i by (intro mult_le_mono1) simp
  then have fit: "i * chunksize + chunksize \<le> length f" using assms(3) by simp
  have off: "u64 (i * chunksize) = i * chunksize" using fit assms(4) by (simp add: width)
  let ?d = "disk_cwu f chunksize i" and ?e = "wus ! i"
  have e: "length wus = n" using assms(6) by (simp add: table_ok_def)
  have "i \<le> i * chunksize" using assms(1) by simp
  then have "i < 2 ^ 63" using fit assms(4) by linarith
  then have i64: "i < 2 ^ 64" by simp
  obtain o1 where o1: "verify_chunk chunksize ?e (int chunksize) i ?d = Inr o1" "o1 = None \<longleftrightarrow> chunk_passes ?e i ?d" "o1 \<noteq> Some 0"
    using verify_chunk_decides [OF assms(1,6) i i64] by blast
  have step: "verify_body (Suc fuel) junk [] f (length f) wus chunksize i = (case o1 of Some r \<Rightarrow> Inr r
      | None \<Rightarrow> verify_body (Suc fuel) junk [] f (length f) wus chunksize (i + 1))"
    using do_read_chunk_ideal [OF assms(1,2) fit assms(4), of junk fuel] assms(1,5) i fit e o1(1)
    by (subst verify_body.simps) (auto simp: off split: option.splits)
  have all: "(\<forall>j. i \<le> j \<and> j < n \<longrightarrow> P j) \<longleftrightarrow> P i \<and> (\<forall>j. i + 1 \<le> j \<and> j < n \<longrightarrow> P j)" for P
    using i by (metis Suc_eq_plus1 Suc_leI le_eq_less_or_eq le_refl order.trans le_add1)
  show ?case
  proof (cases o1)
    case None
    have "m = n - (i + 1)" using Suc.hyps(2) by simp
    from Suc.hyps(1) [OF this] obtain r where "verify_body (Suc fuel) junk [] f (length f) wus chunksize (i + 1) = Inr r"
      "r = 0 \<longleftrightarrow> (\<forall>j. i + 1 \<le> j \<and> j < n \<longrightarrow> chunk_passes (wus ! j) j (disk_cwu f chunksize j))" by blast
    with None step o1(2) all [of "\<lambda>j. chunk_passes (wus ! j) j (disk_cwu f chunksize j)"] show ?thesis by simp
  next
    case (Some r)
    with step o1(2,3) all [of "\<lambda>j. chunk_passes (wus ! j) j (disk_cwu f chunksize j)"] show ?thesis by auto
  qed
qed

lemma verify_file_ideal:
  assumes "40 < chunksize" "chunksize < 2 ^ 31" "length f = n * chunksize" "length f < 2 ^ 63"
    "\<forall>i. length (junk i) = chunksize" "list_all (wf_cwu n chunksize) us" "us \<noteq> []" "vol fnam = Some f"
  shows "\<exists>r. verify_file (Suc fuel) junk [] vol (Inl (concat (map show_cwu us))) fnam (n * chunksize) chunksize = Inr r
     \<and> (r = 0 \<longleftrightarrow> (\<forall>i < n. chunk_passes (expected n chunksize us ! i) i (disk_cwu f chunksize i)))"
proof -
  have "length (init_wus n chunksize) = n" by (simp add: init_wus_def)
  from fv_log.loop_log [OF assms(6) this assms(7)]
  have "fv_read_log n chunksize (stream_open (concat (map show_cwu us))) (init_wus n chunksize)
      = Inr (None, expected n chunksize us)" by (simp add: expected_def)
  then have "verify_file (Suc fuel) junk [] vol (Inl (concat (map show_cwu us))) fnam (n * chunksize) chunksize
      = verify_body (Suc fuel) junk [] f (length f) (expected n chunksize us) chunksize 0"
    using assms(1,8) by (simp add: verify_file_def fv_get_i_size_def sys_open_ro_def)
  with verify_body_ideal [OF assms(1-5) table_ok_expected [OF assms(6)], of fuel 0] show ?thesis by simp
qed

section \<open>What is looked at\<close>

lemma slice_file_byte: "a + n \<le> length f \<Longrightarrow> take n (drop a f) = map (file_byte f) [a..<a + n]"
  by (rule map_file_byte_slice [symmetric])

lemma le_field_cong:
  assumes "a + n \<le> length f" "a + n \<le> length g" "\<And>j. a \<le> j \<Longrightarrow> j < a + n \<Longrightarrow> file_byte f j = file_byte g j"
  shows "le_field a n f = le_field a n g"
proof -
  have "map (file_byte f) [a..<a + n] = map (file_byte g) [a..<a + n]" by (rule map_cong) (simp_all add: assms(3))
  then show ?thesis unfolding le_field_def slice_file_byte [OF assms(1)] slice_file_byte [OF assms(2)] by (rule arg_cong)
qed

lemma disk_cwu_cong:
  assumes "40 < chunksize" "i * chunksize + chunksize \<le> length f" "length g = length f"
    "file_byte f (i * chunksize + 20) = file_byte g (i * chunksize + 20)"
    "\<And>j. i * chunksize + chunksize - 20 \<le> j \<Longrightarrow> j < i * chunksize + chunksize \<Longrightarrow> file_byte f j = file_byte g j"
  shows "disk_cwu f chunksize i = disk_cwu g chunksize i"
proof -
  have "le_field (i * chunksize + chunksize - 8) 8 f = le_field (i * chunksize + chunksize - 8) 8 g"
    "le_field (i * chunksize + chunksize - 16) 8 f = le_field (i * chunksize + chunksize - 16) 8 g"
    "le_field (i * chunksize + chunksize - 20) 4 f = le_field (i * chunksize + chunksize - 20) 4 g"
    using assms(1-3) by (auto intro!: le_field_cong assms(5))
  with assms(4) show ?thesis by (simp add: disk_cwu_def)
qed

section \<open>Chunks written and logged\<close>

definition chunk_write :: "cwu \<Rightarrow> content \<Rightarrow> content" where
  "chunk_write wu f = file_write (wu_chunk_no wu * wu_chunksize wu) (chunk_bytes wu) f"

lemma do_write_chunk_ideal:
  assumes "40 \<le> wu_chunksize wu" "wu_chunksize wu < 2 ^ 31" "wu_chunk_no wu * wu_chunksize wu < 2 ^ 64"
    "\<not> list_ex io_fails env"
  shows "\<exists>env'. do_write_chunk env f wu = Inr (int (wu_chunksize wu), chunk_write wu f, env')"
proof -
  have "u64 (wu_chunksize wu * wu_chunk_no wu) = wu_chunk_no wu * wu_chunksize wu"
    using assms(3) by (simp add: width mult.commute)
  with write_at_ok [OF assms(4), of f "chunk_bytes wu" "wu_chunk_no wu * wu_chunksize wu"] assms(1,2)
  show ?thesis
    by (auto simp: do_write_chunk_def fill_chunk_bytes fv_write_at_def chunk_write_def length_chunk_bytes to_int32_id)
qed

lemma chunk_room: "(i :: nat) < n \<Longrightarrow> i * c + c \<le> n * c"
  using mult_le_mono1 [of "Suc i" n c] by simp

lemma chunk_apart: "(i :: nat) \<noteq> k \<Longrightarrow> i * c + c \<le> k * c \<or> k * c + c \<le> i * c"
  using chunk_room [of i k c] chunk_room [of k i c] by linarith

lemma disk_after_write:
  assumes "wf_cwu n chunksize wu" "40 < chunksize" "length f = n * chunksize" "i < n"
  shows "disk_cwu (chunk_write wu f) chunksize i
     = (if i = wu_chunk_no wu then wu\<lparr>wu_checksum := body_crc wu\<rparr> else disk_cwu f chunksize i)"
    "length (chunk_write wu f) = n * chunksize"
proof -
  let ?k = "wu_chunk_no wu"
  have k: "?k < n" "wu_chunksize wu = chunksize" "wu_chunk_no wu < 2 ^ 64" "wu_timestamp wu < 2 ^ 64"
    using assms(1) by (auto simp: wf_cwu_def)
  have len: "length (chunk_bytes wu) = chunksize" using length_chunk_bytes [of wu] k(2) assms(2) by simp
  note room = chunk_room [OF k(1), of chunksize] chunk_room [OF assms(4), of chunksize]
  show l: "length (chunk_write wu f) = n * chunksize"
    using len room(1) assms(3) k(2) by (simp add: chunk_write_def buf_simps)
  show "disk_cwu (chunk_write wu f) chunksize i
     = (if i = ?k then wu\<lparr>wu_checksum := body_crc wu\<rparr> else disk_cwu f chunksize i)"
  proof (cases "i = ?k")
    case True
    have "take chunksize (drop (i * chunksize) (chunk_write wu f)) = chunk_bytes wu"
      using file_slice_write_same [of "chunk_bytes wu" "?k * chunksize" f] len True k(2) by (simp add: chunk_write_def)
    then have "Inr (disk_cwu (chunk_write wu f) chunksize i) = (Inr (wu\<lparr>wu_checksum := body_crc wu\<rparr>) :: fault + cwu)"
      using dump_disk [of chunksize i "chunk_write wu f"] dump_chunk_bytes [of wu "[]"] k assms(2) l room(2) by simp
    with True show ?thesis by simp
  next
    case False
    have "file_byte (chunk_write wu f) j = file_byte f j" if "i * chunksize \<le> j" "j < i * chunksize + chunksize" for j
      unfolding chunk_write_def
      by (rule file_store.peek_store_other) (use chunk_apart [OF False, of chunksize] len k(2) that in auto)
    with disk_cwu_cong [of chunksize i "chunk_write wu f" f] False l assms(2,3) room(2) show ?thesis by simp
  qed
qed

lemma writes_pass:
  assumes "list_all (wf_cwu n chunksize) us" "sorted (map wu_timestamp us)" "\<forall>u \<in> set us. 0 < wu_timestamp u"
    "40 < chunksize" "length f = n * chunksize" "table_ok n chunksize wus"
    "\<forall>u \<in> set us. \<forall>i < n. wu_timestamp (wus ! i) \<le> wu_timestamp u"
    "\<forall>i < n. chunk_passes (wus ! i) i (disk_cwu f chunksize i)"
  shows "length (fold chunk_write us f) = n * chunksize \<and>
    (\<forall>i < n. chunk_passes (fold wus_update us wus ! i) i (disk_cwu (fold chunk_write us f) chunksize i))"
  using assms
proof (induction us arbitrary: f wus)
  case (Cons u us)
  have u: "wf_cwu n chunksize u" "wu_chunk_no u < n" "0 < wu_timestamp u" using Cons.prems(1,3) by (auto simp: wf_cwu_def)
  note d = disk_after_write [OF u(1) Cons.prems(4,5)]
  have upd: "wus_update u wus = wus[wu_chunk_no u := u]" using Cons.prems(7) u(2) by (simp add: wus_update_def)
  have len: "length wus = n" using Cons.prems(6) by (simp add: table_ok_def)
  have "\<forall>v \<in> set us. \<forall>i < n. wu_timestamp (wus_update u wus ! i) \<le> wu_timestamp v"
    using Cons.prems(2,7) len u(2) by (auto simp: upd nth_list_update)
  moreover have "\<forall>i < n. chunk_passes (wus_update u wus ! i) i (disk_cwu (chunk_write u f) chunksize i)"
    using Cons.prems(8) u(2,3) len d(1) by (auto simp: upd nth_list_update chunk_passes_def)
  ultimately show ?case
    using Cons.IH [of "chunk_write u f" "wus_update u wus"] Cons.prems(1-4) d(2) [OF u(2)]
      table_ok_update [OF Cons.prems(6) u(1)] by simp
qed simp

lemma le_field_zeros: "le_field a n (replicate m 0) = 0"
proof -
  have "le_val (replicate k 0) = 0" for k by (induction k) simp_all
  then show ?thesis by (simp add: le_field_def take_replicate drop_replicate)
qed

section \<open>Properties\<close>

text \<open>
  The contents of a chunk: its number, its time stamp and the CRC-32 of the run of characters
  (40 bytes shorter than the chunk), the run, and the three fields again in reverse order. A
  chunk size below 40 overruns the buffer.
\<close>

theorem chunk_layout:
  "fill_chunk_pattern wu = (if wu_chunksize wu < 40 then Inl Overrun else
     let crc = crc_ref (- 1) (replicate (wu_chunksize wu - 40) (wu_char wu)) in
     Inr (le_bytes 8 (wu_chunk_no wu) @ le_bytes 8 (wu_timestamp wu) @ le_bytes 4 (unat crc)
       @ replicate (wu_chunksize wu - 40) (wu_char wu)
       @ le_bytes 4 (unat crc) @ le_bytes 8 (wu_timestamp wu) @ le_bytes 8 (wu_chunk_no wu),
       wu\<lparr>wu_checksum := crc\<rparr>))"
  using fill_chunk_bytes [of wu]
  by (auto simp: chunk_bytes_def body_crc_def Let_def fill_chunk_pattern_def not_less)

text \<open>
  C9. Reading the fields of a chunk gives back the unit it was filled from, with its checksum.
\<close>

theorem chunk_roundtrip:
  assumes "40 < wu_chunksize wu" "wu_chunk_no wu < 2 ^ 64" "wu_timestamp wu < 2 ^ 64"
    "fill_chunk_pattern wu = Inr (p, wu')"
  shows "dump_pattern p (wu_chunksize wu) = Inr wu'"
  using fill_chunk_bytes [of wu] dump_chunk_bytes [of wu "[]"] assms by simp

definition cwu41 :: cwu where
  "cwu41 = \<lparr>wu_chunk_no = 0, wu_timestamp = 7, wu_chunksize = 41, wu_checksum = 0, wu_char = 65\<rparr>"

theorem chunk_roundtrip_witness:
  "dump_pattern (chunk_bytes cwu41) 41 = Inr (cwu41\<lparr>wu_checksum := body_crc cwu41\<rparr>)"
  using chunk_roundtrip [of cwu41 "chunk_bytes cwu41" "cwu41\<lparr>wu_checksum := body_crc cwu41\<rparr>"]
    fill_chunk_bytes [of cwu41] by (simp add: cwu41_def)

text \<open>
  C10. A file of zeros into which chunks were written in the order of their time stamps, with a
  log of the same records, is accepted by \<open>verify_file\<close>.
\<close>

theorem writes_verify:
  assumes "40 < chunksize" "chunksize < 2 ^ 31" "n * chunksize < 2 ^ 63" "\<forall>i. length (junk i) = chunksize"
    "list_all (wf_cwu n chunksize) us" "us \<noteq> []" "sorted (map wu_timestamp us)" "\<forall>u \<in> set us. 0 < wu_timestamp u"
    "vol fnam = Some (fold chunk_write us (replicate (n * chunksize) 0))"
  shows "verify_file (Suc fuel) junk [] vol (Inl (concat (map show_cwu us))) fnam (n * chunksize) chunksize = Inr 0"
proof -
  let ?z = "replicate (n * chunksize) (0 :: byte)"
  have "\<forall>i < n. chunk_passes (init_wus n chunksize ! i) i (disk_cwu ?z chunksize i)"
    by (simp add: chunk_passes_def init_wus_def cwu_zero_def disk_cwu_def le_field_zeros)
  moreover have "table_ok n chunksize (init_wus n chunksize)" by (simp add: table_ok_def init_wus_def cwu_zero_def)
  moreover have "\<forall>u \<in> set us. \<forall>i < n. wu_timestamp (init_wus n chunksize ! i) \<le> wu_timestamp u"
    by (simp add: init_wus_def cwu_zero_def)
  ultimately have "length (fold chunk_write us ?z) = n * chunksize"
    "\<forall>i < n. chunk_passes (expected n chunksize us ! i) i (disk_cwu (fold chunk_write us ?z) chunksize i)"
    using writes_pass [OF assms(5,7,8,1), of ?z "init_wus n chunksize"] by (simp_all add: expected_def)
  with verify_file_ideal [where vol = vol and fnam = fnam, OF assms(1,2) _ _ assms(4-6,9), of fuel] assms(3)
  show ?thesis by auto
qed

lemma cwu41_wf: "wf_cwu 1 41 cwu41"
  by (simp add: cwu41_def wf_cwu_def letter_A)

theorem writes_verify_witness:
  "verify_file 1 (\<lambda>_. replicate 41 0) [] [''f'' \<mapsto> chunk_write cwu41 (replicate 41 0)]
     (Inl (show_cwu cwu41)) ''f'' 41 41 = Inr 0"
  using writes_verify [of 41 1 "\<lambda>_. replicate 41 0" "[cwu41]" "[''f'' \<mapsto> chunk_write cwu41 (replicate 41 0)]" "''f''" 0]
    cwu41_wf by (simp add: cwu41_def)

text \<open>
  C11. On a file of whole chunks, when no system call fails, \<open>verify_file\<close> returns 0 exactly if
  every logged chunk has on disk (in its trailing fields and its first character) the number,
  time stamp and character of the record with the latest time stamp, and every other chunk is a
  hole or carries its own number and a checksum that fits its first character.
\<close>

theorem verify_file_decides:
  assumes "40 < chunksize" "chunksize < 2 ^ 31" "length f = n * chunksize" "length f < 2 ^ 63"
    "\<forall>i. length (junk i) = chunksize" "list_all (wf_cwu n chunksize) us" "us \<noteq> []" "vol fnam = Some f"
  shows "\<exists>r. verify_file (Suc fuel) junk [] vol (Inl (concat (map show_cwu us))) fnam (n * chunksize) chunksize = Inr r
     \<and> (r = 0 \<longleftrightarrow> (\<forall>i < n. let e = expected n chunksize us ! i; d = disk_cwu f chunksize i in
          if wu_timestamp e = 0 then wu_timestamp d = 0 \<or> wu_chunk_no d = i \<and> wu_checksum d = body_crc d
          else wu_chunk_no d = wu_chunk_no e \<and> wu_timestamp d = wu_timestamp e \<and> wu_char d = wu_char e))"
  using verify_file_ideal [where vol = vol and fnam = fnam, OF assms, of fuel] by (simp add: chunk_passes_def Let_def)

theorem verify_file_decides_witness:
  "\<exists>r. verify_file 1 (\<lambda>_. replicate 41 0) [] [''f'' \<mapsto> replicate 41 0] (Inl (show_cwu cwu41)) ''f'' 41 41 = Inr r \<and> r \<noteq> 0"
proof -
  have "expected 1 41 [cwu41] ! 0 = cwu41"
    by (simp add: expected_def wus_update_def init_wus_def cwu41_def cwu_zero_def)
  then show ?thesis
    using verify_file_decides [of 41 "replicate 41 0" 1 "\<lambda>_. replicate 41 0" "[cwu41]" "[''f'' \<mapsto> replicate 41 0]" "''f''" 0]
      cwu41_wf by (auto simp: Let_def disk_cwu_def le_field_zeros cwu41_def)
qed

text \<open>
  Of a chunk, verification looks at 21 bytes only: the first character and the trailing
  fields. Files that differ anywhere else (in the leading fields, or in the run of characters,
  which the checksum was meant to protect) get the same verdict.
\<close>

theorem verify_file_blind:
  assumes "40 < chunksize" "chunksize < 2 ^ 31" "length f = n * chunksize" "length f < 2 ^ 63" "length g = length f"
    "\<forall>i. length (junk i) = chunksize" "list_all (wf_cwu n chunksize) us" "us \<noteq> []"
    "\<forall>i < n. \<forall>j < chunksize. j = 20 \<or> chunksize - 20 \<le> j \<longrightarrow> file_byte f (i * chunksize + j) = file_byte g (i * chunksize + j)"
  shows "verify_file (Suc fuel) junk [] [fnam \<mapsto> f] (Inl (concat (map show_cwu us))) fnam (n * chunksize) chunksize = Inr 0
     \<longleftrightarrow> verify_file (Suc fuel) junk [] [fnam \<mapsto> g] (Inl (concat (map show_cwu us))) fnam (n * chunksize) chunksize = Inr 0"
proof -
  have "disk_cwu f chunksize i = disk_cwu g chunksize i" if "i < n" for i
  proof (rule disk_cwu_cong [OF assms(1)])
    show "i * chunksize + chunksize \<le> length f" using chunk_room [OF that, of chunksize] assms(3) by simp
    show "file_byte f (i * chunksize + 20) = file_byte g (i * chunksize + 20)"
      using assms(1) assms(9) [rule_format, OF that, of 20] by simp
    fix j assume "i * chunksize + chunksize - 20 \<le> j" "j < i * chunksize + chunksize"
    then have "j - i * chunksize < chunksize" "chunksize - 20 \<le> j - i * chunksize" "i * chunksize \<le> j"
      using assms(1) by linarith+
    then show "file_byte f j = file_byte g j" using assms(9) [rule_format, OF that, of "j - i * chunksize"] by simp
  qed (rule assms(5))
  then show ?thesis
    using verify_file_ideal [OF assms(1-4,6-8), of "[fnam \<mapsto> f]" fnam fuel]
      verify_file_ideal [OF assms(1,2) _ _ assms(6-8), of g "[fnam \<mapsto> g]" fnam fuel] assms(3-5) by auto
qed

theorem verify_file_blind_witness:
  "verify_file 1 (\<lambda>_. replicate 41 0) [] [''f'' \<mapsto> replicate 41 0] (Inl (show_cwu cwu41)) ''f'' 41 41 = Inr 0
     \<longleftrightarrow> verify_file 1 (\<lambda>_. replicate 41 0) [] [''f'' \<mapsto> (replicate 41 0)[3 := 9]] (Inl (show_cwu cwu41)) ''f'' 41 41 = Inr 0"
  using verify_file_blind [of 41 "replicate 41 0" 1 "(replicate 41 0)[3 := 9]" "\<lambda>_. replicate 41 0" "[cwu41]" 0 "''f''"]
    cwu41_wf by (simp add: file_byte_def nth_list_update)

end
