(* ===== verification/Fsx.thy ===== *)
theory Fsx
  imports Posix_File C_Stdio
begin

text \<open>
  \<open>programs/fsx/fsx-linux.c\<close>, the file system exerciser: it makes random reads, writes, truncates
  and mapped accesses on one file, keeps in \<open>good_buf\<close> what the file should hold, and stops with
  an exit status that names the first difference or failed call.

  The globals are the record \<open>fsx\<close>, with the file itself, the \<open>.fsxgood\<close> file, the kernel's
  decisions and the results of \<open>random()\<close> still to come; the flags are \<open>fsx_opts\<close>. \<open>exit\<close> ends a
  computation with \<open>Fx_exit\<close>. Offsets and sizes are \<open>unsigned\<close> in the source and wrap at 32 bits
  here. Of the output only the log dump of a failure is modelled (\<open>dumped\<close>), and asynchronous transfers (\<open>-A\<close>) are those of
  \<open>read\<close> and \<open>write\<close>.

  The theorems: on a file system that does what it is told every operation keeps the file equal to
  \<open>good_buf\<close> and never reports a failure; a difference in the range of a read is always reported;
  data are reported as bad only if they differ.
\<close>

section \<open>Flags and state\<close>

record fsx_opts =
  simulatedopcount :: nat
  closeprob :: nat
  do_fsync :: bool
  maxfilelen :: nat
  sizechecks :: bool
  maxoplen :: nat
  readbdy :: nat
  style :: nat
  truncbdy :: nat
  writebdy :: nat
  lite :: bool
  randomoplen :: bool
  mapped_writes :: bool
  mapped_reads :: bool
  o_direct :: bool
  numops :: int

definition fsx_defaults :: fsx_opts where
  "fsx_defaults = \<lparr>simulatedopcount = 0, closeprob = 0, do_fsync = False, maxfilelen = 256 * 1024,
     sizechecks = True, maxoplen = 64 * 1024, readbdy = 1, style = 0, truncbdy = 1, writebdy = 1,
     lite = False, randomoplen = True, mapped_writes = True, mapped_reads = True, o_direct = False,
     numops = -1\<rparr>"

record log_entry =
  operation :: int
  log_args :: "int \<times> int \<times> int"

definition LOGSIZE :: nat where
  "LOGSIZE = 1000"

text \<open>What \<open>logdump\<close> prints of an entry: the range, and whether it covers the bad offset.\<close>

datatype dump_what = Dw_mapread int int int bool | Dw_mapwrite int int int bool | Dw_read int int int bool
  | Dw_write int int int "bool option" bool | Dw_truncate bool int int bool | Dw_skipped | Dw_bogus int

record fsx =
  original_buf :: "byte list"
  good_buf :: "byte list"
  fx_size :: nat
  biggest :: nat
  testcalls :: nat
  closeopen :: bool
  oplog :: "log_entry list"
  logptr :: nat
  logcount :: nat
  fx_file :: content
  fsxgood :: content
  fx_env :: io_env
  fx_rng :: "nat list"
  badoff :: int
  dumped :: "(nat \<times> dump_what \<times> bool) list"

datatype fx_result = Fx_ok fsx | Fx_exit nat fsx | Fx_fault fault

fun fx_bind :: "fx_result \<Rightarrow> (fsx \<Rightarrow> fx_result) \<Rightarrow> fx_result" where
  "fx_bind (Fx_ok s) k = k s"
| "fx_bind (Fx_exit c s) k = Fx_exit c s"
| "fx_bind (Fx_fault e) k = Fx_fault e"

definition OP_READ :: int where "OP_READ = 1"
definition OP_WRITE :: int where "OP_WRITE = 2"
definition OP_TRUNCATE :: int where "OP_TRUNCATE = 3"
definition OP_MAPREAD :: int where "OP_MAPREAD = 5"
definition OP_MAPWRITE :: int where "OP_MAPWRITE = 6"
definition OP_SKIPPED :: int where "OP_SKIPPED = 7"

text \<open>The operation log is a ring; an operation followed by a close and open is complemented.\<close>

definition log4 :: "int \<Rightarrow> int \<Rightarrow> int \<Rightarrow> int \<Rightarrow> fsx \<Rightarrow> fsx" where
  "log4 opn arg0 arg1 arg2 s =
     (let le = \<lparr>operation = (if closeopen s then - opn - 1 else opn),
                log_args = (to_int32 arg0, to_int32 arg1, to_int32 arg2)\<rparr>
      in s\<lparr>oplog := (oplog s)[logptr s := le],
           logptr := (if LOGSIZE \<le> logptr s + 1 then 0 else logptr s + 1), logcount := logcount s + 1\<rparr>)"

text \<open>
  One line of the dump; \<open>Some True\<close> is a write that leaves a hole, \<open>Some False\<close> one that extends
  the file. The sums are those of \<open>int\<close>.
\<close>

definition dump_entry :: "int \<Rightarrow> int \<Rightarrow> int \<times> int \<times> int \<Rightarrow> dump_what" where
  "dump_entry bad opn args = (case args of (a0, a1, a2) \<Rightarrow>
     let end' = to_int32 (a0 + a1); within = a0 \<le> bad \<and> bad < end'; lst = to_int32 (end' - 1) in
     if opn = OP_MAPREAD then Dw_mapread a0 lst a1 within
     else if opn = OP_MAPWRITE then Dw_mapwrite a0 lst a1 within
     else if opn = OP_READ then Dw_read a0 lst a1 within
     else if opn = OP_WRITE then
       Dw_write a0 lst a1 (if a2 < a0 then Some True else if a2 < end' then Some False else None)
         ((a0 \<le> bad \<or> a2 \<le> bad) \<and> bad < end')
     else if opn = OP_TRUNCATE then
       (let down = a0 < a1 in
        Dw_truncate down a1 a0 ((if down then a0 else a1) \<le> bad \<and> bad < (if down then a1 else a0)))
     else if opn = OP_SKIPPED then Dw_skipped
     else Dw_bogus opn)"

definition dump_line :: "fsx \<Rightarrow> nat \<Rightarrow> nat \<times> dump_what \<times> bool" where
  "dump_line s i =
     (let lp = oplog s ! i; co = operation lp < 0 in
      (i + 1 + logcount s div LOGSIZE * LOGSIZE,
       dump_entry (badoff s) (if co then - operation lp - 1 else operation lp) (log_args lp), co))"

fun dump_from :: "fsx \<Rightarrow> nat \<Rightarrow> nat \<Rightarrow> (nat \<times> dump_what \<times> bool) list" where
  "dump_from s 0 i = []"
| "dump_from s (Suc count) i = dump_line s i # dump_from s count (if i + 1 = LOGSIZE then 0 else i + 1)"

definition logdump :: "fsx \<Rightarrow> (nat \<times> dump_what \<times> bool) list" where
  "logdump s = (if logcount s < LOGSIZE then dump_from s (logcount s) 0 else dump_from s LOGSIZE (logptr s))"

section \<open>Failures\<close>

text \<open>The kernel's answer to a call that only succeeds or fails.\<close>

definition fx_call :: "fsx \<Rightarrow> nat option \<times> fsx" where
  "fx_call s = (case sys_call (fx_env s) of (r, env) \<Rightarrow> (r, s\<lparr>fx_env := env\<rparr>))"

definition save_buffer :: "fsx_opts \<Rightarrow> fsx \<Rightarrow> fsx" where
  "save_buffer opt s = (if fx_size s = 0 then s else
     (case (if lite opt
            then (case fx_call s of
                    (Some e, s1) \<Rightarrow> (fx_size s, s1)
                  | (None, s1) \<Rightarrow> (min (fx_size s) (length (fsxgood s)), s1))
            else (fx_size s, s)) of (n, s1) \<Rightarrow>
      (case fx_call s1 of (_, s2) \<Rightarrow>
      (case sys_pwrite (fx_env s2) (fsxgood s2) (take n (good_buf s2)) 0 of
         (_, g, env) \<Rightarrow> s2\<lparr>fsxgood := g, fx_env := env\<rparr>))))"

definition report_failure :: "fsx_opts \<Rightarrow> nat \<Rightarrow> fsx \<Rightarrow> fx_result" where
  "report_failure opt status s = Fx_exit status (save_buffer opt (s\<lparr>dumped := logdump s\<rparr>))"

text \<open>A call whose failure is reported with the given status.\<close>

definition fx_must :: "fsx_opts \<Rightarrow> nat \<Rightarrow> fsx \<Rightarrow> fx_result" where
  "fx_must opt status s = (case fx_call s of
     (Some e, s1) \<Rightarrow> report_failure opt status s1 | (None, s1) \<Rightarrow> Fx_ok s1)"

text \<open>The last offset at which two buffers differ, which \<open>check_buffers\<close> leaves in \<open>badoff\<close>.\<close>

fun last_bad :: "byte list \<Rightarrow> byte list \<Rightarrow> nat \<Rightarrow> int \<Rightarrow> int" where
  "last_bad (c # cs) (t # ts) off bad = last_bad cs ts (off + 1) (if c \<noteq> t then int off else bad)"
| "last_bad _ _ off bad = bad"

definition check_buffers :: "fsx_opts \<Rightarrow> nat \<Rightarrow> byte list \<Rightarrow> fsx \<Rightarrow> fx_result" where
  "check_buffers opt off temp s =
     (if length (good_buf s) < off + length temp then Fx_fault Overrun
      else if take (length temp) (drop off (good_buf s)) \<noteq> temp
      then report_failure opt 110 (s\<lparr>badoff := last_bad (drop off (good_buf s)) temp off (badoff s)\<rparr>)
      else Fx_ok s)"

definition check_size :: "fsx_opts \<Rightarrow> fsx \<Rightarrow> fx_result" where
  "check_size opt s = (case fx_call s of (r1, s1) \<Rightarrow> (case fx_call s1 of (r2, s2) \<Rightarrow>
     if r1 \<noteq> None \<or> r2 \<noteq> None \<or> fx_size s2 \<noteq> length (fx_file s2) then report_failure opt 120 s2
     else Fx_ok s2))"

definition fx_ftruncate :: "nat \<Rightarrow> fsx \<Rightarrow> nat option \<times> fsx" where
  "fx_ftruncate n s = (case sys_ftruncate (fx_env s) (fx_file s) n of
     (r, f, env) \<Rightarrow> (r, s\<lparr>fx_file := f, fx_env := env\<rparr>))"

text \<open>None of the calls of \<open>check_trunc_hack\<close> is checked: if \<open>fstat\<close> fails its buffer is read unset.\<close>

definition check_trunc_hack :: "fsx \<Rightarrow> fx_result" where
  "check_trunc_hack s =
     (let s1 = snd (fx_ftruncate 0 s); s2 = snd (fx_ftruncate 100000 s1) in
      case fx_call s2 of (Some e, s3) \<Rightarrow> Fx_fault Uninit
      | (None, s3) \<Rightarrow>
        if length (fx_file s3) \<noteq> 100000 then Fx_exit 130 s3 else Fx_ok (snd (fx_ftruncate 0 s3)))"

section \<open>Reading\<close>

definition fx_skip :: "int \<Rightarrow> nat \<Rightarrow> nat \<Rightarrow> fsx \<Rightarrow> fx_result" where
  "fx_skip opn off sz s = Fx_ok (log4 OP_SKIPPED opn (int off) (int sz) s)"

definition doread :: "fsx_opts \<Rightarrow> nat \<Rightarrow> nat \<Rightarrow> fsx \<Rightarrow> fx_result" where
  "doread opt off0 sz0 s =
     (let off = off0 - off0 mod readbdy opt;
          sz = (if o_direct opt then sz0 - sz0 mod readbdy opt else sz0) in
      if sz = 0 then fx_skip OP_READ off sz s
      else if fx_size s < u32 (sz + off) then fx_skip OP_READ off sz s
      else
      let s1 = log4 OP_READ (int off) (int sz) 0 s in
      if testcalls s1 \<le> simulatedopcount opt then Fx_ok s1 else
      fx_bind (fx_must opt 140 s1) (\<lambda>s2.
        (case sys_pread (fx_env s2) (fx_file s2) sz off of
           (Inl e, env) \<Rightarrow> report_failure opt 141 (s2\<lparr>fx_env := env\<rparr>)
         | (Inr bs, env) \<Rightarrow>
             let s3 = s2\<lparr>fx_env := env\<rparr> in
             if length bs \<noteq> sz then report_failure opt 141 s3 else check_buffers opt off bs s3)))"

text \<open>A mapping reads the bytes of the file; the pages mapped contain the range.\<close>

definition domapread :: "fsx_opts \<Rightarrow> nat \<Rightarrow> nat \<Rightarrow> fsx \<Rightarrow> fx_result" where
  "domapread opt off0 sz s =
     (let off = off0 - off0 mod readbdy opt in
      if sz = 0 then fx_skip OP_MAPREAD off sz s
      else if fx_size s < u32 (sz + off) then fx_skip OP_MAPREAD off sz s
      else
      let s1 = log4 OP_MAPREAD (int off) (int sz) 0 s in
      if testcalls s1 \<le> simulatedopcount opt then Fx_ok s1 else
      fx_bind (fx_must opt 190 s1) (\<lambda>s2.
        (case map_load 4096 (fx_file s2) off sz of
           Inl e \<Rightarrow> Fx_fault e
         | Inr bs \<Rightarrow> fx_bind (fx_must opt 191 s2) (\<lambda>s3. check_buffers opt off bs s3))))"

section \<open>Writing\<close>

fun gendata :: "nat \<Rightarrow> byte list \<Rightarrow> nat \<Rightarrow> nat \<Rightarrow> byte list \<Rightarrow> byte list" where
  "gendata tc orig 0 off g = g"
| "gendata tc orig (Suc n) off g =
     gendata tc orig n (off + 1) (g[off := (if odd off then of_nat (tc mod 256) + orig ! off else of_nat (tc mod 256))])"

text \<open>
  What \<open>dowrite\<close> and \<open>domapwrite\<close> do to the image: new data, zeros between the old end and the
  new data, a new size. \<open>Fx_exit\<close> is the flaw check of the lite mode.
\<close>

definition fx_image_write :: "fsx_opts \<Rightarrow> nat \<Rightarrow> nat \<Rightarrow> nat \<Rightarrow> fsx \<Rightarrow> fx_result" where
  "fx_image_write opt status off sz s =
     (if length (good_buf s) < off + sz \<or> length (original_buf s) < off + sz then Fx_fault Overrun else
      let s1 = s\<lparr>good_buf := gendata (testcalls s) (original_buf s) sz off (good_buf s)\<rparr> in
      if fx_size s1 < u32 (off + sz) then
        let s2 = (if fx_size s1 < off
                  then s1\<lparr>good_buf := patch (fx_size s1) (replicate (off - fx_size s1) 0) (good_buf s1)\<rparr> else s1);
            s3 = s2\<lparr>fx_size := u32 (off + sz)\<rparr>
        in if lite opt then report_failure opt status s3 else Fx_ok s3
      else Fx_ok s1)"

definition dowrite :: "fsx_opts \<Rightarrow> nat \<Rightarrow> nat \<Rightarrow> fsx \<Rightarrow> fx_result" where
  "dowrite opt off0 sz0 s =
     (let off = off0 - off0 mod writebdy opt;
          sz = (if o_direct opt then sz0 - sz0 mod writebdy opt else sz0) in
      if sz = 0 then fx_skip OP_WRITE off sz s else
      let s1 = log4 OP_WRITE (int off) (int sz) (int (fx_size s)) s in
      fx_bind (fx_image_write opt 149 off sz s1) (\<lambda>s2.
      if testcalls s2 \<le> simulatedopcount opt then Fx_ok s2 else
      fx_bind (fx_must opt 150 s2) (\<lambda>s3.
        (case sys_pwrite (fx_env s3) (fx_file s3) (take sz (drop off (good_buf s3))) off of
           (Inl e, f, env) \<Rightarrow> report_failure opt 151 (s3\<lparr>fx_file := f, fx_env := env\<rparr>)
         | (Inr n, f, env) \<Rightarrow>
             let s4 = s3\<lparr>fx_file := f, fx_env := env\<rparr> in
             if n \<noteq> sz then report_failure opt 151 s4
             else if do_fsync opt then fx_must opt 152 s4 else Fx_ok s4))))"

definition domapwrite :: "fsx_opts \<Rightarrow> nat \<Rightarrow> nat \<Rightarrow> fsx \<Rightarrow> fx_result" where
  "domapwrite opt off0 sz s =
     (let off = off0 - off0 mod writebdy opt in
      if sz = 0 then fx_skip OP_MAPWRITE off sz s else
      let cur_filesize = fx_size s; s1 = log4 OP_MAPWRITE (int off) (int sz) 0 s in
      fx_bind (fx_image_write opt 200 off sz s1) (\<lambda>s2.
      if testcalls s2 \<le> simulatedopcount opt then Fx_ok s2 else
      fx_bind (if cur_filesize < fx_size s2
               then (case fx_ftruncate (fx_size s2) s2 of (Some e, s3) \<Rightarrow> Fx_exit 201 s3 | (None, s3) \<Rightarrow> Fx_ok s3)
               else Fx_ok s2) (\<lambda>s3.
      fx_bind (fx_must opt 202 s3) (\<lambda>s4.
        (case map_store 4096 (fx_file s4) off (take sz (drop off (good_buf s4))) of
           Inl e \<Rightarrow> Fx_fault e
         | Inr f \<Rightarrow> fx_bind (fx_must opt 203 (s4\<lparr>fx_file := f\<rparr>)) (fx_must opt 204))))))"

section \<open>Truncating, image, reopening\<close>

definition dotruncate :: "fsx_opts \<Rightarrow> nat \<Rightarrow> fsx \<Rightarrow> fx_result" where
  "dotruncate opt sz0 s =
     (let sz = sz0 - sz0 mod truncbdy opt;
          s1 = s\<lparr>biggest := max (biggest s) sz\<rparr>;
          s2 = log4 OP_TRUNCATE (int sz) (int (fx_size s1)) 0 s1 in
      if length (good_buf s2) < sz then Fx_fault Overrun else
      let s3 = (if fx_size s2 < sz
                then s2\<lparr>good_buf := patch (fx_size s2) (replicate (sz - fx_size s2) 0) (good_buf s2)\<rparr> else s2);
          s4 = s3\<lparr>fx_size := sz\<rparr> in
      if testcalls s4 \<le> simulatedopcount opt then Fx_ok s4 else
      (case fx_ftruncate sz s4 of
         (Some e, s5) \<Rightarrow> report_failure opt 160 s5 | (None, s5) \<Rightarrow> Fx_ok s5))"

definition writefileimage :: "fsx_opts \<Rightarrow> fsx \<Rightarrow> fx_result" where
  "writefileimage opt s = fx_bind (fx_must opt 171 s) (\<lambda>s1.
     (case sys_pwrite (fx_env s1) (fx_file s1) (take (fx_size s1) (good_buf s1)) 0 of
        (Inl e, f, env) \<Rightarrow> report_failure opt 172 (s1\<lparr>fx_file := f, fx_env := env\<rparr>)
      | (Inr n, f, env) \<Rightarrow>
          let s2 = s1\<lparr>fx_file := f, fx_env := env\<rparr> in
          if n \<noteq> fx_size s2 then report_failure opt 172 s2
          else if lite opt then Fx_ok s2
          else (case fx_ftruncate (fx_size s2) s2 of
                  (Some e, s3) \<Rightarrow> report_failure opt 173 s3 | (None, s3) \<Rightarrow> Fx_ok s3)))"

definition docloseopen :: "fsx_opts \<Rightarrow> fsx \<Rightarrow> fx_result" where
  "docloseopen opt s = (if testcalls s \<le> simulatedopcount opt then Fx_ok s
     else fx_bind (fx_must opt 180 s) (fx_must opt 181))"

section \<open>One test\<close>

text \<open>The choice among the operations, with the random values it draws.\<close>

definition fx_transfer :: "fsx_opts \<Rightarrow> nat \<Rightarrow> nat \<Rightarrow> nat \<Rightarrow> fsx \<Rightarrow> fx_result" where
  "fx_transfer opt opn off0 sz0 s =
     (if opn = 1 \<or> opn = (if lite opt then 3 else 4) then
        if maxfilelen opt = 0 then Fx_fault Div_zero else
        let off = off0 mod maxfilelen opt;
            sz = (if maxfilelen opt < u64 (off + sz0) then maxfilelen opt - off else sz0) in
        (if opn \<noteq> 1 then domapwrite else dowrite) opt (u32 off) (u32 sz) s
      else
        let off = (if fx_size s \<noteq> 0 then off0 mod fx_size s else 0);
            sz = (if fx_size s < u64 (off + sz0) then fx_size s - off else sz0) in
        (if opn \<noteq> 0 then domapread else doread) opt (u32 off) (u32 sz) s)"

definition fx_op :: "fsx_opts \<Rightarrow> nat \<Rightarrow> fsx \<Rightarrow> fx_result" where
  "fx_op opt opn s =
     (if \<not> lite opt \<and> opn = 3 \<and> even (style opt) then
        (case fx_rng s of [] \<Rightarrow> Fx_fault Out_of_rand | r # rs \<Rightarrow>
           if maxfilelen opt = 0 then Fx_fault Div_zero
           else dotruncate opt (u32 (r mod maxfilelen opt)) (s\<lparr>fx_rng := rs\<rparr>))
      else
        (case (if randomoplen opt
               then (case fx_rng s of [] \<Rightarrow> None | r # rs \<Rightarrow> Some (r mod (maxoplen opt + 1), s\<lparr>fx_rng := rs\<rparr>))
               else Some (maxoplen opt, s)) of
           None \<Rightarrow> Fx_fault Out_of_rand
         | Some (sz, s1) \<Rightarrow>
           if \<not> lite opt \<and> opn = 3 then dotruncate opt (u32 sz) s1
           else (case fx_rng s1 of [] \<Rightarrow> Fx_fault Out_of_rand
                 | r # rs \<Rightarrow> fx_transfer opt opn r sz (s1\<lparr>fx_rng := rs\<rparr>))))"

definition test :: "fsx_opts \<Rightarrow> fsx \<Rightarrow> fx_result" where
  "test opt s = (case fx_rng s of [] \<Rightarrow> Fx_fault Out_of_rand | rv # rs \<Rightarrow>
     let op0 = rv mod (3 + (if lite opt then 0 else 1) + (if mapped_writes opt then 1 else 0));
         opn = (if op0 = 2 \<and> \<not> mapped_reads opt then 0 else op0);
         s0 = s\<lparr>fx_rng := rs\<rparr> in
     fx_bind (if 0 < simulatedopcount opt \<and> testcalls s0 = simulatedopcount opt then writefileimage opt s0 else Fx_ok s0)
       (\<lambda>s1.
         let s2 = s1\<lparr>testcalls := testcalls s1 + 1,
                      closeopen := (if closeprob opt \<noteq> 0 then rv div 8 < 2 ^ 28 div closeprob opt else closeopen s1)\<rparr> in
         fx_bind (fx_op opt opn s2) (\<lambda>s3.
         fx_bind (if sizechecks opt \<and> simulatedopcount opt < testcalls s3 then check_size opt s3 else Fx_ok s3) (\<lambda>s4.
         if closeopen s4 then docloseopen opt s4 else Fx_ok s4))))"

section \<open>The command line and main\<close>

text \<open>
  \<open>getnum\<close>: \<open>strtol\<close> with base 0, cut to an \<open>int\<close>, and a unit. A string without digits is 0 with
  nothing consumed.
\<close>

definition strtol0 :: "string \<Rightarrow> int \<times> string" where
  "strtol0 s = (case scan_sign (dropWhile c_isspace s) of (neg, r) \<Rightarrow>
     let hex = (2 \<le> length r \<and> r ! 0 = CHR ''0'' \<and> r ! 1 \<in> {CHR ''x'', CHR ''X''} \<and> 3 \<le> length r \<and> hex_val (r ! 2) < 16);
         base = (if hex then 16 else if r \<noteq> [] \<and> hd r = CHR ''0'' then 8 else 10);
         body = (if hex then drop 2 r else r);
         ds = takeWhile (\<lambda>c. hex_val c < base) body;
         v = int (base_val base ds) in
     if ds = [] then (0, s)
     else (if neg then max (- (2 ^ 63)) (- v) else min (2 ^ 63 - 1) v, drop (length ds) body))"

definition getnum :: "string \<Rightarrow> int \<times> string" where
  "getnum s = (case strtol0 s of (v, e) \<Rightarrow>
     let ret = to_int32 v in
     (case e of [] \<Rightarrow> (ret, e)
      | c # e' \<Rightarrow>
        if c \<in> {CHR ''b'', CHR ''B''} then (to_int32 (ret * 512), e')
        else if c \<in> {CHR ''k'', CHR ''K''} then (to_int32 (ret * 1024), e')
        else if c \<in> {CHR ''m'', CHR ''M''} then (to_int32 (ret * (1024 * 1024)), e')
        else if c \<in> {CHR ''w'', CHR ''W''} then (to_int32 (ret * 4), e')
        else (ret, e)))"

definition to_ulong :: "int \<Rightarrow> nat" where
  "to_ulong i = nat (i mod 2 ^ 64)"

text \<open>
  One round of the option loop; \<open>None\<close> is \<open>usage()\<close>, exit status 90. The flags that only change
  what is printed leave the record alone. \<open>-s\<close> is stored in a variable local to \<open>main\<close>, and \<open>-m\<close>
  falls through into \<open>-n\<close>.
\<close>

definition fsx_opt_step :: "char \<times> string \<Rightarrow> fsx_opts \<Rightarrow> fsx_opts option" where
  "fsx_opt_step co opt = (case co of (c, optarg) \<Rightarrow>
     let v = fst (getnum optarg); e = snd (getnum optarg) in
     if c = CHR ''b'' then (if v = 0 then None else Some (opt\<lparr>simulatedopcount := to_ulong (v - 1)\<rparr>))
     else if c = CHR ''c'' then (if v \<le> 0 then None else Some (opt\<lparr>closeprob := nat v\<rparr>))
     else if c = CHR ''d'' \<or> c = CHR ''q'' \<or> c = CHR ''A'' \<or> c = CHR ''P'' then Some opt
     else if c = CHR ''f'' then Some (opt\<lparr>do_fsync := True\<rparr>)
     else if c = CHR ''l'' then (if v = 0 then None else Some (opt\<lparr>maxfilelen := to_ulong v\<rparr>))
     else if c = CHR ''m'' then
       (if v < 0 \<or> e = [] \<or> hd e \<noteq> CHR '':'' \<or> fst (getnum (tl e)) < 0 then None
        else Some (opt\<lparr>sizechecks := False\<rparr>))
     else if c = CHR ''n'' then Some (opt\<lparr>sizechecks := False\<rparr>)
     else if c = CHR ''o'' then (if v \<le> 0 then None else Some (opt\<lparr>maxoplen := nat v\<rparr>))
     else if c = CHR ''p'' then Some opt
     else if c = CHR ''r'' then (if v \<le> 0 then None else Some (opt\<lparr>readbdy := nat v\<rparr>))
     else if c = CHR ''s'' then (if v < 0 \<or> 1 < v then None else Some opt)
     else if c = CHR ''t'' then (if v \<le> 0 then None else Some (opt\<lparr>truncbdy := nat v\<rparr>))
     else if c = CHR ''w'' then (if v \<le> 0 then None else Some (opt\<lparr>writebdy := nat v\<rparr>))
     else if c = CHR ''D'' then (if v = 0 then None else Some opt)
     else if c = CHR ''L'' then Some (opt\<lparr>lite := True\<rparr>)
     else if c = CHR ''N'' then (if v < 0 then None else Some (opt\<lparr>numops := v\<rparr>))
     else if c = CHR ''O'' then Some (opt\<lparr>randomoplen := False\<rparr>)
     else if c = CHR ''R'' then Some (opt\<lparr>mapped_reads := False\<rparr>)
     else if c = CHR ''S'' then (if v < 0 then None else Some opt)
     else if c = CHR ''W'' then Some (opt\<lparr>mapped_writes := False\<rparr>)
     else if c = CHR ''Z'' then Some (opt\<lparr>o_direct := True\<rparr>)
     else None)"

fun fsx_opt_loop :: "(char \<times> string) list \<Rightarrow> fsx_opts \<Rightarrow> fsx_opts option" where
  "fsx_opt_loop [] opt = Some opt"
| "fsx_opt_loop (co # cos) opt = (case fsx_opt_step co opt of None \<Rightarrow> None | Some opt' \<Rightarrow> fsx_opt_loop cos opt')"

text \<open>
  The loop of \<open>main\<close> for a given number of operations; with \<open>numops = -1\<close> the source loops until
  some test stops it, which is this loop for every number.
\<close>

fun fsx_loop :: "nat \<Rightarrow> fsx_opts \<Rightarrow> fsx \<Rightarrow> fx_result" where
  "fsx_loop 0 opt s = Fx_ok s"
| "fsx_loop (Suc n) opt s = fx_bind (test opt s) (fsx_loop n opt)"

text \<open>
  \<open>main\<close> from the first \<open>open\<close> on, for \<open>n\<close> operations. \<open>f0\<close> is the file before the run, which
  \<open>O_TRUNC\<close> empties unless in lite mode, where its size becomes the largest and only size.
\<close>

definition fsx_main :: "nat \<Rightarrow> fsx_opts \<Rightarrow> io_env \<Rightarrow> content \<Rightarrow> nat list \<Rightarrow> fx_result" where
  "fsx_main n opt0 env f0 rng =
     (let len = (if lite opt0 then length f0 else maxfilelen opt0);
          opt = opt0\<lparr>maxfilelen := len\<rparr>;
          s0 = \<lparr>original_buf = [], good_buf = [], fx_size = (if lite opt0 then len else 0), biggest = 0, testcalls = 0,
                closeopen = False, oplog = replicate LOGSIZE \<lparr>operation = 0, log_args = (0, 0, 0)\<rparr>, logptr = 0,
                logcount = 0, fx_file = (if lite opt0 then f0 else []), fsxgood = [], fx_env = env, fx_rng = rng,
                badoff = -1, dumped = []\<rparr>;
          must = (\<lambda>status s. case fx_call s of (Some e, s1) \<Rightarrow> Fx_exit status s1 | (None, s1) \<Rightarrow> Fx_ok s1) in
      fx_bind (must 91 s0) (\<lambda>s1. fx_bind (must 92 s1) (\<lambda>s2. fx_bind (must 93 s2) (\<lambda>s3.
      fx_bind (if lite opt then fx_bind (must 94 s3) (must 95) else Fx_ok s3) (\<lambda>s4.
      if length (fx_rng s4) < len then Fx_fault Out_of_rand else
      let s5 = s4\<lparr>original_buf := map (\<lambda>r. of_nat (r mod 256)) (take len (fx_rng s4)), fx_rng := drop len (fx_rng s4),
                   good_buf := replicate len 0\<rparr> in
      fx_bind (if lite opt then
                 (case sys_pwrite (fx_env s5) (fx_file s5) (good_buf s5) 0 of
                    (Inl e, f, env') \<Rightarrow> Fx_exit 98 (s5\<lparr>fx_file := f, fx_env := env'\<rparr>)
                  | (Inr k, f, env') \<Rightarrow>
                      if k \<noteq> len then Fx_exit 98 (s5\<lparr>fx_file := f, fx_env := env'\<rparr>)
                      else Fx_ok (s5\<lparr>fx_file := f, fx_env := env'\<rparr>))
               else check_trunc_hack s5) (\<lambda>s6.
      fx_bind (fsx_loop n opt s6) (\<lambda>s7. fx_bind (fx_must opt 99 s7) (\<lambda>s8. Fx_exit 0 s8))))))))"

section \<open>The image\<close>

lemma length_gendata [simp]: "length (gendata tc orig n off g) = length g"
  by (induction tc orig n off g rule: gendata.induct) simp_all

lemma gendata_outside: "i < off \<or> off + n \<le> i \<Longrightarrow> gendata tc orig n off g ! i = g ! i"
  by (induction tc orig n off g rule: gendata.induct) auto

lemma gendata_inside:
  "off \<le> i \<Longrightarrow> i < off + n \<Longrightarrow> off + n \<le> length g \<Longrightarrow>
     gendata tc orig n off g ! i = (if odd i then of_nat (tc mod 256) + orig ! i else of_nat (tc mod 256))"
proof (induction tc orig n off g rule: gendata.induct)
  case (2 tc orig n off g)
  show ?case
  proof (cases "i = off")
    case True
    then show ?thesis using gendata_outside [of i "off + 1" n tc orig] "2.prems" by simp
  next
    case False
    with 2 show ?thesis by simp
  qed
qed simp

text \<open>
  An image \<open>h\<close> obtained from \<open>g\<close> by new data in a range and zeros between the old end and it: the
  file catches up by writing the range.
\<close>

definition image_step :: "nat \<Rightarrow> nat \<Rightarrow> nat \<Rightarrow> byte list \<Rightarrow> byte list \<Rightarrow> bool" where
  "image_step sz off n g h \<longleftrightarrow> length h = length g
     \<and> (\<forall>i < length g. i < sz \<and> \<not> (off \<le> i \<and> i < off + n) \<longrightarrow> h ! i = g ! i)
     \<and> (\<forall>i < length g. sz \<le> i \<and> i < off \<longrightarrow> h ! i = 0)"

lemma image_step_file:
  assumes "image_step sz off n g h" "0 < n" "off + n \<le> length g" "sz \<le> length g"
  shows "file_write off (take n (drop off h)) (take sz g) = take (max sz (off + n)) h"
proof (rule file_eqI)
  have len: "length h = length g" using assms(1) by (simp add: image_step_def)
  let ?bs = "take n (drop off h)"
  have bs: "length ?bs = n" "?bs \<noteq> []" using assms(2,3) len by auto
  show "length (file_write off ?bs (take sz g)) = length (take (max sz (off + n)) h)"
    using bs assms(3,4) len by (simp add: buf_simps)
  fix i assume "i < length (file_write off ?bs (take sz g))"
  then have i: "i < max sz (off + n)" using bs assms(4) by (simp add: buf_simps)
  then have il: "i < length h" using assms(3,4) len by auto
  show "file_byte (file_write off ?bs (take sz g)) i = file_byte (take (max sz (off + n)) h) i"
  proof (cases "off \<le> i \<and> i < off + n")
    case True
    then have "i - off < n" "off \<le> i" by auto
    then show ?thesis unfolding file_byte_write using True bs i il by (simp add: file_byte_def)
  next
    case False
    then have "(if i < sz then g ! i else 0) = h ! i" using assms(1) i il len by (auto simp: image_step_def)
    with False bs i il assms(4) show ?thesis unfolding file_byte_write by (auto simp: file_byte_def)
  qed
qed

text \<open>The same through a mapping, after the file got its new size.\<close>

lemma image_step_map:
  assumes "image_step sz off n g h" "0 < n" "off + n \<le> length g" "sz \<le> length g"
  shows "file_write off (take n (drop off h)) (file_truncate (max sz (off + n)) (take sz g)) = take (max sz (off + n)) h"
proof (rule file_eqI)
  have len: "length h = length g" using assms(1) by (simp add: image_step_def)
  then have bs: "length (take n (drop off h)) = n" "take n (drop off h) \<noteq> []" using assms(2,3) by auto
  show "length (file_write off (take n (drop off h)) (file_truncate (max sz (off + n)) (take sz g)))
      = length (take (max sz (off + n)) h)"
    using bs assms(3,4) len by (simp add: buf_simps)
  fix i assume "i < length (file_write off (take n (drop off h)) (file_truncate (max sz (off + n)) (take sz g)))"
  then have i: "i < max sz (off + n)" using bs by (simp add: buf_simps)
  have "file_byte (file_write off (take n (drop off h)) (file_truncate (max sz (off + n)) (take sz g))) i
      = file_byte (file_write off (take n (drop off h)) (take sz g)) i"
    using i by (simp add: buf_simps)
  then show "file_byte (file_write off (take n (drop off h)) (file_truncate (max sz (off + n)) (take sz g))) i
      = file_byte (take (max sz (off + n)) h) i"
    unfolding image_step_file [OF assms] .
qed

lemma truncate_image:
  assumes "sz \<le> length g" "n \<le> length g"
  shows "file_truncate n (take sz g) = take n (if sz < n then patch sz (replicate (n - sz) 0) g else g)"
proof (rule nth_equalityI)
  show "length (file_truncate n (take sz g)) = length (take n (if sz < n then patch sz (replicate (n - sz) 0) g else g))"
    using assms by (simp add: buf_simps)
  fix i assume "i < length (file_truncate n (take sz g))"
  then have "i < n" by (simp add: buf_simps)
  then show "file_truncate n (take sz g) ! i = take n (if sz < n then patch sz (replicate (n - sz) 0) g else g) ! i"
    using assms by (auto simp: file_truncate_def nth_append nth_patch)
qed

section \<open>The invariant\<close>

definition fx_opts_ok :: "fsx_opts \<Rightarrow> bool" where
  "fx_opts_ok opt \<longleftrightarrow> 0 < maxfilelen opt \<and> maxfilelen opt < 2 ^ 31 \<and> maxoplen opt < 2 ^ 31 \<and> even (style opt)
     \<and> 0 < readbdy opt \<and> 0 < writebdy opt \<and> 0 < truncbdy opt"

text \<open>
  Once the simulated operations are over the file is the first \<open>fx_size\<close> bytes of \<open>good_buf\<close>. In
  lite mode the size never changes.
\<close>

definition fx_inv :: "fsx_opts \<Rightarrow> fsx \<Rightarrow> bool" where
  "fx_inv opt s \<longleftrightarrow> length (good_buf s) = maxfilelen opt \<and> length (original_buf s) = maxfilelen opt
     \<and> fx_size s \<le> maxfilelen opt
     \<and> (lite opt \<longrightarrow> fx_size s = maxfilelen opt \<and> length (fx_file s) = maxfilelen opt)
     \<and> (simulatedopcount opt = 0 \<or> simulatedopcount opt < testcalls s \<longrightarrow> fx_file s = take (fx_size s) (good_buf s))"

text \<open>
  What an operation may do: go on in a state of the invariant, or stop because a call failed, never
  with bad data (status 110); if no call fails it goes on.
\<close>

definition fx_post :: "bool \<Rightarrow> (fsx \<Rightarrow> bool) \<Rightarrow> fx_result \<Rightarrow> bool" where
  "fx_post ideal P r = (case r of
     Fx_ok s \<Rightarrow> P s \<and> (ideal \<longrightarrow> fx_env s = [])
   | Fx_exit c s \<Rightarrow> \<not> ideal \<and> c \<noteq> 110
   | Fx_fault e \<Rightarrow> e = Out_of_rand)"

definition fx_in :: "bool \<Rightarrow> (fsx \<Rightarrow> bool) \<Rightarrow> fsx \<Rightarrow> bool" where
  "fx_in ideal P s \<longleftrightarrow> P s \<and> (ideal \<longrightarrow> fx_env s = [])"

lemma fx_post_ok [simp]: "fx_post ideal P (Fx_ok s) = fx_in ideal P s"
  by (simp add: fx_post_def fx_in_def)

lemma fx_post_exit [simp]: "fx_post ideal P (Fx_exit c s) \<longleftrightarrow> \<not> ideal \<and> c \<noteq> 110"
  by (simp add: fx_post_def)

lemma fx_post_report [simp]: "fx_post ideal P (report_failure opt c s) \<longleftrightarrow> \<not> ideal \<and> c \<noteq> 110"
  by (simp add: report_failure_def)

lemma fx_post_rand [simp]: "fx_post ideal P (Fx_fault e) \<longleftrightarrow> e = Out_of_rand"
  by (simp add: fx_post_def)

lemma fx_post_bind:
  assumes "fx_post ideal P r" "\<And>s. fx_in ideal P s \<Longrightarrow> fx_post ideal Q (k s)"
  shows "fx_post ideal Q (fx_bind r k)"
  using assms by (cases r) (auto simp: fx_post_def fx_in_def)

text \<open>A property of the state the kernel's decisions play no part in.\<close>

definition env_free :: "(fsx \<Rightarrow> bool) \<Rightarrow> bool" where
  "env_free P \<longleftrightarrow> (\<forall>s env. P (s\<lparr>fx_env := env\<rparr>) = P s)"

lemma fx_call_cases:
  assumes "fx_call s = (r, s')"
  shows "\<exists>env. s' = s\<lparr>fx_env := env\<rparr> \<and> (fx_env s = [] \<longrightarrow> r = None \<and> env = [])"
  using assms by (cases "fx_env s") (auto simp: fx_call_def split: prod.splits intro!: exI)

lemma fx_must_post:
  assumes "fx_in ideal P s" "env_free P" "c \<noteq> 110"
  shows "fx_post ideal P (fx_must opt c s)"
proof -
  obtain r s' where r: "fx_call s = (r, s')" by fastforce
  from fx_call_cases [OF r] obtain env where "s' = s\<lparr>fx_env := env\<rparr>" "fx_env s = [] \<longrightarrow> r = None \<and> env = []" by auto
  with assms r show ?thesis
    by (cases r) (auto simp: fx_must_def fx_in_def env_free_def)
qed

lemma env_free_conj [intro]: "env_free P \<Longrightarrow> env_free Q \<Longrightarrow> env_free (\<lambda>s. P s \<and> Q s)"
  by (simp add: env_free_def)

lemma fx_inv_frame [simp]:
  "fx_inv opt (s\<lparr>fx_env := env\<rparr>) = fx_inv opt s"
  "fx_inv opt (s\<lparr>fx_rng := rs\<rparr>) = fx_inv opt s"
  "fx_inv opt (log4 a b c d s) = fx_inv opt s"
  by (simp_all add: fx_inv_def log4_def Let_def)

lemma log4_fields [simp]:
  "good_buf (log4 a b c d s) = good_buf s" "original_buf (log4 a b c d s) = original_buf s"
  "fx_size (log4 a b c d s) = fx_size s" "testcalls (log4 a b c d s) = testcalls s"
  "fx_file (log4 a b c d s) = fx_file s" "fx_env (log4 a b c d s) = fx_env s" "fx_rng (log4 a b c d s) = fx_rng s"
  by (simp_all add: log4_def Let_def)

text \<open>States that differ in the kernel's decisions only.\<close>

definition same :: "fsx \<Rightarrow> fsx \<Rightarrow> bool" where
  "same s s' \<longleftrightarrow> s'\<lparr>fx_env := []\<rparr> = s\<lparr>fx_env := []\<rparr>"

lemma same_env_free [simp]: "env_free (same s)"
  by (simp add: env_free_def same_def)

lemma same_refl [simp]: "same s s" "same s (s\<lparr>fx_env := env\<rparr>)"
  by (simp_all add: same_def)

lemma same_eq: "same s s' \<Longrightarrow> \<exists>env. s' = s\<lparr>fx_env := env\<rparr>"
  unfolding same_def by (intro exI [of _ "fx_env s'"]) (cases s; cases s'; simp)

definition fx_J :: "fsx_opts \<Rightarrow> fsx \<Rightarrow> bool" where
  "fx_J opt s \<longleftrightarrow> fx_inv opt s \<and> 0 < testcalls s"

lemma fx_J_frame [simp]:
  "fx_J opt (s\<lparr>fx_env := env\<rparr>) = fx_J opt s" "fx_J opt (s\<lparr>fx_rng := rs\<rparr>) = fx_J opt s"
  "fx_J opt (log4 a b c d s) = fx_J opt s" "fx_J opt (s\<lparr>closeopen := co\<rparr>) = fx_J opt s"
  by (simp_all add: fx_J_def) (simp_all add: fx_inv_def)

lemma env_free_J [simp]: "env_free (fx_J opt)" "env_free (fx_inv opt)"
  by (simp_all add: env_free_def)

lemma fx_must_same:
  assumes "ideal \<longrightarrow> fx_env s = []" "c \<noteq> 110"
    "\<And>env. (ideal \<longrightarrow> env = []) \<Longrightarrow> fx_post ideal Q (k (s\<lparr>fx_env := env\<rparr>))"
  shows "fx_post ideal Q (fx_bind (fx_must opt c s) k)"
proof (rule fx_post_bind)
  show "fx_post ideal (same s) (fx_must opt c s)" by (rule fx_must_post) (use assms in \<open>auto simp: fx_in_def\<close>)
  fix s' assume "fx_in ideal (same s) s'"
  then show "fx_post ideal Q (k s')" using same_eq [of s s'] assms(3) by (auto simp: fx_in_def)
qed

lemma fx_J_synced:
  assumes "fx_J opt s" "simulatedopcount opt < testcalls s"
  shows "fx_file s = take (fx_size s) (good_buf s)" "fx_size s \<le> length (good_buf s)"
    "length (fx_file s) = fx_size s" "length (good_buf s) = maxfilelen opt"
  using assms by (auto simp: fx_J_def fx_inv_def)

lemma check_buffers_post:
  assumes "fx_in ideal (fx_J opt) s" "simulatedopcount opt < testcalls s" "off + sz \<le> fx_size s"
  shows "fx_post ideal (fx_J opt) (check_buffers opt off (take sz (drop off (fx_file s))) s)"
proof -
  note sy = fx_J_synced [of opt s]
  have "take sz (drop off (fx_file s)) = take sz (drop off (good_buf s))"
    using sy(1) assms by (simp add: fx_in_def drop_take min_absorb1)
  moreover have "length (take sz (drop off (fx_file s))) = sz" using sy(3) assms by (simp add: fx_in_def)
  ultimately show ?thesis using assms sy(2) by (simp add: check_buffers_def fx_in_def)
qed

lemma fx_skip_post [simp]: "fx_post ideal (fx_J opt) (fx_skip opn off sz s) = fx_in ideal (fx_J opt) s"
  by (simp add: fx_skip_def fx_in_def)

lemma doread_post:
  assumes "fx_in ideal (fx_J opt) s" "off0 + sz0 < 2 ^ 32" "0 < readbdy opt"
  shows "fx_post ideal (fx_J opt) (doread opt off0 sz0 s)"
proof -
  define off where "off = off0 - off0 mod readbdy opt"
  define sz where "sz = (if o_direct opt then sz0 - sz0 mod readbdy opt else sz0)"
  define s1 where "s1 = log4 OP_READ (int off) (int sz) 0 s"
  have "off + sz \<le> off0 + sz0" by (auto simp: off_def sz_def)
  then have w: "u32 (sz + off) = off + sz" using assms(2) by (simp add: width add.commute)
  have s1: "fx_in ideal (fx_J opt) s1" using assms(1) by (simp add: s1_def fx_in_def)
  have rd: "fx_post ideal (fx_J opt) (fx_bind (fx_must opt 140 s1) (\<lambda>s2.
        (case sys_pread (fx_env s2) (fx_file s2) sz off of
           (Inl e, env) \<Rightarrow> report_failure opt 141 (s2\<lparr>fx_env := env\<rparr>)
         | (Inr bs, env) \<Rightarrow>
             let s3 = s2\<lparr>fx_env := env\<rparr> in
             if length bs \<noteq> sz then report_failure opt 141 s3 else check_buffers opt off bs s3)))"
    if le: "off + sz \<le> fx_size s1" and tc: "simulatedopcount opt < testcalls s1"
  proof (rule fx_must_same)
    fix env1 :: io_env assume i: "ideal \<longrightarrow> env1 = []"
    obtain r env2 where r: "sys_pread env1 (fx_file s1) sz off = (r, env2)" by fastforce
    have full: "length (take sz (drop off (fx_file s1))) = sz"
      using fx_J_synced(3) [of opt s1] s1 tc le by (simp add: fx_in_def)
    have "ideal \<Longrightarrow> r = Inr (take sz (drop off (fx_file s1))) \<and> env2 = []" using r i by auto
    moreover have "fx_post ideal (fx_J opt) (check_buffers opt off bs (s1\<lparr>fx_env := env2\<rparr>))"
      if b: "r = Inr bs" "length bs = sz" for bs
    proof -
      have "bs = take sz (drop off (fx_file s1))" using sys_pread_InrD(1) [of env1 "fx_file s1" sz off bs env2] r b by simp
      then show ?thesis
        using check_buffers_post [of ideal opt "s1\<lparr>fx_env := env2\<rparr>" off sz] s1 le tc calculation by (auto simp: fx_in_def)
    qed
    ultimately show "fx_post ideal (fx_J opt) (case sys_pread (fx_env (s1\<lparr>fx_env := env1\<rparr>)) (fx_file (s1\<lparr>fx_env := env1\<rparr>)) sz off of
           (Inl e, env) \<Rightarrow> report_failure opt 141 (s1\<lparr>fx_env := env1\<rparr>\<lparr>fx_env := env\<rparr>)
         | (Inr bs, env) \<Rightarrow>
             let s3 = s1\<lparr>fx_env := env1\<rparr>\<lparr>fx_env := env\<rparr> in
             if length bs \<noteq> sz then report_failure opt 141 s3 else check_buffers opt off bs s3)"
      using r full by (cases r) (auto simp: Let_def)
  qed (use s1 in \<open>auto simp: fx_in_def\<close>)
  have fields: "testcalls s1 = testcalls s" "fx_size s1 = fx_size s" by (simp_all add: s1_def)
  show ?thesis
    unfolding doread_def Let_def off_def [symmetric] sz_def [symmetric] s1_def [symmetric] w
    using rd [unfolded Let_def] s1 assms(1) fields by auto
qed

lemma domapread_post:
  assumes "fx_in ideal (fx_J opt) s" "off0 + sz < 2 ^ 32" "0 < readbdy opt"
  shows "fx_post ideal (fx_J opt) (domapread opt off0 sz s)"
proof -
  define off where "off = off0 - off0 mod readbdy opt"
  define s1 where "s1 = log4 OP_MAPREAD (int off) (int sz) 0 s"
  have "off + sz \<le> off0 + sz" by (auto simp: off_def)
  then have w: "u32 (sz + off) = off + sz" using assms(2) by (simp add: width add.commute)
  have s1: "fx_in ideal (fx_J opt) s1" using assms(1) by (simp add: s1_def fx_in_def)
  have rd: "fx_post ideal (fx_J opt) (fx_bind (fx_must opt 190 s1) (\<lambda>s2.
        (case map_load 4096 (fx_file s2) off sz of
           Inl e \<Rightarrow> Fx_fault e
         | Inr bs \<Rightarrow> fx_bind (fx_must opt 191 s2) (\<lambda>s3. check_buffers opt off bs s3))))"
    if le: "off + sz \<le> fx_size s1" and tc: "simulatedopcount opt < testcalls s1"
  proof (rule fx_must_same)
    fix env1 :: io_env assume i: "ideal \<longrightarrow> env1 = []"
    have ld: "map_load 4096 (fx_file s1) off sz = Inr (take sz (drop off (fx_file s1)))"
      using map_load_inside [of 4096 off sz "fx_file s1"] fx_J_synced(3) [of opt s1] s1 tc le by (simp add: fx_in_def)
    have "fx_post ideal (fx_J opt) (fx_bind (fx_must opt 191 (s1\<lparr>fx_env := env1\<rparr>))
        (check_buffers opt off (take sz (drop off (fx_file s1)))))"
    proof (rule fx_must_same)
      fix env2 :: io_env assume "ideal \<longrightarrow> env2 = []"
      then show "fx_post ideal (fx_J opt) (check_buffers opt off (take sz (drop off (fx_file s1))) (s1\<lparr>fx_env := env1\<rparr>\<lparr>fx_env := env2\<rparr>))"
        using check_buffers_post [of ideal opt "s1\<lparr>fx_env := env2\<rparr>" off sz] s1 tc le by (simp add: fx_in_def)
    qed (use i in auto)
    with ld show "fx_post ideal (fx_J opt) (case map_load 4096 (fx_file (s1\<lparr>fx_env := env1\<rparr>)) off sz of
           Inl e \<Rightarrow> Fx_fault e
         | Inr bs \<Rightarrow> fx_bind (fx_must opt 191 (s1\<lparr>fx_env := env1\<rparr>)) (\<lambda>s3. check_buffers opt off bs s3))" by simp
  qed (use s1 in \<open>auto simp: fx_in_def\<close>)
  have fields: "testcalls s1 = testcalls s" "fx_size s1 = fx_size s" by (simp_all add: s1_def)
  show ?thesis
    unfolding domapread_def Let_def off_def [symmetric] s1_def [symmetric] w
    using rd s1 assms(1) fields by auto
qed

lemma gendata_step:
  assumes "off + n \<le> length g" "h = gendata tc orig n off g"
  shows "image_step sz off n g (if sz < off then patch sz (replicate (off - sz) 0) h else h)"
proof -
  have "h ! i = g ! i" if "\<not> (off \<le> i \<and> i < off + n)" for i
    using gendata_outside [of i off n tc orig g] that by (auto simp: assms(2) not_le)
  then show ?thesis using assms by (auto simp: image_step_def nth_patch length_patch)
qed

lemma fx_image_write_eq:
  assumes "fx_J opt s" "off + sz \<le> maxfilelen opt" "0 < sz" "maxfilelen opt < 2 ^ 31"
  shows "\<exists>h. fx_image_write opt c off sz s = Fx_ok (s\<lparr>good_buf := h, fx_size := max (fx_size s) (off + sz)\<rparr>)
     \<and> image_step (fx_size s) off sz (good_buf s) h"
proof -
  define h where "h = gendata (testcalls s) (original_buf s) sz off (good_buf s)"
  let ?h = "if fx_size s < off then patch (fx_size s) (replicate (off - fx_size s) 0) h else h"
  have len: "length (good_buf s) = maxfilelen opt" "length (original_buf s) = maxfilelen opt"
    "lite opt \<longrightarrow> fx_size s = maxfilelen opt" using assms(1) by (auto simp: fx_J_def fx_inv_def)
  have w: "u32 (off + sz) = off + sz" using assms(2,4) by (simp add: width)
  have step: "image_step (fx_size s) off sz (good_buf s) ?h"
    by (rule gendata_step [OF _ h_def]) (use len assms in auto)
  have "fx_image_write opt c off sz s = Fx_ok (s\<lparr>good_buf := ?h, fx_size := max (fx_size s) (off + sz)\<rparr>)"
    using len assms(2,3) by (cases s) (auto simp: fx_image_write_def Let_def w h_def max_def)
  with step show ?thesis by blast
qed

lemma fx_env_file: "s\<lparr>fx_env := env, fx_file := f\<rparr> = s\<lparr>fx_file := f, fx_env := env\<rparr>"
  by simp

lemma fx_J_update:
  assumes "fx_J opt s" "length h = length (good_buf s)" "sz \<le> maxfilelen opt" "lite opt \<longrightarrow> sz = maxfilelen opt"
    "f = take sz h \<or> f = fx_file s \<and> testcalls s \<le> simulatedopcount opt"
  shows "fx_J opt (s\<lparr>good_buf := h, fx_size := sz, fx_file := f\<rparr>)"
  using assms by (auto simp: fx_J_def fx_inv_def)

lemma fx_J_update_same: "fx_J opt (s\<lparr>good_buf := h, fx_size := sz, fx_file := fx_file s\<rparr>) = fx_J opt (s\<lparr>good_buf := h, fx_size := sz\<rparr>)"
  by (simp add: fx_J_def fx_inv_def)

text \<open>
  A write seen from the image: the new image and size, the states of the invariant they lead to,
  and the file that has caught up with them.
\<close>

lemma fx_written:
  assumes "fx_J opt s" "off + sz \<le> maxfilelen opt" "0 < sz" "fx_opts_ok opt"
  obtains h n where
    "fx_image_write opt c off sz s = Fx_ok (s\<lparr>good_buf := h, fx_size := n\<rparr>)"
    "n = max (fx_size s) (off + sz)" "image_step (fx_size s) off sz (good_buf s) h" "length (take sz (drop off h)) = sz"
    "\<And>env. fx_J opt (s\<lparr>good_buf := h, fx_size := n, fx_file := take n h, fx_env := env\<rparr>)"
    "testcalls s \<le> simulatedopcount opt \<Longrightarrow> fx_J opt (s\<lparr>good_buf := h, fx_size := n\<rparr>)"
    "fx_size s \<le> length (good_buf s)" "off + sz \<le> length (good_buf s)"
proof -
  have lt: "maxfilelen opt < 2 ^ 31" using assms(4) by (simp add: fx_opts_ok_def)
  define n where "n = max (fx_size s) (off + sz)"
  obtain h where h: "fx_image_write opt c off sz s = Fx_ok (s\<lparr>good_buf := h, fx_size := n\<rparr>)"
    "image_step (fx_size s) off sz (good_buf s) h"
    using fx_image_write_eq [OF assms(1,2,3) lt, of c] by (auto simp: n_def)
  have dims: "length (good_buf s) = maxfilelen opt" "fx_size s \<le> maxfilelen opt" "lite opt \<longrightarrow> fx_size s = maxfilelen opt"
    using assms(1) by (auto simp: fx_J_def fx_inv_def)
  have hl: "length h = maxfilelen opt" using h(2) dims(1) by (simp add: image_step_def)
  have upd: "fx_J opt (s\<lparr>good_buf := h, fx_size := n, fx_file := f\<rparr>)"
    if "f = take n h \<or> f = fx_file s \<and> testcalls s \<le> simulatedopcount opt" for f
    using fx_J_update [OF assms(1), of h n f] that assms(2) dims hl by (auto simp: n_def)
  show ?thesis
    using that [OF h(1) n_def h(2)] upd [of "take n h"] upd [of "fx_file s"] hl assms(2) dims
    by (simp add: fx_J_update_same)
qed

lemma dowrite_tail:
  assumes "ideal \<longrightarrow> fx_env s = []" "length (take sz (drop off (good_buf s))) = sz"
    "\<And>env. fx_J opt (s\<lparr>fx_file := file_write off (take sz (drop off (good_buf s))) (fx_file s), fx_env := env\<rparr>)"
  shows "fx_post ideal (fx_J opt) (case sys_pwrite (fx_env s) (fx_file s) (take sz (drop off (good_buf s))) off of
           (Inl e, f, env) \<Rightarrow> report_failure opt 151 (s\<lparr>fx_file := f, fx_env := env\<rparr>)
         | (Inr n, f, env) \<Rightarrow>
             let s4 = s\<lparr>fx_file := f, fx_env := env\<rparr> in
             if n \<noteq> sz then report_failure opt 151 s4
             else if do_fsync opt then fx_must opt 152 s4 else Fx_ok s4)"
proof -
  let ?bs = "take sz (drop off (good_buf s))"
  obtain r f env where r: "sys_pwrite (fx_env s) (fx_file s) ?bs off = (r, f, env)"
    by (cases "sys_pwrite (fx_env s) (fx_file s) ?bs off") auto
  have id: "ideal \<Longrightarrow> r = Inr sz \<and> env = []" using r assms(1,2) by auto
  have "f = file_write off ?bs (fx_file s)" if "r = Inr sz"
    using sys_pwrite_InrD(1) [of "fx_env s" "fx_file s" ?bs off sz f env] r that by simp
  then have "r = Inr sz \<Longrightarrow> fx_in ideal (fx_J opt) (s\<lparr>fx_file := f, fx_env := env\<rparr>)"
    using assms(3) [of env] id by (auto simp: fx_in_def)
  then show ?thesis using r id by (cases r) (auto simp: Let_def intro!: fx_must_post)
qed

lemma dowrite_post:
  assumes "fx_in ideal (fx_J opt) s" "off0 + sz0 \<le> maxfilelen opt" "fx_opts_ok opt"
  shows "fx_post ideal (fx_J opt) (dowrite opt off0 sz0 s)"
proof -
  define off where "off = off0 - off0 mod writebdy opt"
  define sz where "sz = (if o_direct opt then sz0 - sz0 mod writebdy opt else sz0)"
  have le: "off + sz \<le> maxfilelen opt" using assms(2) by (auto simp: off_def sz_def)
  define s1 where "s1 = log4 OP_WRITE (int off) (int sz) (int (fx_size s)) s"
  have s1: "fx_J opt s1" "ideal \<longrightarrow> fx_env s1 = []" using assms(1) by (simp_all add: s1_def fx_in_def)
  show ?thesis
  proof (cases "sz = 0")
    case True
    then show ?thesis using assms(1) by (simp add: dowrite_def Let_def off_def [symmetric] sz_def [symmetric])
  next
    case False
    then obtain h n where h: "fx_image_write opt 149 off sz s1 = Fx_ok (s1\<lparr>good_buf := h, fx_size := n\<rparr>)"
      "n = max (fx_size s1) (off + sz)" "image_step (fx_size s1) off sz (good_buf s1) h" "length (take sz (drop off h)) = sz"
      "\<And>env. fx_J opt (s1\<lparr>good_buf := h, fx_size := n, fx_file := take n h, fx_env := env\<rparr>)"
      "testcalls s1 \<le> simulatedopcount opt \<Longrightarrow> fx_J opt (s1\<lparr>good_buf := h, fx_size := n\<rparr>)"
      "fx_size s1 \<le> length (good_buf s1)" "off + sz \<le> length (good_buf s1)"
      using fx_written [OF s1(1) le _ assms(3), of 149] by blast
    let ?s2 = "s1\<lparr>good_buf := h, fx_size := n\<rparr>"
    have "file_write off (take sz (drop off h)) (fx_file s1) = take n h" if "simulatedopcount opt < testcalls s1"
      using image_step_file [OF h(3) _ h(8,7)] False h(2) fx_J_synced(1) [OF s1(1) that] by simp
    then have wr: "fx_post ideal (fx_J opt) (fx_bind (fx_must opt 150 ?s2) (\<lambda>s3.
        (case sys_pwrite (fx_env s3) (fx_file s3) (take sz (drop off (good_buf s3))) off of
           (Inl e, f, env) \<Rightarrow> report_failure opt 151 (s3\<lparr>fx_file := f, fx_env := env\<rparr>)
         | (Inr n, f, env) \<Rightarrow>
             let s4 = s3\<lparr>fx_file := f, fx_env := env\<rparr> in
             if n \<noteq> sz then report_failure opt 151 s4
             else if do_fsync opt then fx_must opt 152 s4 else Fx_ok s4)))" if "simulatedopcount opt < testcalls s1"
      by (rule_tac fx_must_same; (rule_tac dowrite_tail)?) (use that s1 h(4,5) in auto)
    show ?thesis
      unfolding dowrite_def Let_def off_def [symmetric] sz_def [symmetric] s1_def [symmetric] h(1) fx_bind.simps
      using False wr [unfolded Let_def] h(6) s1(2) by (auto simp: fx_in_def)
  qed
qed

lemma fx_ftruncate_post:
  assumes "ideal \<longrightarrow> fx_env s = []" "\<And>env. P (s\<lparr>fx_file := file_truncate n (fx_file s), fx_env := env\<rparr>)"
    "\<And>s'. fx_post ideal P (bad s') \<longleftrightarrow> \<not> ideal"
  shows "fx_post ideal P (case fx_ftruncate n s of (Some e, s3) \<Rightarrow> bad s3 | (None, s3) \<Rightarrow> Fx_ok s3)"
proof -
  obtain r f env where r: "sys_ftruncate (fx_env s) (fx_file s) n = (r, f, env)"
    by (cases "sys_ftruncate (fx_env s) (fx_file s) n") auto
  have "ideal \<Longrightarrow> r = None \<and> env = []" using r assms(1) by auto
  moreover have "r = None \<Longrightarrow> f = file_truncate n (fx_file s)"
    using r by (auto simp: sys_ftruncate_def split: prod.splits option.splits)
  ultimately show ?thesis using r assms(2,3) by (cases r) (auto simp: fx_ftruncate_def fx_in_def)
qed

lemma domapwrite_tail:
  assumes "ideal \<longrightarrow> fx_env s = []" "off + length (take sz (drop off (good_buf s))) \<le> length (fx_file s)"
    "\<And>env. fx_J opt (s\<lparr>fx_file := file_write off (take sz (drop off (good_buf s))) (fx_file s), fx_env := env\<rparr>)"
  shows "fx_post ideal (fx_J opt) (fx_bind (fx_must opt 202 s) (\<lambda>s4.
        (case map_store 4096 (fx_file s4) off (take sz (drop off (good_buf s4))) of
           Inl e \<Rightarrow> Fx_fault e
         | Inr f \<Rightarrow> fx_bind (fx_must opt 203 (s4\<lparr>fx_file := f\<rparr>)) (fx_must opt 204))))"
proof (rule fx_must_same)
  fix env1 :: io_env assume i: "ideal \<longrightarrow> env1 = []"
  let ?bs = "take sz (drop off (good_buf s))" let ?f = "file_write off ?bs (fx_file s)"
  have "fx_post ideal (fx_J opt) (fx_bind (fx_must opt 203 (s\<lparr>fx_file := ?f, fx_env := env1\<rparr>)) (fx_must opt 204))"
    by (rule fx_must_same; (rule fx_must_post)?) (use i assms(3) in \<open>auto simp: fx_in_def\<close>)
  then show "fx_post ideal (fx_J opt) (case map_store 4096 (fx_file (s\<lparr>fx_env := env1\<rparr>)) off (take sz (drop off (good_buf (s\<lparr>fx_env := env1\<rparr>)))) of
           Inl e \<Rightarrow> Fx_fault e
         | Inr f \<Rightarrow> fx_bind (fx_must opt 203 (s\<lparr>fx_env := env1\<rparr>\<lparr>fx_file := f\<rparr>)) (fx_must opt 204))"
    using map_store_inside [OF _ assms(2), of 4096] by (simp add: fx_env_file)
qed (use assms in auto)

lemma domapwrite_post:
  assumes "fx_in ideal (fx_J opt) s" "off0 + sz \<le> maxfilelen opt" "fx_opts_ok opt"
  shows "fx_post ideal (fx_J opt) (domapwrite opt off0 sz s)"
proof -
  define off where "off = off0 - off0 mod writebdy opt"
  have le: "off + sz \<le> maxfilelen opt" using assms(2) by (auto simp: off_def)
  define s1 where "s1 = log4 OP_MAPWRITE (int off) (int sz) 0 s"
  have s1: "fx_J opt s1" "ideal \<longrightarrow> fx_env s1 = []" "fx_size s = fx_size s1" using assms(1) by (simp_all add: s1_def fx_in_def)
  show ?thesis
  proof (cases "sz = 0")
    case True
    then show ?thesis using assms(1) by (simp add: domapwrite_def Let_def off_def [symmetric])
  next
    case False
    then obtain h n where h: "fx_image_write opt 200 off sz s1 = Fx_ok (s1\<lparr>good_buf := h, fx_size := n\<rparr>)"
      "n = max (fx_size s1) (off + sz)" "image_step (fx_size s1) off sz (good_buf s1) h" "length (take sz (drop off h)) = sz"
      "\<And>env. fx_J opt (s1\<lparr>good_buf := h, fx_size := n, fx_file := take n h, fx_env := env\<rparr>)"
      "testcalls s1 \<le> simulatedopcount opt \<Longrightarrow> fx_J opt (s1\<lparr>good_buf := h, fx_size := n\<rparr>)"
      "fx_size s1 \<le> length (good_buf s1)" "off + sz \<le> length (good_buf s1)"
      using fx_written [OF s1(1) le _ assms(3), of 200] by blast
    let ?s2 = "s1\<lparr>good_buf := h, fx_size := n\<rparr>"
    let ?ready = "\<lambda>s3. \<exists>f env. s3 = ?s2\<lparr>fx_file := f, fx_env := env\<rparr> \<and> length f = n \<and> file_write off (take sz (drop off h)) f = take n h"
    have tr: "fx_post ideal ?ready (if fx_size s1 < fx_size ?s2
        then (case fx_ftruncate (fx_size ?s2) ?s2 of (Some e, s3) \<Rightarrow> Fx_exit 201 s3 | (None, s3) \<Rightarrow> Fx_ok s3) else Fx_ok ?s2)"
      if tc: "simulatedopcount opt < testcalls s1"
    proof (cases "fx_size s1 < n")
      case True
      have "file_write off (take sz (drop off h)) (file_truncate n (fx_file s1)) = take n h"
        using image_step_map [OF h(3) _ h(8,7)] False h(2) fx_J_synced(1) [OF s1(1) tc] by simp
      then have "fx_post ideal ?ready (case fx_ftruncate n ?s2 of (Some e, s3) \<Rightarrow> Fx_exit 201 s3 | (None, s3) \<Rightarrow> Fx_ok s3)"
        by (intro fx_ftruncate_post) (use s1(2) in \<open>auto simp: buf_simps\<close>)
      with True show ?thesis by simp
    next
      case F: False
      then have "n = fx_size s1" using h(2) by simp
      then have "file_write off (take sz (drop off h)) (fx_file s1) = take n h" "length (fx_file s1) = n"
        using image_step_file [OF h(3) _ h(8,7)] False h(2) fx_J_synced(1,3) [OF s1(1) tc] by simp_all
      with F s1(2) show ?thesis
        by (auto simp: fx_in_def intro!: exI [of _ "fx_file s1"] exI [of _ "fx_env s1"])
    qed
    have wr: "fx_post ideal (fx_J opt) (fx_bind (fx_must opt 202 s3) (\<lambda>s4.
        (case map_store 4096 (fx_file s4) off (take sz (drop off (good_buf s4))) of
           Inl e \<Rightarrow> Fx_fault e
         | Inr f \<Rightarrow> fx_bind (fx_must opt 203 (s4\<lparr>fx_file := f\<rparr>)) (fx_must opt 204))))" if "fx_in ideal ?ready s3" for s3
      by (rule domapwrite_tail) (use that h(2,4,5) in \<open>auto simp: fx_in_def fx_env_file\<close>)
    show ?thesis
      unfolding domapwrite_def Let_def off_def [symmetric] s1_def [symmetric] s1(3) h(1) fx_bind.simps
      using False h(6) s1(2) fx_post_bind [OF tr wr] by (auto simp: fx_in_def)
  qed
qed

lemma dotruncate_post:
  assumes "fx_in ideal (fx_J opt) s" "sz0 \<le> maxfilelen opt" "\<not> lite opt"
  shows "fx_post ideal (fx_J opt) (dotruncate opt sz0 s)"
proof -
  define sz where "sz = sz0 - sz0 mod truncbdy opt"
  define s2 where "s2 = log4 OP_TRUNCATE (int sz) (int (fx_size s)) 0 (s\<lparr>biggest := max (biggest s) sz\<rparr>)"
  have s2: "fx_J opt s2" "ideal \<longrightarrow> fx_env s2 = []" "testcalls s2 = testcalls s"
    using assms(1) by (simp_all add: s2_def fx_in_def) (simp add: fx_J_def fx_inv_def)
  have dims: "length (good_buf s2) = maxfilelen opt" "fx_size s2 \<le> maxfilelen opt" "sz \<le> maxfilelen opt"
    using s2(1) assms(2) by (auto simp: fx_J_def fx_inv_def sz_def)
  define h where "h = (if fx_size s2 < sz then patch (fx_size s2) (replicate (sz - fx_size s2) 0) (good_buf s2) else good_buf s2)"
  have hl: "length h = maxfilelen opt" using dims by (simp add: h_def length_patch)
  define s4 where "s4 = s2\<lparr>good_buf := h, fx_size := sz\<rparr>"
  have s4: "(if fx_size s2 < sz then s2\<lparr>good_buf := patch (fx_size s2) (replicate (sz - fx_size s2) 0) (good_buf s2)\<rparr>
      else s2)\<lparr>fx_size := sz\<rparr> = s4"
    by (cases s2) (simp add: s4_def h_def)
  have upd: "fx_J opt (s2\<lparr>good_buf := h, fx_size := sz, fx_file := f\<rparr>)"
    if "f = take sz h \<or> f = fx_file s2 \<and> testcalls s2 \<le> simulatedopcount opt" for f
    using fx_J_update [OF s2(1), of h sz f] that dims hl assms(3) by auto
  have "fx_post ideal (fx_J opt) (case fx_ftruncate sz s4 of (Some e, s5) \<Rightarrow> report_failure opt 160 s5 | (None, s5) \<Rightarrow> Fx_ok s5)"
    if tc: "simulatedopcount opt < testcalls s2"
  proof (rule fx_ftruncate_post)
    fix env
    have "file_truncate sz (fx_file s2) = take sz h"
      using truncate_image [of "fx_size s2" "good_buf s2" sz] dims fx_J_synced(1) [OF s2(1) tc] by (simp add: h_def)
    with upd [of "take sz h"] show "fx_J opt (s4\<lparr>fx_file := file_truncate sz (fx_file s4), fx_env := env\<rparr>)"
      by (simp add: s4_def)
  qed (use s2 in \<open>auto simp: s4_def\<close>)
  moreover have "fx_in ideal (fx_J opt) s4" if "testcalls s2 \<le> simulatedopcount opt"
    using upd [of "fx_file s2"] that s2(2) by (simp add: s4_def fx_in_def fx_J_update_same)
  moreover have "testcalls s4 = testcalls s2" by (simp add: s4_def)
  ultimately show ?thesis
    unfolding dotruncate_def Let_def sz_def [symmetric] using dims s4 s2_def by (auto simp: log4_fields)
qed

lemma check_size_post:
  assumes "fx_in ideal (fx_J opt) s" "simulatedopcount opt < testcalls s"
  shows "fx_post ideal (fx_J opt) (check_size opt s)"
proof -
  obtain r1 s1 where c1: "fx_call s = (r1, s1)" by fastforce
  obtain r2 s2 where c2: "fx_call s1 = (r2, s2)" by fastforce
  obtain env1 where e1: "s1 = s\<lparr>fx_env := env1\<rparr>" "fx_env s = [] \<longrightarrow> r1 = None \<and> env1 = []"
    using fx_call_cases [OF c1] by auto
  obtain env2 where e2: "s2 = s1\<lparr>fx_env := env2\<rparr>" "fx_env s1 = [] \<longrightarrow> r2 = None \<and> env2 = []"
    using fx_call_cases [OF c2] by auto
  have "length (fx_file s) = fx_size s" using fx_J_synced(3) assms by (auto simp: fx_in_def)
  then show ?thesis using assms(1) c1 c2 e1 e2 by (auto simp: check_size_def fx_in_def)
qed

lemma docloseopen_post:
  assumes "fx_in ideal (fx_J opt) s"
  shows "fx_post ideal (fx_J opt) (docloseopen opt s)"
  using assms by (auto simp: docloseopen_def intro!: fx_post_bind [OF fx_must_post] fx_must_post)

text \<open>The image written over whatever the simulated operations left in the file.\<close>

lemma image_file:
  assumes "n \<le> length g"
  shows "file_truncate n (file_write 0 (take n g) f) = take n g"
    "length f = n \<Longrightarrow> file_write 0 (take n g) f = take n g"
proof -
  show "file_truncate n (file_write 0 (take n g) f) = take n g"
  proof (rule file_eqI)
    fix i assume "i < length (file_truncate n (file_write 0 (take n g) f))"
    then show "file_byte (file_truncate n (file_write 0 (take n g) f)) i = file_byte (take n g) i"
      unfolding file_byte_truncate file_byte_write using assms by (simp add: length_file_truncate file_byte_def)
  qed (use assms in \<open>simp add: buf_simps\<close>)
  show "file_write 0 (take n g) f = take n g" if "length f = n"
  proof (rule file_eqI)
    fix i assume "i < length (file_write 0 (take n g) f)"
    then show "file_byte (file_write 0 (take n g) f) i = file_byte (take n g) i"
      using assms that by (simp add: buf_simps file_byte_write file_byte_def)
  qed (use assms that in \<open>auto simp: buf_simps\<close>)
qed

definition fx_counted :: "fsx_opts \<Rightarrow> fsx \<Rightarrow> bool" where
  "fx_counted opt s \<longleftrightarrow> fx_J opt (s\<lparr>testcalls := testcalls s + 1\<rparr>)"

lemma fx_counted_frame [simp]: "env_free (fx_counted opt)" "fx_counted opt (s\<lparr>fx_env := env\<rparr>) = fx_counted opt s"
  by (simp_all add: env_free_def fx_counted_def fx_J_def fx_inv_def)

lemma fx_counted_synced:
  "fx_inv opt s \<Longrightarrow> f = take (fx_size s) (good_buf s) \<Longrightarrow> fx_counted opt (s\<lparr>fx_file := f\<rparr>)"
  by (auto simp: fx_counted_def fx_J_def fx_inv_def)

lemma writefileimage_post:
  assumes "fx_in ideal (fx_inv opt) s"
  shows "fx_post ideal (fx_counted opt) (writefileimage opt s)"
  unfolding writefileimage_def
proof (rule fx_must_same)
  fix env1 :: io_env assume i: "ideal \<longrightarrow> env1 = []"
  let ?bs = "take (fx_size s) (good_buf s)"
  have inv: "fx_inv opt s" using assms by (simp add: fx_in_def)
  then have le: "fx_size s \<le> length (good_buf s)" by (simp add: fx_inv_def)
  obtain r f env where r: "sys_pwrite env1 (fx_file s) ?bs 0 = (r, f, env)" by (cases "sys_pwrite env1 (fx_file s) ?bs 0") auto
  have id: "ideal \<Longrightarrow> r = Inr (fx_size s) \<and> env = []" using r i le by auto
  have f: "f = file_write 0 ?bs (fx_file s)" if "r = Inr (fx_size s)"
    using sys_pwrite_InrD(1) [of env1 "fx_file s" ?bs 0 "fx_size s" f env] r that le by simp
  have lt: "fx_counted opt (s\<lparr>fx_file := f, fx_env := env\<rparr>)" if "r = Inr (fx_size s)" "lite opt"
    using fx_counted_synced [OF inv] image_file(2) [OF le, of "fx_file s"] f inv that by (simp add: fx_inv_def)
  have tr: "fx_post ideal (fx_counted opt) (case fx_ftruncate (fx_size s) (s\<lparr>fx_file := f, fx_env := env\<rparr>) of
      (Some e, s3) \<Rightarrow> report_failure opt 173 s3 | (None, s3) \<Rightarrow> Fx_ok s3)" if "r = Inr (fx_size s)"
    by (rule fx_ftruncate_post) (use id f [OF that] image_file(1) [OF le] fx_counted_synced [OF inv] in \<open>auto simp: fx_env_file\<close>)
  show "fx_post ideal (fx_counted opt) (case sys_pwrite (fx_env (s\<lparr>fx_env := env1\<rparr>)) (fx_file (s\<lparr>fx_env := env1\<rparr>))
        (take (fx_size (s\<lparr>fx_env := env1\<rparr>)) (good_buf (s\<lparr>fx_env := env1\<rparr>))) 0 of
        (Inl e, f, env) \<Rightarrow> report_failure opt 172 (s\<lparr>fx_env := env1\<rparr>\<lparr>fx_file := f, fx_env := env\<rparr>)
      | (Inr n, f, env) \<Rightarrow>
          let s2 = s\<lparr>fx_env := env1\<rparr>\<lparr>fx_file := f, fx_env := env\<rparr> in
          if n \<noteq> fx_size s2 then report_failure opt 172 s2
          else if lite opt then Fx_ok s2
          else (case fx_ftruncate (fx_size s2) s2 of
                  (Some e, s3) \<Rightarrow> report_failure opt 173 s3 | (None, s3) \<Rightarrow> Fx_ok s3))"
    using r id lt tr by (cases r) (auto simp: Let_def fx_in_def fx_env_file)
qed (use assms in \<open>auto simp: fx_in_def\<close>)

lemma fx_transfer_post:
  assumes "fx_in ideal (fx_J opt) s" "fx_opts_ok opt" "sz0 < 2 ^ 31"
  shows "fx_post ideal (fx_J opt) (fx_transfer opt opn off0 sz0 s)"
proof -
  have m: "0 < maxfilelen opt" "maxfilelen opt < 2 ^ 31" "0 < readbdy opt" and le: "fx_size s \<le> maxfilelen opt"
    using assms(1,2) by (auto simp: fx_opts_ok_def fx_in_def fx_J_def fx_inv_def)
  show ?thesis
  proof (cases "opn = 1 \<or> opn = (if lite opt then 3 else 4)")
    case True
    define off where "off = off0 mod maxfilelen opt"
    define sz where "sz = (if maxfilelen opt < u64 (off + sz0) then maxfilelen opt - off else sz0)"
    have off: "off < maxfilelen opt" using m by (simp add: off_def)
    have "u64 (off + sz0) = off + sz0" using off m assms(3) by (simp add: width)
    then have "off + sz \<le> maxfilelen opt" using off by (auto simp: sz_def)
    moreover from this have "u32 off = off" "u32 sz = sz" using m(2) by (simp_all add: width)
    ultimately show ?thesis
      unfolding fx_transfer_def Let_def off_def [symmetric] sz_def [symmetric]
      using True m dowrite_post [OF assms(1) _ assms(2)] domapwrite_post [OF assms(1) _ assms(2)] by auto
  next
    case False
    define off where "off = (if fx_size s \<noteq> 0 then off0 mod fx_size s else 0)"
    define sz where "sz = (if fx_size s < u64 (off + sz0) then fx_size s - off else sz0)"
    have off: "off \<le> fx_size s" by (simp add: off_def)
    then have "u64 (off + sz0) = off + sz0" using le m(2) assms(3) by (simp add: width)
    then have "off + sz \<le> fx_size s" using off by (auto simp: sz_def)
    then have w: "u32 off = off" "u32 sz = sz" "off + sz < 2 ^ 32" using le m(2) by (simp_all add: width)
    show ?thesis
      unfolding fx_transfer_def Let_def off_def [symmetric] sz_def [symmetric] w
      using False doread_post [OF assms(1) w(3) m(3)] domapread_post [OF assms(1) w(3) m(3)] by auto
  qed
qed

lemma fx_op_post:
  assumes "fx_in ideal (fx_J opt) s" "fx_opts_ok opt"
  shows "fx_post ideal (fx_J opt) (fx_op opt opn s)"
proof -
  have m: "0 < maxfilelen opt" "maxfilelen opt < 2 ^ 31" "maxoplen opt < 2 ^ 31" "even (style opt)"
    using assms(2) by (auto simp: fx_opts_ok_def)
  have frame: "fx_in ideal (fx_J opt) (s\<lparr>fx_rng := rs\<rparr>)" for rs using assms(1) by (simp add: fx_in_def)
  show ?thesis
  proof (cases "\<not> lite opt \<and> opn = 3")
    case True
    have "u32 (r mod maxfilelen opt) \<le> maxfilelen opt" for r
      using m(1,2) mod_less_divisor [OF m(1), of r] by (simp add: width)
    then show ?thesis using True m(1,4) frame by (auto simp: fx_op_def split: list.splits intro!: dotruncate_post)
  next
    case False
    have "r mod (maxoplen opt + 1) < 2 ^ 31" for r
      using mod_less_divisor [of "maxoplen opt + 1" r] m(3) by linarith
    then show ?thesis
      using False m(3) frame
      by (auto simp: fx_op_def split: list.splits if_splits option.splits intro!: fx_transfer_post [OF _ assms(2)])
  qed
qed

text \<open>One call of \<open>test\<close>.\<close>

lemma fx_inv_counted:
  assumes "fx_inv opt s" "\<not> (0 < simulatedopcount opt \<and> testcalls s = simulatedopcount opt)"
  shows "fx_counted opt s"
  using assms by (auto simp: fx_counted_def fx_J_def fx_inv_def)

lemma fx_size_checked_post:
  assumes "fx_in ideal (fx_J opt) s"
  shows "fx_post ideal (fx_J opt) (fx_bind (if sizechecks opt \<and> simulatedopcount opt < testcalls s then check_size opt s else Fx_ok s)
    (\<lambda>s4. if closeopen s4 then docloseopen opt s4 else Fx_ok s4))"
proof (rule fx_post_bind)
  show "fx_post ideal (fx_J opt) (if sizechecks opt \<and> simulatedopcount opt < testcalls s then check_size opt s else Fx_ok s)"
    using assms check_size_post by auto
qed (use docloseopen_post in auto)

lemma test_post:
  assumes "fx_in ideal (fx_inv opt) s" "fx_opts_ok opt"
  shows "fx_post ideal (fx_J opt) (test opt s)"
proof (cases "fx_rng s")
  case (Cons rv rs)
  let ?s0 = "s\<lparr>fx_rng := rs\<rparr>"
  have s0: "fx_in ideal (fx_inv opt) ?s0" using assms(1) by (simp add: fx_in_def)
  have img: "fx_post ideal (fx_counted opt) (if 0 < simulatedopcount opt \<and> testcalls ?s0 = simulatedopcount opt
      then writefileimage opt ?s0 else Fx_ok ?s0)"
    using writefileimage_post [OF s0] fx_inv_counted [of opt ?s0] s0 by (auto simp: fx_in_def)
  have start: "fx_in ideal (fx_J opt) (s1\<lparr>testcalls := testcalls s1 + 1, closeopen := co\<rparr>)"
    if "fx_in ideal (fx_counted opt) s1" for s1 co
    using that by (simp add: fx_in_def fx_counted_def)
  show ?thesis
    unfolding test_def Cons list.case Let_def
    by (intro fx_post_bind [OF img] fx_post_bind [OF fx_op_post [OF _ assms(2)]] fx_size_checked_post start)
qed (simp add: test_def)

lemma fx_J_inv: "fx_in ideal (fx_J opt) s \<Longrightarrow> fx_in ideal (fx_inv opt) s"
  by (simp add: fx_in_def fx_J_def)

lemma fsx_loop_post:
  assumes "fx_in ideal (fx_inv opt) s" "fx_opts_ok opt"
  shows "fx_post ideal (fx_inv opt) (fsx_loop n opt s)"
  using assms(1)
proof (induction n arbitrary: s)
  case (Suc n)
  show ?case unfolding fsx_loop.simps
    by (rule fx_post_bind [OF test_post [OF Suc.prems assms(2)]]) (rule Suc.IH [OF fx_J_inv])
qed simp

end
