(* ===== verification/Fsx_Runs.thy ===== *)
theory Fsx_Runs
  imports Fsx
begin

text \<open>
  Runs of \<open>programs/fsx/fsx-linux.c\<close>: what every operation leaves alone, the operation log as a ring
  and its dump, and the theorems on \<open>test\<close>, on the loop and on \<open>main\<close>.
\<close>

section \<open>What an operation leaves alone\<close>

definition fx_ring :: "fsx \<Rightarrow> bool" where
  "fx_ring s \<longleftrightarrow> length (oplog s) = LOGSIZE \<and> logptr s = logcount s mod LOGSIZE"

text \<open>
  An operation that logs \<open>k\<close> entries, draws no random value and does not count itself; it never
  waits for a random value.
\<close>

definition fx_kept :: "nat \<Rightarrow> fsx \<Rightarrow> fx_result \<Rightarrow> bool" where
  "fx_kept k s r = (case r of
     Fx_ok s' \<Rightarrow> fx_rng s' = fx_rng s \<and> testcalls s' = testcalls s \<and> logcount s' = logcount s + k
       \<and> (fx_ring s \<longrightarrow> fx_ring s')
   | Fx_exit c s' \<Rightarrow> True
   | Fx_fault e \<Rightarrow> e \<noteq> Out_of_rand)"

lemma fx_kept_simps [simp]:
  "fx_kept 0 s (Fx_ok s)" "fx_kept k s (Fx_exit c s')" "fx_kept k s (report_failure opt c s')"
  "fx_kept k s (Fx_fault e) \<longleftrightarrow> e \<noteq> Out_of_rand"
  by (simp_all add: fx_kept_def report_failure_def)

lemma LOGSIZE_pos: "0 < LOGSIZE"
  by (simp add: LOGSIZE_def)

lemma mod_LOGSIZE_Suc: "(n + 1) mod LOGSIZE = (if LOGSIZE \<le> n mod LOGSIZE + 1 then 0 else n mod LOGSIZE + 1)"
  using mod_less_divisor [OF LOGSIZE_pos, of n] by (auto simp: mod_Suc)

lemma fx_ring_log4: "fx_ring s \<Longrightarrow> fx_ring (log4 a b c d s)"
  using mod_LOGSIZE_Suc [of "logcount s"] by (simp add: fx_ring_def log4_def Let_def)

lemma logcount_log4 [simp]: "logcount (log4 a b c d s) = logcount s + 1"
  by (simp add: log4_def Let_def)

lemma fx_kept_frame:
  assumes "fx_rng s' = fx_rng s" "testcalls s' = testcalls s" "logcount s' = logcount s" "oplog s' = oplog s" "logptr s' = logptr s"
  shows "fx_kept k s r = fx_kept k s' r" "fx_kept 0 s (Fx_ok s')"
  using assms by (auto simp: fx_kept_def fx_ring_def split: fx_result.splits)

lemma fx_kept_bind:
  assumes "fx_kept j s r" "\<And>s'. fx_kept k s' (f s')"
  shows "fx_kept (j + k) s (fx_bind r f)"
proof (cases r)
  case (Fx_ok s')
  then show ?thesis using assms(1) assms(2) [of s'] by (auto simp: fx_kept_def split: fx_result.splits)
qed (use assms(1) in \<open>auto simp: fx_kept_def\<close>)

lemma fx_kept_bind0:
  assumes "fx_kept 0 s r" "\<And>s'. fx_kept 0 s' (f s')"
  shows "fx_kept 0 s (fx_bind r f)"
  using fx_kept_bind [OF assms] by simp

text \<open>An operation that first logs itself.\<close>

lemma fx_kept_log:
  assumes "fx_kept 0 (log4 a b c d s) r"
  shows "fx_kept 1 s r"
  using assms fx_ring_log4 by (auto simp: fx_kept_def split: fx_result.splits)

lemma fx_kept_log_ok: "fx_kept 1 s (Fx_ok (log4 a b c d s))"
  using fx_kept_log [OF fx_kept_simps(1)] .

lemma fx_kept_log_bind:
  assumes "\<And>s'. fx_kept 0 s' (m s')" "\<And>s'. fx_kept 0 s' (f s')"
  shows "fx_kept 1 s (fx_bind (m (log4 a b c d s)) f)"
  using fx_kept_log [OF fx_kept_bind0 [OF assms]] .

lemma fx_kept_skip: "fx_kept 1 s (fx_skip opn off sz s)"
  unfolding fx_skip_def by (rule fx_kept_log_ok)

lemma fx_kept_if: "(b \<Longrightarrow> fx_kept k s r) \<Longrightarrow> (\<not> b \<Longrightarrow> fx_kept k s r') \<Longrightarrow> fx_kept k s (if b then r else r')"
  by simp

lemma fx_kept_must: "fx_kept 0 s (fx_must opt c s)"
proof -
  obtain r s' where r: "fx_call s = (r, s')" by fastforce
  from fx_call_cases [OF r] obtain env where "s' = s\<lparr>fx_env := env\<rparr>" by auto
  then show ?thesis using r fx_kept_frame(2) [of s' s] by (simp add: fx_must_def split: option.splits)
qed

lemma fx_kept_ftruncate:
  assumes "\<And>s'. fx_kept 0 s (bad s')"
  shows "fx_kept 0 s (case fx_ftruncate n s of (Some e, s3) \<Rightarrow> bad s3 | (None, s3) \<Rightarrow> Fx_ok s3)"
  by (auto simp: fx_ftruncate_def assms fx_kept_frame(2) split: prod.splits option.splits)

lemma fx_kept_check: "fx_kept 0 s (check_buffers opt off bs s)"
  by (simp add: check_buffers_def)

lemma fx_kept_image: "fx_kept 0 s (fx_image_write opt c off sz s)"
  by (auto simp: fx_image_write_def Let_def intro!: fx_kept_frame(2))

lemmas fx_kept_rules = fx_kept_if fx_kept_skip fx_kept_log_ok fx_kept_log_bind fx_kept_must fx_kept_image fx_kept_simps(1-3)

lemma fx_kept_doread: "fx_kept 1 s (doread opt off sz s)"
proof -
  have rd: "fx_kept 0 s2 (case sys_pread (fx_env s2) (fx_file s2) n o' of
           (Inl e, env) \<Rightarrow> report_failure opt 141 (s2\<lparr>fx_env := env\<rparr>)
         | (Inr bs, env) \<Rightarrow>
             if length bs \<noteq> n then report_failure opt 141 (s2\<lparr>fx_env := env\<rparr>) else check_buffers opt o' bs (s2\<lparr>fx_env := env\<rparr>))"
    for s2 n o'
    by (auto simp: check_buffers_def fx_kept_frame(2) split: prod.splits sum.splits)
  show ?thesis unfolding doread_def Let_def by (intro fx_kept_rules rd)
qed

lemma fx_kept_domapread: "fx_kept 1 s (domapread opt off sz s)"
proof -
  have ml: "map_load 4096 f o' n = Inl e \<Longrightarrow> e \<noteq> Out_of_rand" for f o' n e
    by (auto simp: map_load_def split: if_splits)
  have rd: "fx_kept 0 s2 (case map_load 4096 (fx_file s2) o' n of Inl e \<Rightarrow> Fx_fault e
     | Inr bs \<Rightarrow> fx_bind (fx_must opt 191 s2) (\<lambda>s3. check_buffers opt o' bs s3))" for s2 o' n
    by (auto dest: ml intro!: fx_kept_bind0 fx_kept_must fx_kept_check split: sum.splits)
  show ?thesis unfolding domapread_def Let_def by (intro fx_kept_rules rd)
qed

lemma fx_kept_must_upd: "fx_kept 0 s (fx_must opt c (s\<lparr>fx_file := f, fx_env := env\<rparr>))" "fx_kept 0 s (fx_must opt c (s\<lparr>fx_file := f\<rparr>))"
  by (subst fx_kept_frame(1) [of "s\<lparr>fx_file := f, fx_env := env\<rparr>" s]; simp add: fx_kept_must)
     (subst fx_kept_frame(1) [of "s\<lparr>fx_file := f\<rparr>" s]; simp add: fx_kept_must)

lemma fx_kept_dowrite: "fx_kept 1 s (dowrite opt off sz s)"
proof -
  have wr: "fx_kept 0 s3 (case sys_pwrite (fx_env s3) (fx_file s3) (take k (drop o' (good_buf s3))) o' of
           (Inl e, f, env) \<Rightarrow> report_failure opt 151 (s3\<lparr>fx_file := f, fx_env := env\<rparr>)
         | (Inr n, f, env) \<Rightarrow>
             if n \<noteq> k then report_failure opt 151 (s3\<lparr>fx_file := f, fx_env := env\<rparr>)
             else if do_fsync opt then fx_must opt 152 (s3\<lparr>fx_file := f, fx_env := env\<rparr>) else Fx_ok (s3\<lparr>fx_file := f, fx_env := env\<rparr>))"
    for s3 o' k
    by (auto simp: fx_kept_frame(2) fx_kept_must_upd split: prod.splits sum.splits)
  show ?thesis unfolding dowrite_def Let_def by (intro fx_kept_rules fx_kept_bind0 wr)
qed

lemma fx_kept_domapwrite: "fx_kept 1 s (domapwrite opt off sz s)"
proof -
  have ms: "map_store 4096 f o' bs = Inl e \<Longrightarrow> e \<noteq> Out_of_rand" for f o' bs e
    by (auto simp: map_store_def split: if_splits)
  have wr: "fx_kept 0 s4 (case map_store 4096 (fx_file s4) o' (take k (drop o' (good_buf s4))) of Inl e \<Rightarrow> Fx_fault e
     | Inr f \<Rightarrow> fx_bind (fx_must opt 203 (s4\<lparr>fx_file := f\<rparr>)) (fx_must opt 204))" for s4 o' k
    by (auto dest: ms intro!: fx_kept_bind0 fx_kept_must fx_kept_must_upd split: sum.splits)
  show ?thesis unfolding domapwrite_def Let_def
    by (intro fx_kept_rules fx_kept_bind0 wr fx_kept_ftruncate)
qed

lemma fx_kept_dotruncate: "fx_kept 1 s (dotruncate opt sz s)"
proof -
  define n where "n = sz - sz mod truncbdy opt"
  define s1 where "s1 = s\<lparr>biggest := max (biggest s) n\<rparr>"
  define s2 where "s2 = log4 OP_TRUNCATE (int n) (int (fx_size s1)) 0 s1"
  define s4 where "s4 = (if fx_size s2 < n
      then s2\<lparr>good_buf := patch (fx_size s2) (replicate (n - fx_size s2) 0) (good_buf s2)\<rparr> else s2)\<lparr>fx_size := n\<rparr>"
  have "fx_kept 0 s2 r \<longleftrightarrow> fx_kept 0 s4 r" for r by (rule fx_kept_frame(1)) (simp_all add: s4_def)
  moreover have "fx_kept 0 s4 (case fx_ftruncate n s4 of (Some e, s5) \<Rightarrow> report_failure opt 160 s5 | (None, s5) \<Rightarrow> Fx_ok s5)"
    by (rule fx_kept_ftruncate) simp
  ultimately have "fx_kept 1 s1 (dotruncate opt sz s)"
    unfolding dotruncate_def Let_def n_def [symmetric] s1_def [symmetric] s2_def [symmetric] s4_def [symmetric]
    by (intro fx_kept_log [of OP_TRUNCATE "int n" "int (fx_size s1)" 0 s1]) (auto simp: s2_def [symmetric])
  then show ?thesis using fx_kept_frame(1) [of s1 s] by (simp add: s1_def)
qed

lemma fx_kept_transfer: "fx_kept 1 s (fx_transfer opt opn off sz s)"
  unfolding fx_transfer_def Let_def
  by (auto intro: fx_kept_dowrite fx_kept_domapwrite fx_kept_doread fx_kept_domapread simp del: One_nat_def)

text \<open>A test counts and logs itself once and draws at most three random values.\<close>

definition fx_drawn :: "nat \<Rightarrow> nat \<Rightarrow> fsx \<Rightarrow> fx_result \<Rightarrow> bool" where
  "fx_drawn k n s r = (case r of
     Fx_ok s' \<Rightarrow> length (fx_rng s) \<le> length (fx_rng s') + k \<and> testcalls s' = testcalls s + n \<and> logcount s' = logcount s + n
       \<and> (fx_ring s \<longrightarrow> fx_ring s')
   | Fx_exit c s' \<Rightarrow> True
   | Fx_fault e \<Rightarrow> e = Out_of_rand \<longrightarrow> length (fx_rng s) < k)"

lemma fx_op_drawn:
  assumes "length (fx_rng s) \<le> length (fx_rng t) + 1" "testcalls t = testcalls s + 1" "logcount t = logcount s" "fx_ring s \<longrightarrow> fx_ring t"
  shows "fx_drawn 3 1 s (fx_op opt opn t)"
proof -
  have via: "fx_drawn 3 1 s r" if "fx_kept 1 (t\<lparr>fx_rng := rs\<rparr>) r" "length (fx_rng t) \<le> length rs + 2" for r rs
  proof -
    have "fx_ring (t\<lparr>fx_rng := rs\<rparr>) = fx_ring t" by (simp add: fx_ring_def)
    then show ?thesis using that assms by (auto simp: fx_kept_def fx_drawn_def split: fx_result.splits)
  qed
  have same: "t\<lparr>fx_rng := fx_rng t\<rparr> = t" by simp
  have err: "fx_drawn 3 1 s (Fx_fault Out_of_rand)" if "length (fx_rng t) < 2"
    using that assms(1) by (simp add: fx_drawn_def)
  have zero: "fx_drawn 3 1 s (Fx_fault Div_zero)" by (simp add: fx_drawn_def)
  show ?thesis
    unfolding fx_op_def
    using via [OF fx_kept_dotruncate] via [OF fx_kept_transfer] via [of "fx_rng t", unfolded same, OF fx_kept_dotruncate] err zero
    by (auto split: list.splits if_splits)
qed

lemma fx_drawn_bind0:
  assumes "fx_drawn k n s r" "\<And>s'. fx_kept 0 s' (f s')"
  shows "fx_drawn k n s (fx_bind r f)"
proof (cases r)
  case (Fx_ok s')
  then show ?thesis using assms(1) assms(2) [of s'] by (auto simp: fx_drawn_def fx_kept_def split: fx_result.splits)
qed (use assms(1) in \<open>auto simp: fx_drawn_def\<close>)

lemma fx_kept_check_size: "fx_kept 0 s (check_size opt s)"
proof -
  obtain r1 s1 where c1: "fx_call s = (r1, s1)" by fastforce
  obtain r2 s2 where c2: "fx_call s1 = (r2, s2)" by fastforce
  obtain env where "s2 = s\<lparr>fx_env := env\<rparr>" using fx_call_cases [OF c1] fx_call_cases [OF c2] by auto
  then show ?thesis using c1 c2 fx_kept_frame(2) [of s2 s] by (simp add: check_size_def)
qed

lemma fx_kept_writefileimage: "fx_kept 0 s (writefileimage opt s)"
proof -
  have tr: "fx_kept 0 s1 (case fx_ftruncate n (s1\<lparr>fx_file := f, fx_env := env\<rparr>) of
      (Some e, s3) \<Rightarrow> report_failure opt 173 s3 | (None, s3) \<Rightarrow> Fx_ok s3)" for s1 n f env
    using fx_kept_ftruncate [of "s1\<lparr>fx_file := f, fx_env := env\<rparr>" "report_failure opt 173" n]
    by (subst fx_kept_frame(1) [of "s1\<lparr>fx_file := f, fx_env := env\<rparr>" s1]) simp_all
  show ?thesis unfolding writefileimage_def Let_def
    by (rule fx_kept_bind0 [OF fx_kept_must]) (auto simp: tr fx_kept_frame(2) split: prod.splits sum.splits)
qed

lemma test_drawn: "fx_drawn 3 1 s (test opt s)"
proof (cases "fx_rng s")
  case Nil
  then show ?thesis by (simp add: test_def fx_drawn_def)
next
  case (Cons rv rs)
  let ?s0 = "s\<lparr>fx_rng := rs\<rparr>"
  let ?img = "if 0 < simulatedopcount opt \<and> testcalls ?s0 = simulatedopcount opt then writefileimage opt ?s0 else Fx_ok ?s0"
  have img: "fx_kept 0 ?s0 ?img" by (simp add: fx_kept_writefileimage)
  have tail: "fx_drawn 3 1 s (fx_bind (fx_op opt opn (s1\<lparr>testcalls := testcalls s1 + 1, closeopen := co\<rparr>)) (\<lambda>s3.
       fx_bind (if sizechecks opt \<and> simulatedopcount opt < testcalls s3 then check_size opt s3 else Fx_ok s3) (\<lambda>s4.
         if closeopen s4 then docloseopen opt s4 else Fx_ok s4)))" if "?img = Fx_ok s1" for s1 opn co
  proof (rule fx_drawn_bind0)
    have "fx_ring (s1\<lparr>testcalls := testcalls s1 + 1, closeopen := co\<rparr>) = fx_ring s1" "fx_ring ?s0 = fx_ring s"
      by (simp_all add: fx_ring_def)
    then show "fx_drawn 3 1 s (fx_op opt opn (s1\<lparr>testcalls := testcalls s1 + 1, closeopen := co\<rparr>))"
      using img [unfolded that] Cons by (intro fx_op_drawn) (simp_all add: fx_kept_def)
  qed (auto simp: docloseopen_def intro!: fx_kept_bind0 fx_kept_must fx_kept_check_size)
  show ?thesis
  proof (cases ?img)
    case (Fx_ok s1)
    show ?thesis unfolding test_def Cons list.case Let_def Fx_ok fx_bind.simps by (intro tail [OF Fx_ok])
  next
    case (Fx_exit c s1)
    then show ?thesis unfolding test_def Cons list.case Let_def by (simp add: fx_drawn_def)
  next
    case (Fx_fault e)
    with img show ?thesis unfolding test_def Cons list.case Let_def by (simp add: fx_drawn_def)
  qed
qed

lemma fsx_loop_drawn: "fx_drawn (3 * n) n s (fsx_loop n opt s)"
proof (induction n arbitrary: s)
  case (Suc n)
  show ?case
  proof (cases "test opt s")
    case (Fx_ok s')
    then show ?thesis using test_drawn [of s opt] Suc.IH [of s'] by (auto simp: fx_drawn_def split: fx_result.splits)
  qed (use test_drawn [of s opt] in \<open>auto simp: fx_drawn_def\<close>)
qed (simp add: fx_drawn_def)

section \<open>A run of main\<close>

lemma fx_env_same: "fx_env s = [] \<Longrightarrow> s\<lparr>fx_env := []\<rparr> = s"
  by (cases s) simp

lemma fx_call_Nil: "fx_env s = [] \<Longrightarrow> fx_call s = (None, s)"
  by (cases s) (simp add: fx_call_def)

definition fx_start :: "fsx_opts \<Rightarrow> nat list \<Rightarrow> fsx" where
  "fx_start opt rng =
     (let len = maxfilelen opt in
      \<lparr>original_buf = map (\<lambda>r. of_nat (r mod 256)) (take len rng), good_buf = replicate len 0,
       fx_size = (if lite opt then len else 0), biggest = 0, testcalls = 0, closeopen = False,
       oplog = replicate LOGSIZE \<lparr>operation = 0, log_args = (0, 0, 0)\<rparr>, logptr = 0, logcount = 0,
       fx_file = (if lite opt then replicate len 0 else []), fsxgood = [], fx_env = [], fx_rng = drop len rng,
       badoff = -1, dumped = []\<rparr>)"

lemma file_write_full: "length f = length bs \<Longrightarrow> file_write 0 bs f = bs"
  using image_file(2) [of "length bs" bs f] by simp

lemma check_trunc_hack_ideal: "fx_env s = [] \<Longrightarrow> check_trunc_hack s = Fx_ok (s\<lparr>fx_file := []\<rparr>)"
  by (cases s) (simp add: check_trunc_hack_def fx_ftruncate_def fx_call_Nil file_truncate_def Let_def)

lemma fsx_main_start:
  assumes "opt = opt0\<lparr>maxfilelen := (if lite opt0 then length f0 else maxfilelen opt0)\<rparr>" "maxfilelen opt \<le> length rng"
  shows "fsx_main n opt0 [] f0 rng = fx_bind (fsx_loop n opt (fx_start opt rng)) (\<lambda>s7. fx_bind (fx_must opt 99 s7) (\<lambda>s8. Fx_exit 0 s8))"
  using assms by (cases "lite opt0") (simp_all add: fsx_main_def Let_def fx_call_Nil check_trunc_hack_ideal fx_start_def file_write_full)

lemma fx_start_inv: "maxfilelen opt \<le> length rng \<Longrightarrow> fx_in True (fx_inv opt) (fx_start opt rng)" "fx_ring (fx_start opt rng)"
  by (auto simp: fx_in_def fx_inv_def fx_start_def Let_def fx_ring_def)

lemma fsx_main_runs:
  assumes "opt = opt0\<lparr>maxfilelen := (if lite opt0 then length f0 else maxfilelen opt0)\<rparr>" "fx_opts_ok opt"
    "maxfilelen opt + 3 * n \<le> length rng"
  shows "\<exists>s. fsx_main n opt0 [] f0 rng = Fx_exit 0 s \<and> fx_inv opt s \<and> testcalls s = n \<and> logcount s = n \<and> fx_ring s"
proof -
  let ?r = "fsx_loop n opt (fx_start opt rng)"
  have le: "maxfilelen opt \<le> length rng" using assms(3) by simp
  have post: "fx_post True (fx_inv opt) ?r" by (rule fsx_loop_post [OF fx_start_inv(1) [OF le] assms(2)])
  have enough: "3 * n \<le> length (fx_rng (fx_start opt rng))" using assms(3) by (simp add: fx_start_def Let_def)
  obtain s where s: "?r = Fx_ok s" "fx_inv opt s" "fx_env s = []"
    using post fsx_loop_drawn [of n "fx_start opt rng" opt] enough
    by (cases ?r) (auto simp: fx_post_def fx_drawn_def)
  have "testcalls s = n" "logcount s = n" "fx_ring s"
    using fsx_loop_drawn [of n "fx_start opt rng" opt] s(1) fx_start_inv(2) [of opt rng]
    by (auto simp: fx_drawn_def fx_start_def Let_def)
  then show ?thesis using fsx_main_start [OF assms(1) le] s by (simp add: fx_must_def fx_call_Nil)
qed

section \<open>The operation log\<close>

definition log_all :: "(bool \<times> int \<times> int \<times> int \<times> int) list \<Rightarrow> fsx \<Rightarrow> fsx" where
  "log_all es s = fold (\<lambda>(co, opn, a, b, c) s. log4 opn a b c (s\<lparr>closeopen := co\<rparr>)) es s"

definition log_of :: "bool \<times> int \<times> int \<times> int \<times> int \<Rightarrow> log_entry" where
  "log_of e = (case e of (co, opn, a, b, c) \<Rightarrow>
     \<lparr>operation = (if co then - opn - 1 else opn), log_args = (to_int32 a, to_int32 b, to_int32 c)\<rparr>)"

lemma log_all_snoc:
  "log_all (es @ [(co, opn, a, b, c)]) s = log4 opn a b c ((log_all es s)\<lparr>closeopen := co\<rparr>)"
  by (simp add: log_all_def)

text \<open>The ring holds the last \<open>LOGSIZE\<close> entries, each at its number modulo \<open>LOGSIZE\<close>.\<close>

lemma log_all_ring:
  assumes "fx_ring s" "logcount s = 0"
  shows "fx_ring (log_all es s) \<and> logcount (log_all es s) = length es
    \<and> (\<forall>i < length es. length es \<le> i + LOGSIZE \<longrightarrow> oplog (log_all es s) ! (i mod LOGSIZE) = log_of (es ! i))"
proof (induction es rule: rev_induct)
  case Nil
  then show ?case using assms by (simp add: log_all_def)
next
  case (snoc e es)
  obtain co opn a b c where e: "e = (co, opn, a, b, c)" by (cases e)
  let ?t = "(log_all es s)\<lparr>closeopen := co\<rparr>"
  have t: "fx_ring ?t" "logcount ?t = length es" using snoc by (simp_all add: fx_ring_def)
  have new: "oplog (log4 opn a b c ?t) = (oplog ?t)[length es mod LOGSIZE := log_of e]"
    using t by (simp add: log4_def Let_def log_of_def e fx_ring_def)
  have len: "length (oplog ?t) = LOGSIZE" using t by (simp add: fx_ring_def)
  have "oplog (log4 opn a b c ?t) ! (i mod LOGSIZE) = log_of ((es @ [e]) ! i)"
    if i: "i < length (es @ [e])" "length (es @ [e]) \<le> i + LOGSIZE" for i
  proof (cases "i = length es")
    case True
    then show ?thesis using new len LOGSIZE_pos by simp
  next
    case False
    then have d: "i < length es" "length es - i < LOGSIZE" "0 < length es - i" using i by auto
    have "i mod LOGSIZE \<noteq> length es mod LOGSIZE"
    proof
      assume "i mod LOGSIZE = length es mod LOGSIZE"
      then have "(length es - i) mod LOGSIZE = 0" using d(1) by (metis less_imp_le mod_eq_dvd_iff_nat mod_0_imp_dvd dvd_imp_mod_0)
      with d show False by simp
    qed
    moreover have "oplog ?t ! (i mod LOGSIZE) = log_of (es ! i)" using snoc d by simp
    ultimately show ?thesis using new d(1) by (simp add: nth_append)
  qed
  then show ?case using t fx_ring_log4 [OF t(1)] by (simp add: e log_all_snoc)
qed

lemma dump_from_nth:
  "i < LOGSIZE \<Longrightarrow> dump_from s n i = map (\<lambda>k. dump_line s ((i + k) mod LOGSIZE)) [0 ..< n]"
proof (induction n arbitrary: i)
  case (Suc n)
  let ?i = "if i + 1 = LOGSIZE then 0 else i + 1"
  have "?i < LOGSIZE" using Suc.prems by auto
  then have "dump_from s n ?i = map (\<lambda>k. dump_line s ((?i + k) mod LOGSIZE)) [0 ..< n]" by (rule Suc.IH)
  moreover have "(?i + k) mod LOGSIZE = (i + Suc k) mod LOGSIZE" for k
    using mod_add_self1 [of LOGSIZE k] by (auto simp del: mod_add_self1) (metis add.assoc add_Suc_right Suc_eq_plus1 plus_1_eq_Suc mod_add_self1)
  ultimately show ?case using Suc.prems by (simp add: upt_conv_Cons map_Suc_upt [symmetric] del: upt_Suc)
qed simp

text \<open>The line the dump should print for an entry, number left out.\<close>

definition dump_ideal :: "int \<Rightarrow> bool \<times> int \<times> int \<times> int \<times> int \<Rightarrow> dump_what \<times> bool" where
  "dump_ideal bad e = (case e of (co, opn, a, b, c) \<Rightarrow> (dump_entry bad opn (to_int32 a, to_int32 b, to_int32 c), co))"

lemma dump_line_ideal:
  assumes "oplog s ! i = log_of e" "0 \<le> fst (snd e)"
  shows "snd (dump_line s i) = dump_ideal (badoff s) e"
  using assms by (cases e) (auto simp: dump_line_def Let_def log_of_def dump_ideal_def)

lemma badoff_log_all [simp]: "badoff (log_all es s) = badoff s"
  by (induction es rule: rev_induct) (auto simp: log_all_def log4_def Let_def)

lemma logdump_lines:
  assumes "fx_ring s" "logcount s = length es"
    "\<And>i. i < length es \<Longrightarrow> length es \<le> i + LOGSIZE \<Longrightarrow> oplog s ! (i mod LOGSIZE) = log_of (es ! i)"
    "\<forall>e \<in> set es. 0 \<le> fst (snd e)"
  shows "map snd (logdump s) = map (dump_ideal (badoff s)) (drop (length es - LOGSIZE) es)"
proof -
  let ?d = "length es - LOGSIZE"
  have eq: "logdump s = map (\<lambda>k. dump_line s ((?d + k) mod LOGSIZE)) [0 ..< length es - ?d]"
  proof (cases "length es < LOGSIZE")
    case True
    then show ?thesis using dump_from_nth [of 0 s "length es"] assms(2) LOGSIZE_pos by (simp add: logdump_def)
  next
    case False
    have lp: "logptr s = ?d mod LOGSIZE"
      using assms(1,2) False mod_add_self2 [of ?d LOGSIZE] by (simp add: fx_ring_def)
    have "dump_from s LOGSIZE (logptr s) = map (\<lambda>k. dump_line s ((logptr s + k) mod LOGSIZE)) [0 ..< LOGSIZE]"
      by (rule dump_from_nth) (simp add: lp LOGSIZE_pos)
    then show ?thesis using False assms(2) lp by (simp add: logdump_def mod_add_left_eq)
  qed
  show ?thesis
  proof (rule nth_equalityI)
    fix k assume "k < length (map snd (logdump s))"
    then have k: "?d + k < length es" by (simp add: eq)
    then have "oplog s ! ((?d + k) mod LOGSIZE) = log_of (es ! (?d + k))" by (intro assms(3)) auto
    moreover have "0 \<le> fst (snd (es ! (?d + k)))" using assms(4) k by auto
    ultimately show "map snd (logdump s) ! k = map (dump_ideal (badoff s)) (drop ?d es) ! k"
      using k dump_line_ideal by (simp add: eq)
  qed (simp add: eq)
qed

lemma last_bad_spec:
  "j < length cs \<Longrightarrow> j < length ts \<Longrightarrow> cs ! j \<noteq> ts ! j \<Longrightarrow>
    \<exists>k \<ge> j. k < length cs \<and> k < length ts \<and> cs ! k \<noteq> ts ! k \<and> last_bad cs ts off bad = int (off + k)"
proof (induction cs ts off bad arbitrary: j rule: last_bad.induct)
  case (1 c cs t ts off bad)
  show ?case
  proof (cases "\<exists>j' < min (length cs) (length ts). j \<le> Suc j' \<and> cs ! j' \<noteq> ts ! j'")
    case True
    then obtain j' where j': "j' < length cs" "j' < length ts" "j \<le> Suc j'" "cs ! j' \<noteq> ts ! j'" by auto
    from "1.IH" [OF j'(1,2,4)] obtain k where "k \<ge> j'" "k < length cs" "k < length ts" "cs ! k \<noteq> ts ! k"
      "last_bad cs ts (off + 1) (if c \<noteq> t then int off else bad) = int (off + 1 + k)" by blast
    then show ?thesis using j'(3) by (intro exI [of _ "Suc k"]) auto
  next
    case False
    have same: "last_bad us vs o' b = b" if "\<And>i. i < length us \<Longrightarrow> i < length vs \<Longrightarrow> us ! i = vs ! i" for us vs :: "byte list" and o' b
      using that
    proof (induction us vs o' b rule: last_bad.induct)
      case (1 c cs t ts off bad)
      then show ?case using "1.prems" [of 0] "1.prems" [of "Suc i" for i] by auto
    qed simp_all
    have j0: "j = 0" using "1.prems" False by (cases j) auto
    with "1.prems" False have "c \<noteq> t" "last_bad cs ts (off + 1) (int off) = int off" by (auto intro!: same)
    with j0 show ?thesis by (intro exI [of _ 0]) auto
  qed
qed simp_all

lemma badoff_log4 [simp]: "badoff (log4 a b c d s) = badoff s"
  by (simp add: log4_def Let_def)

lemma check_buffers_differs:
  assumes "off + length bs \<le> length (good_buf s)" "off \<le> i" "i < off + length bs" "bs ! (i - off) \<noteq> good_buf s ! i"
  obtains k where "i \<le> k" "k < off + length bs" "bs ! (k - off) \<noteq> good_buf s ! k"
    "\<And>opn a b c. check_buffers opt off bs (log4 opn a b c s) = report_failure opt 110 ((log4 opn a b c s)\<lparr>badoff := int k\<rparr>)"
proof -
  have j: "i - off < length (drop off (good_buf s))" "i - off < length bs" "drop off (good_buf s) ! (i - off) \<noteq> bs ! (i - off)"
    using assms by auto
  obtain k where k: "k \<ge> i - off" "k < length bs" "drop off (good_buf s) ! k \<noteq> bs ! k"
    "last_bad (drop off (good_buf s)) bs off (badoff s) = int (off + k)"
    using last_bad_spec [OF j, of off "badoff s"] by blast
  have "take (length bs) (drop off (good_buf s)) ! k \<noteq> bs ! k" using k(2,3) assms(1) by simp
  then have "take (length bs) (drop off (good_buf s)) \<noteq> bs" by metis
  then show ?thesis using that [of "off + k"] k assms(1) by (simp add: check_buffers_def)
qed

lemma badoff_save [simp]: "badoff (save_buffer opt s) = badoff s"
  by (auto simp: save_buffer_def fx_call_def split: prod.splits option.splits if_splits)

section \<open>Properties\<close>

text \<open>
  C13. On a file system on which no call fails, with enough random values, \<open>fsx\<close> ends with
  status 0 after the number of operations asked for, whatever they are; each was counted and
  logged once; and once the simulated operations are over the file is the image \<open>good_buf\<close>.
\<close>

theorem fsx_passes:
  assumes "opt = opt0\<lparr>maxfilelen := (if lite opt0 then length f0 else maxfilelen opt0)\<rparr>" "fx_opts_ok opt"
    "maxfilelen opt + 3 * n \<le> length rng" "simulatedopcount opt = 0 \<or> simulatedopcount opt < n"
  shows "\<exists>s. fsx_main n opt0 [] f0 rng = Fx_exit 0 s \<and> fx_file s = take (fx_size s) (good_buf s)
    \<and> testcalls s = n \<and> logcount s = n"
  using fsx_main_runs [OF assms(1,2,3)] assms(4) by (auto simp: fx_inv_def)

theorem fsx_passes_witness:
  "\<exists>s. fsx_main 5 (fsx_defaults\<lparr>maxfilelen := 16, maxoplen := 4\<rparr>) [] [] (replicate 31 7) = Fx_exit 0 s
    \<and> fx_file s = take (fx_size s) (good_buf s) \<and> testcalls s = 5 \<and> logcount s = 5"
  using fsx_passes [of _ "fsx_defaults\<lparr>maxfilelen := 16, maxoplen := 4\<rparr>" "[]" 5 "replicate 31 7"]
  by (simp add: fsx_defaults_def fx_opts_ok_def)

text \<open>
  C14. No false alarm: from a state where the file is the image, whatever calls fail, are short or
  succeed, any number of tests never ends with status 110 (bad data read), never accesses memory
  outside the buffers, and leads to a state where the file is again the image.
\<close>

theorem fsx_no_false_alarm:
  assumes "fx_inv opt s" "fx_opts_ok opt"
  shows "case fsx_loop n opt s of Fx_ok s' \<Rightarrow> fx_inv opt s' | Fx_exit c s' \<Rightarrow> c \<noteq> 110 | Fx_fault e \<Rightarrow> e = Out_of_rand"
  using fsx_loop_post [of False opt s n] assms by (simp add: fx_in_def fx_post_def split: fx_result.splits)

theorem fsx_no_false_alarm_witness:
  "case fsx_loop 9 (fsx_defaults\<lparr>maxfilelen := 16, maxoplen := 4\<rparr>)
      ((fx_start (fsx_defaults\<lparr>maxfilelen := 16\<rparr>) [1 ..< 50])\<lparr>fx_env := [Io_ok, Io_short 3, Io_err 5]\<rparr>) of
     Fx_ok s' \<Rightarrow> fx_inv (fsx_defaults\<lparr>maxfilelen := 16, maxoplen := 4\<rparr>) s' | Fx_exit c s' \<Rightarrow> c \<noteq> 110
   | Fx_fault e \<Rightarrow> e = Out_of_rand"
proof (rule fsx_no_false_alarm)
  show "fx_inv (fsx_defaults\<lparr>maxfilelen := 16, maxoplen := 4\<rparr>)
      ((fx_start (fsx_defaults\<lparr>maxfilelen := 16\<rparr>) [1 ..< 50])\<lparr>fx_env := [Io_ok, Io_short 3, Io_err 5]\<rparr>)"
    by (simp add: fx_inv_def fx_start_def fsx_defaults_def Let_def)
  show "fx_opts_ok (fsx_defaults\<lparr>maxfilelen := 16, maxoplen := 4\<rparr>)" by (simp add: fx_opts_ok_def fsx_defaults_def)
qed

text \<open>
  C15. Detection: a read, plain or mapped, of a range in which the file differs from the image
  ends with status 110, and the offset it reports is a byte of the range where the two differ, not
  before any other such byte.
\<close>

theorem fsx_detects:
  assumes "fx_env s = []" "simulatedopcount opt < testcalls s" "off mod readbdy opt = 0" "sz mod readbdy opt = 0"
    "off + sz \<le> fx_size s" "off + sz \<le> length (fx_file s)" "fx_size s \<le> length (good_buf s)" "off + sz < 2 ^ 32"
    "off \<le> i" "i < off + sz" "fx_file s ! i \<noteq> good_buf s ! i"
  shows "\<exists>s1 s2 k. doread opt off sz s = Fx_exit 110 s1 \<and> domapread opt off sz s = Fx_exit 110 s2
    \<and> badoff s1 = int k \<and> badoff s2 = int k \<and> i \<le> k \<and> k < off + sz \<and> fx_file s ! k \<noteq> good_buf s ! k"
proof -
  let ?bs = "take sz (drop off (fx_file s))"
  have bs: "length ?bs = sz" using assms(6) by simp
  have ld: "map_load 4096 (fx_file s) off sz = Inr ?bs" using map_load_inside [of 4096 off sz "fx_file s"] assms(6) by simp
  have w: "u32 (sz + off) = off + sz" using assms(8) by (simp add: width add.commute)
  obtain k where k: "i \<le> k" "k < off + sz" "?bs ! (k - off) \<noteq> good_buf s ! k"
    "\<And>opn a b c. check_buffers opt off ?bs (log4 opn a b c s) = report_failure opt 110 ((log4 opn a b c s)\<lparr>badoff := int k\<rparr>)"
    using check_buffers_differs [of off ?bs s i opt] assms bs by auto
  have rd: "doread opt off sz s = check_buffers opt off ?bs (log4 OP_READ (int off) (int sz) 0 s)"
    using assms(1-6,9,10) bs by (cases "sz = 0") (simp_all add: doread_def Let_def w fx_must_def fx_call_Nil fx_env_same)
  have mrd: "domapread opt off sz s = check_buffers opt off ?bs (log4 OP_MAPREAD (int off) (int sz) 0 s)"
    using assms(1-6,9,10) ld by (cases "sz = 0") (simp_all add: domapread_def Let_def w fx_must_def fx_call_Nil)
  have "fx_file s ! k \<noteq> good_buf s ! k" using k(1-3) assms(6,9) by simp
  then show ?thesis unfolding rd mrd k(4) report_failure_def using k(1,2) by auto
qed

theorem fsx_detects_witness:
  "let s = (fx_start (fsx_defaults\<lparr>maxfilelen := 6\<rparr>) [1, 2, 3, 4, 5, 6])
        \<lparr>testcalls := 1, fx_size := 4, fx_file := [0, 1, 0, 2]\<rparr>;
       opt = fsx_defaults\<lparr>maxfilelen := 6\<rparr>
   in \<exists>s1 s2 k. doread opt 1 3 s = Fx_exit 110 s1 \<and> domapread opt 1 3 s = Fx_exit 110 s2
    \<and> badoff s1 = int k \<and> badoff s2 = int k \<and> 1 \<le> k \<and> k < 1 + 3 \<and> fx_file s ! k \<noteq> good_buf s ! k"
  unfolding Let_def
  by (rule fsx_detects) (simp_all add: fx_start_def Let_def fsx_defaults_def replicate_numeral)

text \<open>
  The log is a ring of the last \<open>LOGSIZE\<close> operations: whatever operations were logged from
  the start, the dump lists exactly the last \<open>LOGSIZE\<close> of them, in order, each with its range, its
  close and open, and its mark.
\<close>

theorem logdump_recent:
  assumes "fx_ring s" "logcount s = 0" "\<forall>e \<in> set es. 0 \<le> fst (snd e)"
  shows "map snd (logdump (log_all es s)) = map (dump_ideal (badoff s)) (drop (length es - LOGSIZE) es)"
  using logdump_lines [of "log_all es s" es] log_all_ring [OF assms(1,2), of es] assms(3) by simp

theorem logdump_recent_witness:
  "map snd (logdump (log_all [(False, OP_WRITE, 0, 4, 0), (True, OP_READ, 0, 2, 0)] (fx_start fsx_defaults [])))
     = map (dump_ideal (-1)) [(False, OP_WRITE, 0, 4, 0), (True, OP_READ, 0, 2, 0)]"
  using logdump_recent [of "fx_start fsx_defaults []" "[(False, OP_WRITE, 0, 4, 0), (True, OP_READ, 0, 2, 0)]"]
    fx_start_inv(2) [of fsx_defaults "[]"]
  by (simp add: fx_start_def Let_def OP_WRITE_def OP_READ_def LOGSIZE_def)

text \<open>
  The numbers of the dump: right as long as the ring has not wrapped; from then on the
  oldest operation of the ring, which has number \<open>length es - LOGSIZE + 1\<close>, is printed with a number
  that is \<open>LOGSIZE\<close> too large.
\<close>

theorem logdump_numbers:
  assumes "fx_ring s" "logcount s = 0"
  shows "if length es < LOGSIZE then map fst (logdump (log_all es s)) = [1 ..< length es + 1]
    else fst (hd (logdump (log_all es s))) = (length es - LOGSIZE + 1) + LOGSIZE"
proof -
  let ?s = "log_all es s"
  have r: "fx_ring ?s" "logcount ?s = length es" using log_all_ring [OF assms, of es] by simp_all
  show ?thesis
  proof (cases "length es < LOGSIZE")
    case True
    then have "map fst (logdump ?s) = map (\<lambda>k. k + 1) [0 ..< length es]"
      using dump_from_nth [of 0 ?s "length es"] r(2) LOGSIZE_pos by (simp add: logdump_def dump_line_def Let_def)
    then show ?thesis using True by (simp add: map_Suc_upt)
  next
    case False
    then have "logdump ?s = dump_from ?s (Suc (LOGSIZE - 1)) (logptr ?s)" using r(2) LOGSIZE_pos by (simp add: logdump_def)
    then have "fst (hd (logdump ?s)) = length es mod LOGSIZE + 1 + length es div LOGSIZE * LOGSIZE"
      using r by (simp add: dump_line_def Let_def fx_ring_def del: mult_Suc)
    then show ?thesis using False by simp
  qed
qed

theorem logdump_numbers_witness:
  "fst (hd (logdump (log_all (replicate 1200 (False, OP_READ, 0, 1, 0)) (fx_start fsx_defaults [])))) = 201 + LOGSIZE"
  using logdump_numbers [of "fx_start fsx_defaults []" "replicate 1200 (False, OP_READ, 0, 1, 0)"]
    fx_start_inv(2) [of fsx_defaults "[]"]
  by (simp add: fx_start_def Let_def LOGSIZE_def)

end
