(* ===== verification/Posix_Dir.thy ===== *)
theory Posix_Dir
  imports Posix_File "HOL-Library.Sublist"
begin

text \<open>
  Directories as the programs see them. A path is the list of its components, so that the C code's
  \<open>sprintf(path, "%s/%s", dirname, name)\<close> is \<open>dirname @ [name]\<close>; a name holds no slash. The name
  space lists paths with their types in the order in which \<open>readdir\<close> reports them; any list is
  allowed, so the order is arbitrary. The root exists. Contents are not part of it.
\<close>

section \<open>The name space\<close>

type_synonym path = "string list"

datatype ftype = Reg | Directory

type_synonym namespace = "(path \<times> ftype) list"

definition ftype_of :: "namespace \<Rightarrow> path \<Rightarrow> ftype option" where
  "ftype_of ns p = (if p = [] then Some Directory else map_of ns p)"

definition ns_add :: "path \<Rightarrow> ftype \<Rightarrow> namespace \<Rightarrow> namespace" where
  "ns_add p t ns = ns @ [(p, t)]"

definition ns_remove :: "path \<Rightarrow> namespace \<Rightarrow> namespace" where
  "ns_remove p ns = filter (\<lambda>e. fst e \<noteq> p) ns"

definition entries :: "namespace \<Rightarrow> path \<Rightarrow> (string \<times> ftype) list" where
  "entries ns d = map (\<lambda>e. (last (fst e), snd e)) (filter (\<lambda>e. fst e \<noteq> [] \<and> butlast (fst e) = d) ns)"

text \<open>What \<open>readdir\<close> returns one after the other.\<close>

definition dir_list :: "namespace \<Rightarrow> path \<Rightarrow> (string \<times> ftype) list" where
  "dir_list ns d = (''.'', Directory) # (''..'', Directory) # entries ns d"

text \<open>\<open>d_type\<close>, which the sources compare with \<open>S_IFREG >> S_SHIFT\<close> and \<open>S_IFDIR >> S_SHIFT\<close>.\<close>

fun dt :: "ftype \<Rightarrow> nat" where
  "dt Reg = 8"
| "dt Directory = 4"

section \<open>System calls\<close>

definition ENOENT :: nat where "ENOENT = 2"
definition EEXIST :: nat where "EEXIST = 17"
definition ENOTDIR :: nat where "ENOTDIR = 20"
definition EISDIR :: nat where "EISDIR = 21"
definition ENOTEMPTY :: nat where "ENOTEMPTY = 39"

definition ns_mkdir :: "path \<Rightarrow> namespace \<Rightarrow> nat + namespace" where
  "ns_mkdir p ns = (if ftype_of ns p \<noteq> None then Inl EEXIST
     else if ftype_of ns (butlast p) \<noteq> Some Directory then Inl ENOENT
     else Inr (ns_add p Directory ns))"

definition ns_rmdir :: "path \<Rightarrow> namespace \<Rightarrow> nat + namespace" where
  "ns_rmdir p ns = (case ftype_of ns p of
     None \<Rightarrow> Inl ENOENT
   | Some Reg \<Rightarrow> Inl ENOTDIR
   | Some Directory \<Rightarrow> if entries ns p \<noteq> [] then Inl ENOTEMPTY else Inr (ns_remove p ns))"

text \<open>\<open>open\<close> with \<open>O_CREAT\<close>.\<close>

definition ns_creat :: "path \<Rightarrow> namespace \<Rightarrow> nat + namespace" where
  "ns_creat p ns = (case ftype_of ns p of
     Some Reg \<Rightarrow> Inr ns
   | Some Directory \<Rightarrow> Inl EISDIR
   | None \<Rightarrow> if ftype_of ns (butlast p) \<noteq> Some Directory then Inl ENOENT else Inr (ns_add p Reg ns))"

definition ns_unlink :: "path \<Rightarrow> namespace \<Rightarrow> nat + namespace" where
  "ns_unlink p ns = (case ftype_of ns p of
     None \<Rightarrow> Inl ENOENT
   | Some Directory \<Rightarrow> Inl EISDIR
   | Some Reg \<Rightarrow> Inr (ns_remove p ns))"

definition ns_stat :: "path \<Rightarrow> namespace \<Rightarrow> nat + namespace" where
  "ns_stat p ns = (if ftype_of ns p = None then Inl ENOENT else Inr ns)"

text \<open>A call on the name space, which the kernel may also refuse.\<close>

definition sys_ns :: "(namespace \<Rightarrow> nat + namespace) \<Rightarrow> io_env \<Rightarrow> namespace \<Rightarrow> nat option \<times> namespace \<times> io_env" where
  "sys_ns f env ns = (case sys_call env of
     (Some e, env') \<Rightarrow> (Some e, ns, env')
   | (None, env') \<Rightarrow> (case f ns of Inl e \<Rightarrow> (Some e, ns, env') | Inr ns' \<Rightarrow> (None, ns', env')))"

section \<open>The interface the programs rely on\<close>

text \<open>
  A set of typed names that can be looked up, extended and reduced, with the listing of a
  directory. The client's lemmas say what a listing shows after a change.
\<close>

locale dir_store =
  fixes lookup :: "'s \<Rightarrow> path \<Rightarrow> ftype option"
    and add :: "path \<Rightarrow> ftype \<Rightarrow> 's \<Rightarrow> 's"
    and remove :: "path \<Rightarrow> 's \<Rightarrow> 's"
    and listing :: "'s \<Rightarrow> path \<Rightarrow> (string \<times> ftype) list"
    and ok :: "'s \<Rightarrow> bool"
  assumes lookup_add: "p \<noteq> [] \<Longrightarrow> lookup s p = None \<Longrightarrow> lookup (add p t s) q = (if q = p then Some t else lookup s q)"
    and lookup_remove: "p \<noteq> [] \<Longrightarrow> lookup (remove p s) q = (if q = p then None else lookup s q)"
    and listing_lookup: "ok s \<Longrightarrow> (n, t) \<in> set (listing s d) \<longleftrightarrow> lookup s (d @ [n]) = Some t"
    and listing_distinct: "ok s \<Longrightarrow> distinct (map fst (listing s d))"
    and ok_add: "ok s \<Longrightarrow> p \<noteq> [] \<Longrightarrow> lookup s p = None \<Longrightarrow> lookup s (butlast p) = Some Directory \<Longrightarrow> ok (add p t s)"
    and ok_remove: "ok s \<Longrightarrow> p \<noteq> [] \<Longrightarrow> listing s p = [] \<Longrightarrow> ok (remove p s)"
begin

lemma listing_add:
  assumes "ok s" "lookup s (d @ [n]) = None" "lookup s d = Some Directory"
  shows "set (listing (add (d @ [n]) t s) d) = insert (n, t) (set (listing s d))"
proof -
  have ok: "ok (add (d @ [n]) t s)" using ok_add [OF assms(1), of "d @ [n]" t] assms(2,3) by simp
  show ?thesis
    using listing_lookup [OF assms(1)] listing_lookup [OF ok] lookup_add [of "d @ [n]" s] assms(2)
    by (auto split: if_splits)
qed

lemma listing_remove:
  assumes "ok s" "listing s (d @ [n]) = []"
  shows "set (listing (remove (d @ [n]) s) d) = {e \<in> set (listing s d). fst e \<noteq> n}"
proof -
  have ok: "ok (remove (d @ [n]) s)" using ok_remove [OF assms(1), of "d @ [n]"] assms(2) by simp
  show ?thesis
    using listing_lookup [OF assms(1)] listing_lookup [OF ok] lookup_remove [of "d @ [n]" s]
    by (auto split: if_splits)
qed

lemma add_remove_lookup:
  assumes "p \<noteq> []" "lookup s p = None"
  shows "lookup (remove p (add p t s)) q = lookup s q"
  using assms lookup_add [OF assms] lookup_remove [OF assms(1)] by auto

end

section \<open>Well-formed name spaces\<close>

definition ns_wf :: "namespace \<Rightarrow> bool" where
  "ns_wf ns \<longleftrightarrow> distinct (map fst ns) \<and> (\<forall>e \<in> set ns. fst e \<noteq> [] \<and> ftype_of ns (butlast (fst e)) = Some Directory)"

lemma map_of_ns_remove: "map_of (ns_remove p ns) q = (if q = p then None else map_of ns q)"
  unfolding ns_remove_def by (induction ns) auto

lemma ftype_of_remove: "p \<noteq> [] \<Longrightarrow> ftype_of (ns_remove p ns) q = (if q = p then None else ftype_of ns q)"
  by (simp add: ftype_of_def map_of_ns_remove)

lemma ftype_of_add:
  "p \<noteq> [] \<Longrightarrow> ftype_of ns p = None \<Longrightarrow> ftype_of (ns_add p t ns) q = (if q = p then Some t else ftype_of ns q)"
  by (auto simp: ftype_of_def ns_add_def map_add_def split: option.splits)

lemma ftype_of_iff: "ns_wf ns \<Longrightarrow> p \<noteq> [] \<Longrightarrow> ftype_of ns p = Some t \<longleftrightarrow> (p, t) \<in> set ns"
  by (simp add: ftype_of_def ns_wf_def)

lemma entries_iff: "(n, t) \<in> set (entries ns d) \<longleftrightarrow> (d @ [n], t) \<in> set ns"
proof
  assume "(n, t) \<in> set (entries ns d)"
  then obtain p where "(p, t) \<in> set ns" "p \<noteq> []" "butlast p = d" "last p = n" by (auto simp: entries_def)
  then show "(d @ [n], t) \<in> set ns" using append_butlast_last_id [of p] by auto
qed (force simp: entries_def)

lemma distinct_entries: "distinct (map fst ns) \<Longrightarrow> distinct (map fst (entries ns d))"
proof -
  assume "distinct (map fst ns)"
  then have "distinct (map fst (filter (\<lambda>e. fst e \<noteq> [] \<and> butlast (fst e) = d) ns))" by (simp add: distinct_map_filter)
  moreover have "inj_on last {p. p \<noteq> [] \<and> butlast p = d}"
    by (auto simp: inj_on_def) (metis append_butlast_last_id)
  moreover have "fst ` set (filter (\<lambda>e. fst e \<noteq> [] \<and> butlast (fst e) = d) ns) \<subseteq> {p. p \<noteq> [] \<and> butlast p = d}" by auto
  ultimately have "distinct (map last (map fst (filter (\<lambda>e. fst e \<noteq> [] \<and> butlast (fst e) = d) ns)))"
    by (subst distinct_map) (auto intro: inj_on_subset)
  then show "distinct (map fst (entries ns d))" by (simp add: entries_def comp_def)
qed

lemma entries_directory: "ns_wf ns \<Longrightarrow> ftype_of ns p \<noteq> Some Directory \<Longrightarrow> entries ns p = []"
  by (auto simp: entries_def ns_wf_def filter_empty_conv)

lemma ns_wf_add:
  assumes "ns_wf ns" "p \<noteq> []" "ftype_of ns p = None" "ftype_of ns (butlast p) = Some Directory"
  shows "ns_wf (ns_add p t ns)"
proof -
  have "p \<notin> fst ` set ns" using assms(2,3) by (simp add: ftype_of_def map_of_eq_None_iff)
  moreover have "butlast p \<noteq> p" using assms(2) by (metis append_butlast_last_id append_self_conv list.distinct(1))
  moreover have "ftype_of ns q = Some Directory \<Longrightarrow> ftype_of (ns_add p t ns) q = Some Directory" for q
    using ftype_of_add [OF assms(2,3)] assms(3) by auto
  ultimately show ?thesis using assms(1,2,4) by (auto simp: ns_wf_def ns_add_def)
qed

lemma ns_wf_remove:
  assumes "ns_wf ns" "p \<noteq> []" "entries ns p = []"
  shows "ns_wf (ns_remove p ns)"
proof -
  have "butlast (fst e) \<noteq> p" if "e \<in> set ns" for e
  proof
    assume b: "butlast (fst e) = p"
    have "fst e \<noteq> []" using assms(1) that by (simp add: ns_wf_def)
    then have "(last (fst e), snd e) \<in> set (entries ns p)"
      using that b append_butlast_last_id [of "fst e"] by (auto simp: entries_iff)
    then show False using assms(3) by simp
  qed
  then show ?thesis
    using assms(1,2) by (auto simp: ns_wf_def ftype_of_remove distinct_map_filter ns_remove_def [of p ns])
      (auto simp: ns_remove_def [symmetric] ftype_of_remove)
qed

lemma ns_ancestor:
  assumes "ns_wf ns" "(p, t) \<in> set ns" "strict_prefix q p"
  shows "ftype_of ns q = Some Directory"
  using assms(2,3)
proof (induction p arbitrary: t rule: rev_induct)
  case (snoc x p)
  have parent: "ftype_of ns p = Some Directory" using assms(1) snoc.prems(1) by (force simp: ns_wf_def)
  show ?case
  proof (cases "q = p")
    case False
    then have "strict_prefix q p" using snoc.prems(2) by (auto simp: prefix_snoc strict_prefix_def)
    moreover from this have "(p, Directory) \<in> set ns" using parent ftype_of_iff [OF assms(1), of p] by (cases p) auto
    ultimately show ?thesis using snoc.IH by blast
  qed (simp add: parent)
qed simp

text \<open>A path below a directory passes through one of its entries, a directory unless it is the path itself.\<close>

lemma ns_child:
  assumes "ns_wf ns" "(p, t) \<in> set ns" "strict_prefix d p"
  obtains n u where "(n, u) \<in> set (entries ns d)" "prefix (d @ [n]) p" "p = d @ [n] \<or> u = Directory"
proof -
  obtain n r where p: "p = d @ n # r" using assms(3) by (metis strict_prefixE')
  show ?thesis
  proof (cases r)
    case Nil
    then show ?thesis using that [of n t] assms(2) p by (simp add: entries_iff)
  next
    case (Cons m r')
    then have "strict_prefix (d @ [n]) p" using p by (simp add: strict_prefix_def)
    then have "ftype_of ns (d @ [n]) = Some Directory" by (rule ns_ancestor [OF assms(1,2)])
    then have "(n, Directory) \<in> set (entries ns d)" using ftype_of_iff [OF assms(1), of "d @ [n]"] by (simp add: entries_iff)
    then show ?thesis using that [of n Directory] p by simp
  qed
qed

interpretation posix: dir_store ftype_of ns_add ns_remove entries ns_wf
proof unfold_locales
  fix ns n t d assume wf: "ns_wf ns"
  show "((n, t) \<in> set (entries ns d)) = (ftype_of ns (d @ [n]) = Some t)"
    using ftype_of_iff [OF wf, of "d @ [n]" t] by (simp add: entries_iff)
  show "distinct (map fst (entries ns d))" using wf by (intro distinct_entries) (simp add: ns_wf_def)
qed (simp_all add: ftype_of_add ftype_of_remove ns_wf_add ns_wf_remove)

end
