(* ===== verification/Dir_Ops.thy ===== *)
theory Dir_Ops
  imports Posix_Dir File_Ops C_Stdio
begin

text \<open>
  \<open>programs/libocfs2test/dir_ops.c\<close>: a directory whose entries the program also keeps in memory
  (\<open>dirents\<close>), its verification against what \<open>readdir\<close> reports, and trees that are built and
  destroyed recursively.

  \<open>dirents\<close> holds the first \<open>num_dirents\<close> elements of the array; nothing past them is ever read.
  \<open>D_ret\<close> is a return with C's result, \<open>D_exit\<close> a call of \<open>exit\<close>. \<open>readdir\<close> enumerates the entries
  the directory had at \<open>opendir\<close>; the loops remove only the entry they have just read.

  A path is a list of components of any length: that \<open>snprintf\<close> cuts a path at \<open>PATH_MAX\<close> bytes in
  \<open>build_dir_tree\<close> and \<open>traverse_and_destroy\<close>, the test in the former that would raise \<open>SIGSEGV\<close>
  (which the cut keeps from ever being true), and that \<open>sprintf\<close> in the functions on the table
  overruns its buffer of \<open>PATH_MAX\<close> bytes, are not modelled. The definitions are those of the code
  for paths shorter than \<open>PATH_MAX\<close>.
\<close>

section \<open>State\<close>

record my_dirent =
  type :: nat
  name_len :: nat
  seen :: nat
  name :: string

definition MAX_DIRENTS :: nat where
  "MAX_DIRENTS = 40000"

record dirs =
  dirents :: "my_dirent list"
  dns :: namespace
  denv :: io_env
  derrno :: nat
  drng :: "nat list"

datatype dres = D_ret int dirs | D_exit int dirs | D_fault fault

fun d_bind :: "dres \<Rightarrow> (int \<Rightarrow> dirs \<Rightarrow> dres) \<Rightarrow> dres" where
  "d_bind (D_ret r s) k = k r s"
| "d_bind (D_exit c s) k = D_exit c s"
| "d_bind (D_fault e) k = D_fault e"

text \<open>A system call: \<open>-1\<close> and \<open>errno\<close>, or 0.\<close>

definition d_sys :: "(namespace \<Rightarrow> nat + namespace) \<Rightarrow> dirs \<Rightarrow> int \<times> dirs" where
  "d_sys f s = (case sys_ns f (denv s) (dns s) of
     (Some e, ns, env) \<Rightarrow> (-1, s\<lparr>dns := ns, denv := env, derrno := e\<rparr>)
   | (None, ns, env) \<Rightarrow> (0, s\<lparr>dns := ns, denv := env\<rparr>))"

text \<open>\<open>opendir\<close> and the names \<open>readdir\<close> will give; \<open>None\<close> is the null pointer.\<close>

definition d_opendir :: "path \<Rightarrow> dirs \<Rightarrow> (string \<times> ftype) list option \<times> dirs" where
  "d_opendir d s = (case sys_call (denv s) of
     (Some e, env) \<Rightarrow> (None, s\<lparr>denv := env, derrno := e\<rparr>)
   | (None, env) \<Rightarrow> (case ftype_of (dns s) d of
        Some Directory \<Rightarrow> (Some (dir_list (dns s) d), s\<lparr>denv := env\<rparr>)
      | Some Reg \<Rightarrow> (None, s\<lparr>denv := env, derrno := ENOTDIR\<rparr>)
      | None \<Rightarrow> (None, s\<lparr>denv := env, derrno := ENOENT\<rparr>)))"

section \<open>The table of entries\<close>

definition is_dot_entry :: "my_dirent \<Rightarrow> bool" where
  "is_dot_entry de \<longleftrightarrow> name_len de = 1 \<and> name de ! 0 = CHR ''.''
     \<or> name_len de = 2 \<and> name de ! 0 = CHR ''.'' \<and> name de ! 1 = CHR ''.''"

text \<open>
  \<open>unlink_dirent\<close> on the element at index \<open>i\<close>: the last element takes its place. With an empty
  table the source reads the element before the array.
\<close>

definition unlink_dirent :: "path \<Rightarrow> nat \<Rightarrow> dirs \<Rightarrow> dres" where
  "unlink_dirent dirname i s =
     (if dirents s = [] \<or> length (dirents s) \<le> i then D_fault Overrun else
      let path = dirname @ [name (dirents s ! i)];
          s1 = s\<lparr>dirents := butlast ((dirents s)[i := last (dirents s)])\<rparr> in
      case d_sys (ns_unlink path) s1 of (r, s2) \<Rightarrow> D_ret r s2)"

definition dot_entry :: "string \<Rightarrow> my_dirent" where
  "dot_entry n = \<lparr>type = dt Directory, name_len = length n, seen = 0, name = n\<rparr>"

definition create_and_prep_dir :: "path \<Rightarrow> dirs \<Rightarrow> dres" where
  "create_and_prep_dir dirname s =
     (case d_sys (ns_mkdir dirname) (s\<lparr>dirents := [dot_entry ''.'', dot_entry ''..'']\<rparr>) of
        (r, s1) \<Rightarrow> if r \<noteq> 0 then D_ret (int (derrno s1)) s1 else D_ret 0 s1)"

text \<open>The loop of \<open>destroy_dir\<close>, from index \<open>k - 1\<close> down to 0.\<close>

fun destroy_loop :: "path \<Rightarrow> nat \<Rightarrow> dirs \<Rightarrow> dres" where
  "destroy_loop dirname 0 s = D_ret 0 s"
| "destroy_loop dirname (Suc k) s =
     (if length (dirents s) \<le> k then D_fault Overrun
      else if is_dot_entry (dirents s ! k) then destroy_loop dirname k s
      else d_bind (unlink_dirent dirname k s) (\<lambda>r s1.
        if r < 0 then D_ret (int (derrno s1)) s1 else destroy_loop dirname k s1))"

definition destroy_dir :: "path \<Rightarrow> dirs \<Rightarrow> dres" where
  "destroy_dir dirname s = d_bind (destroy_loop dirname (length (dirents s)) s) (\<lambda>r s1.
     if r \<noteq> 0 then D_ret r s1 else
     case d_sys (ns_rmdir dirname) s1 of (r, s2) \<Rightarrow>
       if r \<noteq> 0 then D_ret (int (derrno s2)) s2 else D_ret 0 (s2\<lparr>dirents := []\<rparr>))"

fun find_from :: "nat \<Rightarrow> my_dirent list \<Rightarrow> string \<Rightarrow> nat option" where
  "find_from i [] n = None"
| "find_from i (de # des) n = (if name_len de = length n \<and> name de = n then Some i else find_from (i + 1) des n)"

definition find_my_dirent :: "my_dirent list \<Rightarrow> string \<Rightarrow> nat option" where
  "find_my_dirent des n = find_from 0 des n"

definition unlink_dirent_nam :: "path \<Rightarrow> string \<Rightarrow> dirs \<Rightarrow> dres" where
  "unlink_dirent_nam dirname n s = (case find_my_dirent (dirents s) n of
     None \<Rightarrow> D_fault Null_deref | Some i \<Rightarrow> unlink_dirent dirname i s)"

text \<open>The name and its zero byte have to fit into \<open>name[OCFS2_MAX_FILENAME_LEN]\<close>.\<close>

definition create_file :: "string \<Rightarrow> path \<Rightarrow> dirs \<Rightarrow> dres" where
  "create_file filename dirname s =
     (if MAX_DIRENTS \<le> length (dirents s) \<or> OCFS2_MAX_FILENAME_LEN \<le> length filename then D_fault Overrun else
      let de = \<lparr>type = dt Reg, name_len = length filename, seen = 0, name = filename\<rparr>;
          s1 = s\<lparr>dirents := dirents s @ [de]\<rparr> in
      case d_sys (ns_creat (dirname @ [filename])) s1 of (r, s2) \<Rightarrow>
        if r < 0 then D_ret (int (derrno s2)) s2 else D_ret 0 s2)"

text \<open>A C string: the bytes before the first zero byte.\<close>

definition c_str :: "byte list \<Rightarrow> string" where
  "c_str bs = map char_of_byte (takeWhile (\<lambda>b. b \<noteq> 0) bs)"

definition d_rand_nam :: "nat \<Rightarrow> nat \<Rightarrow> dirs \<Rightarrow> fault + string \<times> dirs" where
  "d_rand_nam least most s =
     (case get_rand_nam (replicate OCFS2_MAX_FILENAME_LEN 0) least most (drng s) of
        Inl e \<Rightarrow> Inl e | Inr (n, bs, rs) \<Rightarrow> Inr (c_str bs, s\<lparr>drng := rs\<rparr>))"

text \<open>The name \<open>%s%011d\<close>.\<close>

definition pad11 :: "nat \<Rightarrow> string" where
  "pad11 i = zero_pad 11 i"

text \<open>\<open>create_files\<close>, from file \<open>i\<close> on; \<open>create_file\<close> never returns a negative number.\<close>

fun create_files_loop :: "string option \<Rightarrow> nat \<Rightarrow> nat \<Rightarrow> path \<Rightarrow> dirs \<Rightarrow> dres" where
  "create_files_loop pre i 0 dirname s = D_ret 0 s"
| "create_files_loop pre i (Suc n) dirname s =
     (case (case pre of
              None \<Rightarrow> d_rand_nam 3 OCFS2_MAX_FILENAME_LEN s
            | Some p \<Rightarrow> Inr (p @ pad11 i, s)) of
        Inl e \<Rightarrow> D_fault e
      | Inr (nam, s1) \<Rightarrow> d_bind (create_file nam dirname s1) (\<lambda>r s2.
          if r < 0 then D_ret r s2 else create_files_loop pre (i + 1) n dirname s2))"

definition create_files :: "string option \<Rightarrow> nat \<Rightarrow> path \<Rightarrow> dirs \<Rightarrow> dres" where
  "create_files pre num dirname s = create_files_loop pre 0 num dirname s"

section \<open>Looking at a directory\<close>

text \<open>The counting loop stops at the third entry.\<close>

fun count_entries :: "nat \<Rightarrow> (string \<times> ftype) list \<Rightarrow> nat" where
  "count_entries n [] = n"
| "count_entries n (e # es) = (if 2 < n + 1 then n + 1 else count_entries (n + 1) es)"

definition is_dir_empty :: "path \<Rightarrow> dirs \<Rightarrow> dres" where
  "is_dir_empty d s = (case d_opendir d s of
     (None, s1) \<Rightarrow> D_fault Null_deref
   | (Some es, s1) \<Rightarrow> D_ret (if count_entries 0 es = 2 then 1 else 0) s1)"

text \<open>The first loop of \<open>verify_dirents\<close>; \<open>False\<close> for its returns of \<open>-1\<close>.\<close>

fun vd_scan :: "(string \<times> ftype) list \<Rightarrow> my_dirent list \<Rightarrow> bool \<times> my_dirent list" where
  "vd_scan [] des = (True, des)"
| "vd_scan ((n, t) # es) des = (case find_my_dirent des n of
     None \<Rightarrow> (False, des)
   | Some i \<Rightarrow>
       if type (des ! i) \<noteq> dt t then (False, des)
       else if seen (des ! i) \<noteq> 0 then (False, des)
       else vd_scan es (des[i := (des ! i)\<lparr>seen := seen (des ! i) + 1\<rparr>]))"

text \<open>The entries the second loop reports as missing; it does not change the result.\<close>

definition vd_missing :: "my_dirent list \<Rightarrow> string list" where
  "vd_missing des = map name (filter (\<lambda>de. seen de = 0 \<and> name_len de \<noteq> 0) des)"

definition verify_dirents :: "path \<Rightarrow> dirs \<Rightarrow> int \<times> string list \<times> dirs" where
  "verify_dirents d s = (case d_opendir d s of
     (None, s1) \<Rightarrow> (int (derrno s1), [], s1)
   | (Some es, s1) \<Rightarrow> (case vd_scan es (dirents s1) of
        (False, des) \<Rightarrow> (-1, [], s1\<lparr>dirents := des\<rparr>)
      | (True, des) \<Rightarrow> (0, vd_missing des, s1\<lparr>dirents := map (\<lambda>de. de\<lparr>seen := 0\<rparr>) des\<rparr>)))"

section \<open>Trees\<close>

text \<open>A loop over \<open>i\<close>, ended early by a result other than 0.\<close>

fun d_for :: "nat \<Rightarrow> nat \<Rightarrow> (nat \<Rightarrow> dirs \<Rightarrow> dres) \<Rightarrow> dirs \<Rightarrow> dres" where
  "d_for i 0 f s = D_ret 0 s"
| "d_for i (Suc n) f s = d_bind (f i s) (\<lambda>r s1. if r \<noteq> 0 then D_ret r s1 else d_for (i + 1) n f s1)"

definition tree_name :: "bool \<Rightarrow> string \<Rightarrow> nat \<Rightarrow> nat \<Rightarrow> dirs \<Rightarrow> fault + string \<times> dirs" where
  "tree_name is_random letter layer i s =
     (case (if is_random then d_rand_nam 1 (OCFS2_MAX_FILENAME_LEN - 20) s else Inr (letter, s)) of
        Inl e \<Rightarrow> Inl e | Inr (n, s1) \<Rightarrow> Inr (n @ show_dec layer @ show_dec i, s1))"

definition tree_file :: "path \<Rightarrow> bool \<Rightarrow> nat \<Rightarrow> nat \<Rightarrow> dirs \<Rightarrow> dres" where
  "tree_file dirname is_random layer i s = (case tree_name is_random ''F'' layer i s of
     Inl e \<Rightarrow> D_fault e
   | Inr (n, s1) \<Rightarrow> (case d_sys (ns_creat (dirname @ [n])) s1 of (r, s2) \<Rightarrow>
       D_ret (if r < 0 then int (derrno s2) else 0) s2))"

text \<open>How many of the entries are directories.\<close>

definition tree_split :: "bool \<Rightarrow> nat \<Rightarrow> dirs \<Rightarrow> fault + nat \<times> dirs" where
  "tree_split is_random n s =
     (if is_random then (case drng s of [] \<Rightarrow> Inl Out_of_rand | r # rs \<Rightarrow>
        (case get_rand 1 (sub64 n 1) r of Inl e \<Rightarrow> Inl e | Inr v \<Rightarrow> Inr (v, s\<lparr>drng := rs\<rparr>)))
      else Inr (n div 2, s))"

text \<open>The result of the recursive call is dropped.\<close>

primrec build_dir_tree :: "nat \<Rightarrow> path \<Rightarrow> nat \<Rightarrow> bool \<Rightarrow> dirs \<Rightarrow> dres" where
  "build_dir_tree 0 dirname n is_random s = (case d_sys (ns_mkdir dirname) s of
     (r, s1) \<Rightarrow> D_ret (if r < 0 then int (derrno s1) else 0) s1)"
| "build_dir_tree (Suc depth) dirname n is_random s = (case d_sys (ns_mkdir dirname) s of (r, s1) \<Rightarrow>
     if r < 0 then D_ret (int (derrno s1)) s1 else
     (case tree_split is_random n s1 of Inl e \<Rightarrow> D_fault e | Inr (dir_dirents, s2) \<Rightarrow>
       d_bind (d_for 0 (sub64 n dir_dirents) (tree_file dirname is_random (Suc depth)) s2) (\<lambda>r s3.
         if r \<noteq> 0 then D_ret r s3 else
         d_for 0 dir_dirents (\<lambda>i s4. case tree_name is_random ''D'' (Suc depth) i s4 of
             Inl e \<Rightarrow> D_fault e
           | Inr (nam, s5) \<Rightarrow> d_bind (build_dir_tree depth (dirname @ [nam]) n is_random s5) (\<lambda>r s6. D_ret 0 s6)) s3)))"

text \<open>
  The loop of \<open>traverse_and_destroy\<close>, with the recursive call as a parameter; the result of that
  call is dropped.
\<close>

fun td_loop :: "(path \<Rightarrow> dirs \<Rightarrow> dres) \<Rightarrow> path \<Rightarrow> (string \<times> ftype) list \<Rightarrow> dirs \<Rightarrow> dres" where
  "td_loop rec d [] s = D_ret 0 s"
| "td_loop rec d ((n, t) # es) s =
     (if t = Directory \<and> (n = ''.'' \<or> n = ''..'') then td_loop rec d es s else
      case d_sys (ns_stat (d @ [n])) s of (r, s1) \<Rightarrow>
      if r \<noteq> 0 then D_ret (int (derrno s1)) s1
      else if t = Reg then
        (case d_sys (ns_unlink (d @ [n])) s1 of (r, s2) \<Rightarrow>
          if r \<noteq> 0 then D_ret (int (derrno s2)) s2 else td_loop rec d es s2)
      else d_bind (is_dir_empty (d @ [n]) s1) (\<lambda>r s2.
        if r = 0 then d_bind (rec (d @ [n]) s2) (\<lambda>r s3. td_loop rec d es s3)
        else (case d_sys (ns_rmdir (d @ [n])) s2 of (r, s3) \<Rightarrow>
          if r \<noteq> 0 then D_ret (int (derrno s3)) s3 else td_loop rec d es s3)))"

primrec traverse_and_destroy :: "nat \<Rightarrow> path \<Rightarrow> dirs \<Rightarrow> dres" where
  "traverse_and_destroy 0 d s = D_fault Out_of_fuel"
| "traverse_and_destroy (Suc fuel) d s = (case d_opendir d s of
     (None, s1) \<Rightarrow> D_fault Null_deref
   | (Some es, s1) \<Rightarrow> d_bind (td_loop (traverse_and_destroy fuel) d es s1) (\<lambda>r s2.
       if r \<noteq> 0 then D_ret r s2 else
       (case d_sys (ns_rmdir d) s2 of (r, s3) \<Rightarrow>
         if r \<noteq> 0 then D_exit (int (derrno s3)) s3 else D_ret 0 s3)))"

section \<open>Inlined directories\<close>

definition get_max_inlined_entries :: "nat \<Rightarrow> nat" where
  "get_max_inlined_entries max_inline_size = u32 (max_inline_size div 512 * 512) div 32 + 8"

section \<open>The table and its directory\<close>

lemma d_sys_Nil:
  "denv s = [] \<Longrightarrow> d_sys f s = (case f (dns s) of
     Inl e \<Rightarrow> (-1, s\<lparr>derrno := e\<rparr>) | Inr ns \<Rightarrow> (0, s\<lparr>dns := ns\<rparr>))"
  by (cases s) (simp add: d_sys_def sys_ns_def split: sum.splits)

lemma d_opendir_Nil:
  "denv s = [] \<Longrightarrow> ftype_of (dns s) d = Some Directory \<Longrightarrow> d_opendir d s = (Some (dir_list (dns s) d), s)"
  by (cases s) (simp add: d_opendir_def)

text \<open>Replacing an element by the last one, as \<open>unlink_dirent\<close> does.\<close>

lemma swap_out:
  assumes "distinct (map f xs)" "j < length xs"
  shows "set (butlast (xs[j := last xs])) = {x \<in> set xs. f x \<noteq> f (xs ! j)}" (is ?A)
    "distinct (map f (butlast (xs[j := last xs])))" (is ?B)
proof -
  obtain ys z where xs: "xs = ys @ [z]" using assms(2) by (cases xs rule: rev_cases) auto
  have d: "distinct (map f ys)" "f z \<notin> f ` set ys" "distinct ys" "z \<notin> set ys"
    using assms(1) xs by (auto simp: distinct_map)
  have eq: "butlast (xs[j := last xs]) = (if j < length ys then ys[j := z] else ys)"
    using assms(2) xs by (auto simp: list_update_append)
  show ?A
  proof (cases "j < length ys")
    case True
    have fz: "f z \<noteq> f (ys ! j)" using d(2) True nth_mem [OF True] by (metis image_eqI)
    have inj: "f x = f (ys ! j) \<longleftrightarrow> x = ys ! j" if "x \<in> set ys" for x
      using inj_onD [of f "set ys" x "ys ! j"] d(1) that nth_mem [OF True] by (auto simp: distinct_map)
    have "set (butlast (xs[j := last xs])) = insert z (set ys - {ys ! j})"
      unfolding eq using True d(3) by (simp add: set_update_distinct)
    also have "\<dots> = {x \<in> set (ys @ [z]). f x \<noteq> f (ys ! j)}"
    proof (rule set_eqI)
      fix x show "x \<in> insert z (set ys - {ys ! j}) \<longleftrightarrow> x \<in> {x \<in> set (ys @ [z]). f x \<noteq> f (ys ! j)}"
        using fz inj [of x] by (cases "x \<in> set ys"; cases "x = z") auto
    qed
    finally show ?thesis using True xs by (simp add: nth_append)
  next
    case False
    then have "xs ! j = z" using assms(2) xs by (simp add: nth_append)
    moreover have "{x \<in> set xs. f x \<noteq> f z} = set ys" using d(2) xs by (auto simp: image_iff)
    ultimately show ?thesis unfolding eq using False by simp
  qed
  have "f z \<notin> set (map f ys) - {map f ys ! j}" using d(2) by simp
  then have "distinct ((map f ys)[j := f z])" by (rule distinct_list_update [OF d(1)])
  then show ?B unfolding eq using d(1) by (simp add: map_update)
qed

definition entry_ok :: "my_dirent \<Rightarrow> bool" where
  "entry_ok de \<longleftrightarrow> name_len de = length (name de) \<and> seen de = 0"

lemma find_from_iff:
  assumes "\<And>de. de \<in> set des \<Longrightarrow> name_len de = length (name de)" "distinct (map name des)"
  shows "find_from k des n = Some i \<longleftrightarrow> k \<le> i \<and> i - k < length des \<and> name (des ! (i - k)) = n"
  using assms
proof (induction des arbitrary: k)
  case (Cons de des)
  then have len: "name_len de = length (name de)" by simp
  show ?case
  proof (cases "name de = n")
    case True
    have "i - k = 0" if "i - k < length (de # des)" "name ((de # des) ! (i - k)) = n"
    proof (cases "i - k")
      case (Suc j)
      then have "name (des ! j) \<in> name ` set des" using that(1) by simp
      then show ?thesis using that(2) Suc True Cons.prems(2) by simp
    qed
    then show ?thesis using True len by auto
  next
    case False
    have "k \<le> i \<and> i - k < length (de # des) \<and> name ((de # des) ! (i - k)) = n
        \<longleftrightarrow> k + 1 \<le> i \<and> i - (k + 1) < length des \<and> name (des ! (i - (k + 1))) = n"
    proof -
      have "i - (k + 1) = j" if "i - k = Suc j" for j using that by simp
      then show ?thesis using False by (cases "i - k") auto
    qed
    then show ?thesis using False len Cons by simp
  qed
qed simp

lemma find_my_dirent_iff:
  assumes "\<And>de. de \<in> set des \<Longrightarrow> name_len de = length (name de)" "distinct (map name des)"
  shows "find_my_dirent des n = Some i \<longleftrightarrow> i < length des \<and> name (des ! i) = n"
    "find_my_dirent des n = None \<longleftrightarrow> n \<notin> name ` set des"
proof -
  show iff: "find_my_dirent des n = Some i \<longleftrightarrow> i < length des \<and> name (des ! i) = n" for i
    using find_from_iff [OF assms, of 0 n i] by (simp add: find_my_dirent_def)
  show "find_my_dirent des n = None \<longleftrightarrow> n \<notin> name ` set des"
  proof (cases "find_my_dirent des n")
    case None
    then have "\<not> (i < length des \<and> name (des ! i) = n)" for i using iff [of i] by simp
    then show ?thesis using None by (metis imageE in_set_conv_nth option.distinct(1))
  next
    case (Some i)
    then have "i < length des" "name (des ! i) = n" using iff [of i] by simp_all
    then show ?thesis using Some by (auto intro!: image_eqI [of _ _ "des ! i"])
  qed
qed

text \<open>
  The scan of \<open>verify_dirents\<close>: it succeeds exactly if every name listed is in the table with its
  type and not listed twice, and marks what it has seen.
\<close>

definition mark_seen :: "string set \<Rightarrow> my_dirent \<Rightarrow> my_dirent" where
  "mark_seen N de = (if name de \<in> N then de\<lparr>seen := 1\<rparr> else de)"

lemma vd_scan_iff:
  assumes "\<And>de. de \<in> set des \<Longrightarrow> name_len de = length (name de)" "distinct (map name des)"
  shows "fst (vd_scan es des) \<longleftrightarrow>
    distinct (map fst es) \<and> (\<forall>(n, t) \<in> set es. \<exists>de \<in> set des. name de = n \<and> type de = dt t \<and> seen de = 0)"
  using assms
proof (induction es arbitrary: des)
  case (Cons e es)
  obtain n t where e: "e = (n, t)" by fastforce
  show ?case
  proof (cases "find_my_dirent des n")
    case None
    then have "n \<notin> name ` set des" using find_my_dirent_iff(2) [OF Cons.prems] by simp
    then show ?thesis using None e by auto
  next
    case (Some i)
    then have i: "i < length des" "name (des ! i) = n" using find_my_dirent_iff(1) [OF Cons.prems] by simp_all
    have uniq: "de = des ! i" if "de \<in> set des" "name de = n" for de
      using Cons.prems(2) that i by (auto simp: distinct_map inj_on_def)
    show ?thesis
    proof (cases "type (des ! i) = dt t \<and> seen (des ! i) = 0")
      case False
      then have "\<not> (\<exists>de \<in> set des. name de = n \<and> type de = dt t \<and> seen de = 0)" using uniq by auto
      then show ?thesis using Some e False by auto
    next
      case True
      let ?des = "des[i := (des ! i)\<lparr>seen := seen (des ! i) + 1\<rparr>]"
      have names: "map name ?des = map name des" using i by (simp add: map_update) (metis list_update_id map_update)
      have len: "\<And>de. de \<in> set ?des \<Longrightarrow> name_len de = length (name de)"
        using Cons.prems(1) i by (auto dest!: set_update_subset_insert [THEN subsetD])
      have mem: "(\<exists>de \<in> set ?des. name de = m \<and> type de = dt u \<and> seen de = 0)
          \<longleftrightarrow> m \<noteq> n \<and> (\<exists>de \<in> set des. name de = m \<and> type de = dt u \<and> seen de = 0)" for m u
      proof -
        have "distinct des" using Cons.prems(2) by (simp add: distinct_map)
        then have "set ?des = insert ((des ! i)\<lparr>seen := seen (des ! i) + 1\<rparr>) (set des - {des ! i})"
          using i(1) by (simp add: set_update_distinct)
        then show ?thesis using i uniq by auto
      qed
      have "fst (vd_scan (e # es) des) = fst (vd_scan es ?des)" using Some True e by simp
      also have "\<dots> \<longleftrightarrow> distinct (map fst es) \<and> (\<forall>(m, u) \<in> set es. \<exists>de \<in> set ?des. name de = m \<and> type de = dt u \<and> seen de = 0)"
        by (rule Cons.IH) (use len names Cons.prems(2) in simp_all)
      also have "\<dots> \<longleftrightarrow> distinct (map fst es) \<and> n \<notin> fst ` set es
          \<and> (\<forall>(m, u) \<in> set es. \<exists>de \<in> set des. name de = m \<and> type de = dt u \<and> seen de = 0)"
        unfolding mem by (auto simp: image_iff) (force+)?
      also have "\<dots> \<longleftrightarrow> distinct (map fst (e # es))
          \<and> (\<forall>(m, u) \<in> set (e # es). \<exists>de \<in> set des. name de = m \<and> type de = dt u \<and> seen de = 0)"
        using True i nth_mem [OF i(1)] e by auto
      finally show ?thesis .
    qed
  qed
qed simp

text \<open>What the marks are after a successful scan.\<close>

lemma vd_scan_marks:
  assumes "\<And>de. de \<in> set des \<Longrightarrow> name_len de = length (name de)" "distinct (map name des)" "fst (vd_scan es des)"
  shows "snd (vd_scan es des) = map (mark_seen (fst ` set es)) des"
  using assms
proof (induction es arbitrary: des)
  case Nil
  then show ?case by (simp add: mark_seen_def map_idI)
next
  case (Cons e es)
  obtain n t where e: "e = (n, t)" by fastforce
  obtain i where f: "find_my_dirent des n = Some i" "type (des ! i) = dt t" "seen (des ! i) = 0"
    using Cons.prems(3) e by (auto split: option.splits if_splits)
  then have i: "i < length des" "name (des ! i) = n" using find_my_dirent_iff(1) [OF Cons.prems(1,2)] by simp_all
  let ?des = "des[i := (des ! i)\<lparr>seen := seen (des ! i) + 1\<rparr>]"
  have upd: "?des = map (mark_seen {n}) des"
  proof (rule nth_equalityI)
    fix k assume k: "k < length ?des"
    have "name (des ! k) = n \<longleftrightarrow> k = i" using Cons.prems(2) k i nth_eq_iff_index_eq [of "map name des" k i] by auto
    then show "?des ! k = map (mark_seen {n}) des ! k" using k f(3) by (simp add: mark_seen_def nth_list_update)
  qed simp
  have names: "map name ?des = map name des" unfolding upd by (simp add: mark_seen_def)
  have len: "name_len de = length (name de)" if "de \<in> set ?des" for de
    using that Cons.prems(1) unfolding upd by (auto simp: mark_seen_def split: if_splits)
  have step: "vd_scan (e # es) des = vd_scan es ?des" using f e by simp
  have "snd (vd_scan es ?des) = map (mark_seen (fst ` set es)) ?des"
    by (rule Cons.IH) (use len names Cons.prems(2,3) step in simp_all)
  then show ?case unfolding step upd using e by (auto simp: mark_seen_def)
qed

lemma vd_missing_marks:
  "\<forall>de \<in> set des. name_len de = length (name de) \<and> seen de = 0 \<Longrightarrow>
     vd_missing (map (mark_seen N) des) = filter (\<lambda>n. n \<noteq> [] \<and> n \<notin> N) (map name des)"
  by (induction des) (auto simp: vd_missing_def mark_seen_def)

definition table_ok :: "my_dirent list \<Rightarrow> bool" where
  "table_ok des \<longleftrightarrow> (\<forall>de \<in> set des. entry_ok de) \<and> distinct (map name des)"

lemma table_okD:
  assumes "table_ok des"
  shows "de \<in> set des \<Longrightarrow> name_len de = length (name de)" "de \<in> set des \<Longrightarrow> seen de = 0" "distinct (map name des)"
  using assms by (auto simp: table_ok_def entry_ok_def)

lemma verify_dirents_eq:
  assumes "denv s = []" "ftype_of (dns s) d = Some Directory" "table_ok (dirents s)"
  shows "fst (verify_dirents d s) = (if distinct (map fst (dir_list (dns s) d))
        \<and> (\<forall>(n, t) \<in> set (dir_list (dns s) d). \<exists>de \<in> set (dirents s). name de = n \<and> type de = dt t)
      then 0 else -1)"
    "fst (verify_dirents d s) = 0 \<Longrightarrow> verify_dirents d s =
      (0, filter (\<lambda>n. n \<noteq> [] \<and> n \<notin> fst ` set (dir_list (dns s) d)) (map name (dirents s)), s)"
proof -
  note tb = table_okD [OF assms(3)]
  let ?es = "dir_list (dns s) d"
  have scan: "fst (vd_scan ?es (dirents s)) \<longleftrightarrow> distinct (map fst ?es)
      \<and> (\<forall>(n, t) \<in> set ?es. \<exists>de \<in> set (dirents s). name de = n \<and> type de = dt t)"
    using vd_scan_iff [OF tb(1,3), of ?es] tb(2) by auto
  have res: "fst (verify_dirents d s) = (if fst (vd_scan ?es (dirents s)) then 0 else -1)"
    by (cases "vd_scan ?es (dirents s)"; cases "fst (vd_scan ?es (dirents s))")
       (simp_all add: verify_dirents_def d_opendir_Nil [OF assms(1,2)])
  then show "fst (verify_dirents d s) = (if distinct (map fst ?es)
        \<and> (\<forall>(n, t) \<in> set ?es. \<exists>de \<in> set (dirents s). name de = n \<and> type de = dt t) then 0 else -1)"
    unfolding scan .
  assume "fst (verify_dirents d s) = 0"
  then have ok: "fst (vd_scan ?es (dirents s))" using res by (simp split: if_splits)
  let ?m = "map (mark_seen (fst ` set ?es)) (dirents s)"
  have v: "vd_scan ?es (dirents s) = (True, ?m)"
    using ok vd_scan_marks [OF tb(1,3) ok] by (cases "vd_scan ?es (dirents s)") simp
  have clear: "map (\<lambda>de. de\<lparr>seen := 0\<rparr>) ?m = dirents s"
    using tb(2) by (auto simp: mark_seen_def intro!: map_idI)
  have miss: "vd_missing ?m = filter (\<lambda>n. n \<noteq> [] \<and> n \<notin> fst ` set ?es) (map name (dirents s))"
    using tb(1,2) by (intro vd_missing_marks) simp
  show "verify_dirents d s = (0, filter (\<lambda>n. n \<noteq> [] \<and> n \<notin> fst ` set ?es) (map name (dirents s)), s)"
    by (simp add: verify_dirents_def d_opendir_Nil [OF assms(1,2)] v clear miss del: map_map)
qed

section \<open>Table and directory in step\<close>

text \<open>
  The table lists the two dot entries and then the files of the directory, each once. Every
  operation of the table keeps this.
\<close>

definition files_of :: "dirs \<Rightarrow> my_dirent list" where
  "files_of s = drop 2 (dirents s)"

definition dir_sync :: "path \<Rightarrow> dirs \<Rightarrow> bool" where
  "dir_sync d s \<longleftrightarrow> ns_wf (dns s) \<and> d \<noteq> [] \<and> ftype_of (dns s) d = Some Directory
     \<and> take 2 (dirents s) = [dot_entry ''.'', dot_entry ''..''] \<and> table_ok (dirents s)
     \<and> set (entries (dns s) d) = (\<lambda>de. (name de, Reg)) ` set (files_of s) \<and> (\<forall>de \<in> set (files_of s). type de = dt Reg)"

lemma dir_sync_table: "dir_sync d s \<Longrightarrow> dirents s = dot_entry ''.'' # dot_entry ''..'' # files_of s"
  unfolding dir_sync_def files_of_def using append_take_drop_id [of 2 "dirents s"] by simp

lemma dir_sync_names:
  assumes "dir_sync d s"
  shows "distinct (map name (files_of s))" "''.'' \<notin> name ` set (files_of s)" "''..'' \<notin> name ` set (files_of s)"
    "\<forall>de \<in> set (files_of s). entry_ok de"
  using assms dir_sync_table [OF assms] by (auto simp: dir_sync_def table_ok_def dot_entry_def)

lemma dot_entry_ok [simp]: "entry_ok (dot_entry n)" "name (dot_entry n) = n"
  by (simp_all add: dot_entry_def entry_ok_def)

lemma dir_syncI:
  assumes "ns_wf (dns s)" "d \<noteq> []" "ftype_of (dns s) d = Some Directory"
    "dirents s = dot_entry ''.'' # dot_entry ''..'' # des" "\<forall>de \<in> set des. entry_ok de \<and> type de = dt Reg"
    "distinct (map name des)" "''.'' \<notin> name ` set des" "''..'' \<notin> name ` set des"
    "set (entries (dns s) d) = (\<lambda>de. (name de, Reg)) ` set des"
  shows "dir_sync d s" "files_of s = des"
  using assms by (auto simp: dir_sync_def files_of_def table_ok_def numeral_2_eq_2)

lemma create_and_prep_dir_sync:
  assumes "denv s = []" "ns_wf (dns s)" "ftype_of (dns s) d = None" "ftype_of (dns s) (butlast d) = Some Directory"
  shows "\<exists>s'. create_and_prep_dir d s = D_ret 0 s' \<and> dir_sync d s' \<and> files_of s' = [] \<and> denv s' = []
    \<and> dns s' = ns_add d Directory (dns s)"
proof -
  have d: "d \<noteq> []" using assms(3) by (auto simp: ftype_of_def)
  let ?s = "s\<lparr>dirents := [dot_entry ''.'', dot_entry ''..''], dns := ns_add d Directory (dns s)\<rparr>"
  have ret: "create_and_prep_dir d s = D_ret 0 ?s"
    using assms by (simp add: create_and_prep_dir_def d_sys_Nil ns_mkdir_def)
  have no: "entries (dns s) d = []" using entries_directory [OF assms(2)] assms(3) by simp
  have "entries (ns_add d Directory (dns s)) d = []" using no d by (simp add: entries_def ns_add_def) (metis append_butlast_last_id append_self_conv list.distinct(1))
  then show ?thesis
    using ret d assms dir_syncI [of ?s d "[]"] by (simp add: ns_wf_add ftype_of_add)
qed

lemma create_file_sync:
  assumes "denv s = []" "dir_sync d s" "ftype_of (dns s) (d @ [f]) = None" "f \<noteq> ''.''" "f \<noteq> ''..''"
    "length f < OCFS2_MAX_FILENAME_LEN" "length (dirents s) < MAX_DIRENTS"
  shows "\<exists>s'. create_file f d s = D_ret 0 s' \<and> dir_sync d s' \<and> map name (files_of s') = map name (files_of s) @ [f]
    \<and> denv s' = [] \<and> dns s' = ns_add (d @ [f]) Reg (dns s) \<and> length (dirents s') = length (dirents s) + 1"
proof -
  have wf: "ns_wf (dns s)" "d \<noteq> []" "ftype_of (dns s) d = Some Directory"
    and ent: "set (entries (dns s) d) = (\<lambda>de. (name de, Reg)) ` set (files_of s)" "\<forall>de \<in> set (files_of s). type de = dt Reg"
    using assms(2) by (auto simp: dir_sync_def)
  note tab = dir_sync_table [OF assms(2)] and nm = dir_sync_names [OF assms(2)]
  let ?de = "\<lparr>type = dt Reg, name_len = length f, seen = 0, name = f\<rparr>"
  let ?s = "s\<lparr>dirents := dirents s @ [?de], dns := ns_add (d @ [f]) Reg (dns s)\<rparr>"
  have ret: "create_file f d s = D_ret 0 ?s"
    using assms(1,3,6,7) wf(3) by (simp add: create_file_def d_sys_Nil ns_creat_def)
  have "f \<notin> name ` set (files_of s)"
    using ent(1) posix.listing_lookup [OF wf(1), of f Reg d] assms(3) by auto
  moreover have "set (entries (ns_add (d @ [f]) Reg (dns s)) d) = insert (f, Reg) (set (entries (dns s) d))"
    by (rule posix.listing_add [OF wf(1) assms(3) wf(3)])
  moreover have "ns_wf (ns_add (d @ [f]) Reg (dns s))" using ns_wf_add [OF wf(1), of "d @ [f]"] assms(3) wf(3) by simp
  moreover have "ftype_of (ns_add (d @ [f]) Reg (dns s)) d = Some Directory"
    using ftype_of_add [of "d @ [f]" "dns s" Reg d] assms(3) wf(3) by simp
  moreover have "dirents ?s = dot_entry ''.'' # dot_entry ''..'' # (files_of s @ [?de])" using tab by simp
  moreover have "entry_ok ?de" by (simp add: entry_ok_def)
  ultimately have "dir_sync d ?s" "files_of ?s = files_of s @ [?de]"
    using dir_syncI [of ?s d "files_of s @ [?de]"] wf(2) ent nm assms(4,5) by auto
  then show ?thesis using ret assms(1) by auto
qed

lemma unlink_dirent_sync:
  assumes "denv s = []" "dir_sync d s" "2 \<le> i" "i < length (dirents s)"
  shows "\<exists>s'. unlink_dirent d i s = D_ret 0 s' \<and> dir_sync d s' \<and> denv s' = []
    \<and> set (map name (files_of s')) = set (map name (files_of s)) - {name (dirents s ! i)}
    \<and> files_of s' = butlast ((files_of s)[i - 2 := last (files_of s)])
    \<and> dns s' = ns_remove (d @ [name (dirents s ! i)]) (dns s)"
proof -
  have wf: "ns_wf (dns s)" "d \<noteq> []" "ftype_of (dns s) d = Some Directory"
    and ent: "set (entries (dns s) d) = (\<lambda>de. (name de, Reg)) ` set (files_of s)" "\<forall>de \<in> set (files_of s). type de = dt Reg"
    using assms(2) by (auto simp: dir_sync_def)
  note tab = dir_sync_table [OF assms(2)] and nm = dir_sync_names [OF assms(2)]
  obtain j where j: "i = Suc (Suc j)" using assms(3) that [of "i - 2"] by simp
  then have jl: "j < length (files_of s)" using assms(4) tab by simp
  let ?n = "name (files_of s ! j)" let ?des = "butlast ((files_of s)[j := last (files_of s)])"
  have ni: "dirents s ! i = files_of s ! j" using tab j by simp
  have mem: "(?n, Reg) \<in> set (entries (dns s) d)" using ent(1) jl by auto
  then have ft: "ftype_of (dns s) (d @ [?n]) = Some Reg" using posix.listing_lookup [OF wf(1)] by simp
  have leaf: "entries (dns s) (d @ [?n]) = []" using entries_directory [OF wf(1)] ft by simp
  have ne: "files_of s \<noteq> []" using jl by auto
  let ?s = "s\<lparr>dirents := dot_entry ''.'' # dot_entry ''..'' # ?des, dns := ns_remove (d @ [?n]) (dns s)\<rparr>"
  have "butlast ((dirents s)[i := last (dirents s)]) = dot_entry ''.'' # dot_entry ''..'' # ?des"
    using tab j ne by simp
  then have ret: "unlink_dirent d i s = D_ret 0 ?s"
    using assms(1,4) ft ni tab by (simp add: unlink_dirent_def d_sys_Nil ns_unlink_def Let_def)
  note sw = swap_out [OF nm(1) jl]
  have "set (entries (ns_remove (d @ [?n]) (dns s)) d) = {e \<in> set (entries (dns s) d). fst e \<noteq> ?n}"
    by (rule posix.listing_remove [OF wf(1) leaf])
  also have "\<dots> = (\<lambda>de. (name de, Reg)) ` {de \<in> set (files_of s). name de \<noteq> ?n}" unfolding ent(1) by force
  finally have es: "set (entries (ns_remove (d @ [?n]) (dns s)) d) = (\<lambda>de. (name de, Reg)) ` set ?des"
    unfolding sw(1) .
  have wf': "ns_wf (ns_remove (d @ [?n]) (dns s))" using ns_wf_remove [OF wf(1) _ leaf] by simp
  have fd: "ftype_of (ns_remove (d @ [?n]) (dns s)) d = Some Directory" using wf(3) by (simp add: ftype_of_remove)
  have des: "\<forall>de \<in> set ?des. entry_ok de \<and> type de = dt Reg" "''.'' \<notin> name ` set ?des" "''..'' \<notin> name ` set ?des"
    using nm(2-4) ent(2) unfolding sw(1) by auto
  have "dir_sync d ?s" "files_of ?s = ?des"
    by (rule dir_syncI [of ?s d ?des]; simp add: wf' fd wf(2) es sw(2) des)+
  moreover have "set (map name ?des) = set (map name (files_of s)) - {?n}" unfolding set_map sw(1) by auto
  moreover have "i - 2 = j" "name (dirents s ! i) = ?n" using j ni by simp_all
  ultimately show ?thesis using ret assms(1) by (intro exI [of _ ?s]) simp
qed

lemma not_dot:
  assumes "entry_ok de" "name de \<noteq> ''.''" "name de \<noteq> ''..''"
  shows "\<not> is_dot_entry de"
proof -
  have "name de = [name de ! 0]" if "length (name de) = 1" using that by (cases "name de") auto
  moreover have "name de = [name de ! 0, name de ! 1]" if "length (name de) = 2"
    using that by (cases "name de"; cases "tl (name de)") auto
  ultimately show ?thesis using assms by (auto simp: is_dot_entry_def entry_ok_def)
qed

lemma is_dot_dot [simp]: "is_dot_entry (dot_entry ''.'')" "is_dot_entry (dot_entry ''..'')"
  by (simp_all add: is_dot_entry_def dot_entry_def)

lemma unlink_dirent_nam_sync:
  assumes "denv s = []" "dir_sync d s" "n \<in> name ` set (files_of s)"
  shows "\<exists>s'. unlink_dirent_nam d n s = D_ret 0 s' \<and> dir_sync d s' \<and> denv s' = []
    \<and> set (map name (files_of s')) = set (map name (files_of s)) - {n} \<and> dns s' = ns_remove (d @ [n]) (dns s)"
proof -
  note tab = dir_sync_table [OF assms(2)] and nm = dir_sync_names [OF assms(2)]
  have ok: "table_ok (dirents s)" using assms(2) by (simp add: dir_sync_def)
  obtain j where j: "j < length (files_of s)" "name (files_of s ! j) = n" using assms(3) by (auto simp: in_set_conv_nth)
  let ?i = "Suc (Suc j)"
  have i: "?i < length (dirents s)" "name (dirents s ! ?i) = n" using j tab by simp_all
  then have "find_my_dirent (dirents s) n = Some ?i" using find_my_dirent_iff(1) [OF table_okD(1,3) [OF ok]] by simp
  then have "unlink_dirent_nam d n s = unlink_dirent d ?i s" by (simp add: unlink_dirent_nam_def)
  then show ?thesis using unlink_dirent_sync [OF assms(1,2) _ i(1)] i(2) by auto
qed

lemma destroy_loop_sync:
  assumes "denv s = []" "dir_sync d s" "length (files_of s) = n"
  shows "\<exists>s'. destroy_loop d (Suc (Suc n)) s = D_ret 0 s' \<and> dir_sync d s' \<and> files_of s' = [] \<and> denv s' = []
    \<and> dns s' = filter (\<lambda>e. fst e \<notin> (\<lambda>de. d @ [name de]) ` set (files_of s)) (dns s)"
  using assms
proof (induction n arbitrary: s)
  case 0
  then show ?case using dir_sync_table [OF 0(2)] by simp
next
  case (Suc n)
  note tab = dir_sync_table [OF Suc.prems(2)] and nm = dir_sync_names [OF Suc.prems(2)]
  obtain fs f where fs: "files_of s = fs @ [f]" using Suc.prems(3) by (cases "files_of s" rule: rev_cases) auto
  have lf: "length fs = n" using Suc.prems(3) fs by simp
  let ?k = "Suc (Suc n)"
  have k: "?k < length (dirents s)" "dirents s ! ?k = f" using tab fs lf by (simp_all add: nth_append)
  have "\<not> is_dot_entry (dirents s ! ?k)" unfolding k(2) by (rule not_dot) (use nm fs in auto)
  moreover obtain s1 where s1: "unlink_dirent d ?k s = D_ret 0 s1" "dir_sync d s1" "denv s1 = []"
      "files_of s1 = butlast ((files_of s)[?k - 2 := last (files_of s)])" "dns s1 = ns_remove (d @ [name (dirents s ! ?k)]) (dns s)"
    using unlink_dirent_sync [OF Suc.prems(1,2) _ k(1)] by auto
  ultimately have step: "destroy_loop d (Suc ?k) s = destroy_loop d ?k s1" using k(1) by simp
  have f1: "files_of s1 = fs" using s1(4) fs lf by (simp add: list_update_append)
  obtain s' where "destroy_loop d ?k s1 = D_ret 0 s'" "dir_sync d s'" "files_of s' = []" "denv s' = []"
      "dns s' = filter (\<lambda>e. fst e \<notin> (\<lambda>de. d @ [name de]) ` set fs) (dns s1)"
    using Suc.IH [OF s1(3,2)] f1 lf by auto
  then show ?case unfolding step using s1(5) k(2) fs
    by (intro exI [of _ s']) (auto simp: ns_remove_def intro!: filter_cong)
qed

lemma destroy_dir_sync:
  assumes "denv s = []" "dir_sync d s"
  shows "\<exists>s'. destroy_dir d s = D_ret 0 s' \<and> dirents s' = [] \<and> denv s' = [] \<and> dns s' = filter (\<lambda>e. \<not> prefix d (fst e)) (dns s)"
proof -
  have wf: "ns_wf (dns s)" "d \<noteq> []" "ftype_of (dns s) d = Some Directory"
    and ent: "set (entries (dns s) d) = (\<lambda>de. (name de, Reg)) ` set (files_of s)"
    using assms(2) by (auto simp: dir_sync_def)
  obtain s1 where s1: "destroy_loop d (length (dirents s)) s = D_ret 0 s1" "dir_sync d s1" "files_of s1 = []" "denv s1 = []"
      "dns s1 = filter (\<lambda>e. fst e \<notin> (\<lambda>de. d @ [name de]) ` set (files_of s)) (dns s)"
    using destroy_loop_sync [OF assms refl] dir_sync_table [OF assms(2)] by auto
  have none: "entries (dns s1) d = []" "ftype_of (dns s1) d = Some Directory" using s1(2,3) by (auto simp: dir_sync_def)
  have "destroy_dir d s = D_ret 0 (s1\<lparr>dns := ns_remove d (dns s1), dirents := []\<rparr>)"
    using s1(1,4) none by (simp add: destroy_dir_def d_sys_Nil ns_rmdir_def)
  moreover have "ns_remove d (dns s1) = filter (\<lambda>e. \<not> prefix d (fst e)) (dns s)"
  proof -
    have "fst e \<in> insert d ((\<lambda>de. d @ [name de]) ` set (files_of s)) \<longleftrightarrow> prefix d (fst e)" if e: "e \<in> set (dns s)" for e
    proof
      assume "prefix d (fst e)"
      then consider "fst e = d" | "strict_prefix d (fst e)" by (auto simp: strict_prefix_def)
      then show "fst e \<in> insert d ((\<lambda>de. d @ [name de]) ` set (files_of s))"
      proof cases
        case 2
        then obtain n u where c: "(n, u) \<in> set (entries (dns s) d)" "fst e = d @ [n] \<or> u = Directory"
          using ns_child [OF wf(1), of "fst e" "snd e" d] e by (metis prod.collapse)
        then have "u = Reg" "n \<in> name ` set (files_of s)" using ent by auto
        with c(2) show ?thesis by auto
      qed simp
    qed auto
    then show ?thesis unfolding s1(5) ns_remove_def filter_filter by (intro filter_cong) auto
  qed
  ultimately show ?thesis using s1(4) by auto
qed

end
