(* ===== verification/Dir_Trees.thy ===== *)
theory Dir_Trees
  imports Dir_Ops
begin

text \<open>
  The recursive part of \<open>programs/libocfs2test/dir_ops.c\<close>: \<open>traverse_and_destroy\<close> removes a
  directory with everything below it and nothing else, \<open>build_dir_tree\<close> builds a tree of the
  size its parameters give, and the two undo each other. The properties of the table of entries
  are stated here too.
\<close>

section \<open>Pruning a name space\<close>

definition prune :: "path \<Rightarrow> namespace \<Rightarrow> namespace" where
  "prune p ns = filter (\<lambda>e. \<not> prefix p (fst e)) ns"

lemma no_pairs: "(\<And>a b. (a, b) \<notin> set xs) \<Longrightarrow> xs = []"
  by (cases xs) auto

lemma set_prune: "set (prune p ns) = {e \<in> set ns. \<not> prefix p (fst e)}"
  by (auto simp: prune_def)

lemma map_of_prune: "map_of (prune p ns) q = (if prefix p q then None else map_of ns q)"
  unfolding prune_def by (induction ns) auto

lemma ftype_of_prune: "p \<noteq> [] \<Longrightarrow> ftype_of (prune p ns) q = (if prefix p q then None else ftype_of ns q)"
  by (auto simp: ftype_of_def map_of_prune)

lemma ns_wf_prune:
  assumes "ns_wf ns" "p \<noteq> []"
  shows "ns_wf (prune p ns)"
proof -
  have "\<not> prefix p (butlast q)" if "\<not> prefix p q" for q
    using that prefix_order.trans [OF _ prefixeq_butlast] by blast
  then show ?thesis
    using assms by (auto simp: ns_wf_def set_prune ftype_of_prune) (simp add: prune_def distinct_map_filter)
qed

lemma prune_leaf:
  assumes "ns_wf ns" "entries ns p = []"
  shows "ns_remove p ns = prune p ns"
proof -
  have "fst e = p" if "e \<in> set ns" "prefix p (fst e)" for e
  proof (rule ccontr)
    assume "fst e \<noteq> p"
    with that(2) have "strict_prefix p (fst e)" by (auto simp: strict_prefix_def)
    with that(1) show False using ns_child [OF assms(1), of "fst e" "snd e" p] assms(2) by auto
  qed
  then show ?thesis unfolding ns_remove_def prune_def by (intro filter_cong) auto
qed

lemma prune_fresh: "ns_wf ns \<Longrightarrow> ftype_of ns p = None \<Longrightarrow> prune p ns = ns"
proof -
  assume wf: "ns_wf ns" and new: "ftype_of ns p = None"
  have "\<not> prefix p (fst e)" if e: "e \<in> set ns" for e
  proof
    assume "prefix p (fst e)"
    then consider "fst e = p" | "strict_prefix p (fst e)" by (auto simp: strict_prefix_def)
    then show False
    proof cases
      case 1
      then have "p \<noteq> []" using wf e by (auto simp: ns_wf_def)
      then show ?thesis using ftype_of_iff [OF wf, of p "snd e"] e 1 new by auto
    next
      case 2
      then show ?thesis using ns_ancestor [OF wf, of "fst e" "snd e" p] e new by simp
    qed
  qed
  then show "prune p ns = ns" by (simp add: prune_def)
qed

section \<open>Destroying a tree\<close>

lemma count_dir_list: "count_entries 0 (dir_list ns d) = 2 \<longleftrightarrow> entries ns d = []"
  by (cases "entries ns d") (simp_all add: dir_list_def)

lemma is_dir_empty_ideal:
  "denv s = [] \<Longrightarrow> ftype_of (dns s) d = Some Directory \<Longrightarrow>
     is_dir_empty d s = D_ret (if entries (dns s) d = [] then 1 else 0) s"
  using count_dir_list [of "dns s" d] by (simp add: is_dir_empty_def d_opendir_Nil)

text \<open>A name space without entries called dot or dot dot.\<close>

definition ns_plain :: "namespace \<Rightarrow> bool" where
  "ns_plain ns \<longleftrightarrow> (\<forall>e \<in> set ns. last (fst e) \<noteq> ''.'' \<and> last (fst e) \<noteq> ''..'')"

lemma td_loop_step:
  assumes "denv s = []" "ns_wf (dns s)" "ns_plain (dns s)" "(d @ [n], t) \<in> set (dns s)"
    "t = Directory \<Longrightarrow> rec (d @ [n]) s = D_ret 0 (s\<lparr>dns := prune (d @ [n]) (dns s)\<rparr>)"
  shows "td_loop rec d ((n, t) # es) s = td_loop rec d es (s\<lparr>dns := prune (d @ [n]) (dns s)\<rparr>)"
proof -
  have ft: "ftype_of (dns s) (d @ [n]) = Some t" using ftype_of_iff [OF assms(2), of "d @ [n]" t] assms(4) by simp
  have dots: "n \<noteq> ''.''" "n \<noteq> ''..''" using assms(3,4) by (force simp: ns_plain_def)+
  have st: "d_sys (ns_stat (d @ [n])) s = (0, s)" using assms(1) ft by (cases s) (simp add: d_sys_Nil ns_stat_def)
  show ?thesis
  proof (cases t)
    case Reg
    then have "entries (dns s) (d @ [n]) = []" using entries_directory [OF assms(2)] ft by simp
    then show ?thesis using Reg st dots ft assms(1) prune_leaf [OF assms(2)] by (simp add: d_sys_Nil ns_unlink_def)
  next
    case Directory
    then show ?thesis
      using st dots ft assms(1,5) prune_leaf [OF assms(2), of "d @ [n]"]
      by (simp add: is_dir_empty_ideal d_sys_Nil ns_rmdir_def)
  qed
qed

lemma td_loop_ok:
  assumes "denv s = []" "ns_wf (dns s)" "ns_plain (dns s)" "distinct (map fst es)" "\<forall>(n, t) \<in> set es. (d @ [n], t) \<in> set (dns s)"
    "\<And>n s'. denv s' = [] \<Longrightarrow> ns_wf (dns s') \<Longrightarrow> ns_plain (dns s') \<Longrightarrow> (d @ [n], Directory) \<in> set (dns s') \<Longrightarrow> set (dns s') \<subseteq> N \<Longrightarrow>
       rec (d @ [n]) s' = D_ret 0 (s'\<lparr>dns := prune (d @ [n]) (dns s')\<rparr>)"
    "set (dns s) \<subseteq> N"
  shows "td_loop rec d es s = D_ret 0 (s\<lparr>dns := filter (\<lambda>e. \<forall>n \<in> fst ` set es. \<not> prefix (d @ [n]) (fst e)) (dns s)\<rparr>)"
  using assms(1-5,7)
proof (induction es arbitrary: s)
  case Nil
  then show ?case by (cases s) simp
next
  case (Cons e es)
  obtain n t where e: "e = (n, t)" by fastforce
  let ?s = "s\<lparr>dns := prune (d @ [n]) (dns s)\<rparr>"
  have "td_loop rec d (e # es) s = td_loop rec d es ?s" unfolding e
    by (rule td_loop_step) (use Cons.prems e assms(6) [of s n] in auto)
  moreover have "td_loop rec d es ?s
      = D_ret 0 (?s\<lparr>dns := filter (\<lambda>e. \<forall>n \<in> fst ` set es. \<not> prefix (d @ [n]) (fst e)) (dns ?s)\<rparr>)"
  proof (rule Cons.IH)
    show "ns_wf (dns ?s)" using Cons.prems(2) by (simp add: ns_wf_prune)
    show "ns_plain (dns ?s)" using Cons.prems(3) by (auto simp: ns_plain_def set_prune)
    have "m \<noteq> n" if "(m, u) \<in> set es" for m u using Cons.prems(4) that e by (auto simp: image_iff)
    then show "\<forall>(m, u) \<in> set es. (d @ [m], u) \<in> set (dns ?s)" using Cons.prems(5) e by (auto simp: set_prune)
  qed (use Cons.prems in \<open>auto simp: set_prune\<close>)
  ultimately show ?case using e by (simp add: prune_def conj_commute)
qed

lemma traverse_ok:
  assumes "denv s = []" "ns_wf (dns s)" "ns_plain (dns s)" "(d, Directory) \<in> set (dns s)"
    "\<forall>e \<in> set (dns s). prefix d (fst e) \<longrightarrow> length (fst e) < length d + fuel"
  shows "traverse_and_destroy fuel d s = D_ret 0 (s\<lparr>dns := prune d (dns s)\<rparr>)"
  using assms
proof (induction fuel arbitrary: d s)
  case 0
  then show ?case by force
next
  case (Suc fuel)
  have d: "d \<noteq> []" using Suc.prems(2,4) by (force simp: ns_wf_def)
  have fd: "ftype_of (dns s) d = Some Directory" using ftype_of_iff [OF Suc.prems(2) d] Suc.prems(4) by simp
  let ?es = "entries (dns s) d" let ?N = "fst ` set ?es"
  let ?s = "s\<lparr>dns := filter (\<lambda>e. \<forall>n \<in> ?N. \<not> prefix (d @ [n]) (fst e)) (dns s)\<rparr>"
  have loop: "td_loop (traverse_and_destroy fuel) d ?es s = D_ret 0 ?s"
  proof (rule td_loop_ok [where N = "set (dns s)"])
    fix n and s' :: dirs
    assume s': "denv s' = []" "ns_wf (dns s')" "ns_plain (dns s')" "(d @ [n], Directory) \<in> set (dns s')" "set (dns s') \<subseteq> set (dns s)"
    show "traverse_and_destroy fuel (d @ [n]) s' = D_ret 0 (s'\<lparr>dns := prune (d @ [n]) (dns s')\<rparr>)"
    proof (rule Suc.IH [OF s'(1-4)], rule ballI, rule impI)
      fix e assume "e \<in> set (dns s')" "prefix (d @ [n]) (fst e)"
      then have "e \<in> set (dns s)" "prefix d (fst e)" using s'(5) by (auto dest: append_prefixD)
      then show "length (fst e) < length (d @ [n]) + fuel" using Suc.prems(5) by auto
    qed
  qed (use Suc.prems posix.listing_distinct [OF Suc.prems(2)] in \<open>auto simp: entries_iff\<close>)
  have rest: "e \<in> set (dns s) \<Longrightarrow> prefix d (fst e) \<Longrightarrow> (\<forall>n \<in> ?N. \<not> prefix (d @ [n]) (fst e)) \<Longrightarrow> fst e = d" for e
    using ns_child [OF Suc.prems(2), of "fst e" "snd e" d] by (metis fst_conv image_eqI prod.collapse strict_prefix_def)
  have "(n, t) \<notin> set (entries (dns ?s) d)" for n t
  proof
    assume "(n, t) \<in> set (entries (dns ?s) d)"
    then have "(d @ [n], t) \<in> set (dns s)" "\<forall>m \<in> ?N. \<not> prefix (d @ [m]) (d @ [n])" by (simp_all add: entries_iff)
    moreover from this(1) have "n \<in> ?N" using entries_iff [of n t "dns s" d] image_eqI [of n fst "(n, t)"] by simp
    ultimately show False by blast
  qed
  then have none: "entries (dns ?s) d = []" by (rule no_pairs)
  have "(d, Directory) \<in> set (dns ?s)" using Suc.prems(4) by auto
  moreover have "distinct (map fst (dns ?s))" using Suc.prems(2) by (simp add: ns_wf_def distinct_map_filter)
  ultimately have "ftype_of (dns ?s) d = Some Directory" using d by (simp add: ftype_of_def map_of_is_SomeI)
  moreover have "ns_remove d (dns ?s) = prune d (dns s)"
  proof -
    have "(\<forall>n \<in> ?N. \<not> prefix (d @ [n]) (fst e)) \<and> fst e \<noteq> d \<longleftrightarrow> \<not> prefix d (fst e)" if "e \<in> set (dns s)" for e
      using rest [OF that] append_prefixD [of d _ "fst e"] by blast
    then show ?thesis unfolding ns_remove_def prune_def by (simp add: conj_commute cong: filter_cong)
  qed
  ultimately show ?case
    using loop none d_opendir_Nil [OF Suc.prems(1) fd] Suc.prems(1)
    by (simp add: dir_list_def d_sys_Nil ns_rmdir_def)
qed

section \<open>Building a tree\<close>

text \<open>The number of names a tree has.\<close>

fun tree_size :: "nat \<Rightarrow> nat \<Rightarrow> nat" where
  "tree_size n 0 = 1"
| "tree_size n (Suc depth) = 1 + (n - n div 2) + n div 2 * tree_size n depth"

lemma d_for_inv:
  assumes "\<And>i s. I i s \<Longrightarrow> i < i0 + n \<Longrightarrow> \<exists>s'. f i s = D_ret 0 s' \<and> I (i + 1) s'" "I i0 s"
  shows "\<exists>s'. d_for i0 n f s = D_ret 0 s' \<and> I (i0 + n) s'"
  using assms
proof (induction n arbitrary: i0 s)
  case (Suc n)
  obtain s1 where s1: "f i0 s = D_ret 0 s1" "I (i0 + 1) s1" using Suc.prems(1) [OF Suc.prems(2)] by auto
  have "\<exists>s'. d_for (i0 + 1) n f s1 = D_ret 0 s' \<and> I (i0 + 1 + n) s'"
    by (rule Suc.IH [OF _ s1(2)]) (use Suc.prems(1) in auto)
  then show ?case using s1(1) by simp
qed simp

text \<open>
  The state of a tree under construction: \<open>k\<close> names below \<open>d\<close>, no deeper than \<open>depth\<close>, were added
  to \<open>ns\<close>, and the entries of \<open>d\<close> are among \<open>N\<close>.
\<close>

definition added_ok :: "path \<Rightarrow> nat \<Rightarrow> path \<times> ftype \<Rightarrow> bool" where
  "added_ok d depth e \<longleftrightarrow> prefix d (fst e) \<and> length (fst e) \<le> length d + depth
     \<and> (fst e = d \<or> last (fst e) \<noteq> ''.'' \<and> last (fst e) \<noteq> ''..'')"

definition growing :: "path \<Rightarrow> nat \<Rightarrow> namespace \<Rightarrow> nat \<Rightarrow> string set \<Rightarrow> dirs \<Rightarrow> bool" where
  "growing d depth ns k N s \<longleftrightarrow> denv s = [] \<and> ns_wf (dns s) \<and> ftype_of (dns s) d = Some Directory
     \<and> fst ` set (entries (dns s) d) \<subseteq> N
     \<and> (\<exists>new. dns s = ns @ new \<and> length new = k \<and> (\<forall>e \<in> set new. added_ok d depth e))"

lemma growing_fresh:
  assumes "growing d depth ns k N s" "n \<notin> N"
  shows "ftype_of (dns s) (d @ [n]) = None"
proof (cases "ftype_of (dns s) (d @ [n])")
  case (Some t)
  then have "(n, t) \<in> set (entries (dns s) d)" using assms(1) posix.listing_lookup [of "dns s" n t d] by (simp add: growing_def)
  then have "n \<in> N" using assms(1) by (force simp: growing_def)
  with assms(2) show ?thesis by simp
qed

lemma growing_extend:
  assumes "growing d depth ns k N s" "denv s' = []" "ns_wf (dns s')" "dns s' = dns s @ new" "n \<noteq> ''.''" "n \<noteq> ''..''" "0 < depth"
    "\<forall>e \<in> set new. added_ok (d @ [n]) (depth - 1) e" "k' = k + length new" "insert n N \<subseteq> N'"
  shows "growing d depth ns k' N' s'"
proof -
  obtain old where old: "dns s = ns @ old" "length old = k" "\<forall>e \<in> set old. added_ok d depth e"
    using assms(1) by (auto simp: growing_def)
  have nw: "added_ok d depth e" if "e \<in> set new" for e
  proof -
    have a: "prefix (d @ [n]) (fst e)" "length (fst e) \<le> length d + 1 + (depth - 1)"
      "fst e = d @ [n] \<or> last (fst e) \<noteq> ''.'' \<and> last (fst e) \<noteq> ''..''"
      using assms(8) that by (auto simp: added_ok_def)
    have "prefix d (fst e)" using a(1) by (rule append_prefixD)
    then show ?thesis using a assms(5-7) by (auto simp: added_ok_def)
  qed
  have "m = n" if "(m, t) \<in> set (entries new d)" for m t
    using assms(8) that by (auto simp: entries_iff added_ok_def)
  then have "fst ` set (entries new d) \<subseteq> {n}" by auto
  moreover have "entries (dns s') d = entries (dns s) d @ entries new d" using assms(4) by (simp add: entries_def)
  moreover have "ftype_of (dns s') d = Some Directory"
    using assms(1,4) by (auto simp: growing_def ftype_of_def map_add_def split: option.splits)
  ultimately show ?thesis
    using assms(1,2,3,4,9,10) old nw by (auto simp: growing_def intro!: exI [of _ "old @ new"])
qed

lemma show_dec_inject: "show_dec i = show_dec j \<longleftrightarrow> i = j"
  by (metis dec_val_show_dec)

definition tree_nam :: "string \<Rightarrow> nat \<Rightarrow> nat \<Rightarrow> string" where
  "tree_nam letter layer i = letter @ show_dec layer @ show_dec i"

lemma tree_name_fixed: "tree_name False letter layer i s = Inr (tree_nam letter layer i, s)"
  by (simp add: tree_name_def tree_nam_def)

lemma tree_nam_facts:
  "tree_nam ''F'' l i = tree_nam ''F'' l j \<longleftrightarrow> i = j" "tree_nam ''D'' l i = tree_nam ''D'' l j \<longleftrightarrow> i = j"
  "tree_nam ''D'' l i \<noteq> tree_nam ''F'' l j"
  "tree_nam ''F'' l i \<noteq> ''.''" "tree_nam ''F'' l i \<noteq> ''..''" "tree_nam ''D'' l i \<noteq> ''.''" "tree_nam ''D'' l i \<noteq> ''..''"
  by (simp_all add: tree_nam_def show_dec_inject)

lemma tree_file_grows:
  assumes "growing d (Suc depth) ns (1 + i) (tree_nam ''F'' l ` {..< i}) s"
  shows "\<exists>s'. tree_file d False l i s = D_ret 0 s' \<and> growing d (Suc depth) ns (1 + (i + 1)) (tree_nam ''F'' l ` {..< i + 1}) s'"
proof -
  let ?n = "tree_nam ''F'' l i"
  have st: "denv s = []" "ns_wf (dns s)" "ftype_of (dns s) d = Some Directory" using assms by (auto simp: growing_def)
  have "?n \<notin> tree_nam ''F'' l ` {..< i}" by (auto simp: tree_nam_facts)
  then have new: "ftype_of (dns s) (d @ [?n]) = None" by (rule growing_fresh [OF assms])
  let ?s = "s\<lparr>dns := ns_add (d @ [?n]) Reg (dns s)\<rparr>"
  have "tree_file d False l i s = D_ret 0 ?s"
    using st new by (simp add: tree_file_def tree_name_fixed d_sys_Nil ns_creat_def)
  moreover have "growing d (Suc depth) ns (1 + (i + 1)) (tree_nam ''F'' l ` {..< i + 1}) ?s"
    by (rule growing_extend [OF assms, of _ "[(d @ [?n], Reg)]" ?n])
       (use st ns_wf_add [OF st(2) _ new] in \<open>auto simp: ns_add_def added_ok_def tree_nam_facts\<close>)
  ultimately show ?thesis by blast
qed

lemma tree_dir_grows:
  assumes "growing d (Suc depth) ns (c + i * T) (tree_nam ''F'' l ` A \<union> tree_nam ''D'' l ` {..< i}) s"
    "\<And>d s. denv s = [] \<Longrightarrow> ns_wf (dns s) \<Longrightarrow> ftype_of (dns s) d = None \<Longrightarrow> ftype_of (dns s) (butlast d) = Some Directory \<Longrightarrow>
      \<exists>s' new. build_dir_tree depth d n False s = D_ret 0 s' \<and> denv s' = [] \<and> ns_wf (dns s') \<and> dns s' = dns s @ new
        \<and> length new = T \<and> (d, Directory) \<in> set new \<and> (\<forall>e \<in> set new. added_ok d depth e)"
  shows "\<exists>s'. (case tree_name False ''D'' l i s of Inl e \<Rightarrow> D_fault e
      | Inr (nam, s5) \<Rightarrow> d_bind (build_dir_tree depth (d @ [nam]) n False s5) (\<lambda>r s6. D_ret 0 s6)) = D_ret 0 s'
    \<and> growing d (Suc depth) ns (c + (i + 1) * T) (tree_nam ''F'' l ` A \<union> tree_nam ''D'' l ` {..< i + 1}) s'"
proof -
  let ?n = "tree_nam ''D'' l i"
  have st: "denv s = []" "ns_wf (dns s)" "ftype_of (dns s) d = Some Directory" using assms(1) by (auto simp: growing_def)
  have "?n \<notin> tree_nam ''F'' l ` A \<union> tree_nam ''D'' l ` {..< i}" by (auto simp: tree_nam_facts)
  then have new: "ftype_of (dns s) (d @ [?n]) = None" by (rule growing_fresh [OF assms(1)])
  obtain s6 nw where b: "build_dir_tree depth (d @ [?n]) n False s = D_ret 0 s6" "denv s6 = []" "ns_wf (dns s6)"
      "dns s6 = dns s @ nw" "length nw = T" "\<forall>e \<in> set nw. added_ok (d @ [?n]) depth e"
    using assms(2) [OF st(1,2) new] st(3) by auto
  have "growing d (Suc depth) ns (c + (i + 1) * T) (tree_nam ''F'' l ` A \<union> tree_nam ''D'' l ` {..< i + 1}) s6"
    by (rule growing_extend [OF assms(1) b(2,3,4), of ?n]) (use b(5,6) in \<open>auto simp: tree_nam_facts\<close>)
  then show ?thesis using b(1) by (simp add: tree_name_fixed)
qed

lemma build_ok:
  assumes "denv s = []" "ns_wf (dns s)" "ftype_of (dns s) d = None" "ftype_of (dns s) (butlast d) = Some Directory" "n < 2 ^ 64"
  shows "\<exists>s' new. build_dir_tree depth d n False s = D_ret 0 s' \<and> denv s' = [] \<and> ns_wf (dns s') \<and> dns s' = dns s @ new
    \<and> length new = tree_size n depth \<and> (d, Directory) \<in> set new \<and> (\<forall>e \<in> set new. added_ok d depth e)"
  using assms(1-4)
proof (induction depth arbitrary: d s)
  case 0
  then have "d \<noteq> []" by (auto simp: ftype_of_def)
  then show ?case using 0 ns_wf_add [of "dns s" d] by (auto simp: d_sys_Nil ns_mkdir_def ns_add_def added_ok_def)
next
  case (Suc depth)
  have d: "d \<noteq> []" using Suc.prems(3) by (auto simp: ftype_of_def)
  let ?s1 = "s\<lparr>dns := ns_add d Directory (dns s)\<rparr>" let ?l = "Suc depth" let ?T = "tree_size n depth"
  let ?F = "tree_nam ''F'' ?l" let ?D = "tree_nam ''D'' ?l" let ?nf = "n - n div 2"
  have mk: "d_sys (ns_mkdir d) s = (0, ?s1)" using Suc.prems by (simp add: d_sys_Nil ns_mkdir_def)
  have "entries (dns ?s1) d = entries (dns s) d @ entries [(d, Directory)] d" by (simp add: ns_add_def entries_def)
  moreover have "entries [(d, Directory)] d = []" by (rule no_pairs) (simp add: entries_iff)
  ultimately have "entries (dns ?s1) d = []" using entries_directory [OF Suc.prems(2), of d] Suc.prems(3) by simp
  then have g0: "growing d ?l (dns s) (1 + 0) (?F ` {..< 0}) ?s1"
    using Suc.prems ns_wf_add [OF Suc.prems(2) d] ftype_of_add [OF d] d
    by (auto simp: growing_def ns_add_def added_ok_def)
  obtain s3 where s3: "d_for 0 ?nf (tree_file d False ?l) ?s1 = D_ret 0 s3" "growing d ?l (dns s) (1 + ?nf) (?F ` {..< ?nf}) s3"
    using d_for_inv [of "\<lambda>i. growing d ?l (dns s) (1 + i) (?F ` {..< i})" 0 ?nf "tree_file d False ?l", OF _ g0] tree_file_grows
    by auto
  let ?f = "\<lambda>i s4. case tree_name False ''D'' ?l i s4 of Inl e \<Rightarrow> D_fault e
    | Inr (nam, s5) \<Rightarrow> d_bind (build_dir_tree depth (d @ [nam]) n False s5) (\<lambda>r s6. D_ret 0 s6)"
  let ?I = "\<lambda>i. growing d ?l (dns s) (1 + ?nf + i * ?T) (?F ` {..< ?nf} \<union> ?D ` {..< i})"
  have step: "\<exists>s'. ?f i s4 = D_ret 0 s' \<and> ?I (i + 1) s'" if "?I i s4" for i s4
    by (rule tree_dir_grows [OF that Suc.IH])
  have "?I 0 s3" using s3(2) by simp
  then obtain s' where s': "d_for 0 (n div 2) ?f s3 = D_ret 0 s'" "?I (n div 2) s'"
    using d_for_inv [of ?I 0 "n div 2" ?f, OF step] by auto
  have "sub64 n (n div 2) = ?nf" using assms(5) by (simp add: width)
  then have "build_dir_tree ?l d n False s = D_ret 0 s'"
    using mk s3(1) s'(1) by (simp add: tree_split_def del: d_for.simps)
  moreover obtain new where "dns s' = dns s @ new" "length new = 1 + ?nf + n div 2 * ?T" "\<forall>e \<in> set new. added_ok d ?l e"
    using s'(2) by (auto simp: growing_def)
  moreover have "denv s' = []" "ns_wf (dns s')" "ftype_of (dns s') d = Some Directory" using s'(2) by (auto simp: growing_def)
  moreover have "(d, Directory) \<in> set new"
  proof -
    have "(d, Directory) \<in> set (dns s')" using ftype_of_iff [OF calculation(6) d, of Directory] calculation(7) by simp
    moreover have "(d, Directory) \<notin> set (dns s)" using ftype_of_iff [OF Suc.prems(2) d] Suc.prems(3) by auto
    ultimately show ?thesis using \<open>dns s' = dns s @ new\<close> by simp
  qed
  ultimately show ?case by auto
qed

section \<open>Sequences of operations on the table\<close>

datatype dop = Mk string | Rm string

fun run_ops :: "path \<Rightarrow> dop list \<Rightarrow> dirs \<Rightarrow> dres" where
  "run_ops d [] s = D_ret 0 s"
| "run_ops d (Mk f # ops) s = d_bind (create_file f d s) (\<lambda>r s1. if r \<noteq> 0 then D_ret r s1 else run_ops d ops s1)"
| "run_ops d (Rm f # ops) s = d_bind (unlink_dirent_nam d f s) (\<lambda>r s1. if r \<noteq> 0 then D_ret r s1 else run_ops d ops s1)"

text \<open>Sequences that create names that are free and remove names that are there.\<close>

fun ops_ok :: "string set \<Rightarrow> dop list \<Rightarrow> bool" where
  "ops_ok N [] = True"
| "ops_ok N (Mk f # ops) \<longleftrightarrow> f \<notin> N \<and> f \<noteq> ''.'' \<and> f \<noteq> ''..'' \<and> length f < OCFS2_MAX_FILENAME_LEN \<and> ops_ok (insert f N) ops"
| "ops_ok N (Rm f # ops) \<longleftrightarrow> f \<in> N \<and> ops_ok (N - {f}) ops"

lemma prune_add: "prefix d p \<Longrightarrow> prune d (ns_add p t ns) = prune d ns"
  by (simp add: prune_def ns_add_def)

lemma prune_remove: "prefix d p \<Longrightarrow> prune d (ns_remove p ns) = prune d ns"
  by (auto simp: prune_def ns_remove_def intro!: filter_cong)

lemma dir_sync_fresh:
  assumes "dir_sync d s" "f \<notin> name ` set (files_of s)"
  shows "ftype_of (dns s) (d @ [f]) = None"
proof (cases "ftype_of (dns s) (d @ [f])")
  case (Some t)
  then have "(f, t) \<in> set (entries (dns s) d)" using posix.listing_lookup [of "dns s" f t d] assms(1) by (simp add: dir_sync_def)
  then show ?thesis using assms by (auto simp: dir_sync_def)
qed

lemma run_ops_sync:
  assumes "denv s = []" "dir_sync d s" "ops_ok (name ` set (files_of s)) ops" "length (files_of s) + 2 + length ops \<le> MAX_DIRENTS"
  shows "\<exists>s'. run_ops d ops s = D_ret 0 s' \<and> denv s' = [] \<and> dir_sync d s' \<and> prune d (dns s') = prune d (dns s)"
  using assms
proof (induction ops arbitrary: s)
  case (Cons op ops)
  have len: "length (dirents s) = length (files_of s) + 2" using dir_sync_table [OF Cons.prems(2)] by simp
  show ?case
  proof (cases op)
    case (Mk f)
    then have f: "f \<notin> name ` set (files_of s)" "f \<noteq> ''.''" "f \<noteq> ''..''" "length f < OCFS2_MAX_FILENAME_LEN"
      "ops_ok (insert f (name ` set (files_of s))) ops" using Cons.prems(3) by auto
    obtain s1 where s1: "create_file f d s = D_ret 0 s1" "dir_sync d s1" "map name (files_of s1) = map name (files_of s) @ [f]"
        "denv s1 = []" "dns s1 = ns_add (d @ [f]) Reg (dns s)"
      using create_file_sync [OF Cons.prems(1,2) dir_sync_fresh [OF Cons.prems(2) f(1)] f(2-4)] len Cons.prems(4) by auto
    have "name ` set (files_of s1) = insert f (name ` set (files_of s))" "length (files_of s1) = length (files_of s) + 1"
      using arg_cong [OF s1(3), of set] arg_cong [OF s1(3), of length] by auto
    then obtain s' where "run_ops d ops s1 = D_ret 0 s'" "denv s' = []" "dir_sync d s'" "prune d (dns s') = prune d (dns s1)"
      using Cons.IH [OF s1(4,2)] f(5) Cons.prems(4) by auto
    then show ?thesis using Mk s1(1,5) by (simp add: prune_add)
  next
    case (Rm f)
    then have f: "f \<in> name ` set (files_of s)" "ops_ok (name ` set (files_of s) - {f}) ops" using Cons.prems(3) by auto
    obtain s1 where s1: "unlink_dirent_nam d f s = D_ret 0 s1" "dir_sync d s1" "denv s1 = []"
        "set (map name (files_of s1)) = set (map name (files_of s)) - {f}" "dns s1 = ns_remove (d @ [f]) (dns s)"
      using unlink_dirent_nam_sync [OF Cons.prems(1,2) f(1)] by blast
    have "length (files_of s1) \<le> length (files_of s)"
      using dir_sync_names(1) [OF Cons.prems(2)] dir_sync_names(1) [OF s1(2)] s1(4)
      by (metis Diff_subset List.finite_set card_mono distinct_card length_map)
    then obtain s' where "run_ops d ops s1 = D_ret 0 s'" "denv s' = []" "dir_sync d s'" "prune d (dns s') = prune d (dns s1)"
      using Cons.IH [OF s1(3,2)] f(2) s1(4) Cons.prems(4) by auto
    then show ?thesis using Rm s1(1,5) by (simp add: prune_remove)
  qed
qed simp

lemma verify_dirents_sync:
  assumes "denv s = []" "dir_sync d s"
  shows "verify_dirents d s = (0, [], s)"
proof -
  have wf: "ns_wf (dns s)" "ftype_of (dns s) d = Some Directory" "table_ok (dirents s)"
    and ent: "set (entries (dns s) d) = (\<lambda>de. (name de, Reg)) ` set (files_of s)" "\<forall>de \<in> set (files_of s). type de = dt Reg"
    using assms(2) by (auto simp: dir_sync_def)
  note tab = dir_sync_table [OF assms(2)] and nm = dir_sync_names [OF assms(2)]
  have names: "fst ` set (entries (dns s) d) = name ` set (files_of s)" unfolding ent(1) by force
  have d: "distinct (map fst (dir_list (dns s) d))"
    using posix.listing_distinct [OF wf(1), of d] nm(2,3) names by (simp add: dir_list_def)
  have all: "\<forall>(n, t) \<in> set (dir_list (dns s) d). \<exists>de \<in> set (dirents s). name de = n \<and> type de = dt t"
    using ent unfolding tab dir_list_def by (auto simp: dot_entry_def)
  have "fst (verify_dirents d s) = 0" using verify_dirents_eq(1) [OF assms(1) wf(2,3)] d all by simp
  then have "verify_dirents d s = (0, filter (\<lambda>n. n \<noteq> [] \<and> n \<notin> fst ` set (dir_list (dns s) d)) (map name (dirents s)), s)"
    by (rule verify_dirents_eq(2) [OF assms(1) wf(2,3)])
  moreover have "set (map name (dirents s)) \<subseteq> fst ` set (dir_list (dns s) d)" unfolding tab dir_list_def using names by auto
  ultimately show ?thesis by (auto simp: filter_empty_conv)
qed

section \<open>Properties\<close>

text \<open>
  C18. \<open>traverse_and_destroy\<close> on a directory, on a file system where no call fails: it returns 0,
  with a recursion no deeper than the tree, and removes exactly the directory and what is below it.
  As everywhere in this theory the paths are shorter than \<open>PATH_MAX\<close>.
\<close>

theorem traverse_removes_subtree:
  assumes "denv s = []" "ns_wf (dns s)" "ns_plain (dns s)" "(d, Directory) \<in> set (dns s)"
    "\<forall>e \<in> set (dns s). prefix d (fst e) \<longrightarrow> length (fst e) < length d + fuel"
  shows "traverse_and_destroy fuel d s = D_ret 0 (s\<lparr>dns := filter (\<lambda>e. \<not> prefix d (fst e)) (dns s)\<rparr>)"
  using traverse_ok [OF assms] by (simp add: prune_def)

theorem traverse_removes_subtree_witness:
  "let s = \<lparr>dirents = [], dns = [([''a''], Directory), ([''b''], Reg), ([''a'', ''x''], Directory), ([''a'', ''x'', ''y''], Reg)],
        denv = [], derrno = 0, drng = []\<rparr>
   in traverse_and_destroy 3 [''a''] s = D_ret 0 (s\<lparr>dns := [([''b''], Reg)]\<rparr>)"
  unfolding Let_def by (subst traverse_removes_subtree) (simp_all add: ns_wf_def ns_plain_def ftype_of_def)

text \<open>
  C19. Round trip: a tree that is built without random choices (argument \<open>randomize\<close> zero) in a
  place that was free, with paths shorter than \<open>PATH_MAX\<close>, has the size its parameters give, and
  destroying it leaves the name space as it was before, entry for entry.
\<close>

theorem build_then_destroy:
  assumes "denv s = []" "ns_wf (dns s)" "ns_plain (dns s)" "ftype_of (dns s) d = None"
    "ftype_of (dns s) (butlast d) = Some Directory" "last d \<noteq> ''.''" "last d \<noteq> ''..''" "n < 2 ^ 64"
  shows "\<exists>s1. build_dir_tree depth d n False s = D_ret 0 s1 \<and> length (dns s1) = length (dns s) + tree_size n depth
    \<and> traverse_and_destroy (Suc depth) d s1 = D_ret 0 (s1\<lparr>dns := dns s\<rparr>)"
proof -
  obtain s1 new where b: "build_dir_tree depth d n False s = D_ret 0 s1" "denv s1 = []" "ns_wf (dns s1)" "dns s1 = dns s @ new"
      "length new = tree_size n depth" "(d, Directory) \<in> set new" "\<forall>e \<in> set new. added_ok d depth e"
    using build_ok [OF assms(1,2,4,5,8)] by blast
  have out: "\<not> prefix d (fst e)" if "e \<in> set (dns s)" for e
    using prune_fresh [OF assms(2,4)] that by (auto simp: prune_def filter_id_conv)
  have "ns_plain (dns s1)" using assms(3,6,7) b(4,7) by (auto simp: ns_plain_def added_ok_def)
  moreover have "\<forall>e \<in> set (dns s1). prefix d (fst e) \<longrightarrow> length (fst e) < length d + Suc depth"
    using b(4,7) out by (auto simp: added_ok_def)
  ultimately have "traverse_and_destroy (Suc depth) d s1 = D_ret 0 (s1\<lparr>dns := prune d (dns s1)\<rparr>)"
    by (intro traverse_ok [OF b(2,3)]) (use b(4,6) in auto)
  moreover have "prune d (dns s1) = dns s"
    using out b(4,7) by (auto simp: prune_def added_ok_def filter_empty_conv filter_id_conv)
  ultimately show ?thesis using b(1,4,5) by auto
qed

lemma tree_size_4_2: "tree_size 4 2 = 13"
  by code_simp

theorem build_then_destroy_witness:
  "let s = \<lparr>dirents = [], dns = [([''b''], Reg)], denv = [], derrno = 0, drng = []\<rparr>
   in \<exists>s1. build_dir_tree 2 [''t''] 4 False s = D_ret 0 s1 \<and> length (dns s1) = 1 + 13
    \<and> traverse_and_destroy 3 [''t''] s1 = D_ret 0 (s1\<lparr>dns := [([''b''], Reg)]\<rparr>)"
  using build_then_destroy [of "\<lparr>dirents = [], dns = [([''b''], Reg)], denv = [], derrno = 0, drng = []\<rparr>" "[''t'']" 4 2]
    tree_size_4_2
  by (simp add: ns_wf_def ns_plain_def ftype_of_def del: build_dir_tree.simps traverse_and_destroy.simps)

text \<open>
  C20. The table of entries and the directory stay in step: after any sequence of creations of free
  names and removals of present ones, every call returned 0, \<open>verify_dirents\<close> accepts the directory
  with nothing missing and leaves the table as it was, and \<open>destroy_dir\<close> restores the name space.
\<close>

theorem dir_lifecycle:
  assumes "denv s = []" "ns_wf (dns s)" "ftype_of (dns s) d = None" "ftype_of (dns s) (butlast d) = Some Directory"
    "ops_ok {} ops" "length ops + 2 \<le> MAX_DIRENTS"
  shows "\<exists>s1 s2 s3. create_and_prep_dir d s = D_ret 0 s1 \<and> run_ops d ops s1 = D_ret 0 s2
    \<and> verify_dirents d s2 = (0, [], s2) \<and> destroy_dir d s2 = D_ret 0 s3 \<and> dns s3 = dns s \<and> dirents s3 = []"
proof -
  obtain s1 where s1: "create_and_prep_dir d s = D_ret 0 s1" "dir_sync d s1" "files_of s1 = []" "denv s1 = []"
      "dns s1 = ns_add d Directory (dns s)"
    using create_and_prep_dir_sync [OF assms(1-4)] by blast
  obtain s2 where s2: "run_ops d ops s1 = D_ret 0 s2" "denv s2 = []" "dir_sync d s2" "prune d (dns s2) = prune d (dns s1)"
    using run_ops_sync [OF s1(4,2), of ops] s1(3) assms(5,6) by auto
  obtain s3 where s3: "destroy_dir d s2 = D_ret 0 s3" "dirents s3 = []" "dns s3 = prune d (dns s2)"
    using destroy_dir_sync [OF s2(2,3)] by (auto simp: prune_def)
  have "dns s3 = dns s" using s3(3) s2(4) s1(5) prune_add [of d d] prune_fresh [OF assms(2,3)] by simp
  then show ?thesis using s1(1) s2(1) s3(1,2) verify_dirents_sync [OF s2(2,3)] by blast
qed

theorem dir_lifecycle_witness:
  "let s = \<lparr>dirents = [], dns = [([''b''], Reg)], denv = [], derrno = 0, drng = []\<rparr>
   in \<exists>s1 s2 s3. create_and_prep_dir [''t''] s = D_ret 0 s1 \<and> run_ops [''t''] [Mk ''x'', Mk ''y'', Rm ''x''] s1 = D_ret 0 s2
    \<and> verify_dirents [''t''] s2 = (0, [], s2) \<and> destroy_dir [''t''] s2 = D_ret 0 s3 \<and> dns s3 = dns s \<and> dirents s3 = []"
  unfolding Let_def
  by (rule dir_lifecycle) (simp_all add: ns_wf_def ftype_of_def OCFS2_MAX_FILENAME_LEN_def MAX_DIRENTS_def)

text \<open>
  C21. What \<open>verify_dirents\<close> decides about a readable directory and a well-formed table: it returns
  0 exactly if the listing of the directory has no name twice and every entry of it is in the table
  with its type, and -1 otherwise. An entry of the table that the directory lacks does not count:
  it is only printed.
\<close>

theorem verify_dirents_decides:
  assumes "denv s = []" "ftype_of (dns s) d = Some Directory" "table_ok (dirents s)"
  shows "fst (verify_dirents d s) = (if distinct (map fst (dir_list (dns s) d))
        \<and> (\<forall>(n, t) \<in> set (dir_list (dns s) d). \<exists>de \<in> set (dirents s). name de = n \<and> type de = dt t)
      then 0 else -1)
    \<and> (fst (verify_dirents d s) = 0 \<longrightarrow> fst (snd (verify_dirents d s))
        = filter (\<lambda>n. n \<noteq> [] \<and> n \<notin> fst ` set (dir_list (dns s) d)) (map name (dirents s)))"
proof -
  have "fst (snd (verify_dirents d s)) = filter (\<lambda>n. n \<noteq> [] \<and> n \<notin> fst ` set (dir_list (dns s) d)) (map name (dirents s))"
    if "fst (verify_dirents d s) = 0"
    using verify_dirents_eq(2) [OF assms that] by simp
  then show ?thesis unfolding verify_dirents_eq(1) [OF assms] by blast
qed

theorem verify_dirents_decides_witness:
  "let s = \<lparr>dirents = [dot_entry ''.'', dot_entry ''..'', \<lparr>type = 8, name_len = 1, seen = 0, name = ''x''\<rparr>],
        dns = [([''t''], Directory)], denv = [], derrno = 0, drng = []\<rparr>
   in fst (verify_dirents [''t''] s) = 0 \<and> fst (snd (verify_dirents [''t''] s)) = [''x'']
    \<and> fst (verify_dirents [''t''] (s\<lparr>dns := dns s @ [([''t'', ''x''], Reg), ([''t'', ''x''], Reg)]\<rparr>)) = -1"
  unfolding Let_def
  using verify_dirents_decides [of "\<lparr>dirents = [dot_entry ''.'', dot_entry ''..'', \<lparr>type = 8, name_len = 1, seen = 0, name = ''x''\<rparr>],
        dns = [([''t''], Directory)], denv = [], derrno = 0, drng = []\<rparr>" "[''t'']"]
    verify_dirents_decides [of "\<lparr>dirents = [dot_entry ''.'', dot_entry ''..'', \<lparr>type = 8, name_len = 1, seen = 0, name = ''x''\<rparr>],
        dns = [([''t''], Directory), ([''t'', ''x''], Reg), ([''t'', ''x''], Reg)], denv = [], derrno = 0, drng = []\<rparr>" "[''t'']"]
  by (simp add: ftype_of_def table_ok_def entry_ok_def dir_list_def entries_def dot_entry_def)

lemma create_file_returns:
  obtains e where "create_file f d s = D_fault e" | r s' where "create_file f d s = D_ret r s'" "\<not> r < 0"
proof (cases "create_file f d s")
  case (D_ret r s')
  then have "\<not> r < 0" by (auto simp: create_file_def Let_def split: prod.splits if_splits)
  with D_ret show ?thesis by (rule that(2))
next
  case (D_exit c s')
  then show ?thesis by (auto simp: create_file_def Let_def split: prod.splits if_splits)
qed (rule that(1))

lemma create_files_loop_zero:
  "case create_files_loop pre i n d s of D_ret r s' \<Rightarrow> r = 0 | D_exit c s' \<Rightarrow> False | D_fault e \<Rightarrow> True"
proof (induction n arbitrary: i s)
  case (Suc n)
  show ?case
  proof (cases "case pre of None \<Rightarrow> d_rand_nam 3 OCFS2_MAX_FILENAME_LEN s | Some p \<Rightarrow> Inr (p @ pad11 i, s)")
    case (Inr x)
    then obtain nam s1 where x: "x = (nam, s1)" by fastforce
    show ?thesis by (rule create_file_returns [of nam d s1]) (use Inr x Suc.IH in simp_all)
  qed simp
qed simp

text \<open>
  \<open>create_files\<close> never reports a failure: \<open>create_file\<close> returns the positive \<open>errno\<close>, which its
  test for a negative result does not see, so whatever the kernel answers a return is a return of 0.
\<close>

theorem create_files_hides_errors:
  "case create_files pre num d s of D_ret r s' \<Rightarrow> r = 0 | D_exit c s' \<Rightarrow> False | D_fault e \<Rightarrow> True"
  unfolding create_files_def by (rule create_files_loop_zero)

end
