(* ===== verification/Xattr_Ops.thy ===== *)
theory Xattr_Ops
  imports Posix_File C_Stdio
begin

text \<open>
  \<open>programs/libocfs2test/xattr_ops.c\<close>: extended attributes with names and values a later read can
  recognise. A value is a magic prefix, the attribute's name, random characters, the length of the
  value in five digits and a magic postfix.

  The globals are the record \<open>xst\<close>. Name buffers, of \<open>XATTR_NAME_MAX_SZ + 1\<close> bytes, are the C strings
  they hold; value buffers are lists of characters with their zero bytes. The file's attributes are
  \<open>xattrs\<close>. A random value stands for \<open>random()\<close>, with \<open>time(NULL)\<close> added where the source adds it.
\<close>

section \<open>State\<close>

datatype FILE_TYPE = NORMAL | DIRECTORY | SYMLINK

datatype EA_NAMESPACE_CLASS = USER | SYSTEM | TRUSTED | SECURITY

definition XATTR_NAME_MAX_SZ :: nat where "XATTR_NAME_MAX_SZ = 255"
definition XATTR_VALUE_MAX_SZ :: nat where "XATTR_VALUE_MAX_SZ = 65536"

abbreviation NUL :: char where "NUL \<equiv> CHR 0x00"

type_synonym attrs = "(string \<times> string) list"

record xst =
  xattr_nums :: nat
  xattr_name_sz :: nat
  xattr_value_sz :: nat
  xattr_name :: string
  xattr_value :: string
  xattr_value_get :: string
  xattr_name_list_set :: "string list"
  xattr_name_list_get :: "string list"
  value_prefix_magic :: string
  value_postfix_magic :: string
  xattrs :: attrs
  xenv :: io_env
  xrng :: "nat list"

text \<open>The string in a buffer, and \<open>strcpy\<close> into one.\<close>

definition buf_str :: "string \<Rightarrow> string" where
  "buf_str buf = takeWhile (\<lambda>c. c \<noteq> NUL) buf"

definition buf_cpy :: "string \<Rightarrow> string \<Rightarrow> fault + string" where
  "buf_cpy s buf = (if length buf \<le> length s then Inl Overrun else Inr (patch 0 (s @ [NUL]) buf))"

section \<open>The attributes of a file\<close>

definition ENODATA :: nat where "ENODATA = 61"
definition ERANGE :: nat where "ERANGE = 34"
definition XATTR_CREATE :: nat where "XATTR_CREATE = 1"
definition XATTR_REPLACE :: nat where "XATTR_REPLACE = 2"

definition at_get :: "attrs \<Rightarrow> string \<Rightarrow> string option" where
  "at_get xs n = map_of xs n"

definition at_set :: "string \<Rightarrow> string \<Rightarrow> attrs \<Rightarrow> attrs" where
  "at_set n v xs = (n, v) # filter (\<lambda>e. fst e \<noteq> n) xs"

definition at_remove :: "string \<Rightarrow> attrs \<Rightarrow> attrs" where
  "at_remove n xs = filter (\<lambda>e. fst e \<noteq> n) xs"

text \<open>What the programs rely on: the laws of a map from names to values.\<close>

locale attr_map =
  fixes get :: "'s \<Rightarrow> string \<Rightarrow> string option"
    and set_attr :: "string \<Rightarrow> string \<Rightarrow> 's \<Rightarrow> 's"
    and remove :: "string \<Rightarrow> 's \<Rightarrow> 's"
  assumes get_set: "get (set_attr n v s) m = (if m = n then Some v else get s m)"
    and get_remove: "get (remove n s) m = (if m = n then None else get s m)"
begin

lemma get_fold_other: "\<forall>(m, v) \<in> set us. m \<noteq> n \<Longrightarrow> get (fold (\<lambda>(m, v). set_attr m v) us s) n = get s n"
  by (induction us arbitrary: s) (auto simp: get_set)

lemma get_set_fold:
  assumes "\<forall>(m, v) \<in> set us. m \<noteq> n"
  shows "get (fold (\<lambda>(m, v). set_attr m v) us (set_attr n v s)) n = Some v"
  using get_fold_other [OF assms] by (simp add: get_set)

lemma set_remove: "get (remove n (set_attr n v s)) m = get (remove n s) m"
  by (simp add: get_set get_remove)

end

interpretation ea: attr_map at_get at_set at_remove
proof unfold_locales
  have f: "map_of (filter (\<lambda>e. fst e \<noteq> n) xs) m = (if m = n then None else map_of xs m)" for n m and xs :: attrs
    by (induction xs) auto
  show "at_get (at_set n v s) m = (if m = n then Some v else at_get s m)" for n v s m
    by (simp add: at_get_def at_set_def f)
  show "at_get (at_remove n s) m = (if m = n then None else at_get s m)" for n s m
    by (simp add: at_get_def at_remove_def f)
qed

text \<open>The system calls, with a size of 0 as a question for the size; \<open>fd\<close>, path and link variants differ in how they name the file only.\<close>

definition sys_getxattr :: "io_env \<Rightarrow> attrs \<Rightarrow> string \<Rightarrow> nat \<Rightarrow> (nat + nat \<times> string) \<times> io_env" where
  "sys_getxattr env xs n sz = (case sys_call env of
     (Some e, env') \<Rightarrow> (Inl e, env')
   | (None, env') \<Rightarrow> (case at_get xs n of
        None \<Rightarrow> (Inl ENODATA, env')
      | Some v \<Rightarrow> if sz = 0 then (Inr (length v, []), env')
          else if sz < length v then (Inl ERANGE, env') else (Inr (length v, v), env')))"

definition sys_setxattr :: "io_env \<Rightarrow> attrs \<Rightarrow> string \<Rightarrow> string \<Rightarrow> nat \<Rightarrow> nat option \<times> attrs \<times> io_env" where
  "sys_setxattr env xs n v flags = (case sys_call env of
     (Some e, env') \<Rightarrow> (Some e, xs, env')
   | (None, env') \<Rightarrow>
       if flags = XATTR_CREATE \<and> at_get xs n \<noteq> None then (Some 17, xs, env')
       else if flags = XATTR_REPLACE \<and> at_get xs n = None then (Some ENODATA, xs, env')
       else (None, at_set n v xs, env'))"

definition sys_removexattr :: "io_env \<Rightarrow> attrs \<Rightarrow> string \<Rightarrow> nat option \<times> attrs \<times> io_env" where
  "sys_removexattr env xs n = (case sys_call env of
     (Some e, env') \<Rightarrow> (Some e, xs, env')
   | (None, env') \<Rightarrow> if at_get xs n = None then (Some ENODATA, xs, env') else (None, at_remove n xs, env'))"

section \<open>Names and values\<close>

fun ns_prefix :: "EA_NAMESPACE_CLASS \<Rightarrow> string" where
  "ns_prefix USER = ''user.''"
| "ns_prefix SYSTEM = ''system.''"
| "ns_prefix TRUSTED = ''trusted.''"
| "ns_prefix SECURITY = ''security.''"

text \<open>The character for position \<open>i\<close>: a digit up to 8, an upper case or a lower case letter.\<close>

definition xattr_char :: "nat \<Rightarrow> nat \<Rightarrow> char" where
  "xattr_char i v = char_of (if i mod 3 = 0 then v mod 9 + 48 else if i mod 3 = 1 then v mod 26 + 65 else v mod 26 + 97)"

fun xattr_chars :: "nat \<Rightarrow> nat \<Rightarrow> nat \<Rightarrow> nat list \<Rightarrow> fault + string \<times> nat list" where
  "xattr_chars no i 0 rs = Inr ([], rs)"
| "xattr_chars no i (Suc n) [] = Inl Out_of_rand"
| "xattr_chars no i (Suc n) (r # rs) = (case xattr_chars no (i + 1) n rs of
     Inl e \<Rightarrow> Inl e | Inr (cs, rs') \<Rightarrow> Inr (xattr_char i (u64 (no + r)) # cs, rs'))"

text \<open>
  A size below 6 makes the unsigned difference huge; the loop then runs off the buffer. A short
  size cuts the prefix.
\<close>

definition xattr_name_generator :: "nat \<Rightarrow> EA_NAMESPACE_CLASS \<Rightarrow> nat \<Rightarrow> nat \<Rightarrow> xst \<Rightarrow> fault + xst" where
  "xattr_name_generator xattr_no ea_nm from to s = (case xrng s of [] \<Rightarrow> Inl Out_of_rand | r # rs \<Rightarrow>
     let m = u32 (to + 2 ^ 32 - from + 1); pre = ns_prefix ea_nm in
     if m = 0 then Inl Div_zero else
     let rsz = u32 (r mod m + from) in
     if rsz < 6 \<or> XATTR_NAME_MAX_SZ < rsz - 6 \<or> length (xattr_name_list_set s) \<le> xattr_no
        \<or> XATTR_NAME_MAX_SZ < xattr_name_sz s then Inl Overrun else
     (case xattr_chars xattr_no (length pre) (rsz - 6 - length pre) rs of
        Inl e \<Rightarrow> Inl e
      | Inr (cs, rs') \<Rightarrow>
          let nm = take (rsz - 6) (pre @ cs) @ take 6 (zero_pad 6 xattr_no) in
          if XATTR_NAME_MAX_SZ < length nm then Inl Overrun
          else Inr (s\<lparr>xattr_name := nm, xattr_name_list_set := (xattr_name_list_set s)[xattr_no := nm], xrng := rs'\<rparr>)))"

definition xattr_value_generator :: "nat \<Rightarrow> nat \<Rightarrow> nat \<Rightarrow> xst \<Rightarrow> fault + xst" where
  "xattr_value_generator xattr_no from to s = (case xrng s of [] \<Rightarrow> Inl Out_of_rand | r # rs \<Rightarrow>
     let m = u64 (sub64 to from + 1) in
     if m = 0 then Inl Div_zero else
     let rsz = u64 (r mod m + from) in
     if rsz = 0 \<or> length (xattr_value s) < rsz then Inl Overrun else
     (case xattr_chars xattr_no 0 (rsz - 1) rs of
        Inl e \<Rightarrow> Inl e
      | Inr (cs, rs') \<Rightarrow> Inr (s\<lparr>xattr_value := patch 0 (cs @ [NUL]) (xattr_value s), xrng := rs'\<rparr>)))"

text \<open>\<open>memset\<close> of both value buffers to zero.\<close>

definition clear_bufs :: "xst \<Rightarrow> fault + xst" where
  "clear_bufs s = (if length (xattr_value s) < xattr_value_sz s \<or> length (xattr_value_get s) < xattr_value_sz s
     then Inl Overrun
     else Inr (s\<lparr>xattr_value := patch 0 (replicate (xattr_value_sz s) NUL) (xattr_value s),
                xattr_value_get := patch 0 (replicate (xattr_value_sz s) NUL) (xattr_value_get s)\<rparr>))"

definition xattr_value_constructor :: "nat \<Rightarrow> xst \<Rightarrow> fault + xst" where
  "xattr_value_constructor no s = (case clear_bufs s of Inl e \<Rightarrow> Inl e | Inr s1 \<Rightarrow>
     if length (xattr_name_list_set s1) \<le> no then Inl Overrun else
     let nm = xattr_name_list_set s1 ! no; p = value_prefix_magic s1; q = value_postfix_magic s1;
         s2 = s1\<lparr>xattr_name := nm\<rparr>;
         sz = sub64 (sub64 (sub64 (sub64 (xattr_value_sz s2) (length p)) (length q)) (length nm)) 5 in
     (case xattr_value_generator no sz sz s2 of Inl e \<Rightarrow> Inl e | Inr s3 \<Rightarrow>
       let v = buf_str (xattr_value s3);
           value_sz = take 5 (zero_pad 5 (length p + length nm + length v + 5 + length q)) in
       (case buf_cpy (p @ nm @ v @ value_sz @ q) (xattr_value_get s3) of Inl e \<Rightarrow> Inl e | Inr g \<Rightarrow>
         (case buf_cpy (buf_str g) (patch 0 (replicate (xattr_value_sz s3) NUL) (xattr_value s3)) of
            Inl e \<Rightarrow> Inl e
          | Inr w \<Rightarrow> Inr (s3\<lparr>xattr_value_get := g, xattr_value := w\<rparr>)))))"

text \<open>
  The four checks of \<open>xattr_value_validator\<close> on the buffer that was read, each on a local copy of
  20, \<open>XATTR_NAME_MAX_SZ + 1\<close> or 6 bytes.
\<close>

definition xattr_value_validator :: "nat \<Rightarrow> xst \<Rightarrow> fault + int \<times> xst" where
  "xattr_value_validator no s =
     (let p = value_prefix_magic s; q = value_postfix_magic s; g = xattr_value_get s; len = length (buf_str g) in
      if length (xattr_name_list_set s) \<le> no \<or> XATTR_NAME_MAX_SZ < xattr_name_sz s \<or> 20 \<le> length p \<or> 20 \<le> length q
      then Inl Overrun else
      let nm = xattr_name_list_set s ! no; s1 = s\<lparr>xattr_name := nm\<rparr> in
      if length g < length p + length nm \<or> len = length g then Inl Overrun
      else if buf_str (take (length p) g) \<noteq> p then Inr (-1, s1)
      else if buf_str (take (length nm) (drop (length p) g)) \<noteq> nm then Inr (-1, s1)
      else if len < length q + 5 then Inl Overrun
      else
      let offset = len - length q - 5 in
      if c_atoi (buf_str (take 5 (drop offset g))) \<noteq> int len then Inr (-1, s1)
      else if buf_str (take (length q) (drop (offset + 5) g)) \<noteq> q then Inr (-1, s1)
      else Inr (0, s1))"

section \<open>Reading, setting and removing\<close>

definition read_ea :: "FILE_TYPE \<Rightarrow> xst \<Rightarrow> fault + int \<times> xst" where
  "read_ea ft s = (case sys_getxattr (xenv s) (xattrs s) (xattr_name s) (xattr_value_sz s) of
     (Inl e, env) \<Rightarrow> Inr (-1, s\<lparr>xenv := env\<rparr>)
   | (Inr (n, v), env) \<Rightarrow> if length (xattr_value_get s) < length v then Inl Overrun
       else Inr (int n, s\<lparr>xenv := env, xattr_value_get := patch 0 v (xattr_value_get s)\<rparr>))"

definition add_or_update_ea :: "FILE_TYPE \<Rightarrow> nat \<Rightarrow> xst \<Rightarrow> fault + int \<times> xst" where
  "add_or_update_ea ft ea_flags s =
     (if length (xattr_value s) < xattr_value_sz s then Inl Overrun else
      case sys_setxattr (xenv s) (xattrs s) (xattr_name s) (take (xattr_value_sz s) (xattr_value s)) ea_flags of
        (r, xs, env) \<Rightarrow> Inr (if r = None then 0 else -1, s\<lparr>xattrs := xs, xenv := env\<rparr>))"

definition remove_ea :: "FILE_TYPE \<Rightarrow> xst \<Rightarrow> fault + int \<times> xst" where
  "remove_ea ft s = (case sys_removexattr (xenv s) (xattrs s) (xattr_name s) of
     (r, xs, env) \<Rightarrow> Inr (if r = None then 0 else -1, s\<lparr>xattrs := xs, xenv := env\<rparr>))"

section \<open>Lists of names\<close>

text \<open>\<open>list_parser\<close>: \<open>xattr_nums\<close> strings one after the other in what \<open>listxattr\<close> returned.\<close>

fun parse_names :: "nat \<Rightarrow> string \<Rightarrow> fault + string list" where
  "parse_names 0 l = Inr []"
| "parse_names (Suc n) l =
     (let nm = buf_str l in
      if length nm = length l \<or> XATTR_NAME_MAX_SZ < length nm then Inl Overrun
      else (case parse_names n (drop (length nm + 1) l) of Inl e \<Rightarrow> Inl e | Inr ns \<Rightarrow> Inr (nm # ns)))"

definition list_parser :: "string \<Rightarrow> xst \<Rightarrow> fault + xst" where
  "list_parser l s =
     (if XATTR_NAME_MAX_SZ < xattr_name_sz s \<and> 0 < xattr_nums s then Inl Overrun else
      case parse_names (xattr_nums s) l of Inl e \<Rightarrow> Inl e
      | Inr ns \<Rightarrow> Inr (s\<lparr>xattr_name_list_get := ns @ drop (length ns) (xattr_name_list_get s)\<rparr>))"

fun is_namelist_member :: "nat \<Rightarrow> string \<Rightarrow> string list \<Rightarrow> fault + int" where
  "is_namelist_member 0 nm ns = Inr 0"
| "is_namelist_member (Suc n) nm [] = Inl Overrun"
| "is_namelist_member (Suc n) nm (m # ns) = (if nm = m then Inr 1 else is_namelist_member n nm ns)"

section \<open>Strings in buffers\<close>

lemma buf_str_NUL: "NUL \<notin> set s \<Longrightarrow> buf_str (s @ NUL # r) = s"
  unfolding buf_str_def by (induction s) auto

lemma buf_str_id: "NUL \<notin> set s \<Longrightarrow> buf_str s = s"
  unfolding buf_str_def by (induction s) auto

lemma buf_str_no_NUL: "NUL \<notin> set (buf_str b)"
  by (auto simp: buf_str_def dest: set_takeWhileD)

lemma buf_str_take: "buf_str b = take (length (buf_str b)) b"
  unfolding buf_str_def by (rule takeWhile_eq_take)

lemma length_buf_str: "length (buf_str b) \<le> length b"
  by (simp add: buf_str_def length_takeWhile_le)

lemma buf_str_slice: "j + k \<le> length (buf_str b) \<Longrightarrow> take k (drop j b) = take k (drop j (buf_str b))"
proof -
  assume le: "j + k \<le> length (buf_str b)"
  have "drop j (buf_str b) = take (length (buf_str b) - j) (drop j b)"
    using arg_cong [OF buf_str_take [of b], of "drop j"] by (simp only: drop_take)
  then show ?thesis using le by (simp add: min_absorb1)
qed

lemma buf_cpy_ok:
  assumes "length s < length b" "NUL \<notin> set s"
  shows "buf_cpy s b = Inr (s @ NUL # drop (length s + 1) b)" "buf_str (s @ NUL # drop (length s + 1) b) = s"
  using assms buf_str_NUL by (auto simp: buf_cpy_def patch_def)

text \<open>Comparing a copied slice with a string of the same length.\<close>

lemma buf_str_cmp:
  assumes "NUL \<notin> set x" "length x = k"
  shows "buf_str (take k y) = x \<longleftrightarrow> take k y = x"
proof
  assume e: "buf_str (take k y) = x"
  have "length (buf_str (take k y)) = k" using e assms(2) by simp
  then have "buf_str (take k y) = take k (take k y)" using buf_str_take [of "take k y"] by simp
  then show "take k y = x" using e by simp
qed (use assms buf_str_id in auto)

lemma buf_str_reach:
  assumes "take n b = x" "length x = n" "NUL \<notin> set x"
  shows "n \<le> length (buf_str b)"
proof -
  have "b = x @ drop n b" using assms(1) append_take_drop_id [of n b] by simp
  then have "buf_str b = x @ buf_str (drop n b)"
    using assms(3) takeWhile_append2 [of x "\<lambda>c. c \<noteq> NUL" "drop n b"] unfolding buf_str_def by metis
  then show ?thesis using assms(2) by simp
qed

lemma xattr_char_NUL: "xattr_char i v \<noteq> NUL"
proof
  assume "xattr_char i v = NUL"
  then have "of_char (xattr_char i v) = (0 :: nat)" by simp
  moreover have "v mod 9 < 9" "v mod 26 < 26" by simp_all
  ultimately show False by (simp add: xattr_char_def of_char_of split: if_splits)
qed

lemma xattr_chars_ok:
  "n \<le> length rs \<Longrightarrow> \<exists>cs. xattr_chars no i n rs = Inr (cs, drop n rs) \<and> length cs = n \<and> NUL \<notin> set cs"
proof (induction no i n rs rule: xattr_chars.induct)
  case (3 no i n r rs)
  then obtain cs where "xattr_chars no (i + 1) n rs = Inr (cs, drop n rs)" "length cs = n" "NUL \<notin> set cs" by auto
  then show ?case using xattr_char_NUL [of i] by (auto dest: sym)
qed simp_all

lemma zero_pad_NUL: "NUL \<notin> set (zero_pad w n)"
  using zero_pad_digits [of w n] by (auto simp: list_all_iff c_isdigit_def)

section \<open>What the validator accepts\<close>

definition value_ok :: "string \<Rightarrow> string \<Rightarrow> string \<Rightarrow> string \<Rightarrow> bool" where
  "value_ok p nm q v \<longleftrightarrow> take (length p + length nm) v = p @ nm
     \<and> c_atoi (take 5 (drop (length v - length q - 5) v)) = int (length v) \<and> drop (length v - length q) v = q"

lemma validator_iff:
  assumes "no < length (xattr_name_list_set s)" "nm = xattr_name_list_set s ! no" "xattr_name_sz s \<le> XATTR_NAME_MAX_SZ"
    "p = value_prefix_magic s" "q = value_postfix_magic s" "length p < 20" "length q < 20"
    "NUL \<notin> set p" "NUL \<notin> set q" "NUL \<notin> set nm" "v = buf_str (xattr_value_get s)" "length v < length (xattr_value_get s)"
    "length p + length nm \<le> length (xattr_value_get s)" "length q + 5 \<le> length v"
  shows "xattr_value_validator no s = Inr (if value_ok p nm q v then 0 else -1, s\<lparr>xattr_name := nm\<rparr>)"
proof -
  let ?g = "xattr_value_get s" let ?off = "length v - length q - 5"
  have c1: "buf_str (take (length p) ?g) = p \<longleftrightarrow> take (length p) ?g = p" by (rule buf_str_cmp) (use assms in auto)
  have c2: "buf_str (take (length nm) (drop (length p) ?g)) = nm \<longleftrightarrow> take (length nm) (drop (length p) ?g) = nm"
    by (rule buf_str_cmp) (use assms in auto)
  have "take (length p) ?g = p \<and> take (length nm) (drop (length p) ?g) = nm \<longleftrightarrow> take (length p + length nm) ?g = p @ nm"
    using assms(13) by (auto simp: take_add)
  also have "\<dots> \<longleftrightarrow> take (length p + length nm) v = p @ nm"
  proof
    assume e: "take (length p + length nm) ?g = p @ nm"
    then have "length p + length nm \<le> length v" unfolding assms(11) by (intro buf_str_reach [of _ _ "p @ nm"]) (use assms in auto)
    then show "take (length p + length nm) v = p @ nm" using buf_str_slice [of 0 "length p + length nm" ?g] e assms(11) by simp
  next
    assume e: "take (length p + length nm) v = p @ nm"
    have "min (length v) (length p + length nm) = length p + length nm"
      using arg_cong [OF e, of length] by (simp only: length_take length_append)
    then have "length p + length nm \<le> length v" by simp
    then show "take (length p + length nm) ?g = p @ nm" using buf_str_slice [of 0 "length p + length nm" ?g] e assms(11) by simp
  qed
  finally have head: "take (length p) ?g = p \<and> take (length nm) (drop (length p) ?g) = nm \<longleftrightarrow> take (length p + length nm) v = p @ nm" .
  have sl: "take 5 (drop ?off ?g) = take 5 (drop ?off v)" using buf_str_slice [of ?off 5 ?g] assms(11,14) by simp
  have "NUL \<notin> set (take 5 (drop ?off v))" using buf_str_no_NUL assms(11) by (metis in_set_dropD in_set_takeD)
  then have c3: "buf_str (take 5 (drop ?off ?g)) = take 5 (drop ?off v)" unfolding sl by (rule buf_str_id)
  have off5: "?off + 5 = length v - length q" using assms(14) by simp
  have "take (length q) (drop (length v - length q) ?g) = drop (length v - length q) v"
    using buf_str_slice [of "length v - length q" "length q" ?g] assms(11,14) by simp
  then have c4: "buf_str (take (length q) (drop (?off + 5) ?g)) = q \<longleftrightarrow> drop (length v - length q) v = q"
    unfolding off5 buf_str_cmp [OF assms(9) refl] by simp
  show ?thesis
    unfolding xattr_value_validator_def Let_def assms(2,4,5,11) [symmetric] c1 c2 c3 c4 value_ok_def head [symmetric]
    using assms(1,3,6,7,12,13,14) by auto
qed

section \<open>What the constructor builds\<close>

definition built_value :: "string \<Rightarrow> string \<Rightarrow> string \<Rightarrow> string \<Rightarrow> string" where
  "built_value p nm q cs = p @ nm @ cs @ zero_pad 5 (length p + length nm + length cs + 5 + length q) @ q"

lemma built_value_ok:
  assumes "length p + length nm + length cs + 5 + length q < 100000"
  shows "length (built_value p nm q cs) = length p + length nm + length cs + 5 + length q"
    "value_ok p nm q (built_value p nm q cs)"
proof -
  let ?n = "length p + length nm + length cs + 5 + length q" let ?z = "zero_pad 5 ?n"
  have z: "length ?z = 5" using length_zero_pad [of 5 ?n] assms by simp
  show len: "length (built_value p nm q cs) = ?n" using z by (simp add: built_value_def)
  have split: "built_value p nm q cs = (p @ nm @ cs) @ ?z @ q" by (simp add: built_value_def)
  have off: "?n - length q - 5 = length (p @ nm @ cs)" "?n - length q = length ((p @ nm @ cs) @ ?z)" using z by simp_all
  have "take 5 (drop (?n - length q - 5) (built_value p nm q cs)) = ?z" unfolding off(1) split using z by simp
  moreover have "drop (?n - length q) (built_value p nm q cs) = q" unfolding off(2) split by simp
  moreover have "take (length p + length nm) (built_value p nm q cs) = p @ nm" by (simp add: built_value_def)
  moreover have "c_atoi ?z = int ?n" using c_atoi_zero_pad [of ?n 5] assms by simp
  ultimately show "value_ok p nm q (built_value p nm q cs)" unfolding value_ok_def len by simp
qed

text \<open>The conditions under which the programs call the constructor.\<close>

definition ctor_ok :: "nat \<Rightarrow> xst \<Rightarrow> bool" where
  "ctor_ok no s \<longleftrightarrow> no < length (xattr_name_list_set s)
     \<and> NUL \<notin> set (xattr_name_list_set s ! no) \<and> NUL \<notin> set (value_prefix_magic s) \<and> NUL \<notin> set (value_postfix_magic s)
     \<and> length (value_prefix_magic s) + length (value_postfix_magic s) + length (xattr_name_list_set s ! no) + 6 \<le> xattr_value_sz s
     \<and> xattr_value_sz s \<le> XATTR_VALUE_MAX_SZ
     \<and> xattr_value_sz s \<le> length (xattr_value s) \<and> xattr_value_sz s \<le> length (xattr_value_get s)
     \<and> xattr_value_sz s \<le> length (xrng s)"

lemma sub64_chain:
  "a + b + c + d + e \<le> n \<Longrightarrow> n < 2 ^ 64 \<Longrightarrow> sub64 (sub64 (sub64 (sub64 n a) b) c) d = n - a - b - c - d"
  by (simp add: width)

lemma constructor_builds:
  assumes "ctor_ok no s"
  obtains cs s' where "xattr_value_constructor no s = Inr s'" "NUL \<notin> set cs"
    "length (built_value (value_prefix_magic s) (xattr_name_list_set s ! no) (value_postfix_magic s) cs) + 1 = xattr_value_sz s"
    "take (xattr_value_sz s) (xattr_value s')
       = built_value (value_prefix_magic s) (xattr_name_list_set s ! no) (value_postfix_magic s) cs @ [NUL]"
    "s' = s\<lparr>xattr_name := xattr_name_list_set s ! no, xattr_value := xattr_value s', xattr_value_get := xattr_value_get s', xrng := xrng s'\<rparr>"
    "length (xattr_value s') = length (xattr_value s)" "length (xattr_value_get s') = length (xattr_value_get s)"
proof -
  define sz p q nm where d: "sz = xattr_value_sz s" "p = value_prefix_magic s" "q = value_postfix_magic s" "nm = xattr_name_list_set s ! no"
  note ok = assms [unfolded ctor_ok_def d [symmetric]]
  define L where "L = sz - length p - length q - length nm - 5"
  have L: "L + length p + length q + length nm + 5 = sz" "1 \<le> L" "L \<le> sz" "sz < 100000" using ok by (auto simp: L_def XATTR_VALUE_MAX_SZ_def)
  obtain r rs where rs: "xrng s = r # rs" "L - 1 \<le> length rs" using ok L by (cases "xrng s") auto
  obtain cs where cs: "xattr_chars no 0 (L - 1) rs = Inr (cs, drop (L - 1) rs)" "length cs = L - 1" "NUL \<notin> set cs"
    using xattr_chars_ok [OF rs(2), of no 0] by blast
  define z where "z = patch 0 (replicate sz NUL) (xattr_value s)"
  define zg where "zg = patch 0 (replicate sz NUL) (xattr_value_get s)"
  have zl: "length z = length (xattr_value s)" "length zg = length (xattr_value_get s)"
    using ok by (simp_all add: z_def zg_def length_patch)
  have L': "sub64 (sub64 (sub64 (sub64 sz (length p)) (length q)) (length nm)) 5 = L"
    using sub64_chain [of "length p" "length q" "length nm" 5 1 sz] L by (simp add: L_def)
  define s1 where "s1 = s\<lparr>xattr_value := z, xattr_value_get := zg, xattr_name := nm\<rparr>"
  define b where "b = patch 0 (cs @ [NUL]) z"
  define s3 where "s3 = s1\<lparr>xattr_value := b, xrng := drop (L - 1) rs\<rparr>"
  have "u64 L = L" "u64 (sub64 L L + 1) = 1" using L by (simp_all add: width)
  then have gen: "xattr_value_generator no L L s1 = Inr s3"
    using rs(1) cs(1) L ok zl by (simp add: xattr_value_generator_def s1_def s3_def b_def Let_def)
  define V where "V = built_value p nm q cs"
  have tot: "length p + length nm + length cs + 5 + length q = sz - 1" using L cs(2) by simp
  have lV: "length V + 1 = sz" using built_value_ok(1) [of p nm cs q] tot L by (simp add: V_def)
  have nV: "NUL \<notin> set V" using ok cs(3) zero_pad_NUL by (simp add: V_def built_value_def)
  have bl: "length b = length (xattr_value s)" using zl cs(2) L ok by (simp add: b_def length_patch)
  have "b = cs @ NUL # drop (length cs + 1) z" by (simp add: b_def patch_def)
  then have strb: "buf_str b = cs" using buf_str_NUL [OF cs(3)] by simp
  have "take 5 (zero_pad 5 (sz - 1)) = zero_pad 5 (sz - 1)" using length_zero_pad [of 5 "sz - 1"] L by simp
  then have vtxt: "p @ nm @ cs @ take 5 (zero_pad 5 (length p + length nm + length cs + 5 + length q)) @ q = V"
    by (simp only: V_def built_value_def tot)
  define g where "g = V @ NUL # drop (length V + 1) zg"
  define w where "w = V @ NUL # drop (length V + 1) (patch 0 (replicate sz NUL) b)"
  have cpg: "buf_cpy V zg = Inr g" "buf_str g = V" unfolding g_def by (rule buf_cpy_ok; use lV ok zl nV in simp)+
  have cpw: "buf_cpy V (patch 0 (replicate sz NUL) b) = Inr w"
    unfolding w_def by (rule buf_cpy_ok) (use lV ok bl nV in \<open>simp_all add: length_patch\<close>)
  have "xattr_value_constructor no s = Inr (s3\<lparr>xattr_value_get := g, xattr_value := w\<rparr>)"
    using ok gen cpg cpw strb vtxt
    by (simp add: xattr_value_constructor_def clear_bufs_def Let_def d [symmetric] z_def [symmetric] zg_def [symmetric] L' s1_def s3_def)
  moreover have "take sz w = V @ [NUL]"
  proof -
    have "sz - length V = Suc 0" "length V \<le> sz" using lV by simp_all
    then show ?thesis by (simp add: w_def)
  qed
  moreover have "length w = length (xattr_value s)" "length g = length (xattr_value_get s)"
    using lV bl ok zl by (auto simp: w_def g_def length_patch)
  ultimately show ?thesis using that [OF _ cs(3)] lV by (simp add: s3_def s1_def V_def d)
qed

section \<open>Names\<close>

lemma name_generator_ok:
  assumes "length (ns_prefix ea) + 6 \<le> from" "from \<le> to" "to \<le> XATTR_NAME_MAX_SZ" "no < length (xattr_name_list_set s)" "no < 1000000"
    "xattr_name_sz s \<le> XATTR_NAME_MAX_SZ" "to < length (xrng s)"
  obtains s' cs where "xattr_name_generator no ea from to s = Inr s'" "xattr_name s' = ns_prefix ea @ cs @ zero_pad 6 no"
    "from \<le> length (xattr_name s')" "length (xattr_name s') \<le> to" "NUL \<notin> set cs"
proof -
  obtain r rs where rs: "xrng s = r # rs" using assms(7) by (cases "xrng s") auto
  let ?m = "to - from + 1" let ?pre = "ns_prefix ea"
  define rsz where "rsz = r mod ?m + from"
  have "to + 2 ^ 32 - from + 1 = ?m + 2 ^ 32" using assms(2) by simp
  then have "u32 (to + 2 ^ 32 - from + 1) = u32 (?m + 2 ^ 32)" by simp
  also have "\<dots> = ?m" unfolding u32_def mod_add_self2 using assms(3) by (simp add: XATTR_NAME_MAX_SZ_def)
  finally have m: "u32 (to + 2 ^ 32 - from + 1) = ?m" .
  have "r mod ?m < ?m" by simp
  then have rsz: "from \<le> rsz" "rsz \<le> to" using assms(2) unfolding rsz_def by linarith+
  then have w: "u32 rsz = rsz" using assms(3) by (simp add: width XATTR_NAME_MAX_SZ_def)
  have le: "rsz - 6 - length ?pre \<le> length rs" using rsz assms(7) rs by simp
  obtain cs where cs: "xattr_chars no (length ?pre) (rsz - 6 - length ?pre) rs = Inr (cs, drop (rsz - 6 - length ?pre) rs)"
      "length cs = rsz - 6 - length ?pre" "NUL \<notin> set cs"
    using xattr_chars_ok [OF le, of no "length ?pre"] by blast
  have z: "take 6 (zero_pad 6 no) = zero_pad 6 no" "length (zero_pad 6 no) = 6" using length_zero_pad [of 6 no] assms(5) by simp_all
  have t: "take (rsz - 6) (?pre @ cs) = ?pre @ cs" using cs(2) rsz assms(1) by simp
  have len: "length (?pre @ cs @ zero_pad 6 no) = rsz" using cs(2) z(2) rsz assms(1) by simp
  let ?nm = "?pre @ cs @ zero_pad 6 no"
  let ?s = "s\<lparr>xattr_name := ?nm, xattr_name_list_set := (xattr_name_list_set s)[no := ?nm], xrng := drop (rsz - 6 - length ?pre) rs\<rparr>"
  have "\<not> (rsz < 6 \<or> XATTR_NAME_MAX_SZ < rsz - 6)" "\<not> XATTR_NAME_MAX_SZ < length ?nm" unfolding len using rsz assms(1,3) by auto
  then have "xattr_name_generator no ea from to s = Inr ?s"
    unfolding xattr_name_generator_def rs list.case Let_def m rsz_def [symmetric] w cs(1)
    using assms(4,6) by (simp add: t z(1) del: take_append)
  then show ?thesis using that [of ?s cs] len rsz cs(3) by simp
qed

section \<open>Properties\<close>

text \<open>
  C23. The value of an attribute survives: a value made by \<open>xattr_value_constructor\<close> and set by
  \<open>add_or_update_ea\<close> is, after any changes of other attributes and with anything in the read buffer,
  read back by \<open>read_ea\<close> in its full size and accepted by \<open>xattr_value_validator\<close>.
\<close>

theorem xattr_roundtrip:
  assumes "ctor_ok no s" "xenv s = []" "xattr_name_sz s \<le> XATTR_NAME_MAX_SZ"
    "length (value_prefix_magic s) < 20" "length (value_postfix_magic s) < 20"
    "\<forall>(m, v) \<in> set us. m \<noteq> xattr_name_list_set s ! no" "length b = length (xattr_value_get s)"
    "xattr_value_sz s < length (xattr_value_get s)"
  shows "\<exists>s1 s2 s4. xattr_value_constructor no s = Inr s1 \<and> add_or_update_ea ft 0 s1 = Inr (0, s2)
    \<and> read_ea ft (s2\<lparr>xattrs := fold (\<lambda>(m, v). at_set m v) us (xattrs s2), xattr_value_get := b\<rparr>) = Inr (int (xattr_value_sz s), s4)
    \<and> xattr_value_validator no s4 = Inr (0, s4)"
proof -
  let ?nm = "xattr_name_list_set s ! no" let ?p = "value_prefix_magic s" let ?q = "value_postfix_magic s" let ?sz = "xattr_value_sz s"
  obtain cs s1 where c: "xattr_value_constructor no s = Inr s1" "NUL \<notin> set cs" "length (built_value ?p ?nm ?q cs) + 1 = ?sz"
      "take ?sz (xattr_value s1) = built_value ?p ?nm ?q cs @ [NUL]"
      "s1 = s\<lparr>xattr_name := ?nm, xattr_value := xattr_value s1, xattr_value_get := xattr_value_get s1, xrng := xrng s1\<rparr>"
      "length (xattr_value s1) = length (xattr_value s)" "length (xattr_value_get s1) = length (xattr_value_get s)"
    by (rule constructor_builds [OF assms(1)])
  let ?V = "built_value ?p ?nm ?q cs"
  note ok = assms(1) [unfolded ctor_ok_def]
  have f: "xattr_name s1 = ?nm" "xattr_value_sz s1 = ?sz" "xattrs s1 = xattrs s" "xenv s1 = []" "xattr_name_list_set s1 = xattr_name_list_set s"
    "value_prefix_magic s1 = ?p" "value_postfix_magic s1 = ?q" "xattr_name_sz s1 = xattr_name_sz s"
    using arg_cong [OF c(5), of xattr_name] arg_cong [OF c(5), of xattr_value_sz] arg_cong [OF c(5), of xattrs] arg_cong [OF c(5), of xenv]
      arg_cong [OF c(5), of xattr_name_list_set] arg_cong [OF c(5), of value_prefix_magic] arg_cong [OF c(5), of value_postfix_magic]
      arg_cong [OF c(5), of xattr_name_sz] assms(2) by simp_all
  let ?s2 = "s1\<lparr>xattrs := at_set ?nm (?V @ [NUL]) (xattrs s), xenv := []\<rparr>"
  have set2: "add_or_update_ea ft 0 s1 = Inr (0, ?s2)"
    using ok c(4,6) f by (simp add: add_or_update_ea_def sys_setxattr_def XATTR_CREATE_def XATTR_REPLACE_def)
  let ?s3 = "?s2\<lparr>xattrs := fold (\<lambda>(m, v). at_set m v) us (xattrs ?s2), xattr_value_get := b\<rparr>"
  let ?s4 = "?s3\<lparr>xenv := [], xattr_value_get := patch 0 (?V @ [NUL]) b\<rparr>"
  have "at_get (xattrs ?s3) ?nm = Some (?V @ [NUL])" using ea.get_set_fold [OF assms(6)] by simp
  then have rd: "read_ea ft ?s3 = Inr (int ?sz, ?s4)" using c(3) f assms(7,8) by (auto simp: read_ea_def sys_getxattr_def)
  have nV: "NUL \<notin> set ?V" using ok c(2) zero_pad_NUL by (simp add: built_value_def)
  have g: "xattr_value_get ?s4 = ?V @ NUL # drop ?sz b" using c(3) by (simp add: patch_def)
  then have str: "buf_str (xattr_value_get ?s4) = ?V" using buf_str_NUL [OF nV] by simp
  have small: "length ?p + length ?nm + length cs + 5 + length ?q < 100000"
    using c(3) ok by (auto simp: built_value_def zero_pad_def XATTR_VALUE_MAX_SZ_def)
  have "xattr_value_validator no ?s4 = Inr (if value_ok ?p ?nm ?q ?V then 0 else -1, ?s4\<lparr>xattr_name := ?nm\<rparr>)"
    by (rule validator_iff) (use ok f assms(3-5) str g built_value_ok(1) [OF small] in simp_all)
  moreover have "?s4\<lparr>xattr_name := ?nm\<rparr> = ?s4" using f(1) by simp
  ultimately show ?thesis using c(1) set2 rd built_value_ok(2) [OF small] by auto
qed

text \<open>A small instance: a value of 14 bytes for the second of two attributes.\<close>

definition xst_example :: xst where
  "xst_example = \<lparr>xattr_nums = 2, xattr_name_sz = 6, xattr_value_sz = 14, xattr_name = [], xattr_value = replicate 16 NUL,
     xattr_value_get = replicate 16 NUL, xattr_name_list_set = [''u.a'', ''u.b''], xattr_name_list_get = [[], []],
     value_prefix_magic = ''P'', value_postfix_magic = ''Q'', xattrs = [], xenv = [], xrng = [1 ..< 21]\<rparr>"

theorem xattr_roundtrip_witness:
  "\<exists>s1 s2 s4. xattr_value_constructor 1 xst_example = Inr s1 \<and> add_or_update_ea NORMAL 0 s1 = Inr (0, s2)
    \<and> read_ea NORMAL (s2\<lparr>xattrs := fold (\<lambda>(m, v). at_set m v) [(''u.a'', ''other'')] (xattrs s2),
        xattr_value_get := replicate 16 CHR ''x''\<rparr>) = Inr (int (xattr_value_sz xst_example), s4)
    \<and> xattr_value_validator 1 s4 = Inr (0, s4)"
  by (rule xattr_roundtrip) (simp_all add: xst_example_def ctor_ok_def XATTR_NAME_MAX_SZ_def XATTR_VALUE_MAX_SZ_def)

text \<open>
  \<open>xattr_value_validator\<close> decides: on a terminated buffer it returns 0 exactly if the value starts
  with the magic prefix and the name, ends with the magic postfix and has before it its own length;
  the random part is not looked at.
\<close>

theorem xattr_validator_decides:
  assumes "no < length (xattr_name_list_set s)" "xattr_name_sz s \<le> XATTR_NAME_MAX_SZ"
    "length (value_prefix_magic s) < 20" "length (value_postfix_magic s) < 20"
    "NUL \<notin> set (value_prefix_magic s)" "NUL \<notin> set (value_postfix_magic s)" "NUL \<notin> set (xattr_name_list_set s ! no)"
    "length (buf_str (xattr_value_get s)) < length (xattr_value_get s)"
    "length (value_prefix_magic s) + length (xattr_name_list_set s ! no) \<le> length (xattr_value_get s)"
    "length (value_postfix_magic s) + 5 \<le> length (buf_str (xattr_value_get s))"
  shows "xattr_value_validator no s =
    Inr (if value_ok (value_prefix_magic s) (xattr_name_list_set s ! no) (value_postfix_magic s) (buf_str (xattr_value_get s)) then 0 else -1,
      s\<lparr>xattr_name := xattr_name_list_set s ! no\<rparr>)"
  by (rule validator_iff) (use assms in simp_all)

theorem xattr_validator_decides_witness:
  "let s = xst_example\<lparr>xattr_value_get := ''Pu.bxxx00012Q'' @ replicate 3 NUL\<rparr>
   in xattr_value_validator 1 s = Inr (-1, s\<lparr>xattr_name := ''u.b''\<rparr>)"
proof -
  have b: "buf_str (''Pu.bxxx00012Q'' @ replicate 3 NUL) = ''Pu.bxxx00012Q''" by (simp add: buf_str_def)
  have "c_atoi (take 5 (drop 7 ''Pu.bxxx00012Q'')) = 12" by code_simp
  then have no: "\<not> value_ok ''P'' ''u.b'' ''Q'' ''Pu.bxxx00012Q''" by (simp add: value_ok_def)
  show ?thesis
    using xattr_validator_decides [of 1 "xst_example\<lparr>xattr_value_get := ''Pu.bxxx00012Q'' @ replicate 3 NUL\<rparr>"] b no
    by (simp add: xst_example_def XATTR_NAME_MAX_SZ_def Let_def)
qed

text \<open>
  Names: for numbers below a million the generator gives a name of a length within its bounds,
  with the prefix of its name space, and names for different numbers differ, whatever the random
  values and bounds are.
\<close>

theorem xattr_names_distinct:
  assumes "length (ns_prefix ea) + 6 \<le> from" "from \<le> to" "to \<le> XATTR_NAME_MAX_SZ" "no < length (xattr_name_list_set s)" "no < 1000000"
    "xattr_name_sz s \<le> XATTR_NAME_MAX_SZ" "to < length (xrng s)"
    "length (ns_prefix ea') + 6 \<le> from'" "from' \<le> to'" "to' \<le> XATTR_NAME_MAX_SZ" "no' < length (xattr_name_list_set t)" "no' < 1000000"
    "xattr_name_sz t \<le> XATTR_NAME_MAX_SZ" "to' < length (xrng t)" "no \<noteq> no'"
  shows "\<exists>s' t'. xattr_name_generator no ea from to s = Inr s' \<and> xattr_name_generator no' ea' from' to' t = Inr t'
    \<and> xattr_name s' \<noteq> xattr_name t' \<and> from \<le> length (xattr_name s') \<and> length (xattr_name s') \<le> to
    \<and> take (length (ns_prefix ea)) (xattr_name s') = ns_prefix ea"
proof -
  obtain s' cs where s': "xattr_name_generator no ea from to s = Inr s'" "xattr_name s' = ns_prefix ea @ cs @ zero_pad 6 no"
    "from \<le> length (xattr_name s')" "length (xattr_name s') \<le> to"
    by (rule name_generator_ok [OF assms(1-7)])
  obtain t' cs' where t': "xattr_name_generator no' ea' from' to' t = Inr t'" "xattr_name t' = ns_prefix ea' @ cs' @ zero_pad 6 no'"
    by (rule name_generator_ok [OF assms(8-14)])
  have "length (zero_pad 6 no) = length (zero_pad 6 no')" using length_zero_pad [of 6 no] length_zero_pad [of 6 no'] assms(5,12) by simp
  then have "(ns_prefix ea @ cs) @ zero_pad 6 no \<noteq> (ns_prefix ea' @ cs') @ zero_pad 6 no'"
    using assms(15) zero_pad_inject [of 6 no no'] by (subst append_eq_append_conv) auto
  then have "xattr_name s' \<noteq> xattr_name t'" using s'(2) t'(2) by simp
  then show ?thesis using s' t'(1) by auto
qed

theorem xattr_names_distinct_witness:
  "\<exists>s' t'. xattr_name_generator 0 USER 12 14 xst_example = Inr s' \<and> xattr_name_generator 1 USER 12 14 xst_example = Inr t'
    \<and> xattr_name s' \<noteq> xattr_name t' \<and> 12 \<le> length (xattr_name s') \<and> length (xattr_name s') \<le> 14
    \<and> take (length (ns_prefix USER)) (xattr_name s') = ns_prefix USER"
  by (rule xattr_names_distinct) (simp_all add: xst_example_def XATTR_NAME_MAX_SZ_def)

lemma parse_names_ok:
  "\<forall>m \<in> set ns. NUL \<notin> set m \<and> length m \<le> XATTR_NAME_MAX_SZ \<Longrightarrow>
     parse_names (length ns) (concat (map (\<lambda>m. m @ [NUL]) ns) @ r) = Inr ns"
proof (induction ns)
  case (Cons m ns)
  then have "buf_str (m @ NUL # concat (map (\<lambda>m. m @ [NUL]) ns) @ r) = m" by (simp add: buf_str_NUL)
  then show ?case using Cons by simp
qed simp

lemma is_namelist_member_ok: "is_namelist_member (length ns) nm (ns @ r) = Inr (if nm \<in> set ns then 1 else 0)"
  by (induction ns) auto

text \<open>
  Lists of names: what \<open>listxattr\<close> returns for a list of names is parsed back into that list,
  and \<open>is_namelist_member\<close> then answers whether a name is in it.
\<close>

theorem list_parser_members:
  assumes "\<forall>m \<in> set ns. NUL \<notin> set m \<and> length m \<le> XATTR_NAME_MAX_SZ" "xattr_nums s = length ns" "xattr_name_sz s \<le> XATTR_NAME_MAX_SZ"
  shows "\<exists>s'. list_parser (concat (map (\<lambda>m. m @ [NUL]) ns) @ r) s = Inr s'
    \<and> is_namelist_member (xattr_nums s) nm (xattr_name_list_get s') = Inr (if nm \<in> set ns then 1 else 0)"
  using parse_names_ok [OF assms(1), of r] assms(2,3) is_namelist_member_ok [of ns nm] by (simp add: list_parser_def)

theorem list_parser_members_witness:
  "\<exists>s'. list_parser (concat (map (\<lambda>m. m @ [NUL]) [''u.a'', ''u.b'']) @ ''zz'') xst_example = Inr s'
    \<and> is_namelist_member (xattr_nums xst_example) ''u.b'' (xattr_name_list_get s') = Inr (if ''u.b'' \<in> set [''u.a'', ''u.b''] then 1 else 0)"
  by (rule list_parser_members) (simp_all add: xst_example_def XATTR_NAME_MAX_SZ_def)

end
