(* ===== verification/Semaphore.thy ===== *)
theory Semaphore
  imports Posix_File
begin

text \<open>
  The System V semaphore the multi-process tests of \<open>libocfs2test/file_verify.c\<close> and its users share,
  and what it gives a pool of processes.

  A semaphore set of one semaphore is \<open>Some v\<close>, a removed one \<open>None\<close>. Every operation asks for
  \<open>SEM_UNDO\<close>: the kernel keeps an adjustment per process (\<open>adj\<close>) and adds it to the value when the
  process exits (\<open>sem_undo\<close>). An operation that has to wait has no result yet: \<open>None\<close>.
\<close>

section \<open>The wrappers\<close>

definition set_semvalue :: "io_env \<Rightarrow> nat \<Rightarrow> int \<times> nat option \<times> io_env" where
  "set_semvalue env v = (case sys_call env of (Some e, env') \<Rightarrow> (-1, Some 0, env') | (None, env') \<Rightarrow> (0, Some v, env'))"

text \<open>The new semaphore, or \<open>None\<close> where the function returns -1. The argument is not used.\<close>

definition semaphore_init :: "io_env \<Rightarrow> nat \<Rightarrow> nat option \<times> io_env" where
  "semaphore_init env v = (case sys_call env of
     (Some e, env1) \<Rightarrow> (None, env1)
   | (None, env1) \<Rightarrow> (case set_semvalue env1 1 of (ret, sem, env2) \<Rightarrow> (if ret < 0 then None else sem, env2)))"

definition semaphore_close :: "io_env \<Rightarrow> nat option \<Rightarrow> int \<times> nat option \<times> io_env" where
  "semaphore_close env sem = (case sys_call env of
     (Some e, env') \<Rightarrow> (-1, sem, env') | (None, env') \<Rightarrow> (if sem = None then -1 else 0, None, env'))"

definition semaphore_p :: "io \<Rightarrow> nat option \<Rightarrow> int \<Rightarrow> (int \<times> nat option \<times> int) option" where
  "semaphore_p d sem adj = (if io_fails d then Some (-1, sem, adj) else case sem of
     None \<Rightarrow> Some (-1, sem, adj)
   | Some 0 \<Rightarrow> None
   | Some (Suc v) \<Rightarrow> Some (0, Some v, adj + 1))"

definition semaphore_v :: "io \<Rightarrow> nat option \<Rightarrow> int \<Rightarrow> int \<times> nat option \<times> int" where
  "semaphore_v d sem adj = (if io_fails d then (-1, sem, adj) else case sem of
     None \<Rightarrow> (-1, sem, adj)
   | Some v \<Rightarrow> (0, Some (Suc v), adj - 1))"

definition sem_undo :: "nat option \<Rightarrow> int \<Rightarrow> nat option" where
  "sem_undo sem adj = map_option (\<lambda>v. nat (int v + adj)) sem"

text \<open>The copies in \<open>dir_ops.c\<close>: the value is always 1.\<close>

definition do_set_semvalue :: "io_env \<Rightarrow> int \<times> nat option \<times> io_env" where
  "do_set_semvalue env = set_semvalue env 1"

definition do_semaphore_p :: "io \<Rightarrow> nat option \<Rightarrow> int \<Rightarrow> (int \<times> nat option \<times> int) option" where
  "do_semaphore_p d sem adj = semaphore_p d sem adj"

definition do_semaphore_v :: "io \<Rightarrow> nat option \<Rightarrow> int \<Rightarrow> int \<times> nat option \<times> int" where
  "do_semaphore_v d sem adj = semaphore_v d sem adj"

section \<open>A pool of processes and a fixed number of tokens\<close>

text \<open>
  Processes that only ever move tokens between the shared state and themselves: the number of
  tokens does not change, and with one token there is at most one holder.
\<close>

definition tokens :: "('c \<Rightarrow> int) \<Rightarrow> ('s \<Rightarrow> int) \<Rightarrow> 'c list \<Rightarrow> 's \<Rightarrow> int" where
  "tokens held free cs s = free s + sum_list (map held cs)"

lemma sum_list_change: "i < length xs \<Longrightarrow> sum_list (xs[i := y]) = sum_list xs + y - xs ! i" for y :: int
  by (induction xs arbitrary: i) (auto split: nat.splits)

locale token_pool =
  fixes pstep :: "'c \<Rightarrow> 's \<Rightarrow> 'c \<Rightarrow> 's \<Rightarrow> bool"
    and ok :: "'c \<Rightarrow> bool"
    and held :: "'c \<Rightarrow> int"
    and free :: "'s \<Rightarrow> int"
  assumes step_ok: "pstep c s c' s' \<Longrightarrow> ok c \<Longrightarrow> ok c'"
    and conserve: "pstep c s c' s' \<Longrightarrow> ok c \<Longrightarrow> 0 \<le> free s \<Longrightarrow> free s' + held c' = free s + held c \<and> 0 \<le> free s'"
    and held_nonneg: "ok c \<Longrightarrow> 0 \<le> held c"
begin

lemma pool_step:
  assumes "pstep (cs ! i) s c' s'" "i < length cs" "list_all ok cs" "0 \<le> free s"
  shows "tokens held free (cs[i := c']) s' = tokens held free cs s" "list_all ok (cs[i := c'])" "0 \<le> free s'"
proof -
  have oki: "ok (cs ! i)" using assms(2,3) by (simp add: list_all_length)
  note c = conserve [OF assms(1) oki assms(4)]
  have "map held (cs[i := c']) = (map held cs)[i := held c']" by (simp add: map_update)
  then have "sum_list (map held (cs[i := c'])) = sum_list (map held cs) + held c' - held (cs ! i)"
    using sum_list_change [of i "map held cs" "held c'"] assms(2) by simp
  with c show "tokens held free (cs[i := c']) s' = tokens held free cs s" by (simp add: tokens_def)
  show "list_all ok (cs[i := c'])"
    using assms(2,3) step_ok [OF assms(1) oki] by (auto simp: list_all_length nth_list_update)
  show "0 \<le> free s'" using c by simp
qed

lemma held_le_sum: "list_all ok cs \<Longrightarrow> i < length cs \<Longrightarrow> held (cs ! i) \<le> sum_list (map held cs)"
proof (induction cs arbitrary: i)
  case (Cons c cs)
  have "0 \<le> sum_list (map held cs)"
    using Cons.prems(1) held_nonneg by (intro sum_list_nonneg) (auto simp: list_all_iff)
  with Cons held_nonneg [of c] show ?case by (cases i) fastforce+
qed simp

lemma unique_holder:
  assumes "tokens held free cs s = 1" "0 \<le> free s" "list_all ok cs" "i < length cs" "j < length cs"
    "1 \<le> held (cs ! i)" "1 \<le> held (cs ! j)"
  shows "i = j"
proof (rule ccontr)
  assume "i \<noteq> j"
  let ?n = "length cs"
  have "(\<Sum>k<?n. held (cs ! k)) \<le> 1"
    using assms(1,2) by (simp add: tokens_def sum_list_sum_nth atLeast0LessThan)
  moreover have "(\<Sum>k\<in>{i, j}. held (cs ! k)) \<le> (\<Sum>k<?n. held (cs ! k))"
    using assms(3-5) held_nonneg by (intro sum_mono2) (auto simp: list_all_length)
  ultimately show False using \<open>i \<noteq> j\<close> assms(6,7) by simp
qed

lemma holder_empties:
  "tokens held free cs s = 1 \<Longrightarrow> 0 \<le> free s \<Longrightarrow> list_all ok cs \<Longrightarrow> i < length cs \<Longrightarrow> 1 \<le> held (cs ! i)
     \<Longrightarrow> free s = 0"
  using held_le_sum [of cs i] by (simp add: tokens_def)

lemma no_holder_free:
  assumes "tokens held free cs s = 1" "\<forall>c \<in> set cs. held c = 0"
  shows "free s = 1"
proof -
  have "map held cs = map (\<lambda>_. 0) cs" using assms(2) by simp
  then have "sum_list (map held cs) = 0" by (simp only: sum_list_0)
  with assms(1) show ?thesis by (simp add: tokens_def)
qed

end

lemma semaphore_p_conserves:
  "semaphore_p d (Some v) adj = Some (r, sem, adj') \<Longrightarrow> \<exists>w. sem = Some w \<and> int w + adj' = int v + adj
     \<and> (if r < 0 then adj' = adj else adj' = adj + 1)"
  by (auto simp: semaphore_p_def split: nat.splits if_splits)

lemma semaphore_v_conserves:
  "semaphore_v d (Some v) adj = (r, sem, adj') \<Longrightarrow> \<exists>w. sem = Some w \<and> int w + adj' = int v + adj
     \<and> (if r < 0 then adj' = adj else adj' = adj - 1)"
  by (auto simp: semaphore_v_def split: if_splits)

lemma semaphore_removed:
  "semaphore_p d None adj = Some (-1, None, adj)" "semaphore_v d None adj = (-1, None, adj)" "sem_undo None adj = None"
  by (simp_all add: semaphore_p_def semaphore_v_def sem_undo_def)

end
