(* ===== verification/Directio.thy ===== *)
theory Directio
  imports File_Verify Semaphore
begin

text \<open>
  \<open>programs/directio_test\<close>: direct writes to one file by many processes. \<open>directio_test.c\<close> prepares a
  file, forks children that write chunks under a semaphore and log them, and, run a second time
  with \<open>-V\<close>, verifies the file against the log. \<open>directio_utils.c\<close> has the chunk routines with a fixed
  chunk size; \<open>multi_directio_test.c\<close> does the same from several MPI ranks.

  The routines with the text of those of \<open>libocfs2test/file_verify.c\<close> (whose unit is the record
  \<open>cwu\<close>, here always with \<open>wu_chunksize = CHUNK_SIZE\<close>) are defined by them. A test run is a step
  relation at the granularity of system calls: \<open>child_step\<close> is one move of a child, \<open>parent_step\<close> one of
  the parent, \<open>dt_step\<close> interleaves them with the clock and the signal handler. What the kernel
  answers, the results of \<open>rand()\<close> and the outcome of \<open>system()\<close> are chosen at every step (\<open>dt_choice\<close>).
  The handlers of SIGINT and SIGTERM, which only kill, are not modelled.
\<close>

section \<open>directio_utils.c\<close>

definition CHUNK_SIZE :: nat where
  "CHUNK_SIZE = 1024 * 8"

definition DIRECTIO_SLICE :: nat where
  "DIRECTIO_SLICE = 512"

definition dt_get_rand_ul :: "nat \<Rightarrow> nat \<Rightarrow> nat \<Rightarrow> fault + nat" where
  "dt_get_rand_ul mn mx r = (if mn = 0 \<and> mx = 0 then Inr 0
     else let d = u64 (sub64 mx mn + 1) in if d = 0 then Inl Div_zero else Inr (u64 (mn + r mod d)))"

definition dt_rand_char :: "nat \<Rightarrow> fault + byte" where
  "dt_rand_char r = (case dt_get_rand_ul 0 25 r of Inl e \<Rightarrow> Inl e | Inr v \<Rightarrow> Inr (65 + of_nat v))"

definition dt_read_at :: "nat \<Rightarrow> io_env \<Rightarrow> content \<Rightarrow> nat \<Rightarrow> nat \<Rightarrow> fault + (int \<times> byte list \<times> io_env)" where
  "dt_read_at fuel env f count off = (case read_at fuel env f count off of
     Inl e \<Rightarrow> Inl e
   | Inr (ret, bs, env') \<Rightarrow> Inr (if ret < 0 then -1 else to_int32 (int count), bs, env'))"

definition dt_write_at :: "io_env \<Rightarrow> content \<Rightarrow> byte list \<Rightarrow> nat \<Rightarrow> int \<times> content \<times> io_env" where
  "dt_write_at env f bs off = (case write_at env f bs off of
     (ret, f', env') \<Rightarrow> (if ret < 0 then -1 else to_int32 (int (length bs)), f', env'))"

definition dt_fill_chunk_pattern :: "cwu \<Rightarrow> fault + (byte list \<times> cwu)" where
  "dt_fill_chunk_pattern wu = fill_chunk_pattern (wu\<lparr>wu_chunksize := CHUNK_SIZE\<rparr>)"

definition dt_dump_pattern :: "byte list \<Rightarrow> fault + cwu" where
  "dt_dump_pattern p = dump_pattern p CHUNK_SIZE"

definition dt_verify_chunk_pattern :: "byte list \<Rightarrow> cwu \<Rightarrow> fault + (bool \<times> cwu)" where
  "dt_verify_chunk_pattern p wu = (case dt_fill_chunk_pattern wu of
     Inl e \<Rightarrow> Inl e
   | Inr (tmp, wu') \<Rightarrow> Inr (take CHUNK_SIZE p = tmp, wu'))"

definition dt_prep_rand_dest_write_unit :: "nat \<Rightarrow> nat \<Rightarrow> nat \<Rightarrow> fault + cwu" where
  "dt_prep_rand_dest_write_unit r now chunk_no = (case dt_rand_char r of
     Inl e \<Rightarrow> Inl e
   | Inr c \<Rightarrow> (case dt_fill_chunk_pattern (cwu_zero\<lparr>wu_char := c, wu_chunk_no := chunk_no, wu_timestamp := now\<rparr>) of
        Inl e \<Rightarrow> Inl e
      | Inr (_, wu) \<Rightarrow> Inr wu))"

definition dt_do_write_chunk :: "io_env \<Rightarrow> content \<Rightarrow> cwu \<Rightarrow> fault + (int \<times> content \<times> io_env)" where
  "dt_do_write_chunk env f wu = (case dt_fill_chunk_pattern wu of
     Inl e \<Rightarrow> Inl e
   | Inr (p, _) \<Rightarrow> Inr (dt_write_at env f p (u64 (CHUNK_SIZE * wu_chunk_no wu))))"

definition dt_do_read_chunk :: "nat \<Rightarrow> io_env \<Rightarrow> content \<Rightarrow> nat \<Rightarrow> fault + (int \<times> cwu option \<times> io_env)" where
  "dt_do_read_chunk fuel env f chunk_no =
     (case dt_read_at fuel env f CHUNK_SIZE (u64 (CHUNK_SIZE * chunk_no)) of
        Inl e \<Rightarrow> Inl e
      | Inr (ret, bs, env') \<Rightarrow>
        if ret < 0 then Inr (ret, None, env') else
        (case dt_dump_pattern bs of Inl e \<Rightarrow> Inl e | Inr wu \<Rightarrow> Inr (ret, Some wu, env')))"

text \<open>The list holds a result of \<open>rand()\<close> and a time for every chunk.\<close>

fun dt_prep_orig_loop :: "(nat \<times> nat) list \<Rightarrow> io_env \<Rightarrow> content \<Rightarrow> nat \<Rightarrow> nat \<Rightarrow> nat \<Rightarrow> fault + (int \<times> content \<times> io_env)" where
  "dt_prep_orig_loop rts env f off filesize chunk_no =
     (if \<not> off < filesize then Inr (0, f, env) else
      case rts of [] \<Rightarrow> Inl Out_of_rand
      | (r, now) # rts' \<Rightarrow>
        (case dt_prep_rand_dest_write_unit r now chunk_no of
           Inl e \<Rightarrow> Inl e
         | Inr wu \<Rightarrow> (case dt_do_write_chunk env f wu of
              Inl e \<Rightarrow> Inl e
            | Inr (ret, f', env') \<Rightarrow>
              if ret < 0 then Inr (ret, f', env')
              else dt_prep_orig_loop rts' env' f' (u64 (off + CHUNK_SIZE)) filesize (u64 (chunk_no + 1)))))"

declare dt_prep_orig_loop.simps [simp del]

definition dt_prep_orig_file_in_chunks :: "(nat \<times> nat) list \<Rightarrow> io_env \<Rightarrow> fs \<Rightarrow> string \<Rightarrow> nat \<Rightarrow> fault + (int \<times> fs \<times> io_env)" where
  "dt_prep_orig_file_in_chunks rts env vol fnam filesize =
     (if CHUNK_SIZE mod DIRECTIO_SLICE \<noteq> 0 then Inr (- int EINVAL, vol, env) else
      case sys_open_creat env vol fnam of
        (Inl e, env1) \<Rightarrow> Inr (-1, vol, env1)
      | (Inr f, env1) \<Rightarrow> (case dt_prep_orig_loop rts env1 f 0 filesize 0 of
           Inl e \<Rightarrow> Inl e
         | Inr (ret, f', env2) \<Rightarrow> Inr (ret, vol(fnam \<mapsto> f'), env2)))"

text \<open>\<open>verify_file\<close>: unlike its namesake in \<open>libocfs2test\<close> it does not look at the size of the file.\<close>

function dt_verify_body :: "nat \<Rightarrow> io_env \<Rightarrow> content \<Rightarrow> cwu list \<Rightarrow> nat \<Rightarrow> fault + int" where
  "dt_verify_body fuel env f wus i =
     (if \<not> i < length wus then Inr 0
      else (case dt_do_read_chunk fuel env f i of
         Inl e \<Rightarrow> Inl e
       | Inr (ret, None, env') \<Rightarrow> Inr ret
       | Inr (ret, Some wu, env') \<Rightarrow>
         (case verify_chunk CHUNK_SIZE (wus ! i) ret i wu of
            Inl e \<Rightarrow> Inl e
          | Inr (Some r) \<Rightarrow> Inr r
          | Inr None \<Rightarrow> dt_verify_body fuel env' f wus (i + 1))))"
  by pat_completeness auto
termination by (relation "measure (\<lambda>(fuel, env, f, wus, i). length wus - i)") auto

declare dt_verify_body.simps [simp del]

definition dt_verify_file :: "nat \<Rightarrow> io_env \<Rightarrow> fs \<Rightarrow> string + cwu list \<Rightarrow> string \<Rightarrow> nat \<Rightarrow> fault + int" where
  "dt_verify_file fuel env vol src fnam filesize =
     (let num_chunks = filesize div CHUNK_SIZE in
      case (case src of
              Inr remote_wus \<Rightarrow> if length remote_wus < num_chunks then Inl Overrun
                else Inr (None, take num_chunks remote_wus)
            | Inl txt \<Rightarrow> fv_read_log num_chunks CHUNK_SIZE (stream_open txt) (init_wus num_chunks CHUNK_SIZE)) of
        Inl e \<Rightarrow> Inl e
      | Inr (Some r, _) \<Rightarrow> Inr r
      | Inr (None, wus) \<Rightarrow>
        (case sys_open_ro env vol fnam of
           (Inl e, env1) \<Rightarrow> Inr (-1)
         | (Inr f, env1) \<Rightarrow> dt_verify_body fuel env1 f wus 0))"

text \<open>
  \<open>log_write\<close>: a record is sent through the socket with its terminating zero (a blocking stream socket
  takes all of it or fails), or printed to the local log and flushed. The results of \<open>fprintf\<close>,
  \<open>fflush\<close> and \<open>fsync\<close> are not looked at: when the flush fails, \<open>out\<close> bytes of the record have reached the
  log, the rest is lost, and the function returns 0 all the same. The second component of the result
  is what only \<open>ferror\<close> would tell, that the write of the local log failed. (Only \<open>fsync\<close> failing
  leaves the contents of the log as they are.)
\<close>

definition dt_log_write :: "io \<Rightarrow> nat \<Rightarrow> bool \<Rightarrow> string \<Rightarrow> cwu \<Rightarrow> int \<times> bool \<times> string" where
  "dt_log_write d out dscv log wu = (if dscv then
       let rec = take 1023 (show_cwu wu) @ [CHR 0x00] in
       if io_fails d then (- int EINVAL, False, log) else (int (length rec), False, log @ rec)
     else if io_fails d then (0, True, log @ take out (show_cwu wu))
     else (0, False, log @ show_cwu wu))"

section \<open>The options\<close>

record dt_opts =
  dt_num_children :: nat
  dt_file_size :: nat
  dt_log_path :: string
  dt_workfile :: string
  dt_lsnr_addr :: string
  dt_port :: nat
  dt_basc :: bool
  dt_appd :: bool
  dt_fihl :: bool
  dt_dscv :: bool
  dt_veri :: bool
  dt_num_tests :: nat
  dt_verbose :: bool

definition dt_defaults :: dt_opts where
  "dt_defaults = \<lparr>dt_num_children = 10, dt_file_size = 1024 * 1024, dt_log_path = [], dt_workfile = [],
     dt_lsnr_addr = [], dt_port = 9999, dt_basc = False, dt_appd = False, dt_fihl = False, dt_dscv = False,
     dt_veri = False, dt_num_tests = 0, dt_verbose = False\<rparr>"

definition PATH_MAX :: nat where
  "PATH_MAX = 4096"

definition HOSTNAME_LEN :: nat where
  "HOSTNAME_LEN = 256"

definition c_atol_ul :: "string \<Rightarrow> nat" where
  "c_atol_ul s = nat (c_atol s mod 2 ^ 64)"

text \<open>One option. \<open>Inl\<close> where \<open>strcpy\<close> leaves the buffer; \<open>None\<close> is \<open>exit(1)\<close> in \<open>usage\<close>.\<close>

definition dt_opt_step :: "char \<times> string \<Rightarrow> dt_opts \<Rightarrow> fault + dt_opts option" where
  "dt_opt_step co opt = (case co of (c, optarg) \<Rightarrow>
     if c = CHR ''p'' then Inr (Some (opt\<lparr>dt_num_children := c_atol_ul optarg\<rparr>))
     else if c = CHR ''l'' then Inr (Some (opt\<lparr>dt_file_size := c_atol_ul optarg\<rparr>))
     else if c = CHR ''o'' then if length optarg < PATH_MAX then Inr (Some (opt\<lparr>dt_log_path := optarg\<rparr>)) else Inl Overrun
     else if c = CHR ''w'' then if length optarg < PATH_MAX then Inr (Some (opt\<lparr>dt_workfile := optarg\<rparr>)) else Inl Overrun
     else if c = CHR ''b'' then Inr (Some (opt\<lparr>dt_basc := True, dt_num_tests := dt_num_tests opt + 1\<rparr>))
     else if c = CHR ''a'' then Inr (Some (opt\<lparr>dt_appd := True, dt_num_tests := dt_num_tests opt + 1\<rparr>))
     else if c = CHR ''f'' then Inr (Some (opt\<lparr>dt_fihl := True, dt_num_tests := dt_num_tests opt + 1\<rparr>))
     else if c = CHR ''d'' then
       Inr (Some (opt\<lparr>dt_dscv := True, dt_appd := True, dt_num_tests := dt_num_tests opt + 1\<rparr>))
     else if c = CHR ''V'' then Inr (Some (opt\<lparr>dt_veri := True, dt_num_tests := dt_num_tests opt + 1\<rparr>))
     else if c = CHR ''v'' then Inr (Some (opt\<lparr>dt_verbose := True\<rparr>))
     else if c = CHR ''A'' then
       if length optarg < HOSTNAME_LEN then Inr (Some (opt\<lparr>dt_lsnr_addr := optarg\<rparr>)) else Inl Overrun
     else if c = CHR ''P'' then Inr (Some (opt\<lparr>dt_port := c_atol_ul optarg\<rparr>))
     else if c = CHR ''h'' then Inr None
     else Inr (Some opt))"

fun dt_opt_loop :: "(char \<times> string) list \<Rightarrow> dt_opts \<Rightarrow> fault + dt_opts option" where
  "dt_opt_loop [] opt = Inr (Some opt)"
| "dt_opt_loop (co # cos) opt = (case dt_opt_step co opt of
     Inl e \<Rightarrow> Inl e | Inr None \<Rightarrow> Inr None | Inr (Some opt') \<Rightarrow> dt_opt_loop cos opt')"

text \<open>\<open>Inr None\<close>: \<open>usage\<close> exits with 1, in the loop or because \<open>parse_opts\<close> returned an error.\<close>

definition dt_parse_opts :: "(char \<times> string) list \<Rightarrow> fault + dt_opts option" where
  "dt_parse_opts cos = (case dt_opt_loop cos dt_defaults of
     Inl e \<Rightarrow> Inl e
   | Inr None \<Rightarrow> Inr None
   | Inr (Some opt) \<Rightarrow> Inr (
       if dt_workfile opt = [] then None
       else if dt_dscv opt \<and> dt_lsnr_addr opt = [] then None
       else if dt_file_size opt mod DIRECTIO_SLICE \<noteq> 0 then None
       else if dt_num_tests opt = 0 then Some opt
       else if 1 < dt_num_tests opt then None
       else Some opt))"

text \<open>
  \<open>open_logfile\<close>. The path is an array and never null, so the fall-backs to standard input and
  output are not taken; an empty path cannot be opened.
\<close>

definition dt_open_logfile :: "io_env \<Rightarrow> fs \<Rightarrow> bool \<Rightarrow> string \<Rightarrow> int \<times> fs \<times> io_env" where
  "dt_open_logfile env vol veri logn = (case sys_call env of
     (Some e, env') \<Rightarrow> (- int EINVAL, vol, env')
   | (None, env') \<Rightarrow>
     if logn = [] then (- int EINVAL, vol, env')
     else if veri then (if vol logn = None then - int EINVAL else 0, vol, env')
     else (0, vol(logn \<mapsto> []), env'))"

text \<open>\<open>setup\<close>: a return value, the options and the volume; \<open>Inr None\<close> is \<open>exit(1)\<close>.\<close>

definition dt_setup :: "io_env \<Rightarrow> fs \<Rightarrow> (char \<times> string) list \<Rightarrow> fault + (int \<times> dt_opts \<times> fs \<times> io_env) option" where
  "dt_setup env vol cos = (case dt_parse_opts cos of
     Inl e \<Rightarrow> Inl e
   | Inr None \<Rightarrow> Inr None
   | Inr (Some opt) \<Rightarrow>
     if dt_dscv opt then
       (case sys_call env of (Some e, env') \<Rightarrow> Inr (Some (-1, opt, vol, env')) | (None, env') \<Rightarrow> Inr (Some (0, opt, vol, env')))
     else (case dt_open_logfile env vol (dt_veri opt) (dt_log_path opt) of
        (ret, vol', env') \<Rightarrow> Inr (Some (ret, opt, vol', env'))))"

text \<open>
  \<open>main\<close> and \<open>run_test\<close>. The return value of \<open>basic_test\<close>, when that is the test, is an argument: the
  step relation below says which it can be. The exit status is taken modulo 256.
\<close>

definition dt_main :: "nat \<Rightarrow> io_env \<Rightarrow> fs \<Rightarrow> (char \<times> string) list \<Rightarrow> int \<Rightarrow> fault + int" where
  "dt_main fuel env vol cos basic = (case dt_setup env vol cos of
     Inl e \<Rightarrow> Inl e
   | Inr None \<Rightarrow> Inr 1
   | Inr (Some (ret, opt, vol', env')) \<Rightarrow>
     if ret \<noteq> 0 then Inr (ret mod 256)
     else if dt_num_tests opt = 0 then Inr 0
     else if dt_veri opt then (case vol' (dt_log_path opt) of
        None \<Rightarrow> Inl Null_deref
      | Some txt \<Rightarrow> (case dt_verify_file fuel env' vol' (Inl (map char_of_byte txt)) (dt_workfile opt) (dt_file_size opt) of
           Inl e \<Rightarrow> Inl e | Inr r \<Rightarrow> Inr (r mod 256)))
     else Inr (basic mod 256))"

section \<open>The processes of basic_test\<close>

text \<open>
  Where a child is: before \<open>semaphore_p\<close>, choosing a unit, with \<open>k\<close> bytes of the chunk written,
  before \<open>log_write\<close>, before \<open>semaphore_v\<close>; in the destructive test before the second \<open>semaphore_p\<close> and
  before \<open>system\<close>; at the label \<open>child_bail\<close>; exited with a status.
\<close>

datatype dt_pc = C_head | C_prep | C_write nat | C_log | C_unlock | C_crash_lock | C_crash | C_bail | C_exit nat

record dt_child =
  c_pc :: dt_pc
  c_j :: nat
  c_wu :: cwu
  c_ret :: int
  c_adj :: int
  c_reaped :: bool
  c_logerr :: bool

record dt_shared =
  d_sem :: "nat option"
  d_file :: content
  d_log :: string
  d_now :: nat
  d_down :: bool

datatype dt_system = Sys_boots | Sys_returns int

record dt_choice =
  x_io :: io
  x_out :: nat
  x_rand1 :: nat
  x_rand2 :: nat
  x_system :: dt_system

abbreviation num_chunks :: "dt_opts \<Rightarrow> nat" where
  "num_chunks opt \<equiv> dt_file_size opt div CHUNK_SIZE"

text \<open>A child that goes to its next round, and one that fails with \<open>ret\<close>.\<close>

definition c_next :: "dt_child \<Rightarrow> dt_child" where
  "c_next c = c\<lparr>c_j := c_j c + 1, c_pc := C_head\<rparr>"

definition c_fail :: "int \<Rightarrow> dt_child \<Rightarrow> dt_child" where
  "c_fail ret c = c\<lparr>c_ret := ret, c_pc := C_bail\<rparr>"

definition child_lock :: "dt_choice \<Rightarrow> dt_pc \<Rightarrow> dt_child \<Rightarrow> dt_shared \<Rightarrow> (fault + dt_child \<times> dt_shared) option" where
  "child_lock x pc c sh = (case semaphore_p (x_io x) (d_sem sh) (c_adj c) of
     None \<Rightarrow> None
   | Some (r, sem, adj) \<Rightarrow> Some (Inr (
       if r < 0 then c_fail (-1) (c\<lparr>c_adj := adj\<rparr>) else c\<lparr>c_adj := adj, c_pc := pc\<rparr>, sh\<lparr>d_sem := sem\<rparr>)))"

text \<open>The write loop, one \<open>pwrite\<close> at a time.\<close>

definition child_write :: "dt_choice \<Rightarrow> nat \<Rightarrow> dt_child \<Rightarrow> dt_shared \<Rightarrow> (fault + dt_child \<times> dt_shared) option" where
  "child_write x k c sh = (case dt_fill_chunk_pattern (c_wu c) of
     Inl e \<Rightarrow> Some (Inl e)
   | Inr (p, _) \<Rightarrow>
     (case sys_pwrite [x_io x] (d_file sh) (drop k p) (u64 (CHUNK_SIZE * wu_chunk_no (c_wu c)) + k) of
        (Inl e, f', _) \<Rightarrow> Some (Inr (c_fail (-1) c, sh\<lparr>d_file := f'\<rparr>))
      | (Inr n, f', _) \<Rightarrow> Some (Inr (
          if k + n < CHUNK_SIZE then c\<lparr>c_pc := C_write (k + n)\<rparr>
          else c\<lparr>c_ret := int CHUNK_SIZE, c_pc := C_log\<rparr>, sh\<lparr>d_file := f'\<rparr>))))"

text \<open>After \<open>semaphore_v\<close>: on to the next round, unless the destructive test wants the machine down.\<close>

definition child_after :: "dt_opts \<Rightarrow> dt_choice \<Rightarrow> dt_child \<Rightarrow> fault + dt_child" where
  "child_after opt x c = (if \<not> dt_dscv opt then Inr (c_next c)
     else if 1 < c_j c \<and> c_j c < sub64 (num_chunks opt) 1 then
       (case dt_get_rand_ul 1 (num_chunks opt) (x_rand1 x) of
          Inl e \<Rightarrow> Inl e
        | Inr v \<Rightarrow> Inr (if v = num_chunks opt div 2 then c\<lparr>c_pc := C_crash_lock\<rparr> else c_next c))
     else Inr (if c_j c = sub64 (num_chunks opt) 1 then c\<lparr>c_pc := C_crash_lock\<rparr> else c_next c))"

definition child_choose :: "dt_opts \<Rightarrow> dt_choice \<Rightarrow> dt_child \<Rightarrow> dt_shared \<Rightarrow> fault + dt_child" where
  "child_choose opt x c sh =
     (case (if dt_appd opt then Inr (c_j c) else dt_get_rand_ul 0 (sub64 (num_chunks opt) 1) (x_rand1 x)) of
        Inl e \<Rightarrow> Inl e
      | Inr chunk_no \<Rightarrow> (case dt_prep_rand_dest_write_unit (x_rand2 x) (d_now sh) chunk_no of
           Inl e \<Rightarrow> Inl e
         | Inr wu \<Rightarrow> Inr (c\<lparr>c_wu := wu, c_pc := C_write 0\<rparr>)))"

text \<open>One move of a child; \<open>None\<close> when it cannot move (it waits for the semaphore or has exited).\<close>

definition child_step :: "dt_opts \<Rightarrow> dt_choice \<Rightarrow> dt_child \<Rightarrow> dt_shared \<Rightarrow> (fault + dt_child \<times> dt_shared) option" where
  "child_step opt x c sh = (case c_pc c of
     C_head \<Rightarrow> if c_j c < num_chunks opt then child_lock x C_prep c sh else Some (Inr (c\<lparr>c_pc := C_bail\<rparr>, sh))
   | C_prep \<Rightarrow> (case child_choose opt x c sh of Inl e \<Rightarrow> Some (Inl e) | Inr c' \<Rightarrow> Some (Inr (c', sh)))
   | C_write k \<Rightarrow> child_write x k c sh
   | C_log \<Rightarrow> (case dt_log_write (x_io x) (x_out x) (dt_dscv opt) (d_log sh) (c_wu c) of (ret, err, log') \<Rightarrow>
       Some (Inr (if ret < 0 then c_fail ret c else c\<lparr>c_ret := ret, c_logerr := c_logerr c \<or> err, c_pc := C_unlock\<rparr>,
         sh\<lparr>d_log := log'\<rparr>)))
   | C_unlock \<Rightarrow> (case semaphore_v (x_io x) (d_sem sh) (c_adj c) of (r, sem, adj) \<Rightarrow>
       if r < 0 then Some (Inr (c_fail (-1) (c\<lparr>c_adj := adj\<rparr>), sh\<lparr>d_sem := sem\<rparr>))
       else (case child_after opt x (c\<lparr>c_adj := adj\<rparr>) of
          Inl e \<Rightarrow> Some (Inl e) | Inr c' \<Rightarrow> Some (Inr (c', sh\<lparr>d_sem := sem\<rparr>))))
   | C_crash_lock \<Rightarrow> child_lock x C_crash c sh
   | C_crash \<Rightarrow> (case x_system x of
       Sys_boots \<Rightarrow> Some (Inr (c, sh\<lparr>d_down := True\<rparr>))
     | Sys_returns r \<Rightarrow> Some (Inr (if r < 0 then c\<lparr>c_pc := C_bail\<rparr> else c_next c, sh)))
   | C_bail \<Rightarrow> Some (Inr (c\<lparr>c_pc := C_exit (nat ((if 0 < c_ret c then 0 else c_ret c) mod 256)), c_adj := 0\<rparr>,
                       sh\<lparr>d_sem := sem_undo (d_sem sh) (c_adj c)\<rparr>))
   | C_exit st \<Rightarrow> None)"

text \<open>The parent: forking, waiting for child \<open>i\<close>, returned from \<open>basic_test\<close>.\<close>

datatype dt_ppc = P_fork | P_wait nat | P_done int

record dt_sys =
  sh :: dt_shared
  kids :: "dt_child list"
  p_pc :: dt_ppc
  p_ret :: int
  p_status :: nat
  p_sem_id :: nat

definition new_child :: dt_child where
  "new_child = \<lparr>c_pc = C_head, c_j = 0, c_wu = cwu_zero, c_ret = 0, c_adj = 0, c_reaped = False, c_logerr = False\<rparr>"

definition kid_exited :: "dt_child \<Rightarrow> bool" where
  "kid_exited c \<longleftrightarrow> (case c_pc c of C_exit st \<Rightarrow> True | _ \<Rightarrow> False)"

definition exit_status :: "dt_child \<Rightarrow> nat" where
  "exit_status c = (case c_pc c of C_exit st \<Rightarrow> st | _ \<Rightarrow> 0)"

text \<open>
  \<open>waitpid\<close> on a child the handler of SIGCHLD has already reaped fails and leaves \<open>status\<close> as it is.
  \<open>d\<close> says whether \<open>fork\<close> or \<open>semctl\<close> fail. \<open>None\<close>: the parent waits, or has returned.
\<close>

definition parent_wait :: "nat \<Rightarrow> dt_sys \<Rightarrow> dt_sys option" where
  "parent_wait i s = (let c = kids s ! i in
     if \<not> kid_exited c then None
     else let st = (if c_reaped c then p_status s else exit_status c) in
       Some (s\<lparr>kids := (kids s)[i := c\<lparr>c_reaped := True\<rparr>], p_status := st, p_ret := int st, p_pc := P_wait (i + 1)\<rparr>))"

definition parent_step :: "dt_opts \<Rightarrow> io \<Rightarrow> dt_sys \<Rightarrow> dt_sys option" where
  "parent_step opt d s = (case p_pc s of
     P_fork \<Rightarrow> if length (kids s) < dt_num_children opt then
         if io_fails d then Some (s\<lparr>p_pc := P_done (-1)\<rparr>)
         else Some (s\<lparr>kids := kids s @ [new_child]\<rparr>)
       else Some (s\<lparr>p_pc := P_wait 0\<rparr>)
   | P_wait i \<Rightarrow> if i < dt_num_children opt then parent_wait i s
       else let sem = (if p_sem_id s = 0 then d_sem (sh s) else fst (snd (semaphore_close [d] (d_sem (sh s))))) in
         Some (s\<lparr>sh := (sh s)\<lparr>d_sem := sem\<rparr>, p_pc := P_done (p_ret s)\<rparr>)
   | P_done r \<Rightarrow> None)"

text \<open>\<open>wait3\<close> with \<open>WNOHANG\<close> until no child is left to reap.\<close>

definition sigchld_handler :: "dt_sys \<Rightarrow> dt_sys" where
  "sigchld_handler s = s\<lparr>kids := map (\<lambda>c. if kid_exited c then c\<lparr>c_reaped := True\<rparr> else c) (kids s)\<rparr>"

text \<open>
  The steps of a run. Time, as \<open>gettimeofday\<close> gives it, does not run backwards, and stays within a
  signed 64-bit number of microseconds.
\<close>

inductive dt_step :: "dt_opts \<Rightarrow> dt_sys \<Rightarrow> dt_sys \<Rightarrow> bool" for opt where
  child: "\<not> d_down (sh s) \<Longrightarrow> i < length (kids s) \<Longrightarrow> child_step opt x (kids s ! i) (sh s) = Some (Inr (c, sh'))
    \<Longrightarrow> dt_step opt s (s\<lparr>kids := (kids s)[i := c], sh := sh'\<rparr>)"
| parent: "\<not> d_down (sh s) \<Longrightarrow> parent_step opt d s = Some s' \<Longrightarrow> dt_step opt s s'"
| sigchld: "\<not> d_down (sh s) \<Longrightarrow> dt_step opt s (sigchld_handler s)"
| tick: "\<not> d_down (sh s) \<Longrightarrow> d_now (sh s) \<le> t \<Longrightarrow> t < 2 ^ 63 \<Longrightarrow> dt_step opt s (s\<lparr>sh := (sh s)\<lparr>d_now := t\<rparr>\<rparr>)"

text \<open>
  \<open>basic_test\<close> up to the first \<open>fork\<close>: \<open>Inl\<close> of a return value, or the state the forking starts from.
  \<open>junk\<close> is what \<open>status\<close> holds before it is set, \<open>sem_id\<close> the identifier of the semaphore.
\<close>

definition dt_init :: "nat \<Rightarrow> content \<Rightarrow> nat \<Rightarrow> nat \<Rightarrow> nat \<Rightarrow> dt_sys" where
  "dt_init sem f now junk sem_id =
     \<lparr>sh = \<lparr>d_sem = Some sem, d_file = f, d_log = [], d_now = now, d_down = False\<rparr>, kids = [], p_pc = P_fork,
      p_ret = 0, p_status = junk, p_sem_id = sem_id\<rparr>"

definition basic_test_start :: "(nat \<times> nat) list \<Rightarrow> io_env \<Rightarrow> fs \<Rightarrow> dt_opts \<Rightarrow> nat \<Rightarrow> nat \<Rightarrow> nat \<Rightarrow> fault + (int + dt_sys)" where
  "basic_test_start rts env vol opt now junk sem_id = (case semaphore_init env 1 of
     (None, env1) \<Rightarrow> Inr (Inl (-1))
   | (Some sem, env1) \<Rightarrow>
     (case (if dt_basc opt then dt_prep_orig_file_in_chunks rts env1 vol (dt_workfile opt) (dt_file_size opt)
            else Inr (0, vol, env1)) of
        Inl e \<Rightarrow> Inl e
      | Inr (ret, vol1, env2) \<Rightarrow>
        if ret \<noteq> 0 then Inr (Inl ret) else
        (case sys_open_creat env2 vol1 (dt_workfile opt) of
           (Inl e, env3) \<Rightarrow> Inr (Inl (-1))
         | (Inr f, env3) \<Rightarrow>
           if dt_fihl opt then
             (case sys_ftruncate env3 f (dt_file_size opt) of
                (Some e, f', env4) \<Rightarrow> Inr (Inl (int e))
              | (None, f', env4) \<Rightarrow> Inr (Inr (dt_init sem f' now junk sem_id)))
           else Inr (Inr (dt_init sem f now junk sem_id)))))"

end
