(* ===== verification/Transitions.thy ===== *)
theory Transitions
  imports Main
begin

text \<open>
  Step relations of programs with several processes. \<open>step_system\<close>: an invariant that every step keeps.
  \<open>progressing\<close>: while a state is not final some step uses up work, so a final one can be reached.
  \<open>bounded_system\<close>: every step does, so no run is longer than the work at its start.
\<close>

locale step_system =
  fixes step :: "'s \<Rightarrow> 's \<Rightarrow> bool" and inv :: "'s \<Rightarrow> bool"
  assumes step_inv: "step s s' \<Longrightarrow> inv s \<Longrightarrow> inv s'"
begin

lemma steps_inv: "step\<^sup>*\<^sup>* s s' \<Longrightarrow> inv s \<Longrightarrow> inv s'"
  by (induction rule: rtranclp_induct) (auto intro: step_inv)

lemma runs_inv: "(step ^^ k) s s' \<Longrightarrow> inv s \<Longrightarrow> inv s'"
  by (rule steps_inv [OF relpowp_imp_rtranclp])

end

locale progressing = step_system +
  fixes work :: "'s \<Rightarrow> nat" and stop :: "'s \<Rightarrow> bool"
  assumes progress: "inv s \<Longrightarrow> \<not> stop s \<Longrightarrow> \<exists>s'. step s s' \<and> work s' < work s"
begin

lemma reaches_stop: "inv s \<Longrightarrow> \<exists>s'. step\<^sup>*\<^sup>* s s' \<and> stop s' \<and> inv s'"
proof (induction "work s" arbitrary: s rule: less_induct)
  case less
  show ?case
  proof (cases "stop s")
    case False
    then obtain s1 where s1: "step s s1" "work s1 < work s" using progress less.prems by blast
    with less.hyps [OF s1(2) step_inv [OF s1(1) less.prems]] show ?thesis by (meson converse_rtranclp_into_rtranclp)
  qed (use less.prems in auto)
qed

end

locale bounded_system = step_system +
  fixes work :: "'s \<Rightarrow> nat"
  assumes step_work: "step s s' \<Longrightarrow> inv s \<Longrightarrow> work s' < work s"
begin

lemma runs_work: "(step ^^ k) s s' \<Longrightarrow> inv s \<Longrightarrow> k + work s' \<le> work s"
proof (induction k arbitrary: s')
  case (Suc k)
  then obtain m where m: "(step ^^ k) s m" "step m s'" by auto
  with Suc.IH [OF m(1) Suc.prems(2)] step_work [OF m(2) runs_inv [OF m(1) Suc.prems(2)]] show ?case by simp
qed simp

end

text \<open>A bounded system progresses until no step is left.\<close>

sublocale bounded_system \<subseteq> progressing step inv work "\<lambda>s. \<nexists>s'. step s s'"
  by unfold_locales (use step_work in blast)

end
