(* ===== verification/Directio_Runs.thy ===== *)
theory Directio_Runs
  imports Directio Transitions
begin

text \<open>
  Runs of \<open>directio_test\<close>: the invariants of the step relation \<open>dt_step\<close> (the semaphore and its
  holders, the file and the log), and the theorems on whole runs.
\<close>

section \<open>The state of a child\<close>

definition in_section :: "dt_child \<Rightarrow> bool" where
  "in_section c \<longleftrightarrow> (case c_pc c of C_prep \<Rightarrow> True | C_write k \<Rightarrow> True | C_log \<Rightarrow> True | C_unlock \<Rightarrow> True | C_crash \<Rightarrow> True
     | _ \<Rightarrow> False)"

definition in_loop :: "dt_child \<Rightarrow> bool" where
  "in_loop c \<longleftrightarrow> in_section c \<or> c_pc c = C_crash_lock"

text \<open>What holds of every child: the adjustment counts the semaphore it holds.\<close>

definition kid_ok :: "dt_opts \<Rightarrow> dt_child \<Rightarrow> bool" where
  "kid_ok opt c \<longleftrightarrow> 0 \<le> c_adj c \<and> (in_section c \<longrightarrow> 1 \<le> c_adj c) \<and> (kid_exited c \<longrightarrow> c_adj c = 0) \<and> - 256 < c_ret c
     \<and> (in_loop c \<longrightarrow> c_j c < num_chunks opt) \<and> c_j c \<le> num_chunks opt
     \<and> (\<forall>k. c_pc c = C_write k \<longrightarrow> k < CHUNK_SIZE)
     \<and> (\<not> dt_dscv opt \<longrightarrow> c_pc c \<noteq> C_crash_lock \<and> c_pc c \<noteq> C_crash \<and> (c_pc c = C_head \<longrightarrow> c_adj c = 0)
          \<and> (in_section c \<longrightarrow> c_adj c = 1))"

lemmas kid_defs = kid_ok_def in_loop_def in_section_def kid_exited_def c_next_def c_fail_def

named_theorems child_defs \<open>the moves of a child\<close>

declare child_step_def [child_defs] child_lock_def [child_defs] child_write_def [child_defs]
  child_after_def [child_defs] child_choose_def [child_defs]

lemma CHUNK_SIZE_pos: "0 < CHUNK_SIZE"
  by (simp add: CHUNK_SIZE_def)

definition sem_free :: "dt_shared \<Rightarrow> int" where
  "sem_free d = (case d_sem d of None \<Rightarrow> 0 | Some v \<Rightarrow> int v)"

definition child_moves :: "dt_opts \<Rightarrow> dt_child \<Rightarrow> dt_shared \<Rightarrow> dt_child \<Rightarrow> dt_shared \<Rightarrow> bool" where
  "child_moves opt c s c' s' \<longleftrightarrow> d_sem s \<noteq> None \<and> (\<exists>x. child_step opt x c s = Some (Inr (c', s')))"

lemma child_after_cases:
  assumes "child_after opt x c = Inr c'"
  shows "c' = c_next c \<or> dt_dscv opt \<and> c' = c\<lparr>c_pc := C_crash_lock\<rparr>"
proof (cases "dt_get_rand_ul 1 (num_chunks opt) (x_rand1 x)")
  case (Inl e)
  with assms show ?thesis unfolding child_after_def by (simp split: if_splits)
next
  case (Inr v)
  with assms show ?thesis unfolding child_after_def by (simp split: if_splits)
qed

lemma child_choose_cases:
  assumes "child_choose opt x c s = Inr c'"
  shows "\<exists>wu. c' = c\<lparr>c_wu := wu, c_pc := C_write 0\<rparr>"
  using assms by (auto simp: child_choose_def split: if_splits sum.splits)

text \<open>Every way a child can move.\<close>

lemma child_step_cases:
  assumes "child_step opt x c s = Some (Inr (c', s'))"
  obtains
    (lock) r sem adj where "c_pc c = C_head" "c_j c < num_chunks opt" "semaphore_p (x_io x) (d_sem s) (c_adj c) = Some (r, sem, adj)"
      "c' = (if r < 0 then c_fail (-1) (c\<lparr>c_adj := adj\<rparr>) else c\<lparr>c_adj := adj, c_pc := C_prep\<rparr>)" "s' = s\<lparr>d_sem := sem\<rparr>"
  | (leave) "c_pc c = C_head" "\<not> c_j c < num_chunks opt" "c' = c\<lparr>c_pc := C_bail\<rparr>" "s' = s"
  | (choose) "c_pc c = C_prep" "child_choose opt x c s = Inr c'" "s' = s"
  | (store) k where "c_pc c = C_write k" "child_write x k c s = Some (Inr (c', s'))"
  | (log) ret err log' where "c_pc c = C_log" "dt_log_write (x_io x) (x_out x) (dt_dscv opt) (d_log s) (c_wu c) = (ret, err, log')"
      "c' = (if ret < 0 then c_fail ret c else c\<lparr>c_ret := ret, c_logerr := c_logerr c \<or> err, c_pc := C_unlock\<rparr>)"
      "s' = s\<lparr>d_log := log'\<rparr>"
  | (unlock) r sem adj where "c_pc c = C_unlock" "semaphore_v (x_io x) (d_sem s) (c_adj c) = (r, sem, adj)"
      "if r < 0 then c' = c_fail (-1) (c\<lparr>c_adj := adj\<rparr>) else child_after opt x (c\<lparr>c_adj := adj\<rparr>) = Inr c'"
      "s' = s\<lparr>d_sem := sem\<rparr>"
  | (relock) r sem adj where "c_pc c = C_crash_lock" "semaphore_p (x_io x) (d_sem s) (c_adj c) = Some (r, sem, adj)"
      "c' = (if r < 0 then c_fail (-1) (c\<lparr>c_adj := adj\<rparr>) else c\<lparr>c_adj := adj, c_pc := C_crash\<rparr>)" "s' = s\<lparr>d_sem := sem\<rparr>"
  | (crash) "c_pc c = C_crash" "c' = c" "s' = s\<lparr>d_down := True\<rparr>"
  | (no_crash) r :: int where "c_pc c = C_crash" "c' = (if r < 0 then c\<lparr>c_pc := C_bail\<rparr> else c_next c)" "s' = s"
  | (quit) "c_pc c = C_bail" "c' = c\<lparr>c_pc := C_exit (nat ((if 0 < c_ret c then 0 else c_ret c) mod 256)), c_adj := 0\<rparr>"
      "s' = s\<lparr>d_sem := sem_undo (d_sem s) (c_adj c)\<rparr>"
proof (cases "c_pc c")
  case C_head
  with assms show ?thesis
    by (auto simp: child_step_def child_lock_def split: if_splits option.splits intro: lock leave)
next
  case C_prep
  with assms show ?thesis by (auto simp: child_step_def split: sum.splits intro: choose)
next
  case (C_write k)
  with assms show ?thesis by (auto simp: child_step_def intro: store)
next
  case C_log
  obtain ret err log' where r: "dt_log_write (x_io x) (x_out x) (dt_dscv opt) (d_log s) (c_wu c) = (ret, err, log')"
    by (metis prod_cases3)
  with C_log assms show ?thesis by (intro log [OF C_log r]) (auto simp: child_step_def)
next
  case C_unlock
  obtain r sem adj where v: "semaphore_v (x_io x) (d_sem s) (c_adj c) = (r, sem, adj)" by (metis prod_cases3)
  with C_unlock assms show ?thesis
    by (intro unlock [OF C_unlock v]) (auto simp: child_step_def split: if_splits sum.splits)
next
  case C_crash_lock
  with assms show ?thesis by (auto simp: child_step_def child_lock_def split: option.splits intro: relock)
next
  case C_crash
  show ?thesis
  proof (cases "x_system x")
    case Sys_boots
    with C_crash assms show ?thesis by (intro crash) (auto simp: child_step_def)
  next
    case (Sys_returns r)
    with C_crash assms show ?thesis by (intro no_crash [of r]) (auto simp: child_step_def)
  qed
next
  case C_bail
  with assms show ?thesis by (intro quit) (auto simp: child_step_def)
next
  case (C_exit st)
  with assms show ?thesis by (simp add: child_step_def)
qed

definition kid_chunk :: "dt_child \<Rightarrow> byte list" where
  "kid_chunk c = chunk_bytes (c_wu c\<lparr>wu_chunksize := CHUNK_SIZE\<rparr>)"

lemma length_kid_chunk: "length (kid_chunk c) = CHUNK_SIZE"
  by (simp add: kid_chunk_def length_chunk_bytes CHUNK_SIZE_def)

lemma dt_fill_kid: "\<exists>w. dt_fill_chunk_pattern (c_wu c) = Inr (kid_chunk c, w)"
  by (simp add: dt_fill_chunk_pattern_def fill_chunk_bytes kid_chunk_def CHUNK_SIZE_def)

text \<open>A \<open>pwrite\<close> fails, stores some of the rest of the chunk, or all of it.\<close>

lemma child_write_cases:
  assumes "child_write x k c s = Some (Inr (c', s'))" "k < CHUNK_SIZE"
  obtains (fail) "c' = c_fail (-1) c" "s' = s"
  | (part) n where "0 < n" "k + n < CHUNK_SIZE" "c' = c\<lparr>c_pc := C_write (k + n)\<rparr>"
      "s' = s\<lparr>d_file := file_write (u64 (CHUNK_SIZE * wu_chunk_no (c_wu c)) + k) (take n (drop k (kid_chunk c))) (d_file s)\<rparr>"
  | (whole) "c' = c\<lparr>c_ret := int CHUNK_SIZE, c_pc := C_log\<rparr>"
      "s' = s\<lparr>d_file := file_write (u64 (CHUNK_SIZE * wu_chunk_no (c_wu c)) + k) (drop k (kid_chunk c)) (d_file s)\<rparr>"
proof -
  let ?off = "u64 (CHUNK_SIZE * wu_chunk_no (c_wu c)) + k"
  obtain w where fill: "dt_fill_chunk_pattern (c_wu c) = Inr (kid_chunk c, w)" using dt_fill_kid by blast
  obtain r f' e where pw: "sys_pwrite [x_io x] (d_file s) (drop k (kid_chunk c)) ?off = (r, f', e)" by (metis prod_cases3)
  show thesis
  proof (cases r)
    case (Inl err)
    with pw sys_pwrite_InlD [of "[x_io x]"] have "f' = d_file s" by blast
    with assms(1) fill pw Inl show thesis by (intro fail) (simp_all add: child_write_def)
  next
    case (Inr n)
    note D = sys_pwrite_InrD [OF pw [unfolded Inr]]
    have n: "0 < n" "n \<le> CHUNK_SIZE - k" using D(2,3) assms(2) length_kid_chunk [of c] by auto
    have step: "c' = (if k + n < CHUNK_SIZE then c\<lparr>c_pc := C_write (k + n)\<rparr> else c\<lparr>c_ret := int CHUNK_SIZE, c_pc := C_log\<rparr>)"
      "s' = s\<lparr>d_file := f'\<rparr>" using assms(1) fill pw Inr by (simp_all add: child_write_def)
    show thesis
    proof (cases "k + n < CHUNK_SIZE")
      case True
      with step D(1) n(1) show thesis by (intro part) simp_all
    next
      case False
      with n(2) have "take n (drop k (kid_chunk c)) = drop k (kid_chunk c)" using length_kid_chunk [of c] by simp
      with False step D(1) show thesis by (intro whole) simp_all
    qed
  qed
qed

lemma kid_ok_step:
  assumes "child_step opt x c s = Some (Inr (c', s'))" "d_sem s \<noteq> None" "kid_ok opt c"
  shows "kid_ok opt c'"
  using assms(1)
proof (cases rule: child_step_cases)
  case (lock r sem adj)
  with assms(2,3) semaphore_p_conserves [of "x_io x" "the (d_sem s)" "c_adj c"] show ?thesis
    by (auto simp: kid_defs split: if_splits)
next
  case leave
  with assms(3) show ?thesis by (auto simp: kid_defs)
next
  case choose
  with assms(3) child_choose_cases [OF choose(2)] CHUNK_SIZE_pos show ?thesis by (auto simp: kid_defs)
next
  case (store k)
  with assms(3) have "k < CHUNK_SIZE" by (simp add: kid_ok_def)
  with store(2) show ?thesis
    by (cases rule: child_write_cases) (use assms(3) store(1) in \<open>auto simp: kid_defs\<close>)
next
  case (log ret err log')
  then have "- 256 < ret" by (auto simp: dt_log_write_def EINVAL_def Let_def split: if_splits)
  with log assms(3) show ?thesis by (auto simp: kid_defs)
next
  case (unlock r sem adj)
  with assms(2) semaphore_v_conserves [of "x_io x" "the (d_sem s)" "c_adj c" r sem adj]
  have adj: "adj = (if r < 0 then c_adj c else c_adj c - 1)" by auto
  show ?thesis
  proof (cases "r < 0")
    case True
    with unlock adj assms(3) show ?thesis by (auto simp: kid_defs)
  next
    case False
    with unlock(3) child_after_cases [of opt x "c\<lparr>c_adj := adj\<rparr>" c'] unlock(1) adj assms(3)
    show ?thesis by (auto simp: kid_defs)
  qed
next
  case (relock r sem adj)
  with assms(2,3) semaphore_p_conserves [of "x_io x" "the (d_sem s)" "c_adj c"] show ?thesis
    by (auto simp: kid_defs split: if_splits)
next
  case crash
  with assms(3) show ?thesis by simp
next
  case (no_crash r)
  with assms(3) show ?thesis by (auto simp: kid_defs)
next
  case quit
  with assms(3) show ?thesis by (auto simp: kid_defs)
qed

section \<open>The semaphore and its holders\<close>

lemma child_step_sem:
  assumes "child_step opt x c s = Some (Inr (c', s'))" "d_sem s = Some v" "kid_ok opt c"
  shows "\<exists>w. d_sem s' = Some w \<and> int w + c_adj c' = int v + c_adj c"
  using assms(1)
proof (cases rule: child_step_cases)
  case (lock r sem adj)
  with assms(2) semaphore_p_conserves [of "x_io x" v "c_adj c" r sem adj] show ?thesis by (auto simp: c_fail_def)
next
  case (relock r sem adj)
  with assms(2) semaphore_p_conserves [of "x_io x" v "c_adj c" r sem adj] show ?thesis by (auto simp: c_fail_def)
next
  case choose
  with assms(2) child_choose_cases [OF choose(2)] show ?thesis by auto
next
  case (store k)
  with assms(3) have "k < CHUNK_SIZE" by (simp add: kid_ok_def)
  with store(2) show ?thesis by (cases rule: child_write_cases) (use assms(2) in \<open>auto simp: c_fail_def\<close>)
next
  case (unlock r sem adj)
  then have "c_adj c' = adj" using child_after_cases [of opt x "c\<lparr>c_adj := adj\<rparr>" c'] by (auto simp: kid_defs split: if_splits)
  with unlock assms(2) semaphore_v_conserves [of "x_io x" v "c_adj c" r sem adj] show ?thesis by auto
next
  case quit
  with assms(2,3) show ?thesis by (auto simp: sem_undo_def kid_ok_def)
qed (use assms(2) in \<open>auto simp: kid_defs\<close>)

interpretation pool: token_pool "child_moves opt" "kid_ok opt" c_adj sem_free for opt
proof (unfold_locales, goal_cases)
  case (1 c s c' s')
  then show ?case using kid_ok_step by (auto simp: child_moves_def)
next
  case (2 c s c' s')
  then obtain x v where "child_step opt x c s = Some (Inr (c', s'))" "d_sem s = Some v" by (auto simp: child_moves_def)
  with child_step_sem [of opt x c s c' s' v] 2 show ?case by (auto simp: sem_free_def)
next
  case (3 c)
  then show ?case by (simp add: kid_ok_def)
qed

text \<open>The invariant: one token, and a removed semaphore only when every child has exited.\<close>

definition dt_inv :: "dt_opts \<Rightarrow> dt_sys \<Rightarrow> bool" where
  "dt_inv opt s \<longleftrightarrow> list_all (kid_ok opt) (kids s)
     \<and> (if d_sem (sh s) = None then \<forall>c \<in> set (kids s). kid_exited c else tokens c_adj sem_free (kids s) (sh s) = 1)
     \<and> (case p_pc s of P_fork \<Rightarrow> d_sem (sh s) \<noteq> None \<and> length (kids s) \<le> dt_num_children opt
        | P_wait i \<Rightarrow> d_sem (sh s) \<noteq> None \<and> i \<le> dt_num_children opt \<and> length (kids s) = dt_num_children opt
            \<and> (\<forall>k < i. kid_exited (kids s ! k))
        | P_done r \<Rightarrow> True)"

lemma sem_free_nonneg: "0 \<le> sem_free d"
  by (simp add: sem_free_def split: option.split)

lemma dt_inv_init: "dt_inv opt (dt_init 1 f now junk sem_id)"
  by (simp add: dt_inv_def dt_init_def tokens_def sem_free_def)

lemma child_step_exited: "child_step opt x c s = Some (Inr r) \<Longrightarrow> \<not> kid_exited c"
  by (auto simp: child_step_def kid_exited_def split: dt_pc.splits)

lemma dt_inv_child:
  assumes "dt_inv opt s" "i < length (kids s)" "child_step opt x (kids s ! i) (sh s) = Some (Inr (c, d))"
  shows "dt_inv opt (s\<lparr>kids := (kids s)[i := c], sh := d\<rparr>)"
proof -
  have sem: "d_sem (sh s) \<noteq> None"
    using assms child_step_exited [OF assms(3)] by (auto simp: dt_inv_def split: if_splits)
  then have mv: "child_moves opt (kids s ! i) (sh s) c d" using assms(3) by (auto simp: child_moves_def)
  have ok: "list_all (kid_ok opt) (kids s)" "kid_ok opt (kids s ! i)" "tokens c_adj sem_free (kids s) (sh s) = 1"
    using assms(1,2) sem by (auto simp: dt_inv_def list_all_length)
  note p = pool.pool_step [OF mv assms(2) ok(1) sem_free_nonneg]
  have "d_sem d \<noteq> None" using child_step_sem [OF assms(3) _ ok(2)] sem by auto
  moreover have "\<forall>k. kid_exited (kids s ! k) \<longrightarrow> kid_exited ((kids s)[i := c] ! k)"
    using child_step_exited [OF assms(3)] by (metis nth_list_update_neq)
  ultimately show ?thesis using p ok(3) assms(1) sem by (auto simp: dt_inv_def split: dt_ppc.splits)
qed

text \<open>Reaping changes nothing the invariant looks at.\<close>

lemma kid_reaped [simp]:
  "kid_ok opt (c\<lparr>c_reaped := b\<rparr>) = kid_ok opt c" "kid_exited (c\<lparr>c_reaped := b\<rparr>) = kid_exited c"
  "in_section (c\<lparr>c_reaped := b\<rparr>) = in_section c"
  by (simp_all add: kid_defs)

lemma tokens_reaped:
  "i < length cs \<Longrightarrow> tokens c_adj fr (cs[i := (cs ! i)\<lparr>c_reaped := b\<rparr>]) d = tokens c_adj fr cs d"
  "tokens c_adj fr (map (\<lambda>c. if P c then c\<lparr>c_reaped := b\<rparr> else c) cs) d = tokens c_adj fr cs d"
proof -
  assume "i < length cs"
  then have "map c_adj (cs[i := (cs ! i)\<lparr>c_reaped := b\<rparr>]) = map c_adj cs" by (intro nth_equalityI) (auto simp: nth_list_update)
  then show "tokens c_adj fr (cs[i := (cs ! i)\<lparr>c_reaped := b\<rparr>]) d = tokens c_adj fr cs d" by (simp add: tokens_def)
next
  have "map c_adj (map (\<lambda>c. if P c then c\<lparr>c_reaped := b\<rparr> else c) cs) = map c_adj cs" by (induction cs) simp_all
  then show "tokens c_adj fr (map (\<lambda>c. if P c then c\<lparr>c_reaped := b\<rparr> else c) cs) d = tokens c_adj fr cs d"
    by (simp only: tokens_def)
qed

lemma dt_inv_wait:
  assumes "dt_inv opt s" "p_pc s = P_wait i" "i < dt_num_children opt" "parent_wait i s = Some s'"
  shows "dt_inv opt s'"
proof -
  let ?c = "kids s ! i"
  have len: "i < length (kids s)" "list_all (kid_ok opt) (kids s)" using assms(1-3) by (auto simp: dt_inv_def)
  have ex: "kid_exited ?c" and s': "kids s' = (kids s)[i := ?c\<lparr>c_reaped := True\<rparr>]" "sh s' = sh s" "p_pc s' = P_wait (i + 1)"
    using assms(4) by (auto simp: parent_wait_def Let_def split: if_splits)
  have ok: "list_all (kid_ok opt) (kids s')" using len by (auto simp: s' list_all_length nth_list_update)
  have "kid_exited (kids s' ! k)" if "k < i + 1" for k
    using that ex assms(1,2) len(1) by (cases "k = i") (auto simp: s' dt_inv_def nth_list_update)
  then show ?thesis using assms(1-3) ok len(1) tokens_reaped(1) [OF len(1), of sem_free True "sh s"]
    by (auto simp: dt_inv_def s')
qed

lemma dt_inv_parent:
  assumes "dt_inv opt s" "parent_step opt d s = Some s'"
  shows "dt_inv opt s'"
proof (cases "p_pc s")
  case P_fork
  have new: "kid_ok opt new_child" "c_adj new_child = 0" by (simp_all add: new_child_def kid_defs)
  show ?thesis
  proof (cases "length (kids s) < dt_num_children opt")
    case True
    with P_fork assms new show ?thesis
      by (auto simp: dt_inv_def parent_step_def tokens_def split: if_splits)
  next
    case False
    with P_fork assms show ?thesis by (auto simp: dt_inv_def parent_step_def)
  qed
next
  case (P_wait i)
  show ?thesis
  proof (cases "i < dt_num_children opt")
    case True
    with P_wait assms dt_inv_wait [OF assms(1) P_wait True] show ?thesis by (simp add: parent_step_def)
  next
    case False
    then have all: "\<forall>c \<in> set (kids s). kid_exited c"
      using P_wait assms(1) by (auto simp: dt_inv_def in_set_conv_nth)
    with False P_wait assms show ?thesis
      by (auto simp: dt_inv_def parent_step_def Let_def tokens_def sem_free_def semaphore_close_def
          split: prod.splits option.splits if_splits)
  qed
next
  case (P_done r)
  with assms(2) show ?thesis by (simp add: parent_step_def)
qed

lemma dt_inv_step: "dt_step opt s s' \<Longrightarrow> dt_inv opt s \<Longrightarrow> dt_inv opt s'"
proof (induction rule: dt_step.induct)
  case (child s i x c d)
  then show ?case by (rule_tac dt_inv_child)
next
  case (parent s d s')
  then show ?case by (rule_tac dt_inv_parent)
next
  case (sigchld s)
  let ?g = "\<lambda>c. if kid_exited c then c\<lparr>c_reaped := True\<rparr> else c"
  have g: "kid_exited (?g c) = kid_exited c" "kid_ok opt (?g c) = kid_ok opt c" for c by simp_all
  show ?case using sigchld
    by (auto simp: dt_inv_def sigchld_handler_def tokens_reaped(2) list_all_length g split: dt_ppc.splits)
next
  case (tick s t)
  then show ?case by (auto simp: dt_inv_def tokens_def sem_free_def split: dt_ppc.splits)
qed

interpretation dt_sys: step_system "dt_step opt" "dt_inv opt" for opt
  by unfold_locales (rule dt_inv_step)

lemmas dt_inv_reach = dt_sys.steps_inv

lemma semaphore_init_cases: "semaphore_init env v = (sem, env') \<Longrightarrow> sem = None \<or> sem = Some 1"
  by (auto simp: semaphore_init_def set_semvalue_def split: prod.splits option.splits if_splits)

lemma basic_test_start_init:
  assumes "basic_test_start rts env vol opt now junk sem_id = Inr (Inr s)"
  shows "\<exists>f. s = dt_init 1 f now junk sem_id"
proof -
  obtain sem env1 where i: "semaphore_init env 1 = (sem, env1)" by fastforce
  with assms semaphore_init_cases [OF i] have "sem = Some 1" by (auto simp: basic_test_start_def)
  with assms i show ?thesis
    by (auto simp: basic_test_start_def split: sum.splits prod.splits if_splits option.splits)
qed

lemma dt_inv_run:
  assumes "basic_test_start rts env vol opt now junk sem_id = Inr (Inr s0)" "(dt_step opt)\<^sup>*\<^sup>* s0 s"
  shows "dt_inv opt s"
  using basic_test_start_init [OF assms(1)] dt_inv_reach [OF assms(2)] dt_inv_init by blast

lemma dt_inv_kids: "dt_inv opt s \<Longrightarrow> list_all (kid_ok opt) (kids s)"
  by (simp add: dt_inv_def)

lemma section_holds:
  assumes "dt_inv opt s" "i < length (kids s)" "in_section (kids s ! i)"
  shows "d_sem (sh s) = Some 0" "tokens c_adj sem_free (kids s) (sh s) = 1" "1 \<le> c_adj (kids s ! i)"
proof -
  have k: "kid_ok opt (kids s ! i)" using assms(1,2) by (simp add: dt_inv_def list_all_length)
  with assms(3) show adj: "1 \<le> c_adj (kids s ! i)" by (simp add: kid_ok_def)
  then have "\<not> kid_exited (kids s ! i)" using k by (auto simp: kid_ok_def)
  with assms(1,2) have sem: "d_sem (sh s) \<noteq> None" by (auto simp: dt_inv_def split: if_splits)
  with assms(1) show tok: "tokens c_adj sem_free (kids s) (sh s) = 1" by (simp add: dt_inv_def)
  have "sem_free (sh s) = 0"
    using pool.holder_empties [OF tok sem_free_nonneg dt_inv_kids [OF assms(1)] assms(2) adj] .
  with sem show "d_sem (sh s) = Some 0" by (auto simp: sem_free_def)
qed

lemma section_unique:
  assumes "dt_inv opt s" "i < length (kids s)" "j < length (kids s)" "in_section (kids s ! i)" "in_section (kids s ! j)"
  shows "i = j"
  using pool.unique_holder [OF section_holds(2) [OF assms(1,2,4)] sem_free_nonneg dt_inv_kids [OF assms(1)] assms(2,3)]
    section_holds(3) [OF assms(1,2,4)] section_holds(3) [OF assms(1,3,5)] by blast

section \<open>Progress\<close>

text \<open>
  How much is left to do. A round has at most \<open>CHUNK_SIZE\<close> calls of \<open>pwrite\<close> and a few other steps.
\<close>

definition kid_rank :: "dt_opts \<Rightarrow> dt_child \<Rightarrow> nat" where
  "kid_rank opt c = (let rounds = 2 + (num_chunks opt - c_j c) * (CHUNK_SIZE + 8) in case c_pc c of
     C_head \<Rightarrow> rounds | C_prep \<Rightarrow> rounds - 1 | C_write k \<Rightarrow> rounds - 2 - k | C_log \<Rightarrow> rounds - 2 - CHUNK_SIZE
   | C_unlock \<Rightarrow> rounds - 3 - CHUNK_SIZE | C_crash_lock \<Rightarrow> rounds - 4 - CHUNK_SIZE | C_crash \<Rightarrow> rounds - 5 - CHUNK_SIZE
   | C_bail \<Rightarrow> 1 | C_exit st \<Rightarrow> 0)"

definition dt_work :: "dt_opts \<Rightarrow> dt_sys \<Rightarrow> nat" where
  "dt_work opt s = sum_list (map (kid_rank opt) (kids s)) + (case p_pc s of
     P_fork \<Rightarrow> (dt_num_children opt - length (kids s)) * (kid_rank opt new_child + 1) + dt_num_children opt + 2
   | P_wait i \<Rightarrow> dt_num_children opt - i + 1
   | P_done r \<Rightarrow> 0)"

lemma kid_rank_loop:
  "c_j c < num_chunks opt \<Longrightarrow> \<exists>m. 2 + (num_chunks opt - c_j c) * (CHUNK_SIZE + 8) = m + CHUNK_SIZE + 8
     \<and> 2 + (num_chunks opt - Suc (c_j c)) * (CHUNK_SIZE + 8) = m \<and> 2 \<le> m"
proof -
  assume "c_j c < num_chunks opt"
  then have "num_chunks opt - c_j c = Suc (num_chunks opt - Suc (c_j c))" by simp
  then show ?thesis by simp
qed

lemma kid_rank_step:
  assumes "child_step opt x c s = Some (Inr (c', s'))" "kid_ok opt c" "\<not> d_down s'"
  shows "kid_rank opt c' < kid_rank opt c"
  using assms(1)
proof (cases rule: child_step_cases)
  case (lock r sem adj)
  obtain m where "2 + (num_chunks opt - c_j c) * (CHUNK_SIZE + 8) = m + CHUNK_SIZE + 8" "2 \<le> m"
    using kid_rank_loop [OF lock(2)] by auto
  with lock show ?thesis by (auto simp: kid_rank_def c_fail_def)
next
  case leave
  then show ?thesis by (simp add: kid_rank_def)
next
  case choose
  then obtain wu where "c' = c\<lparr>c_wu := wu, c_pc := C_write 0\<rparr>" using child_choose_cases by blast
  moreover obtain m where "2 + (num_chunks opt - c_j c) * (CHUNK_SIZE + 8) = m + CHUNK_SIZE + 8" "2 \<le> m"
    using kid_rank_loop [of c opt] assms(2) choose(1) by (auto simp: kid_defs)
  ultimately show ?thesis using choose(1) by (simp add: kid_rank_def)
next
  case (store k)
  have k: "k < CHUNK_SIZE" using assms(2) store(1) by (simp add: kid_ok_def)
  obtain m where "2 + (num_chunks opt - c_j c) * (CHUNK_SIZE + 8) = m + CHUNK_SIZE + 8" "2 \<le> m"
    using kid_rank_loop [of c opt] assms(2) store(1) by (auto simp: kid_defs)
  with store(2) k show ?thesis
    by (cases rule: child_write_cases) (use store(1) k in \<open>auto simp: kid_rank_def c_fail_def\<close>)
next
  case (log ret err log')
  obtain m where "2 + (num_chunks opt - c_j c) * (CHUNK_SIZE + 8) = m + CHUNK_SIZE + 8" "2 \<le> m"
    using kid_rank_loop [of c opt] assms(2) log(1) by (auto simp: kid_defs)
  with log show ?thesis by (auto simp: kid_rank_def c_fail_def)
next
  case (unlock r sem adj)
  obtain m where m: "2 + (num_chunks opt - c_j c) * (CHUNK_SIZE + 8) = m + CHUNK_SIZE + 8"
    "2 + (num_chunks opt - Suc (c_j c)) * (CHUNK_SIZE + 8) = m" "2 \<le> m"
    using kid_rank_loop [of c opt] assms(2) unlock(1) by (auto simp: kid_defs)
  show ?thesis
  proof (cases "r < 0")
    case True
    with unlock m show ?thesis by (auto simp: kid_rank_def c_fail_def)
  next
    case False
    with unlock(3) child_after_cases [of opt x "c\<lparr>c_adj := adj\<rparr>" c'] m unlock(1)
    show ?thesis by (auto simp: kid_rank_def c_next_def)
  qed
next
  case (relock r sem adj)
  obtain m where "2 + (num_chunks opt - c_j c) * (CHUNK_SIZE + 8) = m + CHUNK_SIZE + 8" "2 \<le> m"
    using kid_rank_loop [of c opt] assms(2) relock(1) by (auto simp: kid_defs)
  with relock show ?thesis by (auto simp: kid_rank_def c_fail_def)
next
  case crash
  with assms(3) show ?thesis by simp
next
  case (no_crash r)
  obtain m where "2 + (num_chunks opt - c_j c) * (CHUNK_SIZE + 8) = m + CHUNK_SIZE + 8"
    "2 + (num_chunks opt - Suc (c_j c)) * (CHUNK_SIZE + 8) = m" "2 \<le> m"
    using kid_rank_loop [of c opt] assms(2) no_crash(1) by (auto simp: kid_defs)
  with no_crash show ?thesis by (auto simp: kid_rank_def c_next_def)
next
  case quit
  then show ?thesis by (simp add: kid_rank_def)
qed

lemma sum_list_update_less:
  "i < length xs \<Longrightarrow> y < xs ! i \<Longrightarrow> sum_list (xs[i := y]) < (sum_list xs :: nat)"
proof (induction xs arbitrary: i)
  case (Cons x xs)
  then show ?case by (cases i) (simp_all add: add_strict_left_mono)
qed simp

lemma kid_rank_reaped [simp]: "kid_rank opt (c\<lparr>c_reaped := b\<rparr>) = kid_rank opt c"
  by (simp add: kid_rank_def)

text \<open>Every move of a child or of the parent uses up work; the other steps leave it as it is.\<close>

lemma work_child:
  assumes "dt_inv opt s" "i < length (kids s)" "child_step opt x (kids s ! i) (sh s) = Some (Inr (c, d))" "\<not> d_down d"
  shows "dt_work opt (s\<lparr>kids := (kids s)[i := c], sh := d\<rparr>) < dt_work opt s"
proof -
  have "kid_ok opt (kids s ! i)" using dt_inv_kids [OF assms(1)] assms(2) by (simp add: list_all_length)
  from kid_rank_step [OF assms(3) this assms(4)]
  have "sum_list (map (kid_rank opt) ((kids s)[i := c])) < sum_list (map (kid_rank opt) (kids s))"
    using sum_list_update_less [of i "map (kid_rank opt) (kids s)"] assms(2) by (simp add: map_update)
  then show ?thesis by (simp add: dt_work_def split: dt_ppc.split)
qed

lemma work_parent:
  assumes "dt_inv opt s" "parent_step opt d s = Some s'"
  shows "dt_work opt s' < dt_work opt s"
proof (cases "p_pc s")
  case P_fork
  show ?thesis
  proof (cases "length (kids s) < dt_num_children opt")
    case True
    then obtain m where "dt_num_children opt - length (kids s) = Suc m" "dt_num_children opt - Suc (length (kids s)) = m"
      by (metis Suc_diff_Suc)
    with True P_fork assms(2) show ?thesis by (auto simp: dt_work_def parent_step_def split: if_splits)
  next
    case False
    with P_fork assms(2) show ?thesis by (auto simp: dt_work_def parent_step_def)
  qed
next
  case (P_wait i)
  show ?thesis
  proof (cases "i < dt_num_children opt")
    case True
    then have len: "i < length (kids s)" using assms(1) P_wait by (simp add: dt_inv_def)
    let ?c = "kids s ! i"
    have "sum_list (map (kid_rank opt) ((kids s)[i := ?c\<lparr>c_reaped := True\<rparr>])) = sum_list (map (kid_rank opt) (kids s))"
      using len by (simp add: map_update list_update_same_conv [THEN iffD2])
    with True P_wait assms(2) show ?thesis
      by (auto simp: dt_work_def parent_step_def parent_wait_def Let_def split: if_splits)
  next
    case False
    with P_wait assms(2) show ?thesis by (auto simp: dt_work_def parent_step_def Let_def)
  qed
next
  case (P_done r)
  with assms(2) show ?thesis by (simp add: parent_step_def)
qed

definition dt_finished :: "dt_sys \<Rightarrow> bool" where
  "dt_finished s \<longleftrightarrow> (\<exists>r. p_pc s = P_done r) \<and> (\<forall>c \<in> set (kids s). kid_exited c)"

text \<open>A choice on which no call fails.\<close>

definition x_fine :: dt_choice where
  "x_fine = \<lparr>x_io = Io_ok, x_out = 0, x_rand1 = 0, x_rand2 = 0, x_system = Sys_boots\<rparr>"

lemma dt_get_rand_ul_ok:
  assumes "a \<le> b" "b < 2 ^ 64 - 1"
  shows "\<exists>v. dt_get_rand_ul a b r = Inr v \<and> a \<le> v \<and> v \<le> b"
proof -
  have d: "u64 (sub64 b a + 1) = b - a + 1" using assms by (simp add: width)
  have "r mod (b - a + 1) < b - a + 1" by simp
  then have m: "a + r mod (b - a + 1) \<le> b" using assms(1) by linarith
  then have "u64 (a + r mod (b - a + 1)) = a + r mod (b - a + 1)" using assms(2) by (intro u64_id) linarith
  with d have "dt_get_rand_ul a b r = Inr (if a = 0 \<and> b = 0 then 0 else a + r mod (b - a + 1))"
    by (simp add: dt_get_rand_ul_def Let_def)
  with m assms(1) show ?thesis by simp
qed

lemma dt_rand_char_ok: "\<exists>v \<le> 25. dt_rand_char r = Inr (65 + of_nat v)"
  using dt_get_rand_ul_ok [of 0 25 r] by (auto simp: dt_rand_char_def)

lemma dt_prep_ok: "\<exists>v wu. v \<le> 25 \<and> dt_prep_rand_dest_write_unit r now k = Inr wu \<and> wu_chunk_no wu = k \<and> wu_timestamp wu = now
    \<and> wu_chunksize wu = CHUNK_SIZE \<and> wu_char wu = 65 + of_nat v"
proof -
  obtain v where "v \<le> 25" "dt_rand_char r = Inr (65 + of_nat v)" using dt_rand_char_ok by blast
  then show ?thesis
    by (auto simp: dt_prep_rand_dest_write_unit_def dt_fill_chunk_pattern_def fill_chunk_bytes CHUNK_SIZE_def)
qed

lemma file_size_chunks: "dt_file_size opt < 2 ^ 64 \<Longrightarrow> num_chunks opt < 2 ^ 63"
  by (simp add: CHUNK_SIZE_def less_mult_imp_div_less)

lemma child_choose_ok:
  assumes "0 < num_chunks opt" "c_j c < num_chunks opt" "dt_file_size opt < 2 ^ 64"
  shows "\<exists>v wu. v \<le> 25 \<and> child_choose opt x c s = Inr (c\<lparr>c_wu := wu, c_pc := C_write 0\<rparr>) \<and> wu_chunk_no wu < num_chunks opt
     \<and> wu_timestamp wu = d_now s \<and> wu_chunksize wu = CHUNK_SIZE \<and> wu_char wu = 65 + of_nat v"
proof -
  have b: "num_chunks opt < 2 ^ 63" by (rule file_size_chunks [OF assms(3)])
  moreover have "(2 :: nat) ^ 63 \<le> 2 ^ 64 - 1" by simp
  ultimately have lt: "num_chunks opt - 1 < 2 ^ 64 - 1" by linarith
  from b have sub: "sub64 (num_chunks opt) 1 = num_chunks opt - 1" using assms(1) by (simp add: width)
  obtain k where "(if dt_appd opt then Inr (c_j c) else dt_get_rand_ul 0 (sub64 (num_chunks opt) 1) (x_rand1 x)) = Inr k"
    "k < num_chunks opt"
  proof (cases "dt_appd opt")
    case False
    obtain k where "dt_get_rand_ul 0 (num_chunks opt - 1) (x_rand1 x) = Inr k" "k \<le> num_chunks opt - 1"
      using dt_get_rand_ul_ok [OF _ lt, of 0 "x_rand1 x"] by auto
    with False sub assms(1) show thesis by (intro that [of k]) simp_all
  qed (use assms(2) that in simp)
  with dt_prep_ok [of "x_rand2 x" "d_now s" k] show ?thesis unfolding child_choose_def by fastforce
qed

text \<open>Outside the destructive test a child can move unless it waits for the semaphore or has exited.\<close>

lemma child_can_move:
  assumes "kid_ok opt c" "dt_file_size opt < 2 ^ 64" "\<not> dt_dscv opt" "d_sem s = Some v" "\<not> kid_exited c"
    "c_pc c = C_head \<longrightarrow> 0 < v" "\<not> d_down s"
  shows "\<exists>c' s'. child_step opt x_fine c s = Some (Inr (c', s')) \<and> \<not> d_down s'"
proof (cases "c_pc c")
  case C_head
  with assms obtain w where "v = Suc w" by (cases v) auto
  with C_head assms show ?thesis by (simp add: child_step_def child_lock_def semaphore_p_def x_fine_def io_fails_def)
next
  case C_prep
  with assms(1) have "c_j c < num_chunks opt" by (simp add: kid_defs)
  with child_choose_ok [of opt c x_fine s] assms(2) C_prep assms(7) show ?thesis by (auto simp: child_step_def)
next
  case (C_write k)
  obtain w where "dt_fill_chunk_pattern (c_wu c) = Inr (kid_chunk c, w)" using dt_fill_kid by blast
  with C_write assms(7) show ?thesis by (simp add: child_step_def child_write_def x_fine_def sys_pwrite_def)
next
  case C_log
  with assms(7) show ?thesis by (simp add: child_step_def split: prod.split)
next
  case C_unlock
  with assms(3,4,7) show ?thesis
    by (simp add: child_step_def semaphore_v_def x_fine_def io_fails_def child_after_def)
next
  case C_bail
  with assms(7) show ?thesis by (simp add: child_step_def)
qed (use assms in \<open>auto simp: kid_ok_def kid_exited_def\<close>)

lemma all_heads_free:
  assumes "dt_inv opt s" "\<not> dt_dscv opt" "\<forall>c \<in> set (kids s). c_pc c = C_head \<or> kid_exited c" "d_sem (sh s) = Some v"
  shows "v = 1"
proof -
  have "\<forall>c \<in> set (kids s). c_adj c = 0"
    using dt_inv_kids [OF assms(1)] assms(2,3) by (auto simp: list_all_iff kid_ok_def)
  moreover have "tokens c_adj sem_free (kids s) (sh s) = 1" using assms(1,4) by (simp add: dt_inv_def)
  ultimately have "sem_free (sh s) = 1" using pool.no_holder_free by blast
  with assms(4) show ?thesis by (simp add: sem_free_def)
qed

lemma some_child_moves:
  assumes "dt_inv opt s" "dt_file_size opt < 2 ^ 64" "\<not> dt_dscv opt" "\<not> d_down (sh s)" "\<exists>c \<in> set (kids s). \<not> kid_exited c"
  shows "\<exists>i c d. i < length (kids s) \<and> child_step opt x_fine (kids s ! i) (sh s) = Some (Inr (c, d)) \<and> \<not> d_down d"
proof -
  obtain v where v: "d_sem (sh s) = Some v" using assms(1,5) by (auto simp: dt_inv_def split: if_splits)
  have mv: "\<exists>i c d. i < length (kids s) \<and> child_step opt x_fine (kids s ! i) (sh s) = Some (Inr (c, d)) \<and> \<not> d_down d"
    if "b \<in> set (kids s)" "\<not> kid_exited b" "c_pc b = C_head \<longrightarrow> 0 < v" for b
  proof -
    obtain i where "i < length (kids s)" "kids s ! i = b" using \<open>b \<in> set (kids s)\<close> by (auto simp: in_set_conv_nth)
    with child_can_move [OF _ assms(2,3) v that(2,3) assms(4)] dt_inv_kids [OF assms(1)] that(1) show ?thesis
      by (force simp: list_all_iff)
  qed
  show ?thesis
  proof (cases "\<forall>c \<in> set (kids s). c_pc c = C_head \<or> kid_exited c")
    case True
    with assms(5) all_heads_free [OF assms(1,3) True v] mv show ?thesis by auto
  next
    case False
    then obtain b where "b \<in> set (kids s)" "c_pc b \<noteq> C_head" "\<not> kid_exited b" by blast
    with mv [of b] show ?thesis by simp
  qed
qed

lemma parent_can_move:
  assumes "\<forall>c \<in> set (kids s). kid_exited c" "dt_inv opt s" "\<not> dt_finished s"
  shows "\<exists>s'. parent_step opt Io_ok s = Some s' \<and> d_down (sh s') = d_down (sh s)"
proof (cases "p_pc s")
  case (P_wait i)
  show ?thesis
  proof (cases "i < dt_num_children opt")
    case True
    with P_wait assms(1,2) have "kid_exited (kids s ! i)" by (simp add: dt_inv_def)
    with P_wait True show ?thesis by (simp add: parent_step_def parent_wait_def Let_def)
  next
    case False
    with P_wait show ?thesis by (simp add: parent_step_def Let_def)
  qed
qed (use assms in \<open>auto simp: parent_step_def dt_finished_def\<close>)

lemma dt_progress:
  assumes "dt_inv opt s" "dt_file_size opt < 2 ^ 64" "\<not> dt_dscv opt" "\<not> d_down (sh s)" "\<not> dt_finished s"
  shows "\<exists>s'. dt_step opt s s' \<and> dt_work opt s' < dt_work opt s \<and> \<not> d_down (sh s')"
proof (cases "\<exists>c \<in> set (kids s). \<not> kid_exited c")
  case True
  then obtain i c d where "i < length (kids s)" "child_step opt x_fine (kids s ! i) (sh s) = Some (Inr (c, d))" "\<not> d_down d"
    using some_child_moves [OF assms(1-4)] by blast
  with dt_step.child [OF assms(4)] work_child [OF assms(1)] show ?thesis by fastforce
next
  case False
  then obtain s' where "parent_step opt Io_ok s = Some s'" "d_down (sh s') = d_down (sh s)"
    using parent_can_move [OF _ assms(1,5)] by blast
  with dt_step.parent [OF assms(4)] work_parent [OF assms(1)] assms(4) show ?thesis by metis
qed

text \<open>Without the destructive test the machine stays up.\<close>

lemma child_step_down:
  assumes "child_step opt x c s = Some (Inr (c', s'))" "kid_ok opt c" "\<not> dt_dscv opt"
  shows "d_down s' = d_down s \<and> d_now s' = d_now s"
  using assms(1)
proof (cases rule: child_step_cases)
  case (store k)
  with assms(2) have "k < CHUNK_SIZE" by (simp add: kid_ok_def)
  with store(2) show ?thesis by (cases rule: child_write_cases) simp_all
next
  case crash
  with assms(2,3) show ?thesis by (simp add: kid_ok_def)
qed (use assms in auto)

lemma dt_step_up:
  assumes "dt_step opt s s'" "dt_inv opt s" "\<not> dt_dscv opt"
  shows "d_down (sh s') = d_down (sh s)"
  using assms
proof (induction rule: dt_step.induct)
  case (child s i x c d)
  then show ?case using child_step_down [of opt x "kids s ! i" "sh s" c d] dt_inv_kids [of opt s]
    by (simp add: list_all_length)
next
  case (parent s d s')
  then show ?case
    by (auto simp: parent_step_def parent_wait_def Let_def split: dt_ppc.splits if_splits)
qed (simp_all add: sigchld_handler_def)

text \<open>A test that does not take the machine down, as a system that makes progress until it has finished.\<close>

definition dt_up :: "dt_opts \<Rightarrow> dt_sys \<Rightarrow> bool" where
  "dt_up opt s \<longleftrightarrow> dt_inv opt s \<and> dt_file_size opt < 2 ^ 64 \<and> \<not> dt_dscv opt \<and> \<not> d_down (sh s)"

interpretation dt_live: progressing "dt_step opt" "dt_up opt" "dt_work opt" dt_finished for opt
proof unfold_locales
  show "dt_up opt s'" if "dt_step opt s s'" "dt_up opt s" for s s'
    using that dt_inv_step dt_step_up by (auto simp: dt_up_def)
  show "\<exists>s'. dt_step opt s s' \<and> dt_work opt s' < dt_work opt s" if "dt_up opt s" "\<not> dt_finished s" for s
    using that dt_progress by (auto simp: dt_up_def)
qed

lemma dt_ends:
  assumes "dt_inv opt s" "dt_file_size opt < 2 ^ 64" "\<not> dt_dscv opt" "\<not> d_down (sh s)"
  shows "\<exists>s'. (dt_step opt)\<^sup>*\<^sup>* s s' \<and> dt_finished s'"
  using dt_live.reaches_stop [of opt s] assms by (auto simp: dt_up_def)

lemma dt_run_up:
  assumes "(dt_step opt)\<^sup>*\<^sup>* s s'" "dt_inv opt s" "dt_file_size opt < 2 ^ 64" "\<not> dt_dscv opt" "\<not> d_down (sh s)"
  shows "\<not> d_down (sh s')"
  using dt_live.steps_inv [OF assms(1)] assms(2-) by (simp add: dt_up_def)

end
