(* ===== verification/Directio_Data.thy ===== *)
theory Directio_Data
  imports Directio_Runs
begin

text \<open>
  The file and the log of a run of \<open>directio_test\<close>. As long as no child has failed and no write of the local
  log has (which the program does not notice), the file is the
  one the test started with and the logged chunks written over it, in the order of the log, which is
  the order of their time stamps; the only other thing the file may hold is the chunk of the one
  child that is between its write and its log entry. From this: \<open>verify_file\<close> accepts the outcome of a
  run, and a machine that the destructive test has taken down holds what the log says.
\<close>

section \<open>The invariant\<close>

definition kid_failed :: "dt_child \<Rightarrow> bool" where
  "kid_failed c \<longleftrightarrow> (case c_pc c of C_bail \<Rightarrow> c_ret c < 0 | C_exit st \<Rightarrow> st \<noteq> 0 | _ \<Rightarrow> False)"

definition dt_failed :: "dt_sys \<Rightarrow> bool" where
  "dt_failed s \<longleftrightarrow> (\<exists>c \<in> set (kids s). kid_failed c)"

text \<open>A failure, or outside the destructive test a record that did not get into the log.\<close>

definition kid_spoiled :: "dt_opts \<Rightarrow> dt_child \<Rightarrow> bool" where
  "kid_spoiled opt c \<longleftrightarrow> kid_failed c \<or> \<not> dt_dscv opt \<and> c_logerr c"

definition dt_spoiled :: "dt_opts \<Rightarrow> dt_sys \<Rightarrow> bool" where
  "dt_spoiled opt s \<longleftrightarrow> (\<exists>c \<in> set (kids s). kid_spoiled opt c)"

definition kid_pending :: "dt_child \<Rightarrow> bool" where
  "kid_pending c \<longleftrightarrow> (case c_pc c of C_write k \<Rightarrow> True | C_log \<Rightarrow> True | _ \<Rightarrow> False)"

text \<open>What a child has put into the file and not yet into the log.\<close>

definition kid_effect :: "dt_child \<Rightarrow> content \<Rightarrow> content" where
  "kid_effect c f = (case c_pc c of
     C_write k \<Rightarrow> file_write (wu_chunk_no (c_wu c) * CHUNK_SIZE) (take k (kid_chunk c)) f
   | C_log \<Rightarrow> file_write (wu_chunk_no (c_wu c) * CHUNK_SIZE) (kid_chunk c) f
   | _ \<Rightarrow> f)"

definition log_rec :: "bool \<Rightarrow> cwu \<Rightarrow> string" where
  "log_rec dscv wu = (if dscv then take 1023 (show_cwu wu) @ [CHR 0x00] else show_cwu wu)"

definition unit_fits :: "dt_opts \<Rightarrow> nat \<Rightarrow> cwu \<Rightarrow> bool" where
  "unit_fits opt now u \<longleftrightarrow> wf_cwu (num_chunks opt) CHUNK_SIZE u \<and> 0 < wu_timestamp u \<and> wu_timestamp u \<le> now"

definition data_inv :: "dt_opts \<Rightarrow> content \<Rightarrow> cwu list \<Rightarrow> dt_sys \<Rightarrow> bool" where
  "data_inv opt f0 us s \<longleftrightarrow> d_log (sh s) = concat (map (log_rec (dt_dscv opt)) us)
     \<and> list_all (unit_fits opt (d_now (sh s))) us \<and> sorted (map wu_timestamp us) \<and> 0 < d_now (sh s) \<and> d_now (sh s) < 2 ^ 63
     \<and> (\<forall>c \<in> set (kids s). kid_pending c \<longrightarrow> unit_fits opt (d_now (sh s)) (c_wu c)
          \<and> (\<forall>u \<in> set us. wu_timestamp u \<le> wu_timestamp (c_wu c)) \<and> d_file (sh s) = kid_effect c (fold chunk_write us f0))
     \<and> ((\<forall>c \<in> set (kids s). \<not> kid_pending c) \<longrightarrow> d_file (sh s) = fold chunk_write us f0)"

lemmas pc_defs = kid_failed_def kid_pending_def kid_effect_def c_fail_def c_next_def

lemma pending_section: "kid_pending c \<Longrightarrow> in_section c"
  by (auto simp: kid_pending_def in_section_def split: dt_pc.splits)

lemma kid_chunk_unit: "wu_chunksize (c_wu c) = CHUNK_SIZE \<Longrightarrow> kid_chunk c = chunk_bytes (c_wu c)"
  unfolding kid_chunk_def by (rule chunk_bytes_cong) simp_all

lemma data_inv_init: "0 < now \<Longrightarrow> now < 2 ^ 63 \<Longrightarrow> data_inv opt f [] (dt_init 1 f now junk sem_id)"
  by (simp add: data_inv_def dt_init_def)

text \<open>Failure is for good.\<close>

lemma kid_failed_step:
  assumes "child_step opt x c s = Some (Inr (c', s'))" "kid_ok opt c" "kid_failed c"
  shows "kid_failed c'"
  using assms(1)
proof (cases rule: child_step_cases)
  case quit
  have "- 256 < c_ret c" "c_ret c < 0" using assms(2,3) quit(1) by (simp_all add: kid_ok_def kid_failed_def)
  then have "(c_ret c + 256) mod 256 = c_ret c + 256" by (intro mod_pos_pos_trivial) auto
  then have "c_ret c mod 256 = c_ret c + 256" by simp
  with quit \<open>- 256 < c_ret c\<close> \<open>c_ret c < 0\<close> show ?thesis by (simp add: kid_failed_def)
qed (use assms(3) in \<open>simp_all add: kid_failed_def\<close>)

lemma c_logerr_step:
  assumes "child_step opt x c s = Some (Inr (c', s'))" "kid_ok opt c" "c_logerr c"
  shows "c_logerr c'"
  using assms(1)
proof (cases rule: child_step_cases)
  case choose
  with child_choose_cases [OF choose(2)] assms(3) show ?thesis by auto
next
  case (store k)
  then have "k < CHUNK_SIZE" using assms(2) by (simp add: kid_ok_def)
  with store(2) show ?thesis by (cases rule: child_write_cases) (use assms(3) in \<open>simp_all add: c_fail_def\<close>)
next
  case (unlock r sem adj)
  with child_after_cases [of opt x "c\<lparr>c_adj := adj\<rparr>" c'] assms(3) show ?thesis
    by (cases "r < 0") (auto simp: c_fail_def c_next_def)
qed (use assms(3) in \<open>simp_all add: c_fail_def c_next_def\<close>)

lemma kid_spoiled_step:
  "child_step opt x c s = Some (Inr (c', s')) \<Longrightarrow> kid_ok opt c \<Longrightarrow> kid_spoiled opt c \<Longrightarrow> kid_spoiled opt c'"
  using kid_failed_step c_logerr_step by (auto simp: kid_spoiled_def)

lemma kid_spoiled_reaped [simp]: "kid_spoiled opt (c\<lparr>c_reaped := b\<rparr>) = kid_spoiled opt c"
  by (simp add: kid_spoiled_def kid_failed_def split: dt_pc.split)

lemma dt_spoiled_child:
  assumes "dt_inv opt s" "i < length (kids s)" "child_step opt x (kids s ! i) (sh s) = Some (Inr (c, d))"
    "\<not> dt_spoiled opt (s\<lparr>kids := (kids s)[i := c], sh := d\<rparr>)"
  shows "\<not> dt_spoiled opt s" "\<not> kid_spoiled opt c"
proof -
  show "\<not> kid_spoiled opt c" using assms(2,4) by (auto simp: dt_spoiled_def set_update_memI)
  then have "\<not> kid_spoiled opt (kids s ! i)"
    using kid_spoiled_step [OF assms(3)] dt_inv_kids [OF assms(1)] assms(2) by (auto simp: list_all_length)
  moreover have "\<not> kid_spoiled opt (kids s ! j)" if "j < length (kids s)" "j \<noteq> i" for j
    using assms(4) nth_mem [of j "(kids s)[i := c]"] that by (auto simp: dt_spoiled_def)
  ultimately show "\<not> dt_spoiled opt s" by (metis dt_spoiled_def in_set_conv_nth)
qed

section \<open>One move of a child\<close>

text \<open>Only the mover can be pending when the mover is in its section.\<close>

lemma others_idle:
  assumes "dt_inv opt s" "i < length (kids s)" "in_section (kids s ! i)" "c \<in> set (kids s)" "kid_pending c"
  shows "c = kids s ! i"
  using section_unique [OF assms(1,2) _ assms(3)] pending_section [OF assms(5)] assms(4) by (auto simp: in_set_conv_nth)

lemma updated_pending:
  assumes "dt_inv opt s" "i < length (kids s)" "in_section (kids s ! i)" "c \<in> set ((kids s)[i := c'])" "kid_pending c"
  shows "c = c'"
proof -
  obtain j where j: "j < length (kids s)" "c = (kids s)[i := c'] ! j" using assms(4) by (auto simp: in_set_conv_nth)
  show ?thesis
  proof (cases "j = i")
    case False
    with j others_idle [OF assms(1-3) _ assms(5)] have "kids s ! j = kids s ! i" by simp
    with j False section_unique [OF assms(1) j(1) assms(2)] assms(3) show ?thesis by simp
  qed (use j assms(2) in simp)
qed

text \<open>A move that neither starts nor ends a pending chunk and touches neither file nor log.\<close>

lemma data_quiet:
  assumes "data_inv opt f0 us s" "i < length (kids s)" "\<not> kid_pending (kids s ! i)" "\<not> kid_pending c"
    "d_file d = d_file (sh s)" "d_log d = d_log (sh s)" "d_now d = d_now (sh s)"
  shows "data_inv opt f0 us (s\<lparr>kids := (kids s)[i := c], sh := d\<rparr>)"
proof -
  have "b \<in> set (kids s)" if "b \<in> set ((kids s)[i := c])" "kid_pending b" for b
    using that assms(2,4) set_update_subset_insert [of "kids s" i c] by auto
  moreover have "\<exists>b \<in> set ((kids s)[i := c]). kid_pending b" if "b \<in> set (kids s)" "kid_pending b" for b
  proof -
    obtain j where "j < length (kids s)" "kids s ! j = b" using \<open>b \<in> set (kids s)\<close> by (auto simp: in_set_conv_nth)
    with that(2) assms(2,3) have "(kids s)[i := c] ! j = b" "j < length ((kids s)[i := c])" by (auto simp: nth_list_update)
    with that(2) show ?thesis by (metis nth_mem)
  qed
  ultimately show ?thesis using assms(1,5-7) by (simp add: data_inv_def) blast
qed

text \<open>A move of the child in the section: only its own chunk and the log matter.\<close>

lemma data_active:
  assumes "dt_inv opt s" "i < length (kids s)" "in_section (kids s ! i)" "data_inv opt f0 us s" "d_now d = d_now (sh s)"
    "d_log d = concat (map (log_rec (dt_dscv opt)) us')" "list_all (unit_fits opt (d_now d)) us'" "sorted (map wu_timestamp us')"
    "d_file d = kid_effect c (fold chunk_write us' f0)"
    "kid_pending c \<Longrightarrow> unit_fits opt (d_now d) (c_wu c) \<and> (\<forall>u \<in> set us'. wu_timestamp u \<le> wu_timestamp (c_wu c))"
  shows "data_inv opt f0 us' (s\<lparr>kids := (kids s)[i := c], sh := d\<rparr>)"
proof -
  have up: "b = c" if "b \<in> set ((kids s)[i := c])" "kid_pending b" for b
    using updated_pending [OF assms(1-3) that] .
  have quiet: "kid_effect c f = f" if "\<not> kid_pending c" for f
    using that by (auto simp: pc_defs split: dt_pc.splits)
  have "c \<in> set ((kids s)[i := c])" using assms(2) by (rule set_update_memI)
  then have "(\<forall>b \<in> set ((kids s)[i := c]). \<not> kid_pending b) \<Longrightarrow> d_file d = fold chunk_write us' f0"
    using assms(9) quiet by auto
  then show ?thesis using assms(4-10) up by (auto simp: data_inv_def)
qed

lemma section_file:
  assumes "dt_inv opt s" "i < length (kids s)" "in_section (kids s ! i)" "data_inv opt f0 us s"
  shows "d_file (sh s) = kid_effect (kids s ! i) (fold chunk_write us f0)"
proof (cases "kid_pending (kids s ! i)")
  case True
  then show ?thesis using assms(2,4) by (auto simp: data_inv_def)
next
  case False
  then have "\<forall>c \<in> set (kids s). \<not> kid_pending c" using others_idle [OF assms(1-3)] by blast
  with False show ?thesis using assms(4) by (auto simp: data_inv_def pc_defs split: dt_pc.splits)
qed

lemma chunk_offset:
  assumes "wf_cwu (num_chunks opt) CHUNK_SIZE wu" "dt_file_size opt < 2 ^ 64"
  shows "u64 (CHUNK_SIZE * wu_chunk_no wu) = wu_chunk_no wu * CHUNK_SIZE"
proof -
  have "wu_chunk_no wu * CHUNK_SIZE + CHUNK_SIZE \<le> num_chunks opt * CHUNK_SIZE"
    using assms(1) by (intro chunk_room) (simp add: wf_cwu_def)
  also have "\<dots> \<le> dt_file_size opt" by simp
  finally show ?thesis using assms(2) by (simp add: mult.commute width)
qed

lemma fits_later: "unit_fits opt now u \<Longrightarrow> now \<le> t \<Longrightarrow> unit_fits opt t u"
  by (simp add: unit_fits_def)

lemma data_choose:
  assumes "dt_inv opt s" "i < length (kids s)" "c_pc (kids s ! i) = C_prep" "data_inv opt f0 us s" "dt_file_size opt < 2 ^ 64"
    "child_choose opt x (kids s ! i) (sh s) = Inr c"
  shows "data_inv opt f0 us (s\<lparr>kids := (kids s)[i := c]\<rparr>)"
proof -
  let ?k = "kids s ! i" and ?d = "sh s"
  have sec: "in_section ?k" using assms(3) by (simp add: in_section_def)
  have "c_j ?k < num_chunks opt"
    using dt_inv_kids [OF assms(1)] assms(2) sec by (auto simp: list_all_length kid_ok_def in_loop_def)
  then obtain v wu where wu: "v \<le> 25" "c = ?k\<lparr>c_wu := wu, c_pc := C_write 0\<rparr>" "wu_chunk_no wu < num_chunks opt"
    "wu_timestamp wu = d_now ?d" "wu_chunksize wu = CHUNK_SIZE" "wu_char wu = 65 + of_nat v"
    using child_choose_ok [of opt ?k x ?d] assms(5,6) by auto
  note D = assms(4) [unfolded data_inv_def]
  have "\<not> c_isspace (char_of_byte (wu_char wu))"
    using rand_letter(1) [of v] wu(1,6) by (simp add: RAND_CHAR_START_def)
  moreover have "wu_chunk_no wu < 2 ^ 63" using wu(3) file_size_chunks [OF assms(5)] by linarith
  ultimately have fits: "unit_fits opt (d_now ?d) wu" using wu(3-5) D by (simp add: unit_fits_def wf_cwu_def)
  have "data_inv opt f0 us (s\<lparr>kids := (kids s)[i := c], sh := ?d\<rparr>)"
  proof (rule data_active [OF assms(1,2) sec assms(4)])
    show "d_file ?d = kid_effect c (fold chunk_write us f0)"
      using section_file [OF assms(1,2) sec assms(4)] assms(3) wu(2) by (simp add: kid_effect_def)
    show "unit_fits opt (d_now ?d) (c_wu c) \<and> (\<forall>u \<in> set us. wu_timestamp u \<le> wu_timestamp (c_wu c))"
      using fits wu(2,4) D by (auto simp: list_all_iff unit_fits_def)
  qed (use D in auto)
  then show ?thesis by simp
qed

lemma data_store:
  assumes "dt_inv opt s" "i < length (kids s)" "c_pc (kids s ! i) = C_write k" "data_inv opt f0 us s" "dt_file_size opt < 2 ^ 64"
    "child_write x k (kids s ! i) (sh s) = Some (Inr (c, d))" "\<not> kid_failed c"
  shows "data_inv opt f0 us (s\<lparr>kids := (kids s)[i := c], sh := d\<rparr>)"
proof -
  let ?k = "kids s ! i" and ?b = "fold chunk_write us f0"
  let ?off = "wu_chunk_no (c_wu ?k) * CHUNK_SIZE"
  have sec: "in_section ?k" "kid_pending ?k" using assms(3) by (simp_all add: in_section_def kid_pending_def)
  have k: "k < CHUNK_SIZE" using dt_inv_kids [OF assms(1)] assms(2,3) by (auto simp: list_all_length kid_ok_def)
  have D: "unit_fits opt (d_now (sh s)) (c_wu ?k)" "\<forall>u \<in> set us. wu_timestamp u \<le> wu_timestamp (c_wu ?k)"
    "d_log (sh s) = concat (map (log_rec (dt_dscv opt)) us)" "list_all (unit_fits opt (d_now (sh s))) us"
    "sorted (map wu_timestamp us)"
    using assms(2,4) sec(2) by (auto simp: data_inv_def)
  then have off: "u64 (CHUNK_SIZE * wu_chunk_no (c_wu ?k)) = ?off"
    using chunk_offset [OF _ assms(5)] by (simp add: unit_fits_def)
  have f: "d_file (sh s) = file_write ?off (take k (kid_chunk ?k)) ?b"
    using section_file [OF assms(1,2) sec(1) assms(4)] assms(3) by (simp add: kid_effect_def)
  have app: "file_write (?off + k) bs (d_file (sh s)) = file_write ?off (take k (kid_chunk ?k) @ bs) ?b" for bs
    using file_write_append [of ?off "take k (kid_chunk ?k)" bs ?b] k length_kid_chunk [of ?k] by (simp add: f)
  from assms(6) k show ?thesis
  proof (cases rule: child_write_cases)
    case fail
    with assms(7) show ?thesis by (simp add: kid_failed_def c_fail_def)
  next
    case (part n)
    show ?thesis
    proof (rule data_active [OF assms(1,2) sec(1) assms(4)])
      show "d_file d = kid_effect c ?b"
        using part off app by (simp add: kid_effect_def kid_chunk_def take_add)
    qed (use part D in auto)
  next
    case whole
    show ?thesis
    proof (rule data_active [OF assms(1,2) sec(1) assms(4)])
      show "d_file d = kid_effect c ?b"
        using whole off app by (simp add: kid_effect_def kid_chunk_def)
    qed (use whole D in auto)
  qed
qed

lemma data_log:
  assumes "dt_inv opt s" "i < length (kids s)" "c_pc (kids s ! i) = C_log" "data_inv opt f0 us s"
    "dt_log_write (x_io x) (x_out x) (dt_dscv opt) (d_log (sh s)) (c_wu (kids s ! i)) = (ret, err, log')" "\<not> ret < 0"
    "dt_dscv opt \<or> \<not> err"
  shows "data_inv opt f0 (us @ [c_wu (kids s ! i)])
    (s\<lparr>kids := (kids s)[i := (kids s ! i)\<lparr>c_ret := ret, c_logerr := e, c_pc := C_unlock\<rparr>], sh := (sh s)\<lparr>d_log := log'\<rparr>\<rparr>)"
proof -
  let ?k = "kids s ! i" and ?d = "(sh s)\<lparr>d_log := log'\<rparr>"
  have sec: "in_section ?k" "kid_pending ?k" using assms(3) by (simp_all add: in_section_def kid_pending_def)
  have D: "unit_fits opt (d_now (sh s)) (c_wu ?k)" "\<forall>u \<in> set us. wu_timestamp u \<le> wu_timestamp (c_wu ?k)"
    "d_log (sh s) = concat (map (log_rec (dt_dscv opt)) us)" "list_all (unit_fits opt (d_now (sh s))) us"
    "sorted (map wu_timestamp us)"
    using assms(2,4) sec(2) by (auto simp: data_inv_def)
  have cs: "wu_chunksize (c_wu ?k) = CHUNK_SIZE" using D(1) by (simp add: unit_fits_def wf_cwu_def)
  have log: "log' = d_log (sh s) @ log_rec (dt_dscv opt) (c_wu ?k)"
    using assms(5-7) by (auto simp: dt_log_write_def log_rec_def Let_def EINVAL_def split: if_splits)
  show ?thesis
  proof (rule data_active [OF assms(1,2) sec(1) assms(4)])
    show "d_file ?d = kid_effect (?k\<lparr>c_ret := ret, c_logerr := e, c_pc := C_unlock\<rparr>) (fold chunk_write (us @ [c_wu ?k]) f0)"
      using section_file [OF assms(1,2) sec(1) assms(4)] assms(3) cs
      by (simp add: kid_effect_def chunk_write_def kid_chunk_unit)
  qed (use D log in \<open>auto simp: sorted_append kid_pending_def\<close>)
qed

text \<open>Every other move is quiet.\<close>

lemma quiet_step:
  assumes "child_step opt x c s = Some (Inr (c', s'))" "\<not> kid_pending c" "c_pc c \<noteq> C_prep"
  shows "\<not> kid_pending c' \<and> d_file s' = d_file s \<and> d_log s' = d_log s \<and> d_now s' = d_now s"
  using assms(1)
proof (cases rule: child_step_cases)
  case (unlock r sem adj)
  then show ?thesis
    using child_after_cases [of opt x "c\<lparr>c_adj := adj\<rparr>" c'] by (auto simp: pc_defs split: if_splits)
qed (use assms(2,3) in \<open>auto simp: pc_defs\<close>)

text \<open>What a move adds to the log.\<close>

definition logs :: "dt_child \<Rightarrow> cwu list" where
  "logs c = (if c_pc c = C_log then [c_wu c] else [])"

lemma data_child:
  assumes "dt_inv opt s" "i < length (kids s)" "data_inv opt f0 us s" "dt_file_size opt < 2 ^ 64"
    "child_step opt x (kids s ! i) (sh s) = Some (Inr (c, d))" "\<not> kid_spoiled opt c"
  shows "data_inv opt f0 (us @ logs (kids s ! i)) (s\<lparr>kids := (kids s)[i := c], sh := d\<rparr>)"
proof (cases "kid_pending (kids s ! i) \<or> c_pc (kids s ! i) = C_prep")
  case False
  with quiet_step [OF assms(5)] have "data_inv opt f0 us (s\<lparr>kids := (kids s)[i := c], sh := d\<rparr>)"
    by (intro data_quiet [OF assms(3,2)]) simp_all
  with False show ?thesis by (auto simp: logs_def kid_pending_def)
next
  case True
  from assms(5) show ?thesis
  proof (cases rule: child_step_cases)
    case choose
    with data_choose [OF assms(1,2) choose(1) assms(3,4) choose(2)] show ?thesis by (simp add: logs_def)
  next
    case (store k)
    with data_store [OF assms(1,2) store(1) assms(3,4) store(2)] assms(6) show ?thesis by (simp add: logs_def kid_spoiled_def)
  next
    case (log ret err log')
    then have r: "\<not> ret < 0" using assms(6) by (auto simp: kid_spoiled_def kid_failed_def c_fail_def)
    with log(3) assms(6) have "dt_dscv opt \<or> \<not> err" by (auto simp: kid_spoiled_def)
    with r log data_log [OF assms(1,2) log(1) assms(3) log(2)] show ?thesis by (simp add: logs_def)
  qed (use True in \<open>simp_all add: kid_pending_def\<close>)
qed

section \<open>How far every child is\<close>

definition kid_logged :: "dt_child \<Rightarrow> nat" where
  "kid_logged c = c_j c + (if c_pc c = C_unlock then 1 else 0)"

definition kid_track :: "dt_opts \<Rightarrow> cwu list \<Rightarrow> dt_child \<Rightarrow> bool" where
  "kid_track opt us c \<longleftrightarrow> (c_pc c = C_bail \<or> kid_exited c \<longrightarrow> c_j c = num_chunks opt)
     \<and> (dt_appd opt \<longrightarrow> (\<forall>k < kid_logged c. \<exists>u \<in> set us. wu_chunk_no u = k) \<and> (kid_pending c \<longrightarrow> wu_chunk_no (c_wu c) = c_j c))"

definition log_track :: "dt_opts \<Rightarrow> cwu list \<Rightarrow> dt_sys \<Rightarrow> bool" where
  "log_track opt us s \<longleftrightarrow> list_all (kid_track opt us) (kids s) \<and> length us = sum_list (map kid_logged (kids s))"

lemma kid_track_more: "kid_track opt us c \<Longrightarrow> kid_track opt (us @ vs) c"
  by (auto simp: kid_track_def)

lemma choose_appd:
  assumes "child_choose opt x c s = Inr c'"
  shows "\<exists>wu. c' = c\<lparr>c_wu := wu, c_pc := C_write 0\<rparr> \<and> (dt_appd opt \<longrightarrow> wu_chunk_no wu = c_j c)"
proof (cases "dt_appd opt")
  case True
  with assms dt_prep_ok [of "x_rand2 x" "d_now s" "c_j c"] show ?thesis by (auto simp: child_choose_def)
next
  case False
  with child_choose_cases [OF assms] show ?thesis by simp
qed

lemma track_child:
  assumes "child_step opt x c s = Some (Inr (c', s'))" "kid_ok opt c" "\<not> dt_dscv opt" "\<not> kid_failed c'" "kid_track opt us c"
  shows "kid_track opt (us @ logs c) c' \<and> kid_logged c' = kid_logged c + length (logs c)"
  using assms(1)
proof (cases rule: child_step_cases)
  case (lock r sem adj)
  with assms(4) have "\<not> r < 0" by (auto simp: kid_failed_def c_fail_def)
  with lock assms(5) show ?thesis by (simp add: kid_track_def kid_logged_def logs_def kid_exited_def kid_pending_def)
next
  case leave
  with assms(2,5) show ?thesis by (simp add: kid_track_def kid_logged_def logs_def kid_exited_def kid_pending_def kid_ok_def)
next
  case choose
  with assms(5) choose_appd [OF choose(2)] show ?thesis
    by (auto simp: kid_track_def kid_logged_def logs_def kid_exited_def kid_pending_def)
next
  case (store k)
  then have "k < CHUNK_SIZE" using assms(2) by (simp add: kid_ok_def)
  with store(2) show ?thesis
    by (cases rule: child_write_cases)
      (use store(1) assms(4,5) in \<open>auto simp: kid_track_def kid_logged_def logs_def kid_exited_def kid_pending_def kid_failed_def c_fail_def\<close>)
next
  case (log ret err log')
  with assms(4) have "\<not> ret < 0" by (auto simp: kid_failed_def c_fail_def)
  with log assms(5) show ?thesis
    by (auto simp: kid_track_def kid_logged_def logs_def kid_exited_def kid_pending_def less_Suc_eq)
next
  case (unlock r sem adj)
  with assms(4) have "\<not> r < 0" by (auto simp: kid_failed_def c_fail_def split: if_splits)
  with unlock assms(3) have "c' = c_next (c\<lparr>c_adj := adj\<rparr>)" by (simp add: child_after_def)
  with unlock(1) assms(5) show ?thesis
    by (simp add: kid_track_def kid_logged_def logs_def kid_exited_def kid_pending_def c_next_def)
next
  case quit
  with assms(5) show ?thesis by (simp add: kid_track_def kid_logged_def logs_def kid_exited_def kid_pending_def)
qed (use assms(2,3) in \<open>simp_all add: kid_ok_def\<close>)

lemma sum_list_change_nat: "i < length xs \<Longrightarrow> sum_list (xs[i := xs ! i + y]) = sum_list xs + (y :: nat)"
  by (induction xs arbitrary: i) (auto split: nat.splits)

lemma log_track_child:
  assumes "i < length (kids s)" "child_step opt x (kids s ! i) (sh s) = Some (Inr (c, d))" "dt_inv opt s" "\<not> dt_dscv opt"
    "\<not> kid_failed c" "log_track opt us s"
  shows "log_track opt (us @ logs (kids s ! i)) (s\<lparr>kids := (kids s)[i := c], sh := d\<rparr>)"
proof -
  have "kid_ok opt (kids s ! i)" "kid_track opt us (kids s ! i)"
    using dt_inv_kids [OF assms(3)] assms(1,6) by (auto simp: list_all_length log_track_def)
  note t = track_child [OF assms(2) this(1) assms(4,5) this(2)]
  have "map kid_logged ((kids s)[i := c]) = (map kid_logged (kids s))[i := map kid_logged (kids s) ! i + length (logs (kids s ! i))]"
    using t assms(1) by (simp add: map_update)
  then have "sum_list (map kid_logged ((kids s)[i := c])) = sum_list (map kid_logged (kids s)) + length (logs (kids s ! i))"
    using assms(1) sum_list_change_nat [of i "map kid_logged (kids s)"] by simp
  moreover have "list_all (kid_track opt (us @ logs (kids s ! i))) ((kids s)[i := c])"
    using t assms(1,6) kid_track_more by (auto simp: list_all_length nth_list_update log_track_def)
  ultimately show ?thesis using assms(6) by (simp add: log_track_def)
qed

section \<open>Whole runs\<close>

lemma data_reap:
  assumes "data_inv opt f0 us s" "kids s' = map g (kids s)" "sh s' = sh s" "\<And>c. g c = c \<or> g c = c\<lparr>c_reaped := True\<rparr>"
  shows "data_inv opt f0 us s'"
proof -
  have g: "kid_pending (g c) = kid_pending c" "c_wu (g c) = c_wu c" "kid_effect (g c) f = kid_effect c f" for c f
    using assms(4) [of c] by (auto simp: kid_pending_def kid_effect_def kid_chunk_def split: dt_pc.split)
  show ?thesis using assms(1) by (simp add: data_inv_def assms(2,3) g)
qed

lemma data_same:
  "data_inv opt f0 us s \<Longrightarrow> kids s' = kids s \<Longrightarrow> d_file (sh s') = d_file (sh s) \<Longrightarrow> d_log (sh s') = d_log (sh s)
     \<Longrightarrow> d_now (sh s') = d_now (sh s) \<Longrightarrow> data_inv opt f0 us s'"
  by (simp add: data_inv_def)

lemma data_parent:
  assumes "data_inv opt f0 us s" "parent_step opt d s = Some s'" "dt_inv opt s"
  shows "data_inv opt f0 us s'"
proof (cases "p_pc s")
  case P_fork
  have "\<not> kid_pending new_child" by (simp add: kid_pending_def new_child_def)
  with P_fork assms(1,2) show ?thesis by (auto simp: parent_step_def data_inv_def split: if_splits)
next
  case (P_wait i)
  show ?thesis
  proof (cases "i < dt_num_children opt")
    case True
    with P_wait assms(2) have "parent_wait i s = Some s'" by (simp add: parent_step_def)
    then have ex: "kid_exited (kids s ! i)" and s': "kids s' = (kids s)[i := (kids s ! i)\<lparr>c_reaped := True\<rparr>]" "sh s' = sh s"
      by (auto simp: parent_wait_def Let_def split: if_splits)
    have "i < length (kids s)" using assms(3) P_wait True by (simp add: dt_inv_def)
    moreover have "\<not> kid_pending (kids s ! i)" "\<not> kid_pending ((kids s ! i)\<lparr>c_reaped := True\<rparr>)"
      using ex by (auto simp: kid_exited_def kid_pending_def split: dt_pc.splits)
    ultimately have "data_inv opt f0 us (s\<lparr>kids := kids s', sh := sh s\<rparr>)"
      unfolding s' by (intro data_quiet [OF assms(1)]) simp_all
    then show ?thesis by (rule data_same) (simp_all add: s')
  next
    case False
    with P_wait assms(2) show ?thesis
      by (intro data_same [OF assms(1)]) (auto simp: parent_step_def Let_def)
  qed
next
  case (P_done r)
  with assms(2) show ?thesis by (simp add: parent_step_def)
qed

lemma spoiled_other:
  assumes "dt_step opt s s'" "dt_inv opt s" "\<not> dt_spoiled opt s'"
  shows "\<not> dt_spoiled opt s"
  using assms
proof (induction rule: dt_step.induct)
  case (child s i x c d)
  then show ?case using dt_spoiled_child(1) by blast
next
  case (parent s d s')
  show ?case
  proof
    assume "dt_spoiled opt s"
    then obtain j where j: "j < length (kids s)" "kid_spoiled opt (kids s ! j)" by (auto simp: dt_spoiled_def in_set_conv_nth)
    have "kid_spoiled opt ((kids s)[m := (kids s ! m)\<lparr>c_reaped := True\<rparr>] ! j)" for m
      by (cases "j = m") (use j in simp_all)
    then have "j < length (kids s') \<and> kid_spoiled opt (kids s' ! j)" using parent.hyps j
      by (auto simp: parent_step_def parent_wait_def Let_def nth_append split: dt_ppc.splits if_splits)
    with parent.prems(2) show False by (auto simp: dt_spoiled_def)
  qed
next
  case (sigchld s)
  let ?g = "\<lambda>c. if kid_exited c then c\<lparr>c_reaped := True\<rparr> else c"
  have "kid_spoiled opt (?g c) = kid_spoiled opt c" for c by simp
  moreover have "\<forall>c \<in> set (kids s). \<not> kid_spoiled opt (?g c)"
    using sigchld by (auto simp: dt_spoiled_def sigchld_handler_def simp del: if_image_distrib)
  ultimately show ?case by (auto simp: dt_spoiled_def)
next
  case (tick s t)
  then show ?case by (simp add: dt_spoiled_def)
qed

lemma track_reap:
  assumes "log_track opt us s" "kids s' = map g (kids s)" "\<And>c. g c = c \<or> g c = c\<lparr>c_reaped := True\<rparr>"
  shows "log_track opt us s'"
proof -
  have g: "kid_track opt us (g c) = kid_track opt us c" "kid_logged (g c) = kid_logged c" for c
    using assms(3) [of c] by (auto simp: kid_track_def kid_logged_def kid_exited_def kid_pending_def split: dt_pc.split)
  show ?thesis using assms(1) by (simp add: log_track_def assms(2) list_all_length g comp_def)
qed

lemma track_parent:
  assumes "log_track opt us s" "parent_step opt d s = Some s'"
  shows "log_track opt us s'"
proof (cases "p_pc s")
  case P_fork
  have "kid_track opt us new_child" "kid_logged new_child = 0"
    by (simp_all add: new_child_def kid_track_def kid_logged_def kid_exited_def kid_pending_def)
  with P_fork assms show ?thesis by (auto simp: parent_step_def log_track_def split: if_splits)
next
  case (P_wait i)
  have upd: "map h ((kids s)[i := (kids s ! i)\<lparr>c_reaped := True\<rparr>]) = map h (kids s)"
    if "\<And>c. h (c\<lparr>c_reaped := True\<rparr>) = h c" for h :: "dt_child \<Rightarrow> 'b"
  proof (rule nth_equalityI)
    fix j assume "j < length (map h ((kids s)[i := (kids s ! i)\<lparr>c_reaped := True\<rparr>]))"
    then show "map h ((kids s)[i := (kids s ! i)\<lparr>c_reaped := True\<rparr>]) ! j = map h (kids s) ! j"
      by (cases "j = i") (simp_all add: that)
  qed simp
  have t: "kid_track opt us (c\<lparr>c_reaped := True\<rparr>) = kid_track opt us c" "kid_logged (c\<lparr>c_reaped := True\<rparr>) = kid_logged c" for c
    by (simp_all add: kid_track_def kid_logged_def kid_exited_def kid_pending_def split: dt_pc.split)
  have "kids s' = (kids s)[i := (kids s ! i)\<lparr>c_reaped := True\<rparr>] \<or> kids s' = kids s"
    using P_wait assms(2) by (auto simp: parent_step_def parent_wait_def Let_def split: if_splits)
  then have "map (kid_track opt us) (kids s') = map (kid_track opt us) (kids s)" "map kid_logged (kids s') = map kid_logged (kids s)"
    using upd [of "kid_track opt us"] upd [of kid_logged] t by auto
  moreover have "list_all P xs \<longleftrightarrow> list_all id (map P xs)" for P :: "dt_child \<Rightarrow> bool" and xs by (simp add: list_all_iff)
  ultimately show ?thesis using assms(1) by (metis log_track_def)
next
  case (P_done r)
  with assms(2) show ?thesis by (simp add: parent_step_def)
qed

text \<open>The log only grows, and outside the destructive test the children's counters keep up with it.\<close>

lemma data_step:
  assumes "dt_step opt s s'" "dt_inv opt s" "dt_file_size opt < 2 ^ 64" "\<not> dt_spoiled opt s'" "data_inv opt f0 us s"
  shows "\<exists>vs. data_inv opt f0 (us @ vs) s' \<and> (\<not> dt_dscv opt \<and> log_track opt us s \<longrightarrow> log_track opt (us @ vs) s')"
  using assms
proof (induction rule: dt_step.induct)
  case (child s i x c d)
  then have "\<not> kid_spoiled opt c" using dt_spoiled_child(2) by blast
  moreover from this have "\<not> kid_failed c" by (simp add: kid_spoiled_def)
  ultimately show ?case using child data_child log_track_child by blast
next
  case (parent s d s')
  then show ?case using data_parent track_parent by (intro exI [of _ "[]"]) auto
next
  case (sigchld s)
  let ?g = "\<lambda>c. if kid_exited c then c\<lparr>c_reaped := True\<rparr> else c"
  have k: "kids (sigchld_handler s) = map ?g (kids s)" "sh (sigchld_handler s) = sh s" by (simp_all add: sigchld_handler_def)
  have "data_inv opt f0 us (sigchld_handler s)" by (rule data_reap [OF sigchld(5) k]) simp
  moreover have "log_track opt us s \<Longrightarrow> log_track opt us (sigchld_handler s)" by (rule track_reap [OF _ k(1)]) simp_all
  ultimately show ?case by (intro exI [of _ "[]"]) simp
next
  case (tick s t)
  then have "data_inv opt f0 us (s\<lparr>sh := (sh s)\<lparr>d_now := t\<rparr>\<rparr>)"
    using fits_later [of opt "d_now (sh s)" _ t] by (auto simp: data_inv_def list_all_iff)
  then show ?case by (intro exI [of _ "[]"]) (simp add: log_track_def)
qed

lemma data_run:
  assumes "(dt_step opt)\<^sup>*\<^sup>* s0 s" "dt_inv opt s0" "dt_file_size opt < 2 ^ 64" "\<not> dt_spoiled opt s" "data_inv opt f0 [] s0"
    "log_track opt [] s0"
  shows "\<exists>us. data_inv opt f0 us s \<and> (\<not> dt_dscv opt \<longrightarrow> log_track opt us s)"
  using assms
proof (induction rule: rtranclp_induct)
  case (step s1 s2)
  have inv: "dt_inv opt s1" using dt_inv_reach [OF step.hyps(1) step.prems(1)] .
  then have "\<not> dt_spoiled opt s1" using spoiled_other [OF step.hyps(2)] step.prems(3) by blast
  with step.IH step.prems obtain us where "data_inv opt f0 us s1" "\<not> dt_dscv opt \<longrightarrow> log_track opt us s1" by blast
  with data_step [OF step.hyps(2) inv step.prems(2,3)] show ?case by blast
qed blast

lemma data_start:
  assumes "basic_test_start rts env vol opt now junk sem_id = Inr (Inr s0)" "(dt_step opt)\<^sup>*\<^sup>* s0 s" "0 < now" "now < 2 ^ 63"
    "dt_file_size opt < 2 ^ 64" "\<not> dt_spoiled opt s"
  shows "\<exists>us. data_inv opt (d_file (sh s0)) us s \<and> (\<not> dt_dscv opt \<longrightarrow> log_track opt us s)"
proof -
  obtain f where "s0 = dt_init 1 f now junk sem_id" using basic_test_start_init [OF assms(1)] by blast
  then have "dt_inv opt s0" "data_inv opt (d_file (sh s0)) [] s0" "log_track opt [] s0"
    using dt_inv_init data_inv_init [OF assms(3,4)] by (auto simp: dt_init_def log_track_def)
  with data_run [OF assms(2) _ assms(5,6)] show ?thesis by blast
qed

end
