(* ===== verification/Directio_Tests.thy ===== *)
theory Directio_Tests
  imports Directio_Data
begin

text \<open>
  Whole tests: what \<open>directio_test\<close> guarantees of the file it leaves, the verdict of a later run with
  \<open>-V\<close>, and what a run guarantees whatever fails.
\<close>

section \<open>The verdict\<close>

lemma dt_read_ideal:
  assumes "i * CHUNK_SIZE + CHUNK_SIZE \<le> length f" "length f < 2 ^ 63"
  shows "dt_do_read_chunk (Suc fuel) [] f i = Inr (int CHUNK_SIZE, Some (disk_cwu f CHUNK_SIZE i), [])"
proof -
  have off: "u64 (CHUNK_SIZE * i) = i * CHUNK_SIZE" using assms by (simp add: width mult.commute)
  have "dt_read_at (Suc fuel) [] f CHUNK_SIZE (i * CHUNK_SIZE) = Inr (int CHUNK_SIZE, take CHUNK_SIZE (drop (i * CHUNK_SIZE) f), [])"
    using assms(1) by (simp add: dt_read_at_def read_at_Nil) (simp add: CHUNK_SIZE_def to_int32_id)
  with dump_disk [OF _ assms(1)] show ?thesis
    unfolding dt_do_read_chunk_def off by (simp add: dt_dump_pattern_def) (simp add: CHUNK_SIZE_def)
qed

lemma dt_verify_body_ideal:
  assumes "n * CHUNK_SIZE \<le> length f" "length f < 2 ^ 63" "table_ok n CHUNK_SIZE wus"
  shows "\<exists>r. dt_verify_body (Suc fuel) [] f wus i = Inr r
     \<and> (r = 0 \<longleftrightarrow> (\<forall>j. i \<le> j \<and> j < n \<longrightarrow> chunk_passes (wus ! j) j (disk_cwu f CHUNK_SIZE j)))"
proof (induction "n - i" arbitrary: i)
  case 0
  then show ?case using assms(3) by (subst dt_verify_body.simps) (auto simp: table_ok_def)
next
  case (Suc m)
  then have i: "i < n" by simp
  have fit: "i * CHUNK_SIZE + CHUNK_SIZE \<le> length f" using chunk_room [OF i, of CHUNK_SIZE] assms(1) by linarith
  have "i \<le> i * CHUNK_SIZE" by (simp add: CHUNK_SIZE_def)
  then have "i < 2 ^ 63" using fit assms(2) by linarith
  then have i64: "i < 2 ^ 64" by simp
  let ?P = "\<lambda>j. chunk_passes (wus ! j) j (disk_cwu f CHUNK_SIZE j)"
  have sz: "40 < CHUNK_SIZE" by (simp add: CHUNK_SIZE_def)
  obtain o1 where o1: "verify_chunk CHUNK_SIZE (wus ! i) (int CHUNK_SIZE) i (disk_cwu f CHUNK_SIZE i) = Inr o1"
    "o1 = None \<longleftrightarrow> ?P i" "o1 \<noteq> Some 0"
    using verify_chunk_decides [OF sz assms(3) i i64] by blast
  have step: "dt_verify_body (Suc fuel) [] f wus i = (case o1 of Some r \<Rightarrow> Inr r | None \<Rightarrow> dt_verify_body (Suc fuel) [] f wus (i + 1))"
    using assms(3) i o1(1) dt_read_ideal [OF fit assms(2), of fuel]
    by (subst dt_verify_body.simps) (simp add: table_ok_def split: option.split)
  have all: "(\<forall>j. i \<le> j \<and> j < n \<longrightarrow> ?P j) \<longleftrightarrow> ?P i \<and> (\<forall>j. i + 1 \<le> j \<and> j < n \<longrightarrow> ?P j)"
    using i by (metis Suc_eq_plus1 Suc_leI le_eq_less_or_eq le_refl order.trans le_add1)
  show ?case
  proof (cases o1)
    case None
    have "m = n - (i + 1)" using Suc.hyps(2) by simp
    from Suc.hyps(1) [OF this] None step o1(2) all show ?thesis by simp
  next
    case (Some r)
    with step o1(2,3) all show ?thesis by auto
  qed
qed

lemma dt_verify_file_ideal:
  assumes "n * CHUNK_SIZE \<le> length f" "length f < 2 ^ 63" "list_all (wf_cwu n CHUNK_SIZE) us" "us \<noteq> []" "vol fnam = Some f"
    "filesize div CHUNK_SIZE = n"
  shows "\<exists>r. dt_verify_file (Suc fuel) [] vol (Inl (concat (map show_cwu us))) fnam filesize = Inr r
     \<and> (r = 0 \<longleftrightarrow> (\<forall>i < n. chunk_passes (expected n CHUNK_SIZE us ! i) i (disk_cwu f CHUNK_SIZE i)))"
proof -
  have "length (init_wus n CHUNK_SIZE) = n" by (simp add: init_wus_def)
  from fv_log.loop_log [OF assms(3) this assms(4)]
  have "fv_read_log n CHUNK_SIZE (stream_open (concat (map show_cwu us))) (init_wus n CHUNK_SIZE)
      = Inr (None, expected n CHUNK_SIZE us)" by (simp add: expected_def)
  then have "dt_verify_file (Suc fuel) [] vol (Inl (concat (map show_cwu us))) fnam filesize
      = dt_verify_body (Suc fuel) [] f (expected n CHUNK_SIZE us) 0"
    using assms(5,6) by (simp add: dt_verify_file_def sys_open_ro_def Let_def)
  with dt_verify_body_ideal [OF assms(1,2) table_ok_expected [OF assms(3)], of fuel 0] show ?thesis by simp
qed

section \<open>The file a test starts from\<close>

lemma fold_chunk_bytes:
  assumes "\<And>i. file_byte f i = file_byte g i"
  shows "file_byte (fold chunk_write us f) i = file_byte (fold chunk_write us g) i"
  using assms by (induction us arbitrary: f g) (simp_all add: chunk_write_def buf_simps)

lemma length_fold_chunks:
  assumes "list_all (wf_cwu n CHUNK_SIZE) us" "length f \<le> n * CHUNK_SIZE"
  shows "length (fold chunk_write us f) \<le> n * CHUNK_SIZE \<and> length f \<le> length (fold chunk_write us f)
     \<and> (\<forall>u \<in> set us. wu_chunk_no u * CHUNK_SIZE + CHUNK_SIZE \<le> length (fold chunk_write us f))"
  using assms
proof (induction us arbitrary: f)
  case (Cons u us)
  have u: "wu_chunk_no u < n" "wu_chunksize u = CHUNK_SIZE" using Cons.prems(1) by (simp_all add: wf_cwu_def)
  have "length (chunk_bytes u) = CHUNK_SIZE" using u(2) by (simp add: length_chunk_bytes CHUNK_SIZE_def)
  then have l: "length (chunk_write u f) = max (length f) (wu_chunk_no u * CHUNK_SIZE + CHUNK_SIZE)"
    using u(2) CHUNK_SIZE_pos by (auto simp: chunk_write_def buf_simps)
  then have "length (chunk_write u f) \<le> n * CHUNK_SIZE" using chunk_room [OF u(1), of CHUNK_SIZE] Cons.prems(2) by simp
  from Cons.IH [OF _ this] Cons.prems(1) l show ?case by auto
qed simp

text \<open>A file from which verification passes with an empty log.\<close>

definition passes_unlogged :: "nat \<Rightarrow> content \<Rightarrow> bool" where
  "passes_unlogged n f \<longleftrightarrow> length f = n * CHUNK_SIZE
     \<and> (\<forall>i < n. chunk_passes (init_wus n CHUNK_SIZE ! i) i (disk_cwu f CHUNK_SIZE i))"

lemma passes_zeros: "passes_unlogged n (replicate (n * CHUNK_SIZE) 0)"
  by (simp add: passes_unlogged_def chunk_passes_def init_wus_def cwu_zero_def disk_cwu_def le_field_zeros)

lemma table_ok_init: "table_ok n CHUNK_SIZE (init_wus n CHUNK_SIZE)"
  by (simp add: table_ok_def init_wus_def cwu_zero_def)

lemma passes_after_log:
  assumes "passes_unlogged n f" "list_all (wf_cwu n CHUNK_SIZE) us" "sorted (map wu_timestamp us)" "\<forall>u \<in> set us. 0 < wu_timestamp u"
  shows "length (fold chunk_write us f) = n * CHUNK_SIZE"
    "\<forall>i < n. chunk_passes (expected n CHUNK_SIZE us ! i) i (disk_cwu (fold chunk_write us f) CHUNK_SIZE i)"
proof -
  have "\<forall>u \<in> set us. \<forall>i < n. wu_timestamp (init_wus n CHUNK_SIZE ! i) \<le> wu_timestamp u"
    by (simp add: init_wus_def cwu_zero_def)
  then have "length (fold chunk_write us f) = n * CHUNK_SIZE \<and>
    (\<forall>i < n. chunk_passes (fold wus_update us (init_wus n CHUNK_SIZE) ! i) i (disk_cwu (fold chunk_write us f) CHUNK_SIZE i))"
    using assms table_ok_init [of n] by (intro writes_pass) (simp_all add: passes_unlogged_def CHUNK_SIZE_def)
  then show "length (fold chunk_write us f) = n * CHUNK_SIZE"
    "\<forall>i < n. chunk_passes (expected n CHUNK_SIZE us ! i) i (disk_cwu (fold chunk_write us f) CHUNK_SIZE i)"
    by (simp_all add: expected_def)
qed

lemma passes_write:
  assumes "passes_unlogged n f" "wf_cwu n CHUNK_SIZE u"
  shows "passes_unlogged n (chunk_write u f)"
proof -
  have sz: "40 < CHUNK_SIZE" by (simp add: CHUNK_SIZE_def)
  have len: "length f = n * CHUNK_SIZE" using assms(1) by (simp add: passes_unlogged_def)
  note d = disk_after_write [OF assms(2) sz len]
  have u: "wu_chunk_no u < n" using assms(2) by (simp add: wf_cwu_def)
  have crc: "body_crc (u\<lparr>wu_checksum := c\<rparr>) = body_crc u" for c by (simp add: body_crc_def)
  show ?thesis
    using assms(1) d(1) d(2) [OF u] crc by (auto simp: passes_unlogged_def chunk_passes_def init_wus_def cwu_zero_def)
qed

lemma passes_writes: "passes_unlogged n f \<Longrightarrow> list_all (wf_cwu n CHUNK_SIZE) us \<Longrightarrow> passes_unlogged n (fold chunk_write us f)"
  by (induction us arbitrary: f) (simp_all add: passes_write)

text \<open>Writing past the end of a short file is writing into one filled up with zeros.\<close>

lemma fold_chunks_pad:
  assumes "list_all (wf_cwu n CHUNK_SIZE) us" "length f \<le> n * CHUNK_SIZE" "length (fold chunk_write us f) = n * CHUNK_SIZE"
  shows "fold chunk_write us f = fold chunk_write us (file_truncate (n * CHUNK_SIZE) f)"
proof (rule file_eqI)
  show "length (fold chunk_write us f) = length (fold chunk_write us (file_truncate (n * CHUNK_SIZE) f))"
    using length_fold_chunks [OF assms(1), of "file_truncate (n * CHUNK_SIZE) f"] assms(3) by (simp add: buf_simps)
  show "file_byte (fold chunk_write us f) i = file_byte (fold chunk_write us (file_truncate (n * CHUNK_SIZE) f)) i" for i
  proof (rule fold_chunk_bytes)
    show "file_byte f j = file_byte (file_truncate (n * CHUNK_SIZE) f) j" for j
      using assms(2) unfolding file_byte_truncate by (simp add: file_byte_def)
  qed
qed

lemma dt_prep_unit:
  assumes "dt_prep_rand_dest_write_unit r now k = Inr u" "k < n" "n < 2 ^ 63" "now < 2 ^ 63"
  shows "wf_cwu n CHUNK_SIZE u" "wu_chunk_no u = k"
proof -
  obtain v where v: "v \<le> 25" "wu_chunk_no u = k" "wu_timestamp u = now" "wu_chunksize u = CHUNK_SIZE" "wu_char u = 65 + of_nat v"
    using dt_prep_ok [of r now k] assms(1) by auto
  with rand_letter(1) [of v] assms(2-4) show "wf_cwu n CHUNK_SIZE u" "wu_chunk_no u = k"
    by (simp_all add: wf_cwu_def RAND_CHAR_START_def)
qed

lemma dt_do_write_ideal:
  assumes "wf_cwu n CHUNK_SIZE u" "n * CHUNK_SIZE < 2 ^ 64"
  shows "dt_do_write_chunk [] f u = Inr (int CHUNK_SIZE, chunk_write u f, [])"
proof -
  have u: "wu_chunk_no u < n" "wu_chunksize u = CHUNK_SIZE" using assms(1) by (simp_all add: wf_cwu_def)
  have "u64 (CHUNK_SIZE * wu_chunk_no u) = wu_chunk_no u * CHUNK_SIZE"
    using chunk_room [OF u(1), of CHUNK_SIZE] assms(2) by (simp add: width mult.commute)
  moreover have "length (chunk_bytes u) = CHUNK_SIZE" using u(2) by (simp add: length_chunk_bytes CHUNK_SIZE_def)
  moreover have "to_int32 (int CHUNK_SIZE) = int CHUNK_SIZE" by (simp add: CHUNK_SIZE_def to_int32_id)
  moreover have "dt_fill_chunk_pattern u = Inr (chunk_bytes u, u\<lparr>wu_checksum := body_crc u\<rparr>)"
  proof -
    have "u\<lparr>wu_chunksize := CHUNK_SIZE\<rparr> = u" using u(2) by (cases u) simp
    then show ?thesis unfolding dt_fill_chunk_pattern_def using u(2) by (simp only: fill_chunk_bytes) (simp add: CHUNK_SIZE_def fill_chunk_bytes)
  qed
  ultimately show ?thesis using u(2)
    by (simp add: dt_do_write_chunk_def dt_write_at_def write_at_def write_at_loop.simps chunk_write_def)
qed

lemma dt_prep_orig_loop_ideal:
  assumes "dt_prep_orig_loop rts [] f (k * CHUNK_SIZE) (n * CHUNK_SIZE) k = Inr (ret, f', env')" "k \<le> n" "n * CHUNK_SIZE < 2 ^ 63"
    "list_all (\<lambda>(r, now). now < 2 ^ 63) rts"
  shows "\<exists>ws. list_all (wf_cwu n CHUNK_SIZE) ws \<and> map wu_chunk_no ws = [k..<n] \<and> f' = fold chunk_write ws f \<and> ret = 0 \<and> env' = []"
  using assms
proof (induction rts arbitrary: f k)
  case Nil
  then have "k = n" using CHUNK_SIZE_pos by (subst (asm) dt_prep_orig_loop.simps) (auto split: if_splits)
  with Nil.prems(1) show ?case by (subst (asm) dt_prep_orig_loop.simps) (auto intro: exI [of _ "[]"])
next
  case (Cons rt rts)
  show ?case
  proof (cases "k < n")
    case False
    with Cons.prems(1,2) show ?thesis by (subst (asm) dt_prep_orig_loop.simps) (auto intro: exI [of _ "[]"])
  next
    case True
    obtain r now where rt: "rt = (r, now)" by fastforce
    have "n \<le> n * CHUNK_SIZE" by (simp add: CHUNK_SIZE_def)
    then have n: "n < 2 ^ 63" "n * CHUNK_SIZE < 2 ^ 64" using Cons.prems(3) by (linarith, simp)
    obtain u where u: "dt_prep_rand_dest_write_unit r now k = Inr u" using dt_prep_ok [of r now k] by auto
    have wf: "wf_cwu n CHUNK_SIZE u" "wu_chunk_no u = k"
      using dt_prep_unit [OF u True n(1)] Cons.prems(4) rt by simp_all
    have lt: "k * CHUNK_SIZE < n * CHUNK_SIZE" using True CHUNK_SIZE_pos by simp
    have "u64 (k * CHUNK_SIZE + CHUNK_SIZE) = (k + 1) * CHUNK_SIZE" "u64 (k + 1) = k + 1"
      using chunk_room [OF True, of CHUNK_SIZE] Cons.prems(3) n(1) True by (simp_all add: width)
    with Cons.prems(1) rt u lt dt_do_write_ideal [OF wf(1) n(2), of f]
    have "dt_prep_orig_loop rts [] (chunk_write u f) ((k + 1) * CHUNK_SIZE) (n * CHUNK_SIZE) (k + 1) = Inr (ret, f', env')"
      by (subst (asm) dt_prep_orig_loop.simps) simp
    with Cons.IH [of "chunk_write u f" "k + 1"] Cons.prems(3,4) True obtain ws where
      "list_all (wf_cwu n CHUNK_SIZE) ws" "map wu_chunk_no ws = [k + 1..<n]" "f' = fold chunk_write ws (chunk_write u f)"
      "ret = 0" "env' = []" by auto
    with wf True show ?thesis by (intro exI [of _ "u # ws"]) (simp add: upt_rec [of k n])
  qed
qed

lemma file_truncate_id: "length f = n \<Longrightarrow> file_truncate n f = f"
  by (simp add: file_truncate_def)

lemma prep_file_passes:
  assumes "dt_prep_orig_file_in_chunks rts [] vol w (n * CHUNK_SIZE) = Inr (ret, vol', env')" "vol w = None" "n * CHUNK_SIZE < 2 ^ 63"
    "list_all (\<lambda>(r, now). now < 2 ^ 63) rts"
  shows "\<exists>f. vol' = vol(w \<mapsto> f) \<and> ret = 0 \<and> env' = [] \<and> passes_unlogged n f"
proof -
  obtain f where f: "dt_prep_orig_loop rts [] [] (0 * CHUNK_SIZE) (n * CHUNK_SIZE) 0 = Inr (ret, f, env')" "vol' = vol(w \<mapsto> f)"
    using assms(1,2) by (auto simp: dt_prep_orig_file_in_chunks_def sys_open_creat_def CHUNK_SIZE_def DIRECTIO_SLICE_def
        split: sum.splits)
  from dt_prep_orig_loop_ideal [OF f(1) _ assms(3,4)] obtain ws where
    ws: "list_all (wf_cwu n CHUNK_SIZE) ws" "map wu_chunk_no ws = [0..<n]" "f = fold chunk_write ws []" "ret = 0" "env' = []" by auto
  have "\<exists>u \<in> set ws. wu_chunk_no u = k" if "k < n" for k
  proof -
    have "k \<in> wu_chunk_no ` set ws" using \<open>k < n\<close> arg_cong [OF ws(2), of set] by simp
    then show ?thesis by blast
  qed
  with length_fold_chunks [OF ws(1), of "[]"] have "length f = n * CHUNK_SIZE"
    by (cases n) (force simp: ws(3))+
  with fold_chunks_pad [OF ws(1), of "[]"] have "f = fold chunk_write ws (replicate (n * CHUNK_SIZE) 0)"
    by (simp add: ws(3) file_truncate_def)
  with passes_writes [OF passes_zeros ws(1)] ws(4,5) f(2) show ?thesis by auto
qed

lemma start_file:
  assumes "basic_test_start rts [] vol opt now junk sem_id = Inr (Inr s0)" "vol (dt_workfile opt) = None"
    "dt_file_size opt = n * CHUNK_SIZE" "dt_file_size opt < 2 ^ 63" "list_all (\<lambda>(r, now). now < 2 ^ 63) rts"
    "dt_basc opt \<or> dt_fihl opt \<or> dt_appd opt"
  shows "length (d_file (sh s0)) \<le> n * CHUNK_SIZE" "passes_unlogged n (file_truncate (n * CHUNK_SIZE) (d_file (sh s0)))"
    "\<not> dt_appd opt \<Longrightarrow> length (d_file (sh s0)) = n * CHUNK_SIZE"
proof -
  have init: "semaphore_init [] (Suc 0) = (Some 1, [])" by (simp add: semaphore_init_def set_semvalue_def)
  obtain f0 where f0: "if dt_basc opt then passes_unlogged n f0 else f0 = []"
    "d_file (sh s0) = (if dt_fihl opt then file_truncate (n * CHUNK_SIZE) f0 else f0)"
  proof (cases "dt_basc opt")
    case True
    obtain ret vol' env' where pr: "dt_prep_orig_file_in_chunks rts [] vol (dt_workfile opt) (dt_file_size opt) = Inr (ret, vol', env')"
      using assms(1) True by (auto simp: basic_test_start_def init split: sum.splits)
    from prep_file_passes [OF pr [unfolded assms(3)] assms(2) _ assms(5)] assms(3,4) obtain f where
      f: "vol' = vol(dt_workfile opt \<mapsto> f)" "ret = 0" "env' = []" "passes_unlogged n f" by auto
    with assms(1) True pr have "d_file (sh s0) = (if dt_fihl opt then file_truncate (n * CHUNK_SIZE) f else f)"
      by (auto simp: basic_test_start_def init sys_open_creat_def dt_init_def assms(3) split: if_splits)
    with f(4) True that show thesis by simp
  next
    case False
    with assms(1,2) have "d_file (sh s0) = (if dt_fihl opt then file_truncate (n * CHUNK_SIZE) [] else [])"
      by (auto simp: basic_test_start_def init sys_open_creat_def dt_init_def assms(3) split: if_splits)
    with False that show thesis by simp
  qed
  have z: "file_truncate (n * CHUNK_SIZE) [] = replicate (n * CHUNK_SIZE) 0" by (simp add: file_truncate_def)
  have "passes_unlogged n f0 \<Longrightarrow> file_truncate (n * CHUNK_SIZE) f0 = f0 \<and> length f0 = n * CHUNK_SIZE"
    using file_truncate_id [of f0 "n * CHUNK_SIZE"] by (simp add: passes_unlogged_def)
  with f0 z passes_zeros [of n] assms(6) show "length (d_file (sh s0)) \<le> n * CHUNK_SIZE"
    "passes_unlogged n (file_truncate (n * CHUNK_SIZE) (d_file (sh s0)))"
    "\<not> dt_appd opt \<Longrightarrow> length (d_file (sh s0)) = n * CHUNK_SIZE"
    by (auto simp: file_truncate_id split: if_splits)
qed

text \<open>What a test that no child failed leaves behind.\<close>

lemma test_outcome:
  assumes "basic_test_start rts [] vol opt now junk sem_id = Inr (Inr s0)" "vol (dt_workfile opt) = None"
    "dt_file_size opt = n * CHUNK_SIZE" "dt_file_size opt < 2 ^ 63" "list_all (\<lambda>(r, now). now < 2 ^ 63) rts"
    "dt_basc opt \<or> dt_fihl opt \<or> dt_appd opt" "\<not> dt_dscv opt" "0 < now" "now < 2 ^ 63" "0 < n"
    "(dt_step opt)\<^sup>*\<^sup>* s0 s" "kids s \<noteq> []" "\<forall>c \<in> set (kids s). c_pc c = C_exit 0 \<and> \<not> c_logerr c"
  shows "\<exists>us. d_log (sh s) = concat (map show_cwu us) \<and> length us = length (kids s) * n \<and> us \<noteq> []
     \<and> list_all (wf_cwu n CHUNK_SIZE) us \<and> length (d_file (sh s)) = n * CHUNK_SIZE
     \<and> (\<forall>i < n. chunk_passes (expected n CHUNK_SIZE us ! i) i (disk_cwu (d_file (sh s)) CHUNK_SIZE i))"
proof -
  let ?f0 = "d_file (sh s0)"
  have nc: "num_chunks opt = n" using assms(3) CHUNK_SIZE_pos by simp
  have nf: "\<not> dt_spoiled opt s" using assms(13) by (auto simp: dt_spoiled_def kid_spoiled_def kid_failed_def)
  have "dt_file_size opt < 2 ^ 64" using assms(4) by simp
  from data_start [OF assms(1,11,8,9) this nf] assms(7) obtain us where us: "data_inv opt ?f0 us s" "log_track opt us s" by blast
  have np: "\<forall>c \<in> set (kids s). \<not> kid_pending c" using assms(13) by (simp add: kid_pending_def)
  have rec: "log_rec False = show_cwu" by (rule ext) (simp add: log_rec_def)
  have f: "d_file (sh s) = fold chunk_write us ?f0" "d_log (sh s) = concat (map show_cwu us)" "sorted (map wu_timestamp us)"
    "list_all (wf_cwu n CHUNK_SIZE) us" "\<forall>u \<in> set us. 0 < wu_timestamp u"
    using us(1) np assms(7) nc by (auto simp: data_inv_def unit_fits_def list_all_iff rec)
  have all: "c_j c = n" "dt_appd opt \<Longrightarrow> \<forall>k < n. \<exists>u \<in> set us. wu_chunk_no u = k" if "c \<in> set (kids s)" for c
    using us(2) that assms(13) nc by (auto simp: log_track_def list_all_iff kid_track_def kid_logged_def kid_exited_def)
  have "map kid_logged (kids s) = map (\<lambda>_. n) (kids s)" using all(1) assms(13) by (simp add: kid_logged_def)
  then have "sum_list (map kid_logged (kids s)) = length (kids s) * n" by (simp only: sum_list_triv of_nat_id)
  then have cnt: "length us = length (kids s) * n" using us(2) by (simp add: log_track_def)
  then have "us \<noteq> []" using assms(10,12) by auto
  note st = start_file [OF assms(1-6)]
  note lf = length_fold_chunks [OF f(4) st(1)]
  have len: "length (fold chunk_write us ?f0) = n * CHUNK_SIZE"
  proof (cases "dt_appd opt")
    case True
    obtain c where "c \<in> set (kids s)" using assms(12) by (meson last_in_set)
    obtain m where "n = Suc m" using assms(10) by (cases n) auto
    with all(2) \<open>c \<in> set (kids s)\<close> True obtain u where "u \<in> set us" "wu_chunk_no u = m" by blast
    with lf \<open>n = Suc m\<close> show ?thesis by force
  next
    case False
    with lf st(3) show ?thesis by simp
  qed
  from fold_chunks_pad [OF f(4) st(1) len] have pad: "d_file (sh s) = fold chunk_write us (file_truncate (n * CHUNK_SIZE) ?f0)"
    using f(1) by simp
  show ?thesis
    using passes_after_log [OF st(2) f(4,3,5)] f cnt \<open>us \<noteq> []\<close> unfolding pad by auto
qed

text \<open>\<open>directio_test -w w -o l -l size -V\<close>.\<close>

definition verify_args :: "string \<Rightarrow> string \<Rightarrow> nat \<Rightarrow> (char \<times> string) list" where
  "verify_args w l sz = [(CHR ''w'', w), (CHR ''o'', l), (CHR ''l'', show_dec sz), (CHR ''V'', [])]"

lemma verify_args_main:
  assumes "w \<noteq> []" "length w < PATH_MAX" "l \<noteq> []" "length l < PATH_MAX" "sz < 2 ^ 63" "sz mod DIRECTIO_SLICE = 0"
    "vol l = Some (map byte_of_char txt)" "dt_verify_file fuel [] vol (Inl txt) w sz = Inr r"
  shows "dt_main fuel [] vol (verify_args w l sz) basic = Inr (r mod 256)"
proof -
  let ?o = "dt_defaults\<lparr>dt_workfile := w, dt_log_path := l, dt_file_size := sz, dt_veri := True, dt_num_tests := 1\<rparr>"
  have "c_atol_ul (show_dec sz) = sz" using assms(5) by (simp add: c_atol_ul_def c_atol_show_dec nat_mod_distrib)
  then have "dt_opt_loop (verify_args w l sz) dt_defaults = Inr (Some ?o)"
    using assms(2,4) by (simp add: verify_args_def dt_opt_step_def dt_defaults_def)
  then have "dt_parse_opts (verify_args w l sz) = Inr (Some ?o)"
    using assms(1,6) by (simp add: dt_parse_opts_def dt_defaults_def)
  moreover have "map char_of_byte (map byte_of_char txt) = txt" by (simp add: comp_def)
  ultimately show ?thesis using assms(3,7,8)
    by (simp add: dt_main_def dt_setup_def dt_open_logfile_def dt_defaults_def)
qed

section \<open>Properties\<close>

text \<open>
  C27. At most one child of \<open>directio_test\<close> is between \<open>semaphore_p\<close> and \<open>semaphore_v\<close>, in every state of
  every run, children that fail (and give the semaphore back by \<open>SEM_UNDO\<close>) included; while one is, the
  semaphore is 0.
\<close>

theorem children_exclude:
  assumes "basic_test_start rts env vol opt now junk sem_id = Inr (Inr s0)" "(dt_step opt)\<^sup>*\<^sup>* s0 s"
    "i < length (kids s)" "j < length (kids s)" "in_section (kids s ! i)" "in_section (kids s ! j)"
  shows "i = j \<and> d_sem (sh s) = Some 0"
  using section_unique [OF dt_inv_run [OF assms(1,2)] assms(3-6)] section_holds(1) [OF dt_inv_run [OF assms(1,2)] assms(3,5)]
  by blast

definition w_opt :: dt_opts where
  "w_opt = dt_defaults\<lparr>dt_num_children := 1, dt_file_size := CHUNK_SIZE, dt_workfile := ''w'', dt_appd := True, dt_num_tests := 1\<rparr>"

lemma w_start: "basic_test_start [] [] (\<lambda>_. None) w_opt 5 junk 1 = Inr (Inr (dt_init 1 [] 5 junk 1))"
  by (simp add: basic_test_start_def w_opt_def dt_defaults_def semaphore_init_def set_semvalue_def sys_open_creat_def)

lemma w_chunks: "num_chunks w_opt = 1" "dt_num_children w_opt = 1" "\<not> dt_dscv w_opt" "dt_appd w_opt"
  by (simp_all add: w_opt_def dt_defaults_def CHUNK_SIZE_def)

text \<open>A child on its own, on a kernel on which nothing fails.\<close>

definition solo :: "dt_opts \<Rightarrow> dt_sys \<Rightarrow> dt_sys \<Rightarrow> dt_child \<Rightarrow> nat \<Rightarrow> bool" where
  "solo opt s0 s c v \<longleftrightarrow> (dt_step opt)\<^sup>*\<^sup>* s0 s \<and> kids s = [c] \<and> d_sem (sh s) = Some v \<and> \<not> d_down (sh s)
     \<and> p_pc s = P_fork \<and> p_status s = p_status s0 \<and> p_sem_id s = p_sem_id s0"

lemma solo_step_log:
  assumes "solo opt s0 s c v" "child_step opt x c (sh s) = Some (Inr (c', d))" "d_sem d = Some v'" "\<not> d_down d"
  shows "\<exists>s'. solo opt s0 s' c' v' \<and> d_log (sh s') = d_log d"
proof -
  have "dt_step opt s (s\<lparr>kids := (kids s)[0 := c'], sh := d\<rparr>)"
    using assms(1,2) by (intro dt_step.child [of s 0 opt x c' d]) (simp_all add: solo_def)
  with assms show ?thesis by (intro exI [of _ "s\<lparr>kids := [c'], sh := d\<rparr>"]) (auto simp: solo_def)
qed

lemma solo_step:
  assumes "solo opt s0 s c v" "child_step opt x c (sh s) = Some (Inr (c', d))" "d_sem d = Some v'" "\<not> d_down d"
  shows "\<exists>s'. solo opt s0 s' c' v'"
  using solo_step_log [OF assms] by blast

lemma step_choose:
  assumes "c_pc c = C_prep" "c_j c < num_chunks opt" "dt_file_size opt < 2 ^ 64"
  shows "\<exists>wu. child_step opt x_fine c s = Some (Inr (c\<lparr>c_wu := wu, c_pc := C_write 0\<rparr>, s))"
  using child_choose_ok [of opt c x_fine s] assms by (auto simp: child_step_def)

lemma step_store:
  assumes "c_pc c = C_write 0"
  shows "\<exists>f. child_step opt x_fine c s = Some (Inr (c\<lparr>c_ret := int CHUNK_SIZE, c_pc := C_log\<rparr>, s\<lparr>d_file := f\<rparr>))"
proof -
  obtain w where "dt_fill_chunk_pattern (c_wu c) = Inr (kid_chunk c, w)" using dt_fill_kid by blast
  with assms length_kid_chunk [of c] show ?thesis
    by (simp add: child_step_def child_write_def x_fine_def sys_pwrite_def) blast
qed

lemma step_log:
  assumes "c_pc c = C_log"
  shows "\<exists>ret l. child_step opt x_fine c s = Some (Inr (c\<lparr>c_ret := ret, c_pc := C_unlock\<rparr>, s\<lparr>d_log := l\<rparr>)) \<and> 0 \<le> ret"
proof -
  obtain ret l where "dt_log_write Io_ok 0 (dt_dscv opt) (d_log s) (c_wu c) = (ret, False, l)" "0 \<le> ret"
    by (cases "dt_dscv opt") (auto simp: dt_log_write_def io_fails_def Let_def)
  moreover have "c\<lparr>c_logerr := c_logerr c\<rparr> = c" by simp
  ultimately show ?thesis using assms by (intro exI [of _ ret] exI [of _ l]) (simp add: child_step_def x_fine_def)
qed

lemma step_unlock:
  assumes "c_pc c = C_unlock" "\<not> dt_dscv opt" "d_sem s = Some 0"
  shows "child_step opt x_fine c s = Some (Inr (c\<lparr>c_adj := c_adj c - 1, c_j := c_j c + 1, c_pc := C_head\<rparr>, s\<lparr>d_sem := Some 1\<rparr>))"
  using assms by (simp add: child_step_def semaphore_v_def x_fine_def io_fails_def child_after_def c_next_def)

lemma step_leave:
  assumes "c_pc c = C_head" "\<not> c_j c < num_chunks opt"
  shows "child_step opt x_fine c s = Some (Inr (c\<lparr>c_pc := C_bail\<rparr>, s))"
  using assms by (simp add: child_step_def)

lemma step_quit:
  assumes "c_pc c = C_bail"
  shows "child_step opt x c s = Some (Inr (c\<lparr>c_pc := C_exit (nat ((if 0 < c_ret c then 0 else c_ret c) mod 256)), c_adj := 0\<rparr>,
     s\<lparr>d_sem := sem_undo (d_sem s) (c_adj c)\<rparr>))"
  using assms by (simp add: child_step_def)

lemma step_lock:
  assumes "c_pc c = C_head" "c_j c < num_chunks opt" "d_sem s = Some 1"
  shows "child_step opt x_fine c s = Some (Inr (c\<lparr>c_adj := c_adj c + 1, c_pc := C_prep\<rparr>, s\<lparr>d_sem := Some 0\<rparr>))"
  using assms by (simp add: child_step_def child_lock_def semaphore_p_def x_fine_def io_fails_def)

text \<open>From the head of the loop to \<open>semaphore_v\<close>, with some unit.\<close>

lemma solo_round:
  assumes "solo opt s0 s c 1" "c_pc c = C_head" "c_j c < num_chunks opt" "dt_file_size opt < 2 ^ 64"
  shows "\<exists>s' wu ret. solo opt s0 s' (c\<lparr>c_adj := c_adj c + 1, c_wu := wu, c_ret := ret, c_pc := C_unlock\<rparr>) 0 \<and> 0 \<le> ret"
proof -
  let ?c = "\<lambda>wu ret pc. c\<lparr>c_adj := c_adj c + 1, c_wu := wu, c_ret := ret, c_pc := pc\<rparr>"
  have sem: "d_sem (sh s) = Some 1" "\<not> d_down (sh s)" using assms(1) by (simp_all add: solo_def)
  obtain s1 where s1: "solo opt s0 s1 (?c (c_wu c) (c_ret c) C_prep) 0"
    using solo_step [OF assms(1) step_lock [OF assms(2,3) sem(1)], of 0] sem(2) by auto
  then obtain wu where "child_step opt x_fine (?c (c_wu c) (c_ret c) C_prep) (sh s1) = Some (Inr (?c wu (c_ret c) (C_write 0), sh s1))"
    using step_choose [of "?c (c_wu c) (c_ret c) C_prep" opt "sh s1", OF _ _ assms(4)] assms(3) by auto
  from solo_step [OF s1 this, of 0] s1 obtain s2 where s2: "solo opt s0 s2 (?c wu (c_ret c) (C_write 0)) 0" by (auto simp: solo_def)
  obtain f where "child_step opt x_fine (?c wu (c_ret c) (C_write 0)) (sh s2)
      = Some (Inr (?c wu (int CHUNK_SIZE) C_log, (sh s2)\<lparr>d_file := f\<rparr>))"
    using step_store [of "?c wu (c_ret c) (C_write 0)" opt "sh s2"] by auto
  from solo_step [OF s2 this, of 0] s2 obtain s3 where s3: "solo opt s0 s3 (?c wu (int CHUNK_SIZE) C_log) 0" by (auto simp: solo_def)
  obtain ret l where "child_step opt x_fine (?c wu (int CHUNK_SIZE) C_log) (sh s3) = Some (Inr (?c wu ret C_unlock, (sh s3)\<lparr>d_log := l\<rparr>))"
    "0 \<le> ret" using step_log [of "?c wu (int CHUNK_SIZE) C_log" opt "sh s3"] by auto
  from solo_step [OF s3 this(1), of 0] s3 this(2) show ?thesis by (auto simp: solo_def)
qed

definition w_fork :: "dt_opts \<Rightarrow> nat \<Rightarrow> dt_sys" where
  "w_fork opt junk = (dt_init 1 [] 5 junk 1)\<lparr>kids := [new_child]\<rparr>"

lemma solo_fork:
  assumes "dt_num_children opt = 1"
  shows "solo opt (dt_init 1 [] 5 junk 1) (w_fork opt junk) new_child 1"
proof -
  have "dt_step opt (dt_init 1 [] 5 junk 1) (w_fork opt junk)"
    by (rule dt_step.parent [of _ opt Io_ok])
      (simp_all add: dt_init_def w_fork_def parent_step_def assms io_fails_def)
  then show ?thesis by (auto simp: solo_def w_fork_def dt_init_def)
qed

lemma solo_first:
  assumes "dt_num_children opt = 1" "num_chunks opt = 1" "dt_file_size opt < 2 ^ 64"
  shows "\<exists>s wu ret. solo opt (dt_init 1 [] 5 junk 1) s (new_child\<lparr>c_adj := 1, c_wu := wu, c_ret := ret, c_pc := C_unlock\<rparr>) 0 \<and> 0 \<le> ret"
proof -
  have c: "c_pc new_child = C_head" "c_j new_child < num_chunks opt" "c_adj new_child + 1 = 1" using assms(2) by (simp_all add: new_child_def)
  from solo_round [OF solo_fork [OF assms(1)] c(1,2) assms(3), of junk] show ?thesis unfolding c(3) .
qed

theorem children_exclude_witness:
  "\<exists>s. (dt_step w_opt)\<^sup>*\<^sup>* (dt_init 1 [] 5 0 1) s \<and> in_section (kids s ! 0) \<and> d_sem (sh s) = Some 0"
proof -
  have "dt_file_size w_opt < 2 ^ 64" by (simp add: w_opt_def CHUNK_SIZE_def)
  from solo_first [OF w_chunks(2,1) this, of 0] obtain s c where "solo w_opt (dt_init 1 [] 5 0 1) s c 0" "c_pc c = C_unlock"
    by fastforce
  then have s: "(dt_step w_opt)\<^sup>*\<^sup>* (dt_init 1 [] 5 0 1) s" "kids s = [c]" "in_section c" by (auto simp: solo_def in_section_def)
  with children_exclude [OF w_start s(1), of 0 0] show ?thesis by auto
qed

text \<open>
  C28. No deadlock, and no endless run: outside the destructive test a state in which every child has
  exited and \<open>basic_test\<close> has returned can be reached from every state of every run, whatever has failed
  before; and every move of a child or of the parent uses up a measure, so that not more than
  \<open>dt_work\<close> of them are left.
\<close>

theorem children_finish:
  assumes "basic_test_start rts env vol opt now junk sem_id = Inr (Inr s0)" "(dt_step opt)\<^sup>*\<^sup>* s0 s" "dt_file_size opt < 2 ^ 64"
    "\<not> dt_dscv opt"
  shows "(\<exists>s'. (dt_step opt)\<^sup>*\<^sup>* s s' \<and> dt_finished s')
    \<and> (\<forall>i x c d. i < length (kids s) \<and> child_step opt x (kids s ! i) (sh s) = Some (Inr (c, d))
         \<longrightarrow> dt_work opt (s\<lparr>kids := (kids s)[i := c], sh := d\<rparr>) < dt_work opt s)
    \<and> (\<forall>d s'. parent_step opt d s = Some s' \<longrightarrow> dt_work opt s' < dt_work opt s)"
proof -
  have inv: "dt_inv opt s" using dt_inv_run [OF assms(1,2)] .
  have inv0: "dt_inv opt s0" using dt_inv_run [OF assms(1)] by blast
  have "\<not> d_down (sh s0)" using basic_test_start_init [OF assms(1)] by (auto simp: dt_init_def)
  then have up: "\<not> d_down (sh s)" using dt_run_up [OF assms(2) inv0 assms(3,4)] by blast
  have "\<not> d_down d" if "i < length (kids s)" "child_step opt x (kids s ! i) (sh s) = Some (Inr (c, d))" for i x c d
    using child_step_down [OF that(2) _ assms(4)] dt_inv_kids [OF inv] that(1) up by (simp add: list_all_length)
  with dt_ends [OF inv assms(3,4) up] work_child [OF inv] work_parent [OF inv] show ?thesis by blast
qed

theorem children_finish_witness:
  "\<exists>s. (dt_step w_opt)\<^sup>*\<^sup>* (dt_init 1 [] 5 0 1) s \<and> dt_finished s"
  using children_finish [OF w_start rtranclp.rtrancl_refl, of 0] w_chunks
  by (auto simp: w_opt_def dt_defaults_def CHUNK_SIZE_def)

text \<open>
  C29. A test run and its verification. When no child has failed and no write to the log has (the
  program does not look at the results of \<open>fprintf\<close> and \<open>fflush\<close>, so a child whose record is lost
  exits with 0 as well), the log has one record for every chunk every child wrote, and \<open>directio_test -V\<close> on the file and the log exits with 0: for each of
  the three tests, from a file that did not exist, for every interleaving of the children, every
  split of their writes and every choice of chunks.
\<close>

theorem directio_test_verifies:
  assumes "basic_test_start rts [] vol opt now junk sem_id = Inr (Inr s0)" "vol (dt_workfile opt) = None"
    "dt_file_size opt = n * CHUNK_SIZE" "dt_file_size opt < 2 ^ 63" "list_all (\<lambda>(r, now). now < 2 ^ 63) rts"
    "dt_basc opt \<or> dt_fihl opt \<or> dt_appd opt" "\<not> dt_dscv opt" "0 < now" "now < 2 ^ 63" "0 < n"
    "(dt_step opt)\<^sup>*\<^sup>* s0 s" "kids s \<noteq> []" "\<forall>c \<in> set (kids s). c_pc c = C_exit 0 \<and> \<not> c_logerr c"
    "w \<noteq> []" "length w < PATH_MAX" "l \<noteq> []" "length l < PATH_MAX"
    "vol' w = Some (d_file (sh s))" "vol' l = Some (map byte_of_char (d_log (sh s)))"
  shows "(\<exists>us. d_log (sh s) = concat (map show_cwu us) \<and> length us = length (kids s) * n)
    \<and> dt_main (Suc fuel) [] vol' (verify_args w l (dt_file_size opt)) basic = Inr 0"
proof -
  obtain us where us: "d_log (sh s) = concat (map show_cwu us)" "length us = length (kids s) * n" "us \<noteq> []"
    "list_all (wf_cwu n CHUNK_SIZE) us" "length (d_file (sh s)) = n * CHUNK_SIZE"
    "\<forall>i < n. chunk_passes (expected n CHUNK_SIZE us ! i) i (disk_cwu (d_file (sh s)) CHUNK_SIZE i)"
    using test_outcome [OF assms(1-13)] by blast
  have "dt_file_size opt div CHUNK_SIZE = n" using assms(3) CHUNK_SIZE_pos by simp
  with dt_verify_file_ideal [where vol = vol' and fnam = w, OF _ _ us(4,3) assms(18) this, of fuel] us(1,5,6) assms(3,4)
  have "dt_verify_file (Suc fuel) [] vol' (Inl (d_log (sh s))) w (dt_file_size opt) = Inr 0" by auto
  moreover have "dt_file_size opt mod DIRECTIO_SLICE = 0"
    using assms(3) by (simp add: CHUNK_SIZE_def DIRECTIO_SLICE_def mod_mult_right_eq [of n 8192 512, symmetric])
  ultimately have "dt_main (Suc fuel) [] vol' (verify_args w l (dt_file_size opt)) basic = Inr (0 mod 256)"
    using assms(4,14-17,19) by (intro verify_args_main)
  with us(1,2) show ?thesis by auto
qed

lemma w_path: "\<exists>s c. solo w_opt (dt_init 1 [] 5 junk 1) s c 1 \<and> c_pc c = C_exit 0 \<and> \<not> c_reaped c \<and> \<not> c_logerr c"
proof -
  have sz: "dt_file_size w_opt < 2 ^ 64" by (simp add: w_opt_def CHUNK_SIZE_def)
  obtain s1 wu ret where s1: "solo w_opt (dt_init 1 [] 5 junk 1) s1
      (new_child\<lparr>c_adj := 1, c_wu := wu, c_ret := ret, c_pc := C_unlock\<rparr>) 0" "0 \<le> ret"
    using solo_first [OF w_chunks(2,1) sz, of junk] by blast
  let ?c = "\<lambda>pc. new_child\<lparr>c_adj := 0, c_wu := wu, c_ret := ret, c_j := 1, c_pc := pc\<rparr>"
  have "d_sem (sh s1) = Some 0" "\<not> d_down (sh s1)" using s1(1) by (simp_all add: solo_def)
  with solo_step [OF s1(1) step_unlock [OF _ w_chunks(3)], of 1] obtain s2 where
    s2: "solo w_opt (dt_init 1 [] 5 junk 1) s2 (?c C_head) 1" by (auto simp: new_child_def)
  from solo_step [OF s2 step_leave, of 1] s2 obtain s3 where s3: "solo w_opt (dt_init 1 [] 5 junk 1) s3 (?c C_bail) 1"
    by (auto simp: w_chunks solo_def)
  from solo_step [OF s3 step_quit [where x = x_fine], of 1] s3 s1(2) obtain s4 where
    "solo w_opt (dt_init 1 [] 5 junk 1) s4 (?c (C_exit 0)) 1"
    by (auto simp: solo_def sem_undo_def new_child_def split: if_splits)
  then show ?thesis by (intro exI [of _ s4] exI [of _ "?c (C_exit 0)"]) (simp add: new_child_def)
qed

theorem directio_test_verifies_witness:
  "\<exists>f l. dt_main 1 [] [''w'' \<mapsto> f, ''l'' \<mapsto> map byte_of_char l] (verify_args ''w'' ''l'' CHUNK_SIZE) 0 = Inr 0 \<and> l \<noteq> []"
proof -
  obtain s c where s: "(dt_step w_opt)\<^sup>*\<^sup>* (dt_init 1 [] 5 0 1) s" "kids s = [c]" "c_pc c = C_exit 0" "\<not> c_logerr c"
    using w_path [of 0] by (auto simp: solo_def)
  have "dt_file_size w_opt = 1 * CHUNK_SIZE" by (simp add: w_opt_def)
  with directio_test_verifies [OF w_start _ this, of 0 s "''w''" "''l''"
      "[''w'' \<mapsto> d_file (sh s), ''l'' \<mapsto> map byte_of_char (d_log (sh s))]" 0 0] s
  have "(\<exists>us. d_log (sh s) = concat (map show_cwu us) \<and> length us = 1)
    \<and> dt_main 1 [] [''w'' \<mapsto> d_file (sh s), ''l'' \<mapsto> map byte_of_char (d_log (sh s))] (verify_args ''w'' ''l'' CHUNK_SIZE) 0 = Inr 0"
    by (simp add: w_opt_def dt_defaults_def PATH_MAX_def CHUNK_SIZE_def)
  moreover have "concat (map show_cwu us) \<noteq> []" if "length us = 1" for us
    using that show_cwu_hd by (cases us) auto
  ultimately show ?thesis by metis
qed

text \<open>When the machine is down, the child that took it down holds the semaphore.\<close>

lemma down_crash:
  assumes "(dt_step opt)\<^sup>*\<^sup>* s0 s" "dt_inv opt s0" "\<not> d_down (sh s0)" "d_down (sh s)"
  shows "\<exists>i < length (kids s). c_pc (kids s ! i) = C_crash"
  using assms(1,4)
proof (cases rule: rtranclp.cases)
  case rtrancl_refl
  with assms(3,4) show ?thesis by simp
next
  case (rtrancl_into_rtrancl s1)
  have inv: "dt_inv opt s1" using dt_inv_reach [OF rtrancl_into_rtrancl(1) assms(2)] .
  from rtrancl_into_rtrancl(2) show ?thesis
  proof cases
    case (child i x c d)
    from child(4) show ?thesis
    proof (cases rule: child_step_cases)
      case (store k)
      have "k < CHUNK_SIZE" using dt_inv_kids [OF inv] child(3) store(1) by (auto simp: list_all_length kid_ok_def)
      with store(2) have "d_down d = d_down (sh s1)" by (cases rule: child_write_cases) simp_all
      with child assms(4) show ?thesis by simp
    next
      case crash
      with child(1,3) show ?thesis by auto
    qed (use child assms(4) in simp_all)
  next
    case (parent d)
    then show ?thesis using assms(4)
      by (auto simp: parent_step_def parent_wait_def Let_def split: dt_ppc.splits if_splits)
  qed (use assms(4) in \<open>simp_all add: sigchld_handler_def\<close>)
qed

text \<open>
  C30. The destructive test. When a child has taken the machine down, the file is the one the test
  started with and the chunks sent to the listener written over it, in that order: no chunk is
  half written and none is written and not sent, because the child took the semaphore first. This is
  so as long as no child had failed.
\<close>

theorem crash_consistent:
  assumes "basic_test_start rts env vol opt now junk sem_id = Inr (Inr s0)" "(dt_step opt)\<^sup>*\<^sup>* s0 s" "0 < now" "now < 2 ^ 63"
    "dt_file_size opt < 2 ^ 64" "\<not> dt_failed s" "d_down (sh s)" "dt_dscv opt"
  shows "\<exists>us. d_log (sh s) = concat (map (\<lambda>u. take 1023 (show_cwu u) @ [CHR 0x00]) us)
     \<and> d_file (sh s) = fold chunk_write us (d_file (sh s0)) \<and> sorted (map wu_timestamp us)"
proof -
  have "\<not> dt_spoiled opt s" using assms(6,8) by (simp add: dt_spoiled_def kid_spoiled_def dt_failed_def)
  with data_start [OF assms(1-5)] obtain us where us: "data_inv opt (d_file (sh s0)) us s" by blast
  have inv: "dt_inv opt s" using dt_inv_run [OF assms(1,2)] .
  have inv0: "dt_inv opt s0" using dt_inv_run [OF assms(1)] by blast
  have "\<not> d_down (sh s0)" using basic_test_start_init [OF assms(1)] by (auto simp: dt_init_def)
  from down_crash [OF assms(2) inv0 this assms(7)] obtain i where i: "i < length (kids s)" "c_pc (kids s ! i) = C_crash" by blast
  have sec: "in_section (kids s ! i)" using i(2) by (simp add: in_section_def)
  have "d_file (sh s) = fold chunk_write us (d_file (sh s0))"
    using section_file [OF inv i(1) sec us] i(2) by (simp add: kid_effect_def)
  moreover have "log_rec True = (\<lambda>u. take 1023 (show_cwu u) @ [CHR 0x00])" by (rule ext) (simp add: log_rec_def)
  ultimately show ?thesis using us assms(8) by (auto simp: data_inv_def)
qed

definition d_opt :: dt_opts where
  "d_opt = w_opt\<lparr>dt_dscv := True, dt_lsnr_addr := ''a''\<rparr>"

lemma d_chunks: "num_chunks d_opt = 1" "dt_num_children d_opt = 1" "dt_dscv d_opt" "dt_file_size d_opt < 2 ^ 64"
  by (simp_all add: d_opt_def w_opt_def dt_defaults_def CHUNK_SIZE_def)

lemma d_start: "basic_test_start [] [] (\<lambda>_. None) d_opt 5 junk 1 = Inr (Inr (dt_init 1 [] 5 junk 1))"
  by (simp add: basic_test_start_def d_opt_def w_opt_def dt_defaults_def semaphore_init_def set_semvalue_def sys_open_creat_def)

lemma d_path: "\<exists>s c. solo d_opt (dt_init 1 [] 5 junk 1) s c 0 \<and> c_pc c = C_crash"
proof -
  obtain s1 wu ret where s1: "solo d_opt (dt_init 1 [] 5 junk 1) s1
      (new_child\<lparr>c_adj := 1, c_wu := wu, c_ret := ret, c_pc := C_unlock\<rparr>) 0"
    using solo_first [OF d_chunks(2,1,4), of junk] by blast
  let ?c = "\<lambda>a pc. new_child\<lparr>c_adj := a, c_wu := wu, c_ret := ret, c_pc := pc\<rparr>"
  have sem: "d_sem (sh s1) = Some 0" "\<not> d_down (sh s1)" using s1 by (simp_all add: solo_def)
  have one: "sub64 1 1 = 0" by (simp add: width)
  then have "child_step d_opt x_fine (?c 1 C_unlock) (sh s1) = Some (Inr (?c 0 C_crash_lock, (sh s1)\<lparr>d_sem := Some 1\<rparr>))"
    using sem d_chunks by (simp add: child_step_def semaphore_v_def x_fine_def io_fails_def child_after_def new_child_def)
  with solo_step [OF s1, of x_fine "?c 0 C_crash_lock" _ 1] sem obtain s2 where
    s2: "solo d_opt (dt_init 1 [] 5 junk 1) s2 (?c 0 C_crash_lock) 1" by (auto simp: new_child_def)
  have "child_step d_opt x_fine (?c 0 C_crash_lock) (sh s2) = Some (Inr (?c 1 C_crash, (sh s2)\<lparr>d_sem := Some 0\<rparr>))"
    using s2 by (simp add: child_step_def child_lock_def semaphore_p_def x_fine_def io_fails_def solo_def)
  with solo_step [OF s2 this, of 0] s2 show ?thesis by (auto simp: solo_def)
qed

theorem crash_consistent_witness:
  "\<exists>s us. (dt_step d_opt)\<^sup>*\<^sup>* (dt_init 1 [] 5 0 1) s \<and> d_down (sh s) \<and> d_file (sh s) = fold chunk_write us []"
proof -
  obtain s c where s: "solo d_opt (dt_init 1 [] 5 0 1) s c 0" "c_pc c = C_crash" using d_path by blast
  let ?s = "s\<lparr>kids := (kids s)[0 := c], sh := (sh s)\<lparr>d_down := True\<rparr>\<rparr>"
  have "dt_step d_opt s ?s"
    using s by (intro dt_step.child [of s 0 d_opt x_fine]) (simp_all add: solo_def child_step_def x_fine_def)
  with s have r: "(dt_step d_opt)\<^sup>*\<^sup>* (dt_init 1 [] 5 0 1) ?s" by (auto simp: solo_def)
  have "\<not> dt_failed ?s" using s by (simp add: dt_failed_def solo_def kid_failed_def)
  from crash_consistent [OF d_start r _ _ d_chunks(4) this _ d_chunks(3)] obtain us where
    "d_file (sh ?s) = fold chunk_write us []" by (auto simp: dt_init_def)
  with r show ?thesis by (intro exI [of _ ?s] exI [of _ us]) simp
qed

text \<open>
  A failed child can go unnoticed: there is a run in which the only child exits with 255 and
  \<open>basic_test\<close> returns whatever its uninitialised variable \<open>status\<close> held (\<open>junk\<close>, 0 for instance), because
  the handler of SIGCHLD has reaped the child before \<open>waitpid\<close> asks for it.
\<close>

theorem failure_unnoticed:
  "\<exists>s. (dt_step w_opt)\<^sup>*\<^sup>* (dt_init 1 [] 5 junk 1) s \<and> map c_pc (kids s) = [C_exit 255] \<and> p_pc s = P_done (int junk)"
proof -
  let ?i = "dt_init 1 [] 5 junk 1" and ?x = "x_fine\<lparr>x_io := Io_err 4\<rparr>"
  note w = w_chunks
  have f: "solo w_opt ?i (w_fork w_opt junk) new_child 1" using solo_fork [OF w(2)] .
  have "child_step w_opt ?x new_child (sh (w_fork w_opt junk)) = Some (Inr (c_fail (-1) new_child, sh (w_fork w_opt junk)))"
    by (simp add: child_step_def child_lock_def semaphore_p_def io_fails_def new_child_def c_fail_def w x_fine_def w_fork_def dt_init_def)
  from solo_step [OF f this, of 1] f obtain s1 where s1: "solo w_opt ?i s1 (c_fail (-1) new_child) 1" by (auto simp: solo_def)
  from solo_step [OF s1 step_quit [where x = x_fine], of 1] s1 obtain s2 c where
    s2: "solo w_opt ?i s2 c 1" "c_pc c = C_exit 255" by (auto simp: solo_def sem_undo_def c_fail_def new_child_def)
  then have k: "(dt_step w_opt)\<^sup>*\<^sup>* ?i s2" "kids s2 = [c]" "\<not> d_down (sh s2)" "p_pc s2 = P_fork" "p_status s2 = junk"
    by (auto simp: solo_def dt_init_def)
  let ?s3 = "s2\<lparr>p_pc := P_wait 0\<rparr>" let ?r = "c\<lparr>c_reaped := True\<rparr>"
  have "dt_step w_opt s2 ?s3" by (rule dt_step.parent [of _ _ Io_ok]) (use k w in \<open>simp_all add: parent_step_def\<close>)
  moreover have "dt_step w_opt ?s3 (?s3\<lparr>kids := [?r]\<rparr>)"
    using dt_step.sigchld [of ?s3 w_opt] k s2(2) by (simp add: sigchld_handler_def kid_exited_def)
  moreover have "dt_step w_opt (?s3\<lparr>kids := [?r]\<rparr>) (?s3\<lparr>kids := [?r], p_ret := int junk, p_pc := P_wait 1\<rparr>)" (is "dt_step _ _ ?s5")
    by (rule dt_step.parent [of _ _ Io_ok])
      (use k w s2(2) in \<open>simp_all add: parent_step_def parent_wait_def kid_exited_def Let_def\<close>)
  moreover obtain s6 where "dt_step w_opt ?s5 s6" "kids s6 = [?r]" "p_pc s6 = P_done (int junk)"
    using dt_step.parent [of ?s5 w_opt Io_ok] k w by (auto simp: parent_step_def Let_def)
  ultimately show ?thesis using k(1) s2(2) by (intro exI [of _ s6]) auto
qed

text \<open>
  A lost log record goes unnoticed, which is why the verification of a whole test above asks that no write of the log has failed: there is a run in which the only
  child has written its chunk, exits with 0, and the log is empty.
\<close>

lemma log_loss_unnoticed:
  "\<exists>s c. solo w_opt (dt_init 1 [] 5 junk 1) s c 1 \<and> c_pc c = C_exit 0 \<and> c_logerr c \<and> d_log (sh s) = []"
proof -
  define run where "run s c v \<longleftrightarrow> solo w_opt (dt_init 1 [] 5 junk 1) s c v \<and> d_log (sh s) = []" for s c v
  have move: "\<exists>s'. run s' c' v'" if "run s c v" "child_step w_opt x c (sh s) = Some (Inr (c', d))"
      "d_sem d = Some v'" "d_down d = d_down (sh s)" "d_log d = d_log (sh s)" for s c v x c' d v'
    using solo_step_log [of w_opt "dt_init 1 [] 5 junk 1" s c v x c' d v'] that by (auto simp: run_def solo_def)
  have sem: "d_sem (sh s) = Some v" if "run s c v" for s c v using that by (simp add: run_def solo_def)
  let ?c = "\<lambda>adj wu ret j err pc. new_child\<lparr>c_adj := adj, c_wu := wu, c_ret := ret, c_j := j, c_logerr := err, c_pc := pc\<rparr>"
  note w = w_chunks
  have sz: "dt_file_size w_opt < 2 ^ 64" by (simp add: w_opt_def CHUNK_SIZE_def)
  have "run (w_fork w_opt junk) (?c 0 cwu_zero 0 0 False C_head) 1"
    using solo_fork [OF w(2), of junk] by (simp add: run_def w_fork_def dt_init_def new_child_def)
  from move [OF this step_lock, of 0] sem [OF this] obtain s1 where s1: "run s1 (?c 1 cwu_zero 0 0 False C_prep) 0"
    using w(1) by (auto simp: new_child_def)
  obtain wu where "child_step w_opt x_fine (?c 1 cwu_zero 0 0 False C_prep) (sh s1)
      = Some (Inr (?c 1 wu 0 0 False (C_write 0), sh s1))"
    using step_choose [OF _ _ sz, of "?c 1 cwu_zero 0 0 False C_prep" "sh s1"] w(1) by (auto simp: new_child_def)
  from move [OF s1 this sem [OF s1]] obtain s2 where s2: "run s2 (?c 1 wu 0 0 False (C_write 0)) 0" by blast
  obtain f where "child_step w_opt x_fine (?c 1 wu 0 0 False (C_write 0)) (sh s2)
      = Some (Inr (?c 1 wu (int CHUNK_SIZE) 0 False C_log, (sh s2)\<lparr>d_file := f\<rparr>))"
    using step_store [of "?c 1 wu 0 0 False (C_write 0)" w_opt "sh s2"] by (auto simp: new_child_def)
  from move [OF s2 this, of 0] sem [OF s2] obtain s3 where s3: "run s3 (?c 1 wu (int CHUNK_SIZE) 0 False C_log) 0" by auto
  have "child_step w_opt (x_fine\<lparr>x_io := Io_err 28\<rparr>) (?c 1 wu (int CHUNK_SIZE) 0 False C_log) (sh s3)
      = Some (Inr (?c 1 wu 0 0 True C_unlock, sh s3))"
    using w(3) by (simp add: child_step_def dt_log_write_def io_fails_def x_fine_def new_child_def)
  from move [OF s3 this sem [OF s3]] obtain s4 where s4: "run s4 (?c 1 wu 0 0 True C_unlock) 0" by blast
  from move [OF s4 step_unlock [OF _ w(3) sem [OF s4]], of 1] obtain s5 where s5: "run s5 (?c 0 wu 0 1 True C_head) 1"
    by (auto simp: new_child_def)
  from move [OF s5 step_leave sem [OF s5]] obtain s6 where s6: "run s6 (?c 0 wu 0 1 True C_bail) 1" using w(1) by auto
  from move [OF s6 step_quit [where x = x_fine], of 1] sem [OF s6] obtain s7 where "run s7 (?c 0 wu 0 1 True (C_exit 0)) 1"
    by (auto simp: sem_undo_def new_child_def)
  then show ?thesis by (intro exI [of _ s7] exI [of _ "?c 0 wu 0 1 True (C_exit 0)"]) (simp add: run_def)
qed

lemma child_after_ok:
  assumes "c_j c < num_chunks opt" "dt_file_size opt < 2 ^ 64"
  shows "\<exists>c'. child_after opt x c = Inr c'"
proof -
  have "num_chunks opt < 2 ^ 63" using file_size_chunks [OF assms(2)] .
  moreover have "(2 :: nat) ^ 63 \<le> 2 ^ 64 - 1" by simp
  ultimately have "num_chunks opt < 2 ^ 64 - 1" by linarith
  moreover have "1 \<le> num_chunks opt" using assms(1) by simp
  ultimately obtain v where "dt_get_rand_ul 1 (num_chunks opt) (x_rand1 x) = Inr v" using dt_get_rand_ul_ok by blast
  then show ?thesis by (simp add: child_after_def)
qed

lemma child_no_fault:
  assumes "kid_ok opt c" "dt_file_size opt < 2 ^ 64"
  shows "child_step opt x c s \<noteq> Some (Inl e)"
proof (cases "c_pc c")
  case C_prep
  with assms(1) have "c_j c < num_chunks opt" by (simp add: kid_defs)
  with child_choose_ok [of opt c x s] assms(2) C_prep show ?thesis by (auto simp: child_step_def)
next
  case (C_write k)
  obtain w where "dt_fill_chunk_pattern (c_wu c) = Inr (kid_chunk c, w)" using dt_fill_kid by blast
  with C_write show ?thesis by (auto simp: child_step_def child_write_def split: prod.splits sum.splits)
next
  case C_unlock
  with assms(1) have "c_j c < num_chunks opt" by (simp add: kid_defs)
  then obtain c' where "child_after opt x (c\<lparr>c_adj := a\<rparr>) = Inr (c' a)" for a
    using child_after_ok [of "c\<lparr>c_adj := _\<rparr>" opt x] assms(2) by simp metis
  with C_unlock show ?thesis by (auto simp: child_step_def split: prod.splits if_splits)
qed (auto simp: child_step_def child_lock_def split: option.splits prod.splits dt_system.splits)

text \<open>
  C32. Nothing a child does is undefined: whatever the kernel answers and \<open>rand()\<close> returns, no child of
  any run divides by zero or stores outside its buffer.
\<close>

theorem children_never_fault:
  assumes "basic_test_start rts env vol opt now junk sem_id = Inr (Inr s0)" "(dt_step opt)\<^sup>*\<^sup>* s0 s" "i < length (kids s)"
    "dt_file_size opt < 2 ^ 64"
  shows "child_step opt x (kids s ! i) (sh s) \<noteq> Some (Inl e)"
  using child_no_fault [OF _ assms(4)] dt_inv_kids [OF dt_inv_run [OF assms(1,2)]] assms(3) by (simp add: list_all_length)

theorem children_never_fault_witness:
  "\<exists>s. (dt_step w_opt)\<^sup>*\<^sup>* (dt_init 1 [] 5 0 1) s \<and> (\<forall>x e. child_step w_opt x (kids s ! 0) (sh s) \<noteq> Some (Inl e))"
proof -
  have sz: "dt_file_size w_opt < 2 ^ 64" by (simp add: w_opt_def CHUNK_SIZE_def)
  from solo_first [OF w_chunks(2,1) this, of 0] obtain s c where "solo w_opt (dt_init 1 [] 5 0 1) s c 0" by blast
  then have s: "(dt_step w_opt)\<^sup>*\<^sup>* (dt_init 1 [] 5 0 1) s" "0 < length (kids s)" by (simp_all add: solo_def)
  with children_never_fault [OF w_start s sz] show ?thesis by blast
qed

end
