(* ===== verification/Multi_Directio.thy ===== *)
theory Multi_Directio
  imports Directio_Tests
begin

text \<open>
  \<open>programs/directio_test/multi_directio_test.c\<close>: rank 0 writes chunks with \<open>O_DIRECT\<close> and sends every unit
  to the other ranks, which verify the whole file after each. The barriers before and after a write
  make the ranks go round by round, so that a round is a unit and the contents of the file after it;
  what MPI does is only this. \<open>MPI_Abort\<close> is \<open>Mdt_abort\<close>.
\<close>

section \<open>The ranks\<close>

datatype mdt_end = Mdt_abort | Mdt_ret int

definition should_exit :: "int \<Rightarrow> bool" where
  "should_exit ret \<longleftrightarrow> ret < 0"

record mdt_opts =
  mdt_iterations :: nat
  mdt_file_size :: nat
  mdt_workfile :: string

fun mdt_opt_loop :: "(char \<times> string) list \<Rightarrow> mdt_opts \<Rightarrow> fault + mdt_opts option" where
  "mdt_opt_loop [] opt = Inr (Some opt)"
| "mdt_opt_loop ((c, optarg) # cos) opt =
     (if c = CHR ''i'' then mdt_opt_loop cos (opt\<lparr>mdt_iterations := c_atol_ul optarg\<rparr>)
      else if c = CHR ''l'' then mdt_opt_loop cos (opt\<lparr>mdt_file_size := c_atol_ul optarg\<rparr>)
      else if c = CHR ''w'' then
        if length optarg < PATH_MAX then mdt_opt_loop cos (opt\<lparr>mdt_workfile := optarg\<rparr>) else Inl Overrun
      else if c = CHR ''v'' then mdt_opt_loop cos opt
      else Inr None)"

definition mdt_parse_opts :: "(char \<times> string) list \<Rightarrow> fault + mdt_opts option" where
  "mdt_parse_opts cos = (case mdt_opt_loop cos \<lparr>mdt_iterations = 1, mdt_file_size = 1024 * 1024, mdt_workfile = []\<rparr> of
     Inl e \<Rightarrow> Inl e
   | Inr None \<Rightarrow> Inr None
   | Inr (Some opt) \<Rightarrow>
     Inr (if mdt_workfile opt = [] \<or> mdt_file_size opt mod DIRECTIO_SLICE \<noteq> 0 then None else Some opt))"

text \<open>
  One write of rank 0, with the results of \<open>rand()\<close> for the chunk and the character, and the time.
  \<open>Inr (Inl _)\<close> ends the program.
\<close>

definition mdt_write :: "nat \<Rightarrow> nat \<times> nat \<times> nat \<Rightarrow> io_env \<Rightarrow> content \<Rightarrow> fault + (mdt_end + cwu \<times> content \<times> io_env)" where
  "mdt_write chunks rt env f = (case rt of (r1, r2, now) \<Rightarrow>
     (case dt_get_rand_ul 0 (sub64 chunks 1) r1 of
        Inl e \<Rightarrow> Inl e
      | Inr chunk_no \<Rightarrow> (case dt_prep_rand_dest_write_unit r2 now chunk_no of
           Inl e \<Rightarrow> Inl e
         | Inr wu \<Rightarrow> (case dt_do_write_chunk env f wu of
              Inl e \<Rightarrow> Inl e
            | Inr (ret, f', env') \<Rightarrow> Inr (if should_exit ret then Inl Mdt_abort else Inr (wu, f', env'))))))"

text \<open>
  The loop of rank 0: the rounds, each with the unit sent and the file after it. (Rank 0 keeps a
  table of its own and never looks at it.)
\<close>

fun mdt_root_loop :: "nat \<Rightarrow> nat \<Rightarrow> (nat \<times> nat \<times> nat) list \<Rightarrow> io_env \<Rightarrow> content
    \<Rightarrow> fault + (mdt_end + (cwu \<times> content) list)" where
  "mdt_root_loop chunks 0 rts env f = Inr (Inr [])"
| "mdt_root_loop chunks (Suc k) [] env f = Inl Out_of_rand"
| "mdt_root_loop chunks (Suc k) (rt # rts) env f = (case mdt_write chunks rt env f of
     Inl e \<Rightarrow> Inl e
   | Inr (Inl r) \<Rightarrow> Inr (Inl r)
   | Inr (Inr (wu, f', env')) \<Rightarrow> (case mdt_root_loop chunks k rts env' f' of
        Inl e \<Rightarrow> Inl e
      | Inr (Inl r) \<Rightarrow> Inr (Inl r)
      | Inr (Inr rounds) \<Rightarrow> Inr (Inr ((wu, f') # rounds))))"

text \<open>
  The loop of another rank: it takes the unit into its table and verifies the file. No rank reaches this
  loop: see \<open>mdt_slave_run\<close> below and \<open>slaves_always_abort\<close>.
\<close>

fun mdt_slave_loop :: "nat \<Rightarrow> string \<Rightarrow> nat \<Rightarrow> cwu list \<Rightarrow> (cwu \<times> content) list \<Rightarrow> fault + mdt_end" where
  "mdt_slave_loop fuel w filesize wus [] = Inr (Mdt_ret 0)"
| "mdt_slave_loop fuel w filesize wus ((wu, f) # rounds) =
     (if \<not> wu_chunk_no wu < length wus then Inl Overrun else
      let wus' = wus_update wu wus in
      case dt_verify_file fuel [] [w \<mapsto> f] (Inr wus') w filesize of
        Inl e \<Rightarrow> Inl e
      | Inr ret \<Rightarrow> if should_exit ret then Inr Mdt_abort else mdt_slave_loop fuel w filesize wus' rounds)"

text \<open>
  \<open>one_round_run\<close> on a rank other than 0. The result of the first verification is in \<open>ret\<close>, but the
  variable tested is \<open>fd\<close>, which is -1 on these ranks.
\<close>

definition mdt_slave_run :: "nat \<Rightarrow> io_env \<Rightarrow> fs \<Rightarrow> string \<Rightarrow> nat \<Rightarrow> cwu list \<Rightarrow> (cwu \<times> content) list \<Rightarrow> fault + mdt_end" where
  "mdt_slave_run fuel env vol w filesize wus rounds = (let fd = - 1 :: int in
     case dt_verify_file fuel env vol (Inr wus) w filesize of
       Inl e \<Rightarrow> Inl e
     | Inr ret \<Rightarrow> if should_exit fd then Inr Mdt_abort else mdt_slave_loop fuel w filesize wus rounds)"

text \<open>\<open>one_round_run\<close> on rank 0: the prepared file and the rounds, or the end of the program.\<close>

definition mdt_root_run :: "(nat \<times> nat) list \<Rightarrow> (nat \<times> nat \<times> nat) list \<Rightarrow> io_env \<Rightarrow> fs \<Rightarrow> string \<Rightarrow> nat
    \<Rightarrow> fault + (mdt_end + content \<times> (cwu \<times> content) list)" where
  "mdt_root_run prts rts env vol w filesize = (case dt_prep_orig_file_in_chunks prts env vol w filesize of
     Inl e \<Rightarrow> Inl e
   | Inr (ret, vol1, env1) \<Rightarrow>
     if should_exit ret then Inr (Inl Mdt_abort) else
     (case sys_open_creat env1 vol1 w of
        (Inl e, env2) \<Rightarrow> Inr (Inl Mdt_abort)
      | (Inr f, env2) \<Rightarrow> (case mdt_root_loop (filesize div CHUNK_SIZE) (filesize div CHUNK_SIZE) rts env2 f of
           Inl e \<Rightarrow> Inl e
         | Inr (Inl r) \<Rightarrow> Inr (Inl r)
         | Inr (Inr rounds) \<Rightarrow> Inr (Inr (f, rounds)))))"

section \<open>A rank verifies what rank 0 wrote\<close>

lemma dt_verify_table:
  assumes "n * CHUNK_SIZE \<le> length f" "length f < 2 ^ 63" "table_ok n CHUNK_SIZE wus" "vol fnam = Some f" "filesize div CHUNK_SIZE = n"
    "\<forall>i < n. chunk_passes (wus ! i) i (disk_cwu f CHUNK_SIZE i)"
  shows "dt_verify_file (Suc fuel) [] vol (Inr wus) fnam filesize = Inr 0"
proof -
  have "dt_verify_file (Suc fuel) [] vol (Inr wus) fnam filesize = dt_verify_body (Suc fuel) [] f wus 0"
    using assms(3-5) by (simp add: dt_verify_file_def sys_open_ro_def Let_def table_ok_def)
  with dt_verify_body_ideal [OF assms(1-3), of fuel 0] assms(6) show ?thesis by auto
qed

text \<open>Time stamps do not decrease, and none is 0.\<close>

definition times_ok :: "nat \<Rightarrow> (nat \<times> nat \<times> nat) list \<Rightarrow> bool" where
  "times_ok t rts \<longleftrightarrow> sorted (map (snd \<circ> snd) rts) \<and> (\<forall>rt \<in> set rts. 0 < snd (snd rt) \<and> t \<le> snd (snd rt) \<and> snd (snd rt) < 2 ^ 63)"

lemma mdt_write_ideal:
  assumes "mdt_write n (r1, r2, now) [] f = Inr (Inr (u, f', env'))" "0 < n" "n * CHUNK_SIZE < 2 ^ 63" "now < 2 ^ 63"
  shows "wf_cwu n CHUNK_SIZE u \<and> wu_timestamp u = now \<and> f' = chunk_write u f \<and> env' = []"
proof -
  have "n \<le> n * CHUNK_SIZE" by (simp add: CHUNK_SIZE_def)
  then have n: "n < 2 ^ 63" "n * CHUNK_SIZE < 2 ^ 64" using assms(3) by (linarith, simp)
  then have sub: "sub64 n 1 = n - 1" using assms(2) by (simp add: width)
  have "n - 1 < 2 ^ 64 - 1" using n(1) by simp
  from dt_get_rand_ul_ok [OF _ this, of 0 r1] obtain k where k: "dt_get_rand_ul 0 (n - 1) r1 = Inr k" "k < n"
    using assms(2) by auto
  obtain v where v: "dt_prep_rand_dest_write_unit r2 now k = Inr v" "wu_timestamp v = now" using dt_prep_ok [of r2 now k] by auto
  note wf = dt_prep_unit [OF v(1) k(2) n(1) assms(4)]
  from assms(1) k(1) v sub dt_do_write_ideal [OF wf(1) n(2), of f] wf(1) show ?thesis
    by (auto simp: mdt_write_def should_exit_def)
qed

lemma rounds_pass:
  assumes "mdt_root_loop n k rts [] f = Inr (Inr rounds)" "0 < n" "n * CHUNK_SIZE < 2 ^ 63" "times_ok t rts"
    "length f = n * CHUNK_SIZE" "table_ok n CHUNK_SIZE wus" "\<forall>i < n. wu_timestamp (wus ! i) \<le> t"
    "\<forall>i < n. chunk_passes (wus ! i) i (disk_cwu f CHUNK_SIZE i)" "filesize div CHUNK_SIZE = n"
  shows "mdt_slave_loop (Suc fuel) w filesize wus rounds = Inr (Mdt_ret 0)"
  using assms(1,4-8)
proof (induction rts arbitrary: k f wus t rounds)
  case Nil
  then show ?case by (cases k) simp_all
next
  case (Cons rt rts)
  obtain r1 r2 now where rt: "rt = (r1, r2, now)" by (metis prod_cases3)
  show ?case
  proof (cases k)
    case 0
    with Cons.prems(1) show ?thesis by simp
  next
    case (Suc k')
    with Cons.prems(1) obtain u f' env' rs where w: "mdt_write n (r1, r2, now) [] f = Inr (Inr (u, f', env'))"
      "mdt_root_loop n k' rts env' f' = Inr (Inr rs)" "rounds = (u, f') # rs"
      by (auto simp: rt split: sum.splits)
    have now: "0 < now" "t \<le> now" "now < 2 ^ 63" "times_ok now rts" using Cons.prems(2) by (auto simp: rt times_ok_def)
    have u: "wf_cwu n CHUNK_SIZE u" "wu_timestamp u = now" "f' = chunk_write u f" "env' = []"
      using mdt_write_ideal [OF w(1) assms(2,3) now(3)] by auto
    have sz: "40 < CHUNK_SIZE" by (simp add: CHUNK_SIZE_def)
    have le: "\<forall>v \<in> set [u]. \<forall>i < n. wu_timestamp (wus ! i) \<le> wu_timestamp v"
      using Cons.prems(5) now(2) u(2) by auto
    from writes_pass [of n CHUNK_SIZE "[u]" f wus, OF _ _ _ sz Cons.prems(3,4) le Cons.prems(6)] u now(1)
    have p: "length f' = n * CHUNK_SIZE" "\<forall>i < n. chunk_passes (wus_update u wus ! i) i (disk_cwu f' CHUNK_SIZE i)" by simp_all
    have tab: "table_ok n CHUNK_SIZE (wus_update u wus)" using table_ok_update [OF Cons.prems(4) u(1)] .
    have ts: "\<forall>i < n. wu_timestamp (wus_update u wus ! i) \<le> now"
    proof (intro allI impI)
      fix i assume "i < n"
      then have "wu_timestamp (wus ! i) \<le> now" "i < length wus"
        using Cons.prems(4,5) now(2) by (auto simp: table_ok_def intro: order.trans)
      then show "wu_timestamp (wus_update u wus ! i) \<le> now"
        using u(2) by (cases "wu_chunk_no u = i") (simp_all add: wus_update_def)
    qed
    have "dt_verify_file (Suc fuel) [] [w \<mapsto> f'] (Inr (wus_update u wus)) w filesize = Inr 0"
      using dt_verify_table [OF _ _ tab _ assms(9) p(2), of "[w \<mapsto> f']" w fuel] p(1) assms(3) by simp
    moreover have "wu_chunk_no u < length wus" using u(1) Cons.prems(4) by (simp add: wf_cwu_def table_ok_def)
    moreover have "mdt_slave_loop (Suc fuel) w filesize (wus_update u wus) rs = Inr (Mdt_ret 0)"
      using Cons.IH [OF w(2) [unfolded u(4)] now(4) p(1) tab ts p(2)] .
    ultimately show ?thesis by (simp add: w(3) should_exit_def Let_def)
  qed
qed

section \<open>Properties\<close>

text \<open>
  The code behind the test that no rank passes (\<open>slaves_always_abort\<close>) does what it is there for: a rank that
  entered the loop with the units rank 0 sends would accept the file after every write of rank 0.
\<close>

theorem slave_accepts_rounds:
  assumes "mdt_root_run prts rts [] vol w (n * CHUNK_SIZE) = Inr (Inr (f, rounds))" "vol w = None" "0 < n" "n * CHUNK_SIZE < 2 ^ 63"
    "list_all (\<lambda>(r, now). now < 2 ^ 63) prts" "times_ok 1 rts"
  shows "mdt_slave_loop (Suc fuel) w (n * CHUNK_SIZE) (init_wus n CHUNK_SIZE) rounds = Inr (Mdt_ret 0)"
proof -
  have n: "n * CHUNK_SIZE div CHUNK_SIZE = n" using CHUNK_SIZE_pos by simp
  obtain ret vol1 env1 where p: "dt_prep_orig_file_in_chunks prts [] vol w (n * CHUNK_SIZE) = Inr (ret, vol1, env1)"
    using assms(1) by (auto simp: mdt_root_run_def split: sum.splits)
  from prep_file_passes [OF p assms(2,4,5)] obtain g where g: "vol1 = vol(w \<mapsto> g)" "ret = 0" "env1 = []" "passes_unlogged n g" by blast
  with assms(1) p n have "mdt_root_loop n n rts [] f = Inr (Inr rounds)" "f = g"
    by (auto simp: mdt_root_run_def should_exit_def sys_open_creat_def split: sum.splits)
  moreover have "\<forall>i < n. wu_timestamp (init_wus n CHUNK_SIZE ! i) \<le> 1" by (simp add: init_wus_def cwu_zero_def)
  ultimately show ?thesis
    using rounds_pass [OF _ assms(3,4,6) _ table_ok_init _ _ n, of n f rounds fuel w] g(4) by (simp add: passes_unlogged_def)
qed

theorem slave_accepts_rounds_witness:
  "\<exists>u f. mdt_slave_loop 1 ''w'' CHUNK_SIZE (init_wus 1 CHUNK_SIZE) [(u, f)] = Inr (Mdt_ret 0)"
proof -
  obtain v where v: "dt_prep_rand_dest_write_unit 0 1 0 = Inr v" using dt_prep_ok [of 0 1 0] by auto
  have wf: "wf_cwu 1 CHUNK_SIZE v" using dt_prep_unit(1) [OF v, of 1] by simp
  have wr: "dt_do_write_chunk [] g v = Inr (int CHUNK_SIZE, chunk_write v g, [])" for g
    by (rule dt_do_write_ideal [OF wf]) (simp add: CHUNK_SIZE_def)
  have div: "CHUNK_SIZE div CHUNK_SIZE = 1" using CHUNK_SIZE_pos by simp
  have u: "u64 CHUNK_SIZE = CHUNK_SIZE" by (simp add: CHUNK_SIZE_def width)
  have loop: "dt_prep_orig_loop [(0, 1)] [] [] 0 CHUNK_SIZE 0 = Inr (0, chunk_write v [], [])"
    using v wr CHUNK_SIZE_pos u by (subst dt_prep_orig_loop.simps) (simp add: dt_prep_orig_loop.simps)
  have one: "sub64 1 1 = 0" by (simp add: width)
  have "mdt_write 1 (0, 0, 1) [] (chunk_write v []) = Inr (Inr (v, chunk_write v (chunk_write v []), []))"
    using v wr one by (simp add: mdt_write_def dt_get_rand_ul_def should_exit_def)
  then have "mdt_root_run [(0, 1)] [(0, 0, 1)] [] (\<lambda>_. None) ''w'' (1 * CHUNK_SIZE)
      = Inr (Inr (chunk_write v [], [(v, chunk_write v (chunk_write v []))]))"
    using loop div
    by (simp add: mdt_root_run_def dt_prep_orig_file_in_chunks_def sys_open_creat_def should_exit_def) (simp add: CHUNK_SIZE_def DIRECTIO_SLICE_def)
  from slave_accepts_rounds [OF this, of 0] have "mdt_slave_loop (Suc 0) ''w'' (1 * CHUNK_SIZE) (init_wus 1 CHUNK_SIZE)
      [(v, chunk_write v (chunk_write v []))] = Inr (Mdt_ret 0)" by (simp add: CHUNK_SIZE_def times_ok_def)
  then show ?thesis by (metis One_nat_def mult_1)
qed

text \<open>
  The loop is never entered: \<open>one_round_run\<close> tests \<open>fd\<close>, not the result of the first verification, and
  every rank but 0 aborts the test, whatever the file holds.
\<close>

theorem slaves_always_abort:
  assumes "dt_verify_file fuel env vol (Inr wus) w filesize = Inr ret"
  shows "mdt_slave_run fuel env vol w filesize wus rounds = Inr Mdt_abort"
  using assms by (simp add: mdt_slave_run_def should_exit_def)

theorem slaves_always_abort_witness: "mdt_slave_run 1 [] [''w'' \<mapsto> []] ''w'' 0 [] [] = Inr Mdt_abort"
  using slaves_always_abort [of 1 "[]" "[''w'' \<mapsto> []]" "[]" "''w''" 0 0 "[]"]
  by (simp add: dt_verify_file_def sys_open_ro_def dt_verify_body.simps)

end
