(* ===== verification/Sequencing.thy ===== *)
theory Sequencing
  imports File_Ops "HOL-Library.Stream"
begin

text \<open>
  How the test programs put their operations together. An operation changes a state and returns
  an \<open>int\<close>; a fault is an operation that does not return. The connectives are the forms in which the sources
  look at the return value of one operation before the next. \<open>gives\<close> and \<open>keeps\<close> are the two
  judgements: an operation returns 0 in a state with \<open>Q\<close>; whatever it returns, it keeps \<open>I\<close>.
\<close>

section \<open>Connectives\<close>

type_synonym 's op = "'s \<Rightarrow> fault + int \<times> 's"

text \<open>\<open>ret = f; if (ret) return ret; g\<close>, and the same with \<open>ret < 0\<close>.\<close>

definition and_then :: "'s op \<Rightarrow> 's op \<Rightarrow> 's op" where
  "and_then f g s = (case f s of Inl e \<Rightarrow> Inl e | Inr (ret, s') \<Rightarrow> if ret \<noteq> 0 then Inr (ret, s') else g s')"

definition unless_neg :: "'s op \<Rightarrow> 's op \<Rightarrow> 's op" where
  "unless_neg f g s = (case f s of Inl e \<Rightarrow> Inl e | Inr (ret, s') \<Rightarrow> if ret < 0 then Inr (ret, s') else g s')"

text \<open>\<open>ret = f; if (ret) return 1\<close>, and \<open>fd = f; if (fd < 0) return r\<close>.\<close>

definition or_one :: "'s op \<Rightarrow> 's op" where
  "or_one f s = (case f s of Inl e \<Rightarrow> Inl e | Inr (ret, s') \<Rightarrow> Inr (if ret \<noteq> 0 then 1 else 0, s'))"

definition or_fd :: "(int \<Rightarrow> int) \<Rightarrow> 's op \<Rightarrow> 's op" where
  "or_fd r f s = (case f s of Inl e \<Rightarrow> Inl e | Inr (fd, s') \<Rightarrow> Inr (if fd < 0 then r fd else 0, s'))"

definition all_done :: "'s op" where
  "all_done s = Inr (0, s)"

text \<open>A call whose return value is not looked at.\<close>

definition ignoring :: "'s op \<Rightarrow> 's op" where
  "ignoring f s = (case f s of Inl e \<Rightarrow> Inl e | Inr (ret, s') \<Rightarrow> Inr (0, s'))"

fun for_each :: "nat list \<Rightarrow> (nat \<Rightarrow> 's op) \<Rightarrow> 's op" where
  "for_each [] body = all_done"
| "for_each (j # js) body = and_then (body j) (for_each js body)"

section \<open>Random data\<close>

text \<open>One call of \<open>get_rand\<close> with its bounds; it does not call \<open>rand()\<close> when both are 0.\<close>

definition draw :: "nat \<Rightarrow> nat \<Rightarrow> nat stream \<Rightarrow> fault + nat \<times> nat stream" where
  "draw mn mx rs = (if mn = 0 \<and> mx = 0 then Inr (0, rs) else
     case get_rand mn mx (shd rs) of Inl e \<Rightarrow> Inl e | Inr v \<Rightarrow> Inr (v, stl rs))"

fun pattern_chars :: "nat \<Rightarrow> nat stream \<Rightarrow> fault + (byte list \<times> nat stream)" where
  "pattern_chars 0 rs = Inr ([], rs)"
| "pattern_chars (Suc n) rs = (case get_rand_char (shd rs) of
     Inl e \<Rightarrow> Inl e
   | Inr c \<Rightarrow> (case pattern_chars n (stl rs) of Inl e \<Rightarrow> Inl e | Inr (cs, rs') \<Rightarrow> Inr (c # cs, rs')))"

lemma draw_ok: "mn \<le> mx \<Longrightarrow> mx < 2 ^ 64 - 1 \<Longrightarrow> \<exists>v rs'. draw mn mx rs = Inr (v, rs') \<and> mn \<le> v \<and> v \<le> mx"
  using get_rand_range [of mn mx "shd rs"] by (auto simp: draw_def)

lemma pattern_chars_ok: "\<exists>cs rs'. pattern_chars n rs = Inr (cs, rs') \<and> length cs = n"
proof (induction n arbitrary: rs)
  case (Suc n)
  obtain d where "get_rand_char (shd rs) = Inr (65 + of_nat d)" using get_rand_char_ok by blast
  with Suc [of "stl rs"] show ?case by auto
qed simp

lemma pattern_chars_length: "pattern_chars n rs = Inr (cs, rs') \<Longrightarrow> length cs = n"
  using pattern_chars_ok [of n rs] by auto

section \<open>An operation gives\<close>

definition gives :: "'s op \<Rightarrow> ('s \<Rightarrow> bool) \<Rightarrow> 's \<Rightarrow> bool" where
  "gives f Q s \<longleftrightarrow> (\<exists>s'. f s = Inr (0, s') \<and> Q s')"

named_theorems op_rules \<open>what the operations give\<close>

lemma gives_then [op_rules]: "gives f Q s \<Longrightarrow> (\<And>s'. Q s' \<Longrightarrow> gives g R s') \<Longrightarrow> gives (and_then f g) R s"
  by (auto simp: gives_def and_then_def)

lemma gives_unless_neg [op_rules]: "gives f Q s \<Longrightarrow> (\<And>s'. Q s' \<Longrightarrow> gives g R s') \<Longrightarrow> gives (unless_neg f g) R s"
  by (auto simp: gives_def unless_neg_def)

lemma gives_or1 [op_rules]: "gives f Q s \<Longrightarrow> gives (or_one f) Q s"
  by (auto simp: gives_def or_one_def)

lemma gives_done [op_rules]: "Q s \<Longrightarrow> gives all_done Q s"
  by (simp add: gives_def all_done_def)

lemma gives_ignoring [op_rules]: "gives f Q s \<Longrightarrow> gives (ignoring f) Q s"
  by (auto simp: gives_def ignoring_def)

lemma gives_for:
  assumes "Q s" "\<And>j s. j \<in> set js \<Longrightarrow> Q s \<Longrightarrow> gives (body j) Q s"
  shows "gives (for_each js body) Q s"
  using assms
proof (induction js arbitrary: s)
  case (Cons j js)
  have "gives (body j) Q s" using Cons.prems by simp
  then show ?case using Cons.IH Cons.prems(2) by (auto intro: gives_then)
qed (simp add: gives_done)

text \<open>The loop over an interval with an invariant of the index.\<close>

lemma gives_for_upto:
  assumes "Q m s" "m \<le> n" "\<And>j s. m \<le> j \<Longrightarrow> j < n \<Longrightarrow> Q j s \<Longrightarrow> gives (body j) (Q (Suc j)) s"
  shows "gives (for_each [m..<n] body) (Q n) s"
  using assms
proof (induction "n - m" arbitrary: m s)
  case 0
  then show ?case by (simp add: gives_done)
next
  case (Suc k)
  then have "m < n" by simp
  moreover have "gives (for_each [Suc m..<n] body) (Q n) s'" if "Q (Suc m) s'" for s'
    using Suc.hyps(1) [of "Suc m" s'] Suc.hyps(2) Suc.prems(3) that \<open>m < n\<close> by simp
  moreover have "gives (body m) (Q (Suc m)) s" using Suc.prems(1,3) \<open>m < n\<close> by simp
  ultimately show ?case by (simp add: upt_conv_Cons gives_then)
qed

lemma gives_mono: "gives f Q s \<Longrightarrow> (\<And>s. Q s \<Longrightarrow> R s) \<Longrightarrow> gives f R s"
  by (auto simp: gives_def)

section \<open>An operation keeps\<close>

definition keeps :: "('s \<Rightarrow> bool) \<Rightarrow> 's op \<Rightarrow> bool" where
  "keeps I f \<longleftrightarrow> (\<forall>s ret s'. I s \<longrightarrow> f s = Inr (ret, s') \<longrightarrow> I s')"

named_theorems keep_rules \<open>what the operations keep\<close>

lemma keepsI: "(\<And>s ret s'. I s \<Longrightarrow> f s = Inr (ret, s') \<Longrightarrow> I s') \<Longrightarrow> keeps I f"
  by (auto simp: keeps_def)

lemma keepsD: "keeps I f \<Longrightarrow> I s \<Longrightarrow> f s = Inr (ret, s') \<Longrightarrow> I s'"
  by (auto simp: keeps_def)

lemma keeps_then [keep_rules]: "keeps I f \<Longrightarrow> keeps I g \<Longrightarrow> keeps I (and_then f g)"
proof (rule keepsI)
  fix s ret s' assume "keeps I f" "keeps I g" and s: "I s" "and_then f g s = Inr (ret, s')"
  then show "I s'"
    by (cases "f s") (auto simp: and_then_def split: if_splits prod.splits dest: keepsD)
qed

lemma keeps_unless_neg [keep_rules]: "keeps I f \<Longrightarrow> keeps I g \<Longrightarrow> keeps I (unless_neg f g)"
proof (rule keepsI)
  fix s ret s' assume "keeps I f" "keeps I g" and s: "I s" "unless_neg f g s = Inr (ret, s')"
  then show "I s'"
    by (cases "f s") (auto simp: unless_neg_def split: if_splits prod.splits dest: keepsD)
qed

lemma keeps_done [keep_rules]: "keeps I all_done"
  by (simp add: keeps_def all_done_def)

lemma keeps_ignoring [keep_rules]: "keeps I f \<Longrightarrow> keeps I (ignoring f)"
  by (rule keepsI) (auto simp: ignoring_def split: sum.splits dest: keepsD)

lemma keeps_for [keep_rules]: "(\<And>j. j \<in> set js \<Longrightarrow> keeps I (body j)) \<Longrightarrow> keeps I (for_each js body)"
  by (induction js) (auto intro: keep_rules)

end
