(* ===== verification/Inline_Data.thy ===== *)
theory Inline_Data
  imports Sequencing
begin

text \<open>
  \<open>programs/inline-data\<close>, \<open>inline-data-utils.c\<close> and \<open>inline-data.c\<close>: reads and writes of files small enough
  to live in their inode. The program keeps the expected contents in \<open>pattern\<close>, a buffer of
  \<open>PATTERN_SZ\<close> bytes; every operation changes the file and the pattern alike, and the file is read back
  and compared.

  The state has the pattern, the file, the answers of the kernel, an endless supply of results
  of \<open>rand()\<close>, and the answers of \<open>is_file_inlined\<close>, which asks \<open>libocfs2\<close> for the inode and is a
  parameter. A test is a function from states to a return value and a state; \<open>and_then\<close> goes on when
  the return value is 0.
\<close>

section \<open>State and control\<close>

definition PATTERN_SZ :: nat where
  "PATTERN_SZ = 8192"

record id_state =
  id_pattern :: "byte list"
  id_file :: content
  id_rng :: "nat stream"
  id_env :: io_env
  id_inl :: "int stream"

type_synonym id_op = "id_state \<Rightarrow> fault + int \<times> id_state"

definition id_draw :: "nat \<Rightarrow> nat \<Rightarrow> id_state \<Rightarrow> fault + nat \<times> id_state" where
  "id_draw mn mx s = (if mn = 0 \<and> mx = 0 then Inr (0, s) else
     case get_rand mn mx (shd (id_rng s)) of
       Inl e \<Rightarrow> Inl e | Inr v \<Rightarrow> Inr (v, s\<lparr>id_rng := stl (id_rng s)\<rparr>))"

definition id_rand :: "nat \<Rightarrow> nat \<Rightarrow> (nat \<Rightarrow> id_op) \<Rightarrow> id_op" where
  "id_rand mn mx k s = (case id_draw mn mx s of Inl e \<Rightarrow> Inl e | Inr (v, s') \<Rightarrow> k v s')"

section \<open>inline-data-utils.c\<close>

definition fill_pattern :: "nat \<Rightarrow> id_op" where
  "fill_pattern sz s = (if PATTERN_SZ < sz then Inl Overrun else
     case pattern_chars sz (id_rng s) of
       Inl e \<Rightarrow> Inl e
     | Inr (cs, rs) \<Rightarrow> Inr (0, s\<lparr>id_pattern := patch 0 cs (replicate PATTERN_SZ 0), id_rng := rs\<rparr>))"

text \<open>\<open>memset(pattern + off, 0, n)\<close>\<close>

definition clear_pattern :: "nat \<Rightarrow> nat \<Rightarrow> id_state \<Rightarrow> fault + id_state" where
  "clear_pattern off n s = (if PATTERN_SZ < off + n then Inl Overrun
     else Inr (s\<lparr>id_pattern := patch off (replicate n 0) (id_pattern s)\<rparr>))"

definition id_ftruncate :: "nat \<Rightarrow> id_op" where
  "id_ftruncate n s = (case sys_ftruncate (id_env s) (id_file s) n of
     (Some e, f', env') \<Rightarrow> Inr (-1, s\<lparr>id_env := env'\<rparr>)
   | (None, f', env') \<Rightarrow> Inr (0, s\<lparr>id_file := f', id_env := env'\<rparr>))"

text \<open>A negative difference becomes a huge count of \<open>memset\<close>.\<close>

definition truncate_pattern :: "nat \<Rightarrow> nat \<Rightarrow> id_op" where
  "truncate_pattern old_size new_size s = (if old_size < new_size then Inl Overrun else
     case clear_pattern new_size (old_size - new_size) s of Inl e \<Rightarrow> Inl e | Inr s' \<Rightarrow> id_ftruncate new_size s')"

definition extend_pattern :: "nat \<Rightarrow> nat \<Rightarrow> id_op" where
  "extend_pattern old_size new_size s = (if new_size < old_size then Inl Overrun else
     case clear_pattern old_size (new_size - old_size) s of Inl e \<Rightarrow> Inl e | Inr s' \<Rightarrow> id_ftruncate new_size s')"

definition ENOTTY :: nat where
  "ENOTTY = 25"

text \<open>\<open>try_ioctl\<close>: the error number, or the file as the call leaves it.\<close>

definition try_ioctl :: "(content \<Rightarrow> content) \<Rightarrow> id_op" where
  "try_ioctl eff s = (case sys_call (id_env s) of
     (Some e, env') \<Rightarrow> Inr (if e = ENOTTY then int ENOTTY else -1, s\<lparr>id_env := env'\<rparr>)
   | (None, env') \<Rightarrow> Inr (0, s\<lparr>id_file := eff (id_file s), id_env := env'\<rparr>))"

definition try_reserve :: "nat \<Rightarrow> nat \<Rightarrow> id_op" where
  "try_reserve off count = try_ioctl (\<lambda>f. f)"

definition zero_range :: "nat \<Rightarrow> nat \<Rightarrow> content \<Rightarrow> content" where
  "zero_range off count f = patch off (replicate (min count (length f - off)) 0) f"

definition try_punch_hole :: "nat \<Rightarrow> nat \<Rightarrow> id_op" where
  "try_punch_hole off count s = (case clear_pattern off count s of
     Inl e \<Rightarrow> Inl e | Inr s' \<Rightarrow> try_ioctl (zero_range off count) s')"

text \<open>The bytes \<open>pattern[off .. off + n)\<close>; a read past the buffer is undefined.\<close>

definition pattern_at :: "nat \<Rightarrow> nat \<Rightarrow> id_state \<Rightarrow> fault + byte list" where
  "pattern_at off n s = (if PATTERN_SZ < off + n then Inl Overrun else Inr (take n (drop off (id_pattern s))))"

definition id_mmap_write_at :: "nat \<Rightarrow> nat \<Rightarrow> nat \<Rightarrow> id_op" where
  "id_mmap_write_at page count off s = (case pattern_at off count s of
     Inl e \<Rightarrow> Inl e
   | Inr bs \<Rightarrow> (case mmap_write_at (id_env s) (id_file s) bs off page of
        Inl e \<Rightarrow> Inl e | Inr (ret, f', env') \<Rightarrow> Inr (ret, s\<lparr>id_file := f', id_env := env'\<rparr>)))"

text \<open>\<open>write_at(fd, pattern + off, count, off)\<close>: one call; a short write is a failure.\<close>

definition id_write_at :: "nat \<Rightarrow> nat \<Rightarrow> id_op" where
  "id_write_at count off s = (case pattern_at off count s of
     Inl e \<Rightarrow> Inl e
   | Inr bs \<Rightarrow> (case sys_pwrite (id_env s) (id_file s) bs off of
        (Inl e, f', env') \<Rightarrow> Inr (-1, s\<lparr>id_file := f', id_env := env'\<rparr>)
      | (Inr n, f', env') \<Rightarrow> Inr (if n \<noteq> count then -1 else 0, s\<lparr>id_file := f', id_env := env'\<rparr>)))"

text \<open>Opening with \<open>O_TRUNC\<close>, the pattern written, and for direct I/O cut back. The descriptor is 3.\<close>

definition id_open_trunc :: id_op where
  "id_open_trunc s = (case sys_call (id_env s) of
     (Some e, env') \<Rightarrow> Inr (-1, s\<lparr>id_env := env'\<rparr>)
   | (None, env') \<Rightarrow> Inr (0, s\<lparr>id_file := [], id_env := env'\<rparr>))"

definition prep_file_no_fill :: "nat \<Rightarrow> nat \<Rightarrow> bool \<Rightarrow> id_op" where
  "prep_file_no_fill blocksize sz direct s = (let count = (if direct then blocksize else sz) in
     case and_then id_open_trunc (and_then (id_write_at count 0) (if sz < count then id_ftruncate sz else all_done)) s of
       Inl e \<Rightarrow> Inl e | Inr (ret, s') \<Rightarrow> Inr (if ret \<noteq> 0 then -1 else 3, s'))"

definition prep_file :: "nat \<Rightarrow> id_op" where
  "prep_file sz = and_then (fill_pattern sz) (prep_file_no_fill 0 sz False)"

definition verify_pattern :: "nat \<Rightarrow> byte list \<Rightarrow> byte list \<Rightarrow> int" where
  "verify_pattern sz pat buf = (if list_all (\<lambda>i. buf ! i = pat ! i) [0..<sz] then 0 else -1)"

definition verify_pattern_fd :: "nat \<Rightarrow> bool \<Rightarrow> nat \<Rightarrow> id_op" where
  "verify_pattern_fd blocksize direct sz s = (let rd_size = (if direct then blocksize else sz) in
     case sys_pread (id_env s) (id_file s) rd_size 0 of
       (Inl e, env') \<Rightarrow> Inr (-1, s\<lparr>id_env := env'\<rparr>)
     | (Inr bs, env') \<Rightarrow>
       if PATTERN_SZ < length bs then Inl Overrun
       else if length bs \<noteq> sz then Inr (-1, s\<lparr>id_env := env'\<rparr>)
       else Inr (verify_pattern sz (id_pattern s) bs, s\<lparr>id_env := env'\<rparr>))"

text \<open>\<open>verify_pattern\<close> on a mapping, a byte at a time up to the first difference; its result is dropped.\<close>

fun verify_region :: "nat \<Rightarrow> content \<Rightarrow> byte list \<Rightarrow> nat \<Rightarrow> nat \<Rightarrow> fault + int" where
  "verify_region page f pat i 0 = Inr 0"
| "verify_region page f pat i (Suc n) = (case map_load page f i 1 of
     Inl e \<Rightarrow> Inl e
   | Inr bs \<Rightarrow> if PATTERN_SZ \<le> i then Inl Overrun else if bs \<noteq> [pat ! i] then Inr (-1)
       else verify_region page f pat (Suc i) n)"

definition verify_pattern_mmap :: "nat \<Rightarrow> nat \<Rightarrow> id_op" where
  "verify_pattern_mmap page sz s = (case mmap_size_loop page page sz of
     Inl e \<Rightarrow> Inl e
   | Inr _ \<Rightarrow> (case sys_call (id_env s) of
        (Some e, env') \<Rightarrow> Inr (-1, s\<lparr>id_env := env'\<rparr>)
      | (None, env') \<Rightarrow> (case verify_region page (id_file s) (id_pattern s) 0 sz of
           Inl e \<Rightarrow> Inl e
         | Inr ret \<Rightarrow> Inr (0, s\<lparr>id_env := env'\<rparr>))))"

definition should_inlined_or_not :: "int \<Rightarrow> bool \<Rightarrow> int" where
  "should_inlined_or_not is_inlined should_inlined =
     (if should_inlined then if is_inlined = 0 then -1 else 0 else if is_inlined \<noteq> 0 then -1 else 0)"

section \<open>The tests on a regular file\<close>

text \<open>\<open>is_file_inlined\<close> and the judgement on its answer, as after every test.\<close>

definition check_inlined :: "bool \<Rightarrow> id_op" where
  "check_inlined should s = (let ret = shd (id_inl s); s' = s\<lparr>id_inl := stl (id_inl s)\<rparr> in
     Inr (if ret < 0 then ret else should_inlined_or_not ret should, s'))"

text \<open>\<open>if (ret != ENOTTY) { if (ret) return ret; g }\<close>\<close>

definition id_unless_notty :: "id_op \<Rightarrow> id_op \<Rightarrow> id_op" where
  "id_unless_notty f g s = (case f s of
     Inl e \<Rightarrow> Inl e
   | Inr (ret, s') \<Rightarrow> if ret = int ENOTTY then Inr (0, s') else if ret \<noteq> 0 then Inr (ret, s') else g s')"

text \<open>The loops that change the size and verify after every change.\<close>

fun id_resize_loop :: "(nat \<Rightarrow> nat \<Rightarrow> id_op) \<Rightarrow> nat \<Rightarrow> nat list \<Rightarrow> id_op" where
  "id_resize_loop resize old_size [] = all_done"
| "id_resize_loop resize old_size (new_size # szs) =
     and_then (resize old_size new_size) (and_then (verify_pattern_fd 0 False new_size) (id_resize_loop resize new_size szs))"

function id_punch_loop :: "nat \<Rightarrow> nat \<Rightarrow> id_op" where
  "id_punch_loop mx off s = (if \<not> off < mx then Inr (0, s) else
     case id_draw 1 (mx - off) s of
       Inl e \<Rightarrow> Inl e
     | Inr (count, s1) \<Rightarrow>
       (case id_unless_notty (try_punch_hole off count) (verify_pattern_fd 0 False mx) s1 of
          Inl e \<Rightarrow> Inl e
        | Inr (ret, s2) \<Rightarrow> if ret \<noteq> 0 then Inr (ret, s2) else id_punch_loop mx (off + count + 10) s2))"
  by pat_completeness auto
termination by (relation "measure (\<lambda>(mx, off, s). mx - off)") auto

declare id_punch_loop.simps [simp del]

text \<open>A call that fails or not, and leaves the data alone: \<open>fsync\<close>, \<open>fdatasync\<close>, opening again.\<close>

definition id_call :: id_op where
  "id_call s = (case sys_call (id_env s) of
     (Some e, env') \<Rightarrow> Inr (-1, s\<lparr>id_env := env'\<rparr>) | (None, env') \<Rightarrow> Inr (0, s\<lparr>id_env := env'\<rparr>))"

definition shrink_sizes :: "nat \<Rightarrow> nat list" where
  "shrink_sizes mx = map (\<lambda>j. mx - j) [0..<mx]"

definition grow_sizes :: "nat \<Rightarrow> nat list" where
  "grow_sizes mx = [2..<mx + 1]"

definition id_double_write :: "nat \<Rightarrow> id_op" where
  "id_double_write j = and_then (fill_pattern j) (id_rand 1 j (\<lambda>init_count.
     and_then (or_fd (\<lambda>_. 1) (prep_file_no_fill 0 init_count False)) (id_rand 1 init_count (\<lambda>off.
       and_then (id_write_at (j - off) off) (verify_pattern_fd 0 False j)))))"

text \<open>The seventeen tests, with the sizes of a block and a page and \<open>max_inline_size\<close>: six that write and resize,\<close>

definition resize_tests :: "nat \<Rightarrow> nat \<Rightarrow> id_op list" where
  "resize_tests blocksize mx =
    (let shrunk = last (mx # shrink_sizes mx); grown = last (shrunk # grow_sizes mx); verify = verify_pattern_fd blocksize False in
     [and_then (or_fd (\<lambda>_. 1) (prep_file mx)) (and_then (check_inlined True) (verify mx)),
      and_then (for_each [0..<mx] (\<lambda>j. id_rand 1 (mx - j) (\<lambda>count. and_then (or_one (id_write_at count j)) (or_one (verify mx)))))
        (check_inlined True),
      and_then (id_resize_loop truncate_pattern mx (shrink_sizes mx)) (check_inlined True),
      and_then (id_resize_loop extend_pattern shrunk (grow_sizes mx)) (check_inlined True),
      and_then (truncate_pattern grown 0) (and_then (verify 0) (and_then (extend_pattern 0 mx) (and_then (verify mx) (check_inlined True)))),
      and_then (for_each [1..<mx + 1] id_double_write) (check_inlined True)])"

text \<open>five that leave the data inline,\<close>

definition inline_tests :: "nat \<Rightarrow> nat \<Rightarrow> nat \<Rightarrow> id_op list" where
  "inline_tests blocksize page mx = (let verify = verify_pattern_fd blocksize False in
     [and_then (or_fd id (prep_file mx)) (and_then id_call (and_then (verify mx) (check_inlined True))),
      and_then (or_fd id (prep_file mx)) (and_then id_call (and_then (verify mx) (check_inlined True))),
      and_then (or_fd id (prep_file mx)) (and_then (for_each [1..<mx + 1] (verify_pattern_mmap page)) (check_inlined True)),
      and_then (for_each [0..<mx] (\<lambda>j. id_rand 1 (mx - j) (\<lambda>count. id_unless_notty (try_reserve j count) (verify mx))))
        (check_inlined True),
      and_then (id_punch_loop mx 0) (check_inlined True)])"

text \<open>four that force it into extents,\<close>

definition extent_tests :: "nat \<Rightarrow> nat \<Rightarrow> nat \<Rightarrow> id_op list" where
  "extent_tests blocksize page mx = (let verify = verify_pattern_fd blocksize False in
     [and_then (fill_pattern PATTERN_SZ) (and_then (or_fd (\<lambda>_. 1) (prep_file_no_fill 0 mx False))
        (and_then (id_write_at (PATTERN_SZ - mx) mx) (and_then (verify PATTERN_SZ) (check_inlined False)))),
      and_then (or_fd (\<lambda>_. 1) (prep_file mx)) (and_then (fill_pattern mx)
        (and_then (id_mmap_write_at page mx 0) (and_then (verify mx) (check_inlined False)))),
      and_then (or_fd id (prep_file mx)) (and_then (extend_pattern mx (2 * mx))
        (and_then (or_one (verify (2 * mx))) (check_inlined False))),
      and_then (or_fd (\<lambda>_. 1) (prep_file mx)) (and_then
        (id_unless_notty (try_reserve 0 PATTERN_SZ) (and_then (extend_pattern mx PATTERN_SZ) (verify PATTERN_SZ)))
        (check_inlined False))])"

text \<open>and two of direct I/O.\<close>

definition direct_tests :: "nat \<Rightarrow> nat \<Rightarrow> id_op list" where
  "direct_tests blocksize mx = (let direct = verify_pattern_fd blocksize True in
     [and_then (or_fd (\<lambda>_. 1) (prep_file mx)) (and_then id_call (and_then (or_one (direct mx)) (check_inlined True))),
      and_then (fill_pattern mx) (and_then (or_fd (\<lambda>_. 1) (prep_file_no_fill blocksize mx True))
        (and_then (or_one (direct mx)) (check_inlined False)))])"

definition regular_tests :: "nat \<Rightarrow> nat \<Rightarrow> nat \<Rightarrow> id_op list" where
  "regular_tests blocksize page mx =
     resize_tests blocksize mx @ inline_tests blocksize page mx @ extent_tests blocksize page mx @ direct_tests blocksize mx"

text \<open>
  A child of \<open>multi_file_rw_test\<close> on a file of its own; the result is its exit status, as \<open>return\<close> from
  the child ends in \<open>main\<close>. The result of \<open>fsync\<close> is not looked at.
\<close>

definition multi_file_child :: "nat \<Rightarrow> nat \<Rightarrow> id_op" where
  "multi_file_child file_nums mx = and_then (or_fd (\<lambda>_. 1) (prep_file mx)) (for_each [0..<file_nums] (\<lambda>i.
     id_rand 0 (mx - 1) (\<lambda>rand_offset. id_rand 1 (mx - rand_offset) (\<lambda>rand_count.
       and_then (or_one (id_write_at rand_count rand_offset)) (and_then (or_one (verify_pattern_fd 0 False mx))
         (and_then (ignoring id_call) (check_inlined True)))))))"

text \<open>
  \<open>test_regular_file\<close>; the results of the tests with several processes are arguments (\<open>None\<close>: not
  asked for). Only a negative one ends the function there; a positive one of the last test is its result.
\<close>

definition test_regular_file :: "nat \<Rightarrow> nat \<Rightarrow> nat \<Rightarrow> int option \<Rightarrow> int option \<Rightarrow> id_op" where
  "test_regular_file blocksize page mx conc multi s =
     (case foldr and_then (regular_tests blocksize page mx) all_done s of
        Inl e \<Rightarrow> Inl e
      | Inr (ret, s') \<Rightarrow> if ret \<noteq> 0 then Inr (ret, s') else
        (case (case conc of None \<Rightarrow> Inr (0, s') | Some r \<Rightarrow> if r < 0 then Inr (r, s') else check_inlined True s') of
           Inl e \<Rightarrow> Inl e
         | Inr (ret, s2) \<Rightarrow> if ret < 0 then Inr (ret, s2) else
           Inr (case multi of None \<Rightarrow> ret | Some r \<Rightarrow> r, s2)))"

section \<open>Options and main\<close>

record id_opts =
  id_iteration :: int
  id_device :: string
  id_multi_process :: bool
  id_child_nums :: nat
  id_multi_file :: bool
  id_file_nums :: nat
  id_mount_point :: string

definition id_defaults :: id_opts where
  "id_defaults = \<lparr>id_iteration = 1, id_device = [], id_multi_process = False, id_child_nums = 2,
     id_multi_file = False, id_file_nums = 2, id_mount_point = []\<rparr>"

text \<open>An unknown option is ignored; \<open>strcpy\<close> into \<open>device\<close> has room for 99 characters.\<close>

definition id_opt_step :: "char \<times> string \<Rightarrow> id_opts \<Rightarrow> fault + id_opts" where
  "id_opt_step co opt = (case co of (c, optarg) \<Rightarrow>
     if c = CHR ''i'' \<or> c = CHR ''I'' then Inr (opt\<lparr>id_iteration := to_int32 (c_atol optarg)\<rparr>)
     else if c = CHR ''d'' \<or> c = CHR ''D'' then if length optarg < 100 then Inr (opt\<lparr>id_device := optarg\<rparr>) else Inl Overrun
     else if c = CHR ''c'' \<or> c = CHR ''C'' then
       Inr (opt\<lparr>id_multi_process := True, id_child_nums := nat (c_atol optarg mod 2 ^ 64)\<rparr>)
     else if c = CHR ''m'' \<or> c = CHR ''M'' then
       Inr (opt\<lparr>id_multi_file := True, id_file_nums := nat (c_atol optarg mod 2 ^ 64)\<rparr>)
     else Inr opt)"

fun id_opt_loop :: "(char \<times> string) list \<Rightarrow> id_opts \<Rightarrow> fault + id_opts" where
  "id_opt_loop [] opt = Inr opt"
| "id_opt_loop (co # cos) opt = (case id_opt_step co opt of Inl e \<Rightarrow> Inl e | Inr opt' \<Rightarrow> id_opt_loop cos opt')"

text \<open>\<open>Inr None\<close>: \<open>usage\<close> exits with 1. The last character of an empty mount point is outside the array.\<close>

definition id_parse_opts :: "(char \<times> string) list \<Rightarrow> string list \<Rightarrow> fault + id_opts option" where
  "id_parse_opts cos args = (case id_opt_loop cos id_defaults of
     Inl e \<Rightarrow> Inl e
   | Inr opt \<Rightarrow> if id_device opt = [] then Inr None else
     (case args of
        [mnt] \<Rightarrow> if OCFS2_MAX_FILENAME_LEN \<le> length mnt \<or> mnt = [] then Inl Overrun
          else Inr (Some (opt\<lparr>id_mount_point := if last mnt = CHR ''/'' then butlast mnt else mnt\<rparr>))
      | _ \<Rightarrow> Inr None))"

text \<open>
  \<open>setup\<close> and \<open>main\<close>. What \<open>open_ocfs2_volume\<close> returns, and the sizes it finds, are arguments; so are, for
  every round, the results of the tests with several processes. The two buffers are allocated.
\<close>

definition id_setup :: "int \<Rightarrow> id_op" where
  "id_setup vol s = (if vol < 0 then Inr (vol, s) else and_then (or_fd (\<lambda>_. 1) id_call) (or_fd (\<lambda>_. 1) id_call) s)"

definition id_main :: "(char \<times> string) list \<Rightarrow> string list \<Rightarrow> int \<Rightarrow> nat \<Rightarrow> nat \<Rightarrow> nat \<Rightarrow> (nat \<Rightarrow> int) \<Rightarrow> (nat \<Rightarrow> int) \<Rightarrow> id_op" where
  "id_main cos args vol blocksize page mx conc multi s = (case id_parse_opts cos args of
     Inl e \<Rightarrow> Inl e
   | Inr None \<Rightarrow> Inr (1, s)
   | Inr (Some opt) \<Rightarrow> and_then (id_setup vol) (for_each [0..<nat (id_iteration opt)] (\<lambda>i. test_regular_file blocksize page mx
       (if id_multi_process opt then Some (conc i) else None) (if id_multi_file opt then Some (multi i) else None))) s)"

section \<open>The pattern is the file\<close>

text \<open>
  \<open>st n il s\<close>: the file is the first \<open>n\<close> bytes of the pattern, no call is going to fail, the next answers
  of \<open>is_file_inlined\<close> are \<open>il\<close>; \<open>pre\<close> says nothing of the file. \<open>gives f Q s\<close>: \<open>f\<close> returns 0 in a state
  with \<open>Q\<close>.
\<close>

definition pre :: "int stream \<Rightarrow> id_state \<Rightarrow> bool" where
  "pre il s \<longleftrightarrow> length (id_pattern s) = PATTERN_SZ \<and> id_env s = [] \<and> id_inl s = il"

definition st :: "nat \<Rightarrow> int stream \<Rightarrow> id_state \<Rightarrow> bool" where
  "st n il s \<longleftrightarrow> pre il s \<and> n \<le> PATTERN_SZ \<and> id_file s = take n (id_pattern s)"

lemma gives_unless_notty [op_rules]:
  "gives f Q s \<Longrightarrow> (\<And>s'. Q s' \<Longrightarrow> gives g R s') \<Longrightarrow> gives (id_unless_notty f g) R s"
  by (auto simp: gives_def id_unless_notty_def ENOTTY_def)

lemma id_draw_ok:
  "mn \<le> mx \<Longrightarrow> mx < 2 ^ 64 - 1 \<Longrightarrow> \<exists>v rs. id_draw mn mx s = Inr (v, s\<lparr>id_rng := rs\<rparr>) \<and> mn \<le> v \<and> v \<le> mx"
  using get_rand_range [of mn mx "shd (id_rng s)"] by (cases s) (auto simp: id_draw_def)

lemma gives_rand:
  assumes "mn \<le> mx" "mx < 2 ^ 64 - 1" "\<And>v s'. mn \<le> v \<Longrightarrow> v \<le> mx \<Longrightarrow> Q s' \<Longrightarrow> gives (k v) R s'"
    "\<And>rs. Q (s\<lparr>id_rng := rs\<rparr>)"
  shows "gives (id_rand mn mx k) R s"
proof -
  obtain v rs where "id_draw mn mx s = Inr (v, s\<lparr>id_rng := rs\<rparr>)" "mn \<le> v" "v \<le> mx" using id_draw_ok [OF assms(1,2)] by blast
  with assms(3) [OF _ _ assms(4)] show ?thesis by (simp add: gives_def id_rand_def)
qed

lemma st_rng [simp]: "st n il (s\<lparr>id_rng := rs\<rparr>) = st n il s" "pre il (s\<lparr>id_rng := rs\<rparr>) = pre il s"
  by (simp_all add: st_def pre_def)

lemma gives_fill:
  assumes "pre il s" "sz \<le> PATTERN_SZ"
  shows "gives (fill_pattern sz) (\<lambda>s'. pre il s' \<and> id_file s' = id_file s) s"
proof -
  obtain cs rs where "pattern_chars sz (id_rng s) = Inr (cs, rs)" "length cs = sz" using pattern_chars_ok by blast
  with assms show ?thesis by (simp add: gives_def fill_pattern_def pre_def length_patch)
qed

lemma st_verify:
  assumes "st n il s" "direct \<longrightarrow> n \<le> blocksize"
  shows "gives (verify_pattern_fd blocksize direct n) (st n il) s"
proof -
  have f: "id_file s = take n (id_pattern s)" "length (id_file s) = n" "n \<le> PATTERN_SZ" "id_env s = []"
    using assms(1) by (simp_all add: st_def pre_def)
  have "take (if direct then blocksize else n) (id_file s) = id_file s" using assms(2) f(2) by simp
  moreover have "verify_pattern n (id_pattern s) (id_file s) = 0"
    using f(1) by (simp add: verify_pattern_def list_all_iff)
  ultimately show ?thesis using assms(1) f(2-4)
    by (auto simp: gives_def verify_pattern_fd_def Let_def st_def pre_def)
qed

lemma gives_write:
  assumes "pre il s" "off + count \<le> PATTERN_SZ"
  shows "gives (id_write_at count off) (\<lambda>s'. pre il s' \<and> id_pattern s' = id_pattern s
     \<and> id_file s' = file_write off (take count (drop off (id_pattern s))) (id_file s)) s"
  using assms by (simp add: gives_def id_write_at_def pattern_at_def pre_def)

lemma file_write_pattern:
  assumes "off \<le> n" "n \<le> length p" "off + count \<le> length p"
  shows "file_write off (take count (drop off p)) (take n p) = take (max n (off + count)) p"
proof (rule file_eqI)
  show len: "length (file_write off (take count (drop off p)) (take n p)) = length (take (max n (off + count)) p)"
    using assms by (auto simp: buf_simps)
  fix i
  assume "i < length (file_write off (take count (drop off p)) (take n p))"
  then have "i < max n (off + count)" "i < length p" using len by simp_all
  then show "file_byte (file_write off (take count (drop off p)) (take n p)) i = file_byte (take (max n (off + count)) p) i"
    using assms unfolding file_byte_write by (auto simp: file_byte_def)
qed

lemma st_write:
  assumes "st n il s" "off \<le> n" "off + count \<le> PATTERN_SZ"
  shows "gives (id_write_at count off) (st (max n (off + count)) il) s"
proof -
  have p: "pre il s" "length (id_pattern s) = PATTERN_SZ" "n \<le> PATTERN_SZ" "id_file s = take n (id_pattern s)"
    using assms(1) by (auto simp: st_def pre_def)
  then show ?thesis using gives_write [OF p(1) assms(3)] file_write_pattern [of off n "id_pattern s" count] assms(2,3)
    by (auto simp: gives_def st_def)
qed

lemma st_prep:
  assumes "pre il s" "sz \<le> PATTERN_SZ" "direct \<longrightarrow> sz \<le> blocksize \<and> blocksize \<le> PATTERN_SZ"
  shows "gives (or_fd r (prep_file_no_fill blocksize sz direct)) (st sz il) s"
proof -
  let ?count = "if direct then blocksize else sz"
  have p: "length (id_pattern s) = PATTERN_SZ" "id_env s = []" "id_inl s = il" using assms(1) by (simp_all add: pre_def)
  let ?s = "s\<lparr>id_file := take sz (id_pattern s), id_env := []\<rparr>"
  have "file_write 0 (take ?count (id_pattern s)) [] = take ?count (id_pattern s)" by (simp add: file_write_def patch_def)
  then have "prep_file_no_fill blocksize sz direct s = Inr (3, ?s)"
    using p assms(2,3) by (auto simp: prep_file_no_fill_def and_then_def id_open_trunc_def id_write_at_def pattern_at_def
        id_ftruncate_def all_done_def Let_def file_truncate_def min_absorb1)
  then show ?thesis using p assms(2) by (simp add: gives_def or_fd_def st_def pre_def)
qed

lemma st_prep_file:
  assumes "pre il s" "sz \<le> PATTERN_SZ"
  shows "gives (or_fd r (prep_file sz)) (st sz il) s"
proof -
  obtain s1 where s1: "fill_pattern sz s = Inr (0, s1)" "pre il s1" using gives_fill [OF assms] by (auto simp: gives_def)
  with st_prep [OF s1(2) assms(2), of False 0 r] show ?thesis by (simp add: gives_def or_fd_def prep_file_def and_then_def)
qed

lemma st_pre: "st n il s \<Longrightarrow> pre il s"
  by (simp add: st_def)

lemma st_truncate:
  assumes "st old il s" "new \<le> old"
  shows "gives (truncate_pattern old new) (st new il) s"
proof -
  have "length (id_pattern s) = PATTERN_SZ" "old \<le> PATTERN_SZ" "id_file s = take old (id_pattern s)" "id_env s = []" "id_inl s = il"
    using assms(1) by (auto simp: st_def pre_def)
  with assms(2) show ?thesis
    by (simp add: gives_def truncate_pattern_def clear_pattern_def id_ftruncate_def st_def pre_def file_truncate_def
        length_patch min_absorb1) (simp add: patch_def)
qed

lemma st_extend:
  assumes "st old il s" "old \<le> new" "new \<le> PATTERN_SZ"
  shows "gives (extend_pattern old new) (st new il) s"
proof -
  have "length (id_pattern s) = PATTERN_SZ" "old \<le> PATTERN_SZ" "id_file s = take old (id_pattern s)" "id_env s = []" "id_inl s = il"
    using assms(1) by (auto simp: st_def pre_def)
  with assms(2,3) show ?thesis
    by (simp add: gives_def extend_pattern_def clear_pattern_def id_ftruncate_def st_def pre_def file_truncate_def
        length_patch min_absorb1) (simp add: patch_def)
qed

lemma st_reserve: "st n il s \<Longrightarrow> gives (try_reserve off count) (st n il) s"
  by (simp add: gives_def try_reserve_def try_ioctl_def st_def pre_def)

lemma st_call: "st n il s \<Longrightarrow> gives id_call (st n il) s"
  by (simp add: gives_def id_call_def st_def pre_def)

lemma st_punch:
  assumes "st n il s" "off + count \<le> n"
  shows "gives (try_punch_hole off count) (st n il) s"
proof -
  have p: "length (id_pattern s) = PATTERN_SZ" "n \<le> PATTERN_SZ" "id_file s = take n (id_pattern s)" "id_env s = []" "id_inl s = il"
    using assms(1) by (auto simp: st_def pre_def)
  have "zero_range off count (id_file s) = take n (patch off (replicate count 0) (id_pattern s))"
  proof (rule nth_equalityI)
    show "length (zero_range off count (id_file s)) = length (take n (patch off (replicate count 0) (id_pattern s)))"
      using p assms(2) by (simp add: zero_range_def length_patch)
    fix i assume "i < length (zero_range off count (id_file s))"
    then have "i < n" using p assms(2) by (simp add: zero_range_def length_patch)
    then show "zero_range off count (id_file s) ! i = take n (patch off (replicate count 0) (id_pattern s)) ! i"
      using p assms(2) by (simp add: zero_range_def nth_patch)
  qed
  with p assms(2) show ?thesis
    by (simp add: gives_def try_punch_hole_def clear_pattern_def try_ioctl_def st_def pre_def length_patch)
qed

lemma st_punch_loop:
  assumes "st mx il s" "mx < 2 ^ 64 - 1"
  shows "gives (id_punch_loop mx off) (st mx il) s"
  using assms(1)
proof (induction "mx - off" arbitrary: off s rule: less_induct)
  case less
  show ?case
  proof (cases "off < mx")
    case False
    with less.prems show ?thesis by (simp add: gives_def id_punch_loop.simps)
  next
    case True
    then have "1 \<le> mx - off" "mx - off < 2 ^ 64 - 1" using assms(2) by simp_all
    then obtain v where v: "get_rand 1 (mx - off) (shd (id_rng s)) = Inr v" "1 \<le> v" "v \<le> mx - off"
      using get_rand_range by blast
    let ?s = "s\<lparr>id_rng := stl (id_rng s)\<rparr>"
    have "gives (try_punch_hole off v) (st mx il) ?s" using less.prems v(3) True by (intro st_punch) simp_all
    from gives_unless_notty [OF this st_verify [of mx il _ False 0]] obtain s2 where
      s2: "id_unless_notty (try_punch_hole off v) (verify_pattern_fd 0 False mx) ?s = Inr (0, s2)" "st mx il s2"
      by (auto simp: gives_def)
    have "gives (id_punch_loop mx (off + v + 10)) (st mx il) s2"
      by (rule less.hyps [OF _ s2(2)]) (use True in simp)
    moreover have "id_punch_loop mx off s = id_punch_loop mx (off + v + 10) s2"
      using True v s2(1) by (subst id_punch_loop.simps) (simp add: id_draw_def)
    ultimately show ?thesis by (simp add: gives_def)
  qed
qed

lemma st_mmap_write:
  assumes "pre il s" "length (id_file s) = n" "n \<le> PATTERN_SZ" "0 < page"
  shows "gives (id_mmap_write_at page n 0) (st n il) s"
proof -
  have p: "length (id_pattern s) = PATTERN_SZ" "id_env s = []" "id_inl s = il" using assms(1) by (auto simp: pre_def)
  obtain k where k: "mmap_size_loop page page n = Inr k" using mmap_size_loop_ok [OF assms(4)] by blast
  have "map_store page (id_file s) 0 (take n (id_pattern s)) = Inr (file_write 0 (take n (id_pattern s)) (id_file s))"
    using p assms(2-4) by (intro map_store_inside) simp_all
  moreover have "file_write 0 (take n (id_pattern s)) (id_file s) = take n (id_pattern s)"
    using p assms(2,3) by (auto simp: file_write_def patch_def min_absorb1)
  ultimately show ?thesis using p k assms(2,3)
    by (simp add: gives_def id_mmap_write_at_def pattern_at_def mmap_write_at_def st_def pre_def min_absorb1)
qed

lemma verify_region_inside:
  assumes "0 < page" "i + n \<le> length f" "i + n \<le> PATTERN_SZ"
  shows "verify_region page f pat i n = Inr (if \<forall>k \<in> {i..<i + n}. f ! k = pat ! k then 0 else -1)"
  using assms(2,3)
proof (induction n arbitrary: i)
  case (Suc n)
  have "map_load page f i 1 = Inr [f ! i]"
    using map_load_inside [OF assms(1), of i 1 f] Suc.prems(1) by (simp add: take_Suc hd_drop_conv_nth)
  moreover have "{i..<i + Suc n} = insert i {Suc i..<Suc i + n}" by auto
  ultimately show ?case using Suc.IH [of "Suc i"] Suc.prems by simp
qed simp

lemma verify_pattern_mmap_zero:
  assumes "0 < page" "sz \<le> length (id_file s)" "sz \<le> PATTERN_SZ" "id_env s = []"
  shows "verify_pattern_mmap page sz s = Inr (0, s)"
proof -
  obtain k r where "mmap_size_loop page page sz = Inr k" "verify_region page (id_file s) (id_pattern s) 0 sz = Inr r"
    using mmap_size_loop_ok [OF assms(1)] verify_region_inside [of page 0 sz "id_file s"] assms(1-3) by force
  with assms(4) show ?thesis by (simp add: verify_pattern_mmap_def)
qed

lemma st_mmap_verify:
  assumes "st n il s" "sz \<le> n" "0 < page"
  shows "gives (verify_pattern_mmap page sz) (st n il) s"
proof -
  have "length (id_file s) = n" "n \<le> PATTERN_SZ" "id_env s = []" using assms(1) by (auto simp: st_def pre_def)
  with assms show ?thesis by (simp add: gives_def verify_pattern_mmap_zero)
qed

lemma st_check: "st n (a ## il) s \<Longrightarrow> (if b then a = 1 else a = 0) \<Longrightarrow> gives (check_inlined b) (st n il) s"
  by (auto simp: gives_def check_inlined_def should_inlined_or_not_def st_def pre_def Let_def split: if_splits)

lemma st_resize:
  assumes "st old il s" "\<And>a b s. st a il s \<Longrightarrow> ord a b \<Longrightarrow> b \<le> PATTERN_SZ \<Longrightarrow> gives (resize a b) (st b il) s"
    "successively ord (old # szs)" "\<forall>n \<in> set szs. n \<le> PATTERN_SZ"
  shows "gives (id_resize_loop resize old szs) (st (last (old # szs)) il) s"
  using assms(1,3,4)
proof (induction szs arbitrary: old s)
  case (Cons new szs)
  have "gives (resize old new) (st new il) s" using assms(2) Cons.prems by (simp add: successively_Cons)
  moreover have "gives (verify_pattern_fd 0 False new) (st new il) s'" if "st new il s'" for s' using st_verify that by simp
  moreover have "gives (id_resize_loop resize new szs) (st (last (new # szs)) il) s'" if "st new il s'" for s'
    using Cons.IH [OF that] Cons.prems by (auto simp: successively_Cons)
  ultimately show ?case by (auto intro!: gives_then)
qed (simp add: gives_done)

section \<open>The seventeen tests\<close>

lemma shrink_ok: "successively (\<ge>) (mx # shrink_sizes mx)"
proof (rule successively_if_sorted_wrt)
  have "sorted_wrt (\<lambda>i j. mx - j \<le> mx - i) [0..<mx]"
    by (rule sorted_wrt_mono_rel [OF _ sorted_wrt_upt]) simp
  then show "sorted_wrt (\<ge>) (mx # shrink_sizes mx)" by (simp add: shrink_sizes_def sorted_wrt_map)
qed

lemma grow_ok: "successively (\<le>) (1 # grow_sizes mx)"
  by (rule successively_if_sorted_wrt) (simp add: grow_sizes_def del: upt_Suc)

lemma shrunk: "1 \<le> mx \<Longrightarrow> last (mx # shrink_sizes mx) = 1"
  by (simp add: shrink_sizes_def last_map)

lemma grown: "1 \<le> mx \<Longrightarrow> last (1 # grow_sizes mx) = mx"
  by (auto simp: grow_sizes_def)

text \<open>The ends of the tests: the file is verified, then its inode looked at.\<close>

lemma st_verify_check:
  assumes "st n (a ## il) s" "if b then a = 1 else a = 0"
  shows "gives (and_then (verify_pattern_fd blocksize False n) (check_inlined b)) (st n il) s"
  by (rule gives_then [OF st_verify st_check]) (use assms in simp_all)

lemma st_for_check:
  assumes "st n (a ## il) s" "if b then a = 1 else a = 0"
    "\<And>j s. j \<in> set js \<Longrightarrow> st n (a ## il) s \<Longrightarrow> gives (body j) (st n (a ## il)) s"
  shows "gives (and_then (for_each js body) (check_inlined b)) (st n il) s"
  by (rule gives_then [OF gives_for [where Q = "st n (a ## il)"] st_check]) (use assms in simp_all)

lemma st_double_write:
  assumes "pre il s" "1 \<le> j" "j \<le> PATTERN_SZ"
  shows "gives (id_double_write j) (st j il) s"
  unfolding id_double_write_def
proof (rule gives_then [OF gives_fill [OF assms(1,3)]], elim conjE)
  have j: "j < 2 ^ 64 - 1" using assms(3) by (simp add: PATTERN_SZ_def)
  fix s1
  assume s1: "pre il s1"
  have verified: "gives (and_then (id_write_at (j - off) off) (verify_pattern_fd 0 False j)) (st j il) s3"
    if "st c il s3" "off \<le> c" "c \<le> j" for c off s3
  proof (rule gives_then [OF st_write [OF that(1,2)]])
    show "off + (j - off) \<le> PATTERN_SZ" using that assms(3) by simp
    fix s4 assume "st (max c (off + (j - off))) il s4"
    then have "st j il s4" using that by (simp add: max_def)
    then show "gives (verify_pattern_fd 0 False j) (st j il) s4" by (simp add: st_verify)
  qed
  show "gives (id_rand 1 j (\<lambda>c. and_then (or_fd (\<lambda>_. 1) (prep_file_no_fill 0 c False)) (id_rand 1 c (\<lambda>off.
      and_then (id_write_at (j - off) off) (verify_pattern_fd 0 False j))))) (st j il) s1"
  proof (rule gives_rand [where Q = "pre il"])
    fix c s2 assume c: "1 \<le> c" "c \<le> j" and s2: "pre il s2"
    have "gives (id_rand 1 c (\<lambda>off. and_then (id_write_at (j - off) off) (verify_pattern_fd 0 False j))) (st j il) s3"
      if "st c il s3" for s3
      by (rule gives_rand [where Q = "st c il"]) (use c j that verified in auto)
    then show "gives (and_then (or_fd (\<lambda>_. 1) (prep_file_no_fill 0 c False)) (id_rand 1 c (\<lambda>off.
        and_then (id_write_at (j - off) off) (verify_pattern_fd 0 False j)))) (st j il) s2"
      using c assms(3) by (intro gives_then [OF st_prep [OF s2]]) simp_all
  qed (use assms s1 j in simp_all)
qed

lemma st_shrink:
  assumes "st mx il s" "1 \<le> mx"
  shows "gives (id_resize_loop truncate_pattern mx (shrink_sizes mx)) (st 1 il) s"
proof -
  have "\<forall>n \<in> set (shrink_sizes mx). n \<le> PATTERN_SZ" using assms by (auto simp: shrink_sizes_def st_def)
  from st_resize [where resize = truncate_pattern, OF assms(1) _ shrink_ok this] show ?thesis
    by (simp only: shrunk [OF assms(2)] st_truncate)
qed

lemma st_grow:
  assumes "st 1 il s" "1 \<le> mx" "mx \<le> PATTERN_SZ"
  shows "gives (id_resize_loop extend_pattern 1 (grow_sizes mx)) (st mx il) s"
proof -
  have "\<forall>n \<in> set (grow_sizes mx). n \<le> PATTERN_SZ" using assms by (auto simp: grow_sizes_def)
  from st_resize [where resize = extend_pattern, OF assms(1) _ grow_ok this] show ?thesis
    by (simp only: grown [OF assms(2)] st_extend)
qed

lemma small_size: "mx \<le> PATTERN_SZ \<Longrightarrow> mx < 2 ^ 64 - 1"
  by (simp add: PATTERN_SZ_def)

lemma test_basic:
  assumes "pre (1 ## il) s" "mx \<le> PATTERN_SZ"
  shows "gives (and_then (or_fd r (prep_file mx)) (and_then (check_inlined True) (verify_pattern_fd blocksize False mx))) (st mx il) s"
  using assms by (intro gives_then [OF st_prep_file] gives_then [OF st_check] st_verify) simp_all

lemma st_rewrite:
  assumes "st mx il s" "j < mx"
  shows "gives (id_rand 1 (mx - j) (\<lambda>count. and_then (or_one (id_write_at count j))
    (or_one (verify_pattern_fd blocksize False mx)))) (st mx il) s"
proof (rule gives_rand [where Q = "st mx il"])
  have mx: "mx \<le> PATTERN_SZ" using assms(1) by (simp add: st_def)
  then show "mx - j < 2 ^ 64 - 1" using small_size by (simp add: less_imp_diff_less)
  fix c s' assume c: "1 \<le> c" "c \<le> mx - j" and s': "st mx il s'"
  have "gives (id_write_at c j) (st (max mx (j + c)) il) s'" using assms c s' mx by (intro st_write) simp_all
  moreover have "max mx (j + c) = mx" using c assms(2) by simp
  ultimately show "gives (and_then (or_one (id_write_at c j)) (or_one (verify_pattern_fd blocksize False mx))) (st mx il) s'"
    by (auto intro!: gives_then [of "or_one (id_write_at c j)" "st mx il"] gives_or1 st_verify)
qed (use assms in simp_all)

text \<open>A child of the test with several files leaves with 0.\<close>

lemma multi_file_child_ok:
  assumes "pre (sconst 1) s" "1 \<le> mx" "mx \<le> PATTERN_SZ"
  shows "gives (multi_file_child file_nums mx) (st mx (sconst 1)) s"
  unfolding multi_file_child_def
proof (intro gives_then [OF st_prep_file [OF assms(1,3)]] gives_for)
  let ?Q = "st mx (sconst 1)"
  fix s assume s: "?Q s"
  show "gives (id_rand 0 (mx - 1) (\<lambda>off. id_rand 1 (mx - off) (\<lambda>c. and_then (or_one (id_write_at c off))
      (and_then (or_one (verify_pattern_fd 0 False mx)) (and_then (ignoring id_call) (check_inlined True)))))) ?Q s"
  proof (rule gives_rand [where Q = ?Q], simp)
    show "mx - 1 < 2 ^ 64 - 1" using assms(3) by (simp add: PATTERN_SZ_def)
    fix off s1 assume off: "off \<le> mx - 1" and s1: "?Q s1"
    show "gives (id_rand 1 (mx - off) (\<lambda>c. and_then (or_one (id_write_at c off))
      (and_then (or_one (verify_pattern_fd 0 False mx)) (and_then (ignoring id_call) (check_inlined True))))) ?Q s1"
    proof (rule gives_rand [where Q = ?Q])
      show "1 \<le> mx - off" "mx - off < 2 ^ 64 - 1" using off assms(2,3) by (auto simp: PATTERN_SZ_def)
      fix c s2 assume c: "c \<le> mx - off" and s2: "?Q s2"
      have "gives (id_write_at c off) ?Q s2"
        using st_write [OF s2, of off c] off c assms(3) by (simp add: max_absorb1)
      moreover have "gives (ignoring id_call) ?Q s'" if "?Q s'" for s'
        using st_call [OF that] by (auto simp: gives_def ignoring_def)
      moreover have "gives (check_inlined True) ?Q s'" if "?Q s'" for s'
      proof -
        have "sconst (1::int) = 1 ## sconst 1" by (subst siterate.code) simp
        then show ?thesis using st_check [of mx 1 "sconst 1" s' True] that by simp
      qed
      ultimately show "gives (and_then (or_one (id_write_at c off)) (and_then (or_one (verify_pattern_fd 0 False mx))
          (and_then (ignoring id_call) (check_inlined True)))) ?Q s2"
        by (intro gives_then [where Q = ?Q] gives_or1 st_verify) simp_all
    qed (use s1 in simp)
  qed (use s in simp)
qed

lemma test_rewrite:
  assumes "st mx (1 ## il) s"
  shows "gives (and_then (for_each [0..<mx] (\<lambda>j. id_rand 1 (mx - j) (\<lambda>count. and_then (or_one (id_write_at count j))
    (or_one (verify_pattern_fd blocksize False mx))))) (check_inlined True)) (st mx il) s"
  using assms by (intro st_for_check st_rewrite) simp_all

lemma test_shrink:
  assumes "st mx (1 ## il) s" "1 \<le> mx"
  shows "gives (and_then (id_resize_loop truncate_pattern mx (shrink_sizes mx)) (check_inlined True)) (st 1 il) s"
  using assms by (intro gives_then [OF st_shrink st_check]) simp_all

lemma test_grow:
  assumes "st 1 (1 ## il) s" "1 \<le> mx" "mx \<le> PATTERN_SZ"
  shows "gives (and_then (id_resize_loop extend_pattern 1 (grow_sizes mx)) (check_inlined True)) (st mx il) s"
  using assms by (intro gives_then [OF st_grow st_check]) simp_all

lemma test_extreme:
  assumes "st mx (1 ## il) s"
  shows "gives (and_then (truncate_pattern mx 0) (and_then (verify_pattern_fd blocksize False 0) (and_then (extend_pattern 0 mx)
    (and_then (verify_pattern_fd blocksize False mx) (check_inlined True))))) (st mx il) s"
  using assms by (intro gives_then [OF st_truncate] gives_then [OF st_verify] gives_then [OF st_extend] st_verify_check)
    (simp_all add: st_def)

lemma test_double_write:
  assumes "st mx (1 ## il) s" "1 \<le> mx"
  shows "gives (and_then (for_each [1..<mx + 1] id_double_write) (check_inlined True)) (pre il) s"
proof (rule gives_then)
  have "mx \<le> PATTERN_SZ" using assms(1) by (simp add: st_def)
  then show "gives (for_each [1..<mx + 1] id_double_write) (pre (1 ## il)) s"
    using assms(1) by (intro gives_for gives_mono [OF st_double_write st_pre]) (auto simp: st_pre)
  show "gives (check_inlined True) (pre il) s'" if "pre (1 ## il) s'" for s'
    using that by (simp add: gives_def check_inlined_def should_inlined_or_not_def pre_def Let_def)
qed

lemma test_sync:
  assumes "pre (1 ## il) s" "mx \<le> PATTERN_SZ"
  shows "gives (and_then (or_fd r (prep_file mx)) (and_then id_call (and_then (verify_pattern_fd blocksize False mx) (check_inlined True))))
    (st mx il) s"
  using assms by (intro gives_then [OF st_prep_file] gives_then [OF st_call] st_verify_check) simp_all

lemma test_mmap_read:
  assumes "pre (1 ## il) s" "mx \<le> PATTERN_SZ" "0 < page"
  shows "gives (and_then (or_fd r (prep_file mx)) (and_then (for_each [1..<mx + 1] (verify_pattern_mmap page)) (check_inlined True)))
    (st mx il) s"
  using assms by (intro gives_then [OF st_prep_file] st_for_check st_mmap_verify) auto

lemma st_reserve_verify:
  assumes "st mx il s" "j < mx"
  shows "gives (id_rand 1 (mx - j) (\<lambda>count. id_unless_notty (try_reserve j count) (verify_pattern_fd blocksize False mx))) (st mx il) s"
proof (rule gives_rand [where Q = "st mx il"])
  have "mx \<le> PATTERN_SZ" using assms(1) by (simp add: st_def)
  then show "mx - j < 2 ^ 64 - 1" using small_size by (simp add: less_imp_diff_less)
  show "gives (id_unless_notty (try_reserve j c) (verify_pattern_fd blocksize False mx)) (st mx il) s'" if "st mx il s'" for c s'
    using that by (intro gives_unless_notty [OF st_reserve] st_verify) simp_all
qed (use assms in simp_all)

lemma test_reserve:
  assumes "st mx (1 ## il) s"
  shows "gives (and_then (for_each [0..<mx] (\<lambda>j. id_rand 1 (mx - j) (\<lambda>count.
    id_unless_notty (try_reserve j count) (verify_pattern_fd blocksize False mx)))) (check_inlined True)) (st mx il) s"
  using assms by (intro st_for_check st_reserve_verify) simp_all

lemma test_punch:
  assumes "st mx (1 ## il) s"
  shows "gives (and_then (id_punch_loop mx 0) (check_inlined True)) (st mx il) s"
  using assms by (intro gives_then [OF st_punch_loop st_check] small_size) (simp_all add: st_def)

lemma st_fill_up:
  assumes "st mx il s"
  shows "gives (id_write_at (PATTERN_SZ - mx) mx) (st PATTERN_SZ il) s"
proof -
  have "mx \<le> PATTERN_SZ" using assms by (simp add: st_def)
  then have "max mx (mx + (PATTERN_SZ - mx)) = PATTERN_SZ" "mx + (PATTERN_SZ - mx) \<le> PATTERN_SZ" by simp_all
  with st_write [OF assms order_refl, of "PATTERN_SZ - mx"] show ?thesis by simp
qed

lemma test_large_write:
  assumes "pre (0 ## il) s" "mx \<le> PATTERN_SZ"
  shows "gives (and_then (fill_pattern PATTERN_SZ) (and_then (or_fd (\<lambda>_. 1) (prep_file_no_fill 0 mx False))
    (and_then (id_write_at (PATTERN_SZ - mx) mx) (and_then (verify_pattern_fd blocksize False PATTERN_SZ) (check_inlined False)))))
    (st PATTERN_SZ il) s"
proof (rule gives_then [OF gives_fill [OF assms(1) order_refl]], elim conjE)
  fix s1 assume "pre (0 ## il) s1"
  then show "gives (and_then (or_fd (\<lambda>_. 1) (prep_file_no_fill 0 mx False)) (and_then (id_write_at (PATTERN_SZ - mx) mx)
      (and_then (verify_pattern_fd blocksize False PATTERN_SZ) (check_inlined False)))) (st PATTERN_SZ il) s1"
    using assms(2) by (intro gives_then [OF st_prep] gives_then [OF st_fill_up] st_verify_check) simp_all
qed

lemma test_mmap_write:
  assumes "pre (0 ## il) s" "mx \<le> PATTERN_SZ" "0 < page"
  shows "gives (and_then (or_fd (\<lambda>_. 1) (prep_file mx)) (and_then (fill_pattern mx)
    (and_then (id_mmap_write_at page mx 0) (and_then (verify_pattern_fd blocksize False mx) (check_inlined False))))) (st mx il) s"
proof (rule gives_then [OF st_prep_file [OF assms(1,2)]])
  fix s1 assume s1: "st mx (0 ## il) s1"
  then have "length (id_file s1) = mx" by (simp add: st_def pre_def)
  with s1 assms(2,3) show "gives (and_then (fill_pattern mx) (and_then (id_mmap_write_at page mx 0)
      (and_then (verify_pattern_fd blocksize False mx) (check_inlined False)))) (st mx il) s1"
    by (intro gives_then [OF gives_fill [OF st_pre]] gives_then [OF st_mmap_write] st_verify_check) (auto elim: conjE)
qed

lemma test_large_extend:
  assumes "pre (0 ## il) s" "2 * mx \<le> PATTERN_SZ"
  shows "gives (and_then (or_fd r (prep_file mx)) (and_then (extend_pattern mx (2 * mx))
    (and_then (or_one (verify_pattern_fd blocksize False (2 * mx))) (check_inlined False)))) (st (2 * mx) il) s"
  using assms by (intro gives_then [OF st_prep_file] gives_then [OF st_extend] gives_then [OF gives_or1 [OF st_verify]] st_check) simp_all

lemma test_large_reserve:
  assumes "pre (0 ## il) s" "mx \<le> PATTERN_SZ"
  shows "gives (and_then (or_fd r (prep_file mx)) (and_then (id_unless_notty (try_reserve 0 PATTERN_SZ)
    (and_then (extend_pattern mx PATTERN_SZ) (verify_pattern_fd blocksize False PATTERN_SZ))) (check_inlined False))) (st PATTERN_SZ il) s"
proof (rule gives_then [OF st_prep_file [OF assms]])
  fix s1 assume s1: "st mx (0 ## il) s1"
  have "gives (id_unless_notty (try_reserve 0 PATTERN_SZ) (and_then (extend_pattern mx PATTERN_SZ) (verify_pattern_fd blocksize False PATTERN_SZ)))
      (st PATTERN_SZ (0 ## il)) s1"
    using s1 assms(2) by (intro gives_unless_notty [OF st_reserve] gives_then [OF st_extend] st_verify) simp_all
  then show "gives (and_then (id_unless_notty (try_reserve 0 PATTERN_SZ) (and_then (extend_pattern mx PATTERN_SZ)
      (verify_pattern_fd blocksize False PATTERN_SZ))) (check_inlined False)) (st PATTERN_SZ il) s1"
    by (rule gives_then) (simp add: st_check)
qed

lemma test_direct_read:
  assumes "pre (1 ## il) s" "mx \<le> blocksize" "blocksize \<le> PATTERN_SZ"
  shows "gives (and_then (or_fd r (prep_file mx)) (and_then id_call (and_then (or_one (verify_pattern_fd blocksize True mx))
    (check_inlined True)))) (st mx il) s"
  using assms by (intro gives_then [OF st_prep_file] gives_then [OF st_call] gives_then [OF gives_or1 [OF st_verify]] st_check) simp_all

lemma test_direct_write:
  assumes "pre (0 ## il) s" "mx \<le> blocksize" "blocksize \<le> PATTERN_SZ"
  shows "gives (and_then (fill_pattern mx) (and_then (or_fd (\<lambda>_. 1) (prep_file_no_fill blocksize mx True))
    (and_then (or_one (verify_pattern_fd blocksize True mx)) (check_inlined False)))) (st mx il) s"
proof (rule gives_then [OF gives_fill [OF assms(1)]])
  show "mx \<le> PATTERN_SZ" using assms(2,3) by simp
  fix s1 assume "pre (0 ## il) s1 \<and> id_file s1 = id_file s"
  with assms(2,3) show "gives (and_then (or_fd (\<lambda>_. 1) (prep_file_no_fill blocksize mx True))
      (and_then (or_one (verify_pattern_fd blocksize True mx)) (check_inlined False))) (st mx il) s1"
    by (intro gives_then [OF st_prep] gives_then [OF gives_or1 [OF st_verify]] st_check) simp_all
qed

lemma gives_tests:
  assumes "pre (1 ## 1 ## 1 ## 1 ## 1 ## 1 ## 1 ## 1 ## 1 ## 1 ## 1 ## 0 ## 0 ## 0 ## 0 ## 1 ## 0 ## il) s"
    "1 \<le> mx" "2 * mx \<le> PATTERN_SZ" "mx \<le> blocksize" "blocksize \<le> PATTERN_SZ" "0 < page"
  shows "gives (foldr and_then (regular_tests blocksize page mx) all_done) (st mx il) s"
proof -
  have mx: "mx \<le> PATTERN_SZ" using assms(3) by simp
  show ?thesis unfolding regular_tests_def resize_tests_def inline_tests_def extent_tests_def direct_tests_def Let_def
      shrunk [OF assms(2)] grown [OF assms(2)] append.simps foldr.simps o_apply
    apply (rule gives_then [OF test_basic [OF assms(1) mx]])
    apply (erule gives_then [OF test_rewrite])
    apply (erule gives_then [OF test_shrink [OF _ assms(2)]])
    apply (erule gives_then [OF test_grow [OF _ assms(2) mx]])
    apply (erule gives_then [OF test_extreme])
    apply (erule gives_then [OF test_double_write [OF _ assms(2)]])
    apply (erule gives_then [OF test_sync [OF _ mx]])
    apply (erule gives_then [OF test_sync [OF st_pre mx]])
    apply (erule gives_then [OF test_mmap_read [OF st_pre mx assms(6)]])
    apply (erule gives_then [OF test_reserve])
    apply (erule gives_then [OF test_punch])
    apply (erule gives_then [OF test_large_write [OF st_pre mx]])
    apply (erule gives_then [OF test_mmap_write [OF st_pre mx assms(6)]])
    apply (erule gives_then [OF test_large_extend [OF st_pre assms(3)]])
    apply (erule gives_then [OF test_large_reserve [OF st_pre mx]])
    apply (erule gives_then [OF test_direct_read [OF st_pre assms(4,5)]])
    apply (erule gives_then [OF test_direct_write [OF st_pre assms(4,5)]])
    apply (simp add: gives_done)
    done
qed

definition inlined_answers :: "int list" where
  "inlined_answers = replicate 11 1 @ [0, 0, 0, 0, 1, 0]"

lemma gives_regular_file:
  assumes "pre (cycle inlined_answers) s" "1 \<le> mx" "2 * mx \<le> PATTERN_SZ" "mx \<le> blocksize" "blocksize \<le> PATTERN_SZ" "0 < page"
  shows "gives (test_regular_file blocksize page mx None None) (st mx (cycle inlined_answers)) s"
proof -
  have "cycle inlined_answers = inlined_answers @- cycle inlined_answers" by (rule cycle_decomp) (simp add: inlined_answers_def)
  then have "pre (inlined_answers @- cycle inlined_answers) s" using assms(1) by simp
  then have "gives (foldr and_then (regular_tests blocksize page mx) all_done) (st mx (cycle inlined_answers)) s"
    by (intro gives_tests assms(2-)) (simp add: inlined_answers_def numeral_eq_Suc)
  then show ?thesis by (auto simp: gives_def test_regular_file_def)
qed

lemma pre_setup: "pre il s \<Longrightarrow> 0 \<le> vol \<Longrightarrow> gives (id_setup vol) (pre il) s"
  by (simp add: gives_def id_setup_def and_then_def or_fd_def id_call_def pre_def)

text \<open>
  C35. The program accepts a file system that does what it should: when no call fails and the inode
  holds the data after the first eleven tests and the direct read, and does not after those that force
  it out, \<open>main\<close> without the options \<open>-c\<close> and \<open>-m\<close> returns 0 after all seventeen tests in every round,
  whatever \<open>rand()\<close> gives, without a fault; the pattern is what is in the file at the end.
\<close>

theorem inline_data_passes:
  assumes "id_parse_opts cos args = Inr (Some opt)" "\<not> id_multi_process opt" "\<not> id_multi_file opt" "0 < id_iteration opt" "0 \<le> vol"
    "length (id_pattern s) = PATTERN_SZ" "id_env s = []" "id_inl s = cycle inlined_answers"
    "1 \<le> mx" "2 * mx \<le> PATTERN_SZ" "mx \<le> blocksize" "blocksize \<le> PATTERN_SZ" "0 < page"
  shows "\<exists>s'. id_main cos args vol blocksize page mx conc multi s = Inr (0, s') \<and> id_file s' = take mx (id_pattern s')"
proof -
  let ?c = "cycle inlined_answers" and ?test = "test_regular_file blocksize page mx None None"
  have round: "gives ?test (st mx ?c) s" if "pre ?c s" for s using that assms(9-) by (rule gives_regular_file)
  obtain n where n: "nat (id_iteration opt) = Suc n" using assms(4) by (cases "nat (id_iteration opt)") simp_all
  then have rounds: "[0..<nat (id_iteration opt)] = 0 # [1..<Suc n]" using upt_conv_Cons by simp
  have "gives (for_each [0..<nat (id_iteration opt)] (\<lambda>i. ?test)) (st mx ?c) s" if "pre ?c s" for s
    unfolding rounds for_each.simps using that by (intro gives_then [OF round] gives_for round) (simp_all add: st_pre)
  then have "gives (and_then (id_setup vol) (for_each [0..<nat (id_iteration opt)] (\<lambda>i. ?test))) (st mx ?c) s"
    using assms(5-8) by (intro gives_then [OF pre_setup]) (simp_all add: pre_def)
  then show ?thesis using assms(1-3) by (auto simp: gives_def st_def id_main_def)
qed

theorem inline_data_passes_witness:
  "\<exists>s'. id_main [(CHR ''i'', ''2''), (CHR ''d'', ''/dev/sdb1'')] [''/mnt''] 0 512 4096 256 (\<lambda>_. 0) (\<lambda>_. 0)
      \<lparr>id_pattern = replicate PATTERN_SZ 0, id_file = [], id_rng = sconst 7, id_env = [], id_inl = cycle inlined_answers\<rparr> = Inr (0, s')
    \<and> id_file s' = take 256 (id_pattern s')"
proof (rule inline_data_passes)
  show "id_parse_opts [(CHR ''i'', ''2''), (CHR ''d'', ''/dev/sdb1'')] [''/mnt'']
      = Inr (Some (id_defaults\<lparr>id_iteration := 2, id_device := ''/dev/sdb1'', id_mount_point := ''/mnt''\<rparr>))"
    by code_simp
qed (simp_all add: PATTERN_SZ_def id_defaults_def)

section \<open>What the comparisons accept\<close>

lemma verify_pattern_zero:
  "length bs = sz \<Longrightarrow> sz \<le> length pat \<Longrightarrow> (verify_pattern sz pat bs = 0) = (bs = take sz pat)"
  by (auto simp: verify_pattern_def list_all_iff list_eq_iff_nth_eq min_absorb2 atLeast0LessThan)

text \<open>
  C33. \<open>__verify_pattern_fd\<close> accepts nothing but the pattern: when it returns 0, whatever the kernel
  answered, the file begins with the first \<open>size\<close> bytes of the pattern; a failed or short read never
  passes. When calls do not fail it returns 0 exactly when the bytes it asks for (a block for direct
  reads, else \<open>size\<close>) are those bytes of the pattern, so a direct read accepts no file that goes on behind them.
\<close>

theorem verify_pattern_fd_exact:
  assumes "length (id_pattern s) = PATTERN_SZ" "sz \<le> PATTERN_SZ" "blocksize \<le> PATTERN_SZ"
  shows "(\<forall>s'. verify_pattern_fd blocksize direct sz s = Inr (0, s') \<longrightarrow> take sz (id_file s) = take sz (id_pattern s))
    \<and> (id_env s = [] \<longrightarrow> ((\<exists>s'. verify_pattern_fd blocksize direct sz s = Inr (0, s'))
         \<longleftrightarrow> take (if direct then blocksize else sz) (id_file s) = take sz (id_pattern s)))"
proof (intro conjI allI impI)
  let ?rd = "if direct then blocksize else sz"
  fix s' assume 0: "verify_pattern_fd blocksize direct sz s = Inr (0, s')"
  then obtain bs env' where bs: "sys_pread (id_env s) (id_file s) ?rd 0 = (Inr bs, env')" "length bs = sz"
      "verify_pattern sz (id_pattern s) bs = 0"
    by (auto simp: verify_pattern_fd_def Let_def split: sum.splits prod.splits if_splits)
  then have "bs = take sz (id_pattern s)" using assms by (simp add: verify_pattern_zero)
  moreover have "bs = take sz (id_file s)" using sys_pread_InrD(1) [OF bs(1)] bs(2) by simp
  ultimately show "take sz (id_file s) = take sz (id_pattern s)" by simp
next
  let ?rd = "if direct then blocksize else sz"
  assume env: "id_env s = []"
  have eq: "verify_pattern_fd blocksize direct sz s = (let bs = take ?rd (id_file s) in
      if length bs \<noteq> sz then Inr (-1, s) else Inr (verify_pattern sz (id_pattern s) bs, s))"
    using env assms(2,3) by (auto simp: verify_pattern_fd_def Let_def)
  show "(\<exists>s'. verify_pattern_fd blocksize direct sz s = Inr (0, s')) \<longleftrightarrow> take ?rd (id_file s) = take sz (id_pattern s)"
  proof (cases "length (take ?rd (id_file s)) = sz")
    case True
    then show ?thesis unfolding eq Let_def using verify_pattern_zero [OF True, of "id_pattern s"] assms by simp
  next
    case False
    moreover have "length (take sz (id_pattern s)) = sz" using assms(1,2) by simp
    ultimately have "take ?rd (id_file s) \<noteq> take sz (id_pattern s)" by metis
    with False show ?thesis unfolding eq Let_def by simp
  qed
qed

theorem verify_pattern_fd_exact_witness:
  "\<not> (\<exists>s'. verify_pattern_fd 512 True 1 \<lparr>id_pattern = 65 # replicate 8191 0, id_file = [65, 0], id_rng = sconst 0,
      id_env = [], id_inl = sconst 1\<rparr> = Inr (0, s'))"
  using verify_pattern_fd_exact [of "\<lparr>id_pattern = 65 # replicate 8191 0, id_file = [65, 0], id_rng = sconst 0,
      id_env = [], id_inl = sconst 1\<rparr>" 1 512 True] by (simp add: PATTERN_SZ_def)

text \<open>
  \<open>verify_pattern_mmap\<close> accepts everything: on a file of at least \<open>size\<close> bytes, whatever they are, it
  returns 0 when the mapping succeeds. The comparison it makes is right, \<open>-1\<close> when a byte differs from the
  pattern, but its result is dropped, so the test of reads through a mapping cannot fail.
\<close>

theorem verify_pattern_mmap_accepts_all:
  assumes "0 < page" "sz \<le> length (id_file s)" "sz \<le> PATTERN_SZ" "id_env s = []"
  shows "verify_region page (id_file s) (id_pattern s) 0 sz = Inr (verify_pattern sz (id_pattern s) (id_file s))
    \<and> verify_pattern_mmap page sz s = Inr (0, s)"
  using verify_region_inside [of page 0 sz "id_file s" "id_pattern s"] verify_pattern_mmap_zero [OF assms] assms
  by (simp add: verify_pattern_def list_all_iff atLeast0LessThan)

theorem verify_pattern_mmap_accepts_all_witness:
  "verify_pattern_mmap 4096 2 \<lparr>id_pattern = 65 # replicate 8191 0, id_file = [66, 0], id_rng = sconst 0, id_env = [], id_inl = sconst 1\<rparr>
     = Inr (0, \<lparr>id_pattern = 65 # replicate 8191 0, id_file = [66, 0], id_rng = sconst 0, id_env = [], id_inl = sconst 1\<rparr>)
   \<and> verify_pattern 2 (65 # replicate 8191 0) [66, 0] = -1"
proof -
  have "verify_pattern 2 (65 # replicate 8191 0) [66, 0] = -1" by (simp add: verify_pattern_def upt_rec)
  then show ?thesis
    using verify_pattern_mmap_accepts_all [of 4096 2 "\<lparr>id_pattern = 65 # replicate 8191 0, id_file = [66, 0], id_rng = sconst 0,
      id_env = [], id_inl = sconst 1\<rparr>"] by (simp add: PATTERN_SZ_def)
qed

end
