(* ===== verification/Truncate_Test.thy ===== *)
theory Truncate_Test
  imports File_Ops "HOL-Library.Stream"
begin

unbundle bit_operations_syntax

text \<open>
  \<open>programs/truncate/verify_truncate.c\<close>: a file of equal clusters is truncated at a random place, extended
  again to a whole cluster, and its clusters are compared with the pattern, the last one with the
  pattern cut off and filled with zeros. The size of a cluster, which \<open>libocfs2\<close> tells, is an argument. The
  second file that is written to keep the clusters apart has no name by then; only the answers of its calls matter.
\<close>

section \<open>Random values\<close>

record vt_state =
  vt_pattern :: "byte list"
  vt_last :: "byte list"
  vt_last_cluster :: int
  vt_file :: "content option"
  vt_rng :: "nat stream"
  vt_env :: io_env

text \<open>Three results of \<open>rand()\<close> make a 64-bit one.\<close>

definition big_rand :: "nat \<Rightarrow> nat \<Rightarrow> nat \<Rightarrow> 64 word" where
  "big_rand r1 r2 r3 = push_bit 32 (word_of_nat r1) OR push_bit 16 (word_of_nat r2) OR word_of_nat r3"

definition get_rand_ull :: "nat \<Rightarrow> nat \<Rightarrow> nat stream \<Rightarrow> fault + nat \<times> nat stream" where
  "get_rand_ull mn mx rs = (if mn = 0 \<and> mx = 0 then Inr (0, rs) else
     let r = unat (big_rand (rs !! 0) (rs !! 1) (rs !! 2)); m = u64 (sub64 mx mn + 1) in
     if m = 0 then Inl Div_zero else Inr (u64 (mn + r mod m), sdrop 3 rs))"

fun get_rand_buf :: "nat \<Rightarrow> nat stream \<Rightarrow> fault + byte list \<times> nat stream" where
  "get_rand_buf 0 rs = Inr ([], rs)"
| "get_rand_buf (Suc n) rs = (case get_rand_ull 0 25 rs of
     Inl e \<Rightarrow> Inl e
   | Inr (v, rs') \<Rightarrow> (case get_rand_buf n rs' of Inl e \<Rightarrow> Inl e | Inr (cs, rs2) \<Rightarrow> Inr ((65 + of_nat v) # cs, rs2)))"

section \<open>Writing and truncating\<close>

text \<open>
  The loop of \<open>prep_file_with_pattern\<close>, with the file alone (\<open>once\<close>) or in turns with the second one. Short
  writes are not noticed. A chunk size of 0 would never end.
\<close>

function prep_loop :: "nat \<Rightarrow> nat \<Rightarrow> bool \<Rightarrow> byte list \<Rightarrow> nat \<Rightarrow> io_env \<Rightarrow> content \<Rightarrow> fault + (int \<times> content \<times> io_env)" where
  "prep_loop fsize chunk_size once pat off env f = (if \<not> off < fsize then Inr (0, f, env)
     else if chunk_size = 0 then Inl Out_of_fuel
     else let write_size = (if fsize < off + chunk_size then fsize - off else chunk_size) in
       case sys_pwrite env f (take write_size pat) off of
         (Inl e, f', env') \<Rightarrow> Inr (-1, f', env')
       | (Inr n, f', env') \<Rightarrow>
         (case (if once then (None, env') else sys_call env') of
            (Some e, env2) \<Rightarrow> Inr (-1, f', env2)
          | (None, env2) \<Rightarrow> prep_loop fsize chunk_size once pat (off + write_size) env2 f'))"
  by pat_completeness auto
termination by (relation "measure (\<lambda>(fsize, chunk_size, once, pat, off, env, f). fsize - off)") (auto split: if_splits)

declare prep_loop.simps [simp del]

text \<open>
  \<open>prep_file_with_pattern\<close> with \<open>FLAGS_RW\<close>: an existing file keeps its contents. Opening the second file is
  not checked; with a descriptor that is not open the first write to it fails.
\<close>

definition prep_file_with_pattern :: "nat \<Rightarrow> nat \<Rightarrow> bool \<Rightarrow> vt_state \<Rightarrow> fault + int \<times> vt_state" where
  "prep_file_with_pattern fsize chunk_size once s = (case sys_call (vt_env s) of
     (Some e, env1) \<Rightarrow> Inr (-1, s\<lparr>vt_env := env1\<rparr>)
   | (None, env1) \<Rightarrow>
     let f = (case vt_file s of None \<Rightarrow> [] | Some f \<Rightarrow> f); (bad, env2) = (if once then (None, env1) else sys_call env1) in
     if bad \<noteq> None \<and> 0 < fsize then
       (case sys_pwrite env2 f (take (min fsize chunk_size) (vt_pattern s)) 0 of
          (r, f', env3) \<Rightarrow> Inr (-1, s\<lparr>vt_file := Some f', vt_env := env3\<rparr>))
     else (case prep_loop fsize chunk_size once (vt_pattern s) 0 env2 f of
         Inl e \<Rightarrow> Inl e
       | Inr (ret, f', env3) \<Rightarrow> Inr (ret, s\<lparr>vt_file := Some f', vt_env := env3\<rparr>)))"

text \<open>\<open>truncate\<close>, which fails when the file is not there.\<close>

definition vt_truncate :: "nat \<Rightarrow> vt_state \<Rightarrow> int \<times> vt_state" where
  "vt_truncate n s = (case (sys_call (vt_env s), vt_file s) of
     ((None, env'), Some f) \<Rightarrow> (0, s\<lparr>vt_file := Some (file_truncate n f), vt_env := env'\<rparr>)
   | ((_, env'), _) \<Rightarrow> (-1, s\<lparr>vt_env := env'\<rparr>))"

definition vt_file_truncate :: "nat \<Rightarrow> nat \<Rightarrow> vt_state \<Rightarrow> int \<times> vt_state" where
  "vt_file_truncate clustersize new_i_size s = (case vt_truncate new_i_size (s\<lparr>vt_last := vt_pattern s\<rparr>) of
     (ret, s1) \<Rightarrow> if ret \<noteq> 0 then (-1, s1) else
       let m = new_i_size mod clustersize in
       (0, if m \<noteq> 0
           then s1\<lparr>vt_last := patch m (replicate (clustersize - m) 0) (vt_last s1), vt_last_cluster := int (new_i_size div clustersize)\<rparr>
           else s1\<lparr>vt_last_cluster := int (new_i_size div clustersize) - 1\<rparr>))"

section \<open>Verifying\<close>

text \<open>
  A \<open>pread\<close> of a cluster into \<open>buf\<close>, which keeps what a short read does not reach, and whether the buffer
  is what is expected then.
\<close>

definition vt_compare :: "nat \<Rightarrow> content \<Rightarrow> byte list \<Rightarrow> nat \<Rightarrow> byte list \<Rightarrow> io_env \<Rightarrow> bool \<times> byte list \<times> io_env" where
  "vt_compare clustersize f expected i buf env = (case sys_pread env f clustersize (i * clustersize) of
     (Inl e, env') \<Rightarrow> (False, buf, env')
   | (Inr bs, env') \<Rightarrow> (patch 0 bs buf = expected, patch 0 bs buf, env'))"

fun vt_clusters :: "nat \<Rightarrow> content \<Rightarrow> byte list \<Rightarrow> nat list \<Rightarrow> byte list \<Rightarrow> io_env \<Rightarrow> bool \<times> byte list \<times> io_env" where
  "vt_clusters clustersize f pat [] buf env = (True, buf, env)"
| "vt_clusters clustersize f pat (i # is) buf env = (case vt_compare clustersize f pat i buf env of
     (ok, buf', env') \<Rightarrow> if \<not> ok then (False, buf', env') else vt_clusters clustersize f pat is buf' env')"

text \<open>\<open>verify_truncate\<close>: the clusters below \<open>last_cluster - 1\<close>, then twice the last one, with an \<open>fsync\<close> between.\<close>

definition vt_last_twice :: "nat \<Rightarrow> content \<Rightarrow> byte list \<Rightarrow> nat \<Rightarrow> byte list \<Rightarrow> io_env \<Rightarrow> int \<times> io_env" where
  "vt_last_twice clustersize f expected lst buf env = (case vt_compare clustersize f expected lst buf env of
     (ok, buf1, env1) \<Rightarrow> if \<not> ok then (-1, env1) else
       (case vt_compare clustersize f expected lst buf1 (snd (io_next env1)) of
          (ok, buf2, env2) \<Rightarrow> (if ok then 0 else -1, env2)))"

definition verify_truncate :: "nat \<Rightarrow> vt_state \<Rightarrow> int \<times> vt_state" where
  "verify_truncate clustersize s = (case (sys_call (vt_env s), vt_file s) of
     ((None, env), Some f) \<Rightarrow>
       if vt_last_cluster s < 0 then (0, s\<lparr>vt_env := env\<rparr>) else
       (case vt_clusters clustersize f (vt_pattern s) [0..<nat (vt_last_cluster s - 1)] (replicate clustersize 0) env of
          (ok, buf, env1) \<Rightarrow> if \<not> ok then (-1, s\<lparr>vt_env := env1\<rparr>) else
            (case vt_last_twice clustersize f (vt_last s) (nat (vt_last_cluster s)) buf env1 of
               (ret, env2) \<Rightarrow> (ret, s\<lparr>vt_env := env2\<rparr>)))
   | ((_, env), _) \<Rightarrow> (-1, s\<lparr>vt_env := env\<rparr>))"

section \<open>Running\<close>

definition vt_unlink :: "vt_state \<Rightarrow> int \<times> vt_state" where
  "vt_unlink s = (case (sys_call (vt_env s), vt_file s) of
     ((None, env), Some f) \<Rightarrow> (0, s\<lparr>vt_file := None, vt_env := env\<rparr>)
   | ((_, env), _) \<Rightarrow> (-1, s\<lparr>vt_env := env\<rparr>))"

definition vt_then :: "int \<times> vt_state \<Rightarrow> (vt_state \<Rightarrow> int \<times> vt_state) \<Rightarrow> int \<times> vt_state" where
  "vt_then r g = (case r of (ret, s) \<Rightarrow> if ret \<noteq> 0 then (ret, s) else g s)"

definition vt_run :: "nat \<Rightarrow> nat \<Rightarrow> vt_state \<Rightarrow> fault + int \<times> vt_state" where
  "vt_run clustersize clusters s = (let fsize = u64 (clusters * clustersize) in
     case get_rand_ull 0 fsize (vt_rng s) of
       Inl e \<Rightarrow> Inl e
     | Inr (new_size, rs) \<Rightarrow>
       (case prep_file_with_pattern fsize clustersize False (s\<lparr>vt_rng := rs\<rparr>) of
          Inl e \<Rightarrow> Inl e
        | Inr r \<Rightarrow> Inr (vt_then (vt_then (vt_then (vt_then r (vt_file_truncate clustersize new_size))
            (\<lambda>s. if new_size mod clustersize \<noteq> 0 then vt_truncate ((new_size div clustersize + 1) * clustersize) s else (0, s)))
            (verify_truncate clustersize)) vt_unlink)))"

fun vt_rounds :: "nat \<Rightarrow> nat \<Rightarrow> nat \<Rightarrow> vt_state \<Rightarrow> fault + int \<times> vt_state" where
  "vt_rounds clustersize clusters 0 s = Inr (0, s)"
| "vt_rounds clustersize clusters (Suc n) s = (case vt_run clustersize clusters s of
     Inl e \<Rightarrow> Inl e | Inr (ret, s') \<Rightarrow> if ret \<noteq> 0 then Inr (ret, s') else vt_rounds clustersize clusters n s')"

record vt_opts =
  vt_iter :: nat
  vt_clusters_opt :: nat
  vt_filename :: "string option"
  vt_device :: "string option"

fun vt_opt_loop :: "(char \<times> string) list \<Rightarrow> vt_opts \<Rightarrow> vt_opts option" where
  "vt_opt_loop [] opt = Some opt"
| "vt_opt_loop ((c, optarg) # cos) opt =
     (if c = CHR ''i'' then vt_opt_loop cos (opt\<lparr>vt_iter := nat (c_atol optarg mod 2 ^ 64)\<rparr>)
      else if c = CHR ''f'' then vt_opt_loop cos (opt\<lparr>vt_filename := Some optarg\<rparr>)
      else if c = CHR ''c'' then vt_opt_loop cos (opt\<lparr>vt_clusters_opt := nat (c_atol optarg mod 2 ^ 64)\<rparr>)
      else if c = CHR ''d'' then vt_opt_loop cos (opt\<lparr>vt_device := Some optarg\<rparr>)
      else None)"

definition vt_parse_opts :: "(char \<times> string) list \<Rightarrow> vt_opts option" where
  "vt_parse_opts cos = (case vt_opt_loop cos \<lparr>vt_iter = 1, vt_clusters_opt = 100, vt_filename = None, vt_device = None\<rparr> of
     None \<Rightarrow> None
   | Some opt \<Rightarrow> if vt_device opt = None \<or> vt_filename opt = None then None else Some opt)"

text \<open>\<open>setup\<close> and \<open>main\<close>; \<open>vol\<close> is what \<open>open_ocfs2_volume\<close> returns for the device, \<open>f\<close> the file that is there.\<close>

definition vt_main :: "(char \<times> string) list \<Rightarrow> (string \<Rightarrow> int + nat) \<Rightarrow> nat stream \<Rightarrow> io_env \<Rightarrow> content option \<Rightarrow> fault + int" where
  "vt_main cos vol rng env f = (case vt_parse_opts cos of
     None \<Rightarrow> Inr (-1)
   | Some opt \<Rightarrow> (case vol (the (vt_device opt)) of
        Inl ret \<Rightarrow> Inr ret
      | Inr clustersize \<Rightarrow> (case get_rand_buf clustersize rng of
           Inl e \<Rightarrow> Inl e
         | Inr (pat, rs) \<Rightarrow> (case vt_rounds clustersize (vt_clusters_opt opt) (vt_iter opt)
               \<lparr>vt_pattern = pat, vt_last = pat, vt_last_cluster = 0, vt_file = f, vt_rng = rs, vt_env = env\<rparr> of
              Inl e \<Rightarrow> Inl e | Inr (ret, s) \<Rightarrow> Inr ret))))"

section \<open>Random values are in range\<close>

lemma get_rand_ull_ok:
  assumes "mx < 2 ^ 64 - 1"
  shows "\<exists>v rs'. get_rand_ull 0 mx rs = Inr (v, rs') \<and> v \<le> mx"
proof (cases "mx = 0")
  case False
  let ?r = "unat (big_rand (rs !! 0) (rs !! 1) (rs !! 2))"
  have m: "u64 (sub64 mx 0 + 1) = mx + 1" using assms by (simp add: width)
  have "?r mod (mx + 1) \<le> mx" using mod_less_divisor [of "mx + 1" ?r] by simp
  then have "u64 (?r mod (mx + 1)) \<le> mx" using u64_le order_trans by blast
  with False m assms show ?thesis by (simp add: get_rand_ull_def Let_def del: snth.simps)
qed (simp add: get_rand_ull_def)

lemma get_rand_buf_ok: "\<exists>cs rs'. get_rand_buf n rs = Inr (cs, rs') \<and> length cs = n"
proof (induction n arbitrary: rs)
  case (Suc n)
  obtain v rs1 where "get_rand_ull 0 25 rs = Inr (v, rs1)" using get_rand_ull_ok [of 25 rs] by auto
  with Suc [of rs1] show ?case by auto
qed simp

section \<open>What the verification accepts\<close>

definition cluster :: "nat \<Rightarrow> content \<Rightarrow> nat \<Rightarrow> byte list" where
  "cluster clustersize f i = take clustersize (drop (i * clustersize) f)"

text \<open>A buffer after a read that reached \<open>bs\<close>.\<close>

lemma vt_compare_ideal:
  "vt_compare cs f p i buf [] = (patch 0 (cluster cs f i) buf = p, patch 0 (cluster cs f i) buf, [])"
  by (simp add: vt_compare_def cluster_def)

lemma patch_full: "length bs = length buf \<Longrightarrow> patch 0 bs buf = bs"
  by (simp add: patch_def)

lemma patch_0_Nil [simp]: "patch 0 [] buf = buf"
  by (simp add: patch_def)

lemma length_cluster: "(i + 1) * cs \<le> length f \<Longrightarrow> length (cluster cs f i) = cs"
  by (simp add: cluster_def algebra_simps)

lemma vt_clusters_full:
  assumes "length buf = cs" "\<forall>i \<in> set is. (i + 1) * cs \<le> length f" "length p = cs"
  shows "\<exists>buf'. vt_clusters cs f p is buf [] = (\<forall>i \<in> set is. cluster cs f i = p, buf', []) \<and> length buf' = cs"
  using assms
proof (induction "is" arbitrary: buf)
  case (Cons i "is")
  have l: "length (cluster cs f i) = cs" using Cons.prems(2) by (intro length_cluster) simp
  then have "vt_compare cs f p i buf [] = (cluster cs f i = p, cluster cs f i, [])"
    using Cons.prems(1) by (simp add: vt_compare_ideal patch_full)
  with Cons.IH [OF l] Cons.prems(2,3) l show ?case by auto
qed simp

text \<open>Behind the end of the file the buffer keeps what it held.\<close>

lemma vt_clusters_beyond:
  "\<forall>i \<in> set is. length f \<le> i * cs \<Longrightarrow> vt_clusters cs f p is p [] = (True, p, [])"
  by (induction "is") (simp_all add: vt_compare_ideal cluster_def)

lemma vt_last_twice_full:
  assumes "length buf = cs" "(lst + 1) * cs \<le> length f"
  shows "vt_last_twice cs f p lst buf [] = (if cluster cs f lst = p then 0 else -1, [])"
  using assms length_cluster [OF assms(2)] by (simp add: vt_last_twice_def vt_compare_ideal patch_full)

lemma verify_truncate_full:
  assumes "vt_env s = []" "vt_file s = Some f" "0 \<le> vt_last_cluster s" "(nat (vt_last_cluster s) + 1) * cs \<le> length f"
    "length (vt_pattern s) = cs"
  shows "verify_truncate cs s = (if (\<forall>i < nat (vt_last_cluster s - 1). cluster cs f i = vt_pattern s)
      \<and> cluster cs f (nat (vt_last_cluster s)) = vt_last s then 0 else -1, s)"
proof -
  let ?is = "[0..<nat (vt_last_cluster s - 1)]"
  have "(i + 1) * cs \<le> length f" if "i \<in> set ?is" for i
  proof -
    have "i + 1 \<le> nat (vt_last_cluster s) + 1" using that by auto
    then show ?thesis using assms(4) by (meson mult_le_mono1 order_trans)
  qed
  then obtain buf where "vt_clusters cs f (vt_pattern s) ?is (replicate cs 0) [] = (\<forall>i \<in> set ?is. cluster cs f i = vt_pattern s, buf, [])"
      and v: "length buf = cs"
    using vt_clusters_full [of "replicate cs 0" cs ?is f "vt_pattern s"] assms(5) by auto
  then have c: "vt_clusters cs f (vt_pattern s) ?is (replicate cs 0) []
      = (\<forall>i < nat (vt_last_cluster s - 1). cluster cs f i = vt_pattern s, buf, [])"
    by (simp add: atLeast0LessThan Ball_def)
  have "s\<lparr>vt_env := []\<rparr> = s" using assms(1) by simp
  with c vt_last_twice_full [OF v assms(4), of "vt_last s"] assms(1-3) show ?thesis by (simp add: verify_truncate_def)
qed

text \<open>
  C8. What \<open>verify_truncate\<close> accepts when no call fails. On a file that is long enough: the clusters
  before the last but one are the pattern and the last one is as the truncation left it; the last but
  one may hold anything. The length is not checked, and a buffer keeps what a read behind the end
  does not reach: a file of a single cluster is accepted for any number of clusters from three on when
  the truncation was at a cluster's end.
\<close>

theorem verify_truncate_decides:
  assumes "vt_env s = []" "vt_file s = Some f" "length (vt_pattern s) = clustersize" "0 < clustersize"
  shows "(0 \<le> vt_last_cluster s \<and> (nat (vt_last_cluster s) + 1) * clustersize \<le> length f \<longrightarrow>
      (fst (verify_truncate clustersize s) = 0 \<longleftrightarrow> (\<forall>i < nat (vt_last_cluster s - 1). cluster clustersize f i = vt_pattern s)
         \<and> cluster clustersize f (nat (vt_last_cluster s)) = vt_last s))
    \<and> (2 \<le> vt_last_cluster s \<and> f = vt_pattern s \<and> vt_last s = vt_pattern s \<longrightarrow> verify_truncate clustersize s = (0, s))"
proof (intro conjI impI)
  assume "0 \<le> vt_last_cluster s \<and> (nat (vt_last_cluster s) + 1) * clustersize \<le> length f"
  then show "fst (verify_truncate clustersize s) = 0 \<longleftrightarrow> (\<forall>i < nat (vt_last_cluster s - 1). cluster clustersize f i = vt_pattern s)
      \<and> cluster clustersize f (nat (vt_last_cluster s)) = vt_last s"
    using verify_truncate_full [OF assms(1,2) _ _ assms(3)] by simp
next
  assume f: "2 \<le> vt_last_cluster s \<and> f = vt_pattern s \<and> vt_last s = vt_pattern s"
  let ?p = "vt_pattern s"
  have "[0..<nat (vt_last_cluster s - 1)] = 0 # [1..<nat (vt_last_cluster s - 1)]" using f by (simp add: upt_conv_Cons)
  moreover have "vt_compare clustersize f ?p 0 (replicate clustersize 0) [] = (True, ?p, [])"
    using f assms(3) by (simp add: vt_compare_ideal cluster_def patch_full)
  moreover have "vt_clusters clustersize f ?p [1..<nat (vt_last_cluster s - 1)] ?p [] = (True, ?p, [])"
    using f assms(3) by (intro vt_clusters_beyond) auto
  moreover have "cluster clustersize f (nat (vt_last_cluster s)) = []"
  proof -
    have "1 * clustersize \<le> nat (vt_last_cluster s) * clustersize" using f by (intro mult_le_mono1) linarith
    then show ?thesis using f assms(3) by (simp add: cluster_def)
  qed
  then have "vt_last_twice clustersize f ?p (nat (vt_last_cluster s)) ?p [] = (0, [])"
    by (simp add: vt_last_twice_def vt_compare_ideal)
  moreover have "s\<lparr>vt_env := []\<rparr> = s" using assms(1) by simp
  ultimately show "verify_truncate clustersize s = (0, s)" using f assms(1,2) by (simp add: verify_truncate_def)
qed

theorem verify_truncate_decides_witness:
  "verify_truncate 2 \<lparr>vt_pattern = [65, 66], vt_last = [65, 66], vt_last_cluster = 9, vt_file = Some [65, 66], vt_rng = sconst 0,
     vt_env = []\<rparr> = (0, \<lparr>vt_pattern = [65, 66], vt_last = [65, 66], vt_last_cluster = 9, vt_file = Some [65, 66],
     vt_rng = sconst 0, vt_env = []\<rparr>)"
  using verify_truncate_decides [of "\<lparr>vt_pattern = [65, 66], vt_last = [65, 66], vt_last_cluster = 9, vt_file = Some [65, 66],
     vt_rng = sconst 0, vt_env = []\<rparr>" "[65, 66]" 2] by simp

section \<open>The test passes\<close>

lemma clusterI:
  assumes "(i + 1) * cs \<le> length g" "length q = cs" "\<And>k. k < cs \<Longrightarrow> g ! (i * cs + k) = q ! k"
  shows "cluster cs g i = q"
proof (rule nth_equalityI)
  show l: "length (cluster cs g i) = length q" using length_cluster [OF assms(1)] assms(2) by simp
  show "cluster cs g i ! k = q ! k" if "k < length (cluster cs g i)" for k
    using that l assms by (simp add: cluster_def algebra_simps)
qed

text \<open>The file is filled with the pattern up to its size.\<close>

definition filled :: "nat \<Rightarrow> byte list \<Rightarrow> nat \<Rightarrow> content \<Rightarrow> bool" where
  "filled cs p n f \<longleftrightarrow> n \<le> length f \<and> (\<forall>i < n. f ! i = p ! (i mod cs))"

lemma filled_write:
  assumes "filled cs p off f" "cs dvd off" "length p = cs" "0 < cs"
  shows "filled cs p (off + cs) (file_write off p f)"
  unfolding filled_def
proof (intro conjI allI impI)
  have p: "p \<noteq> []" using assms(3,4) by auto
  then show len: "off + cs \<le> length (file_write off p f)" using assms(3) by (simp add: length_file_write)
  fix i assume i: "i < off + cs"
  show "file_write off p f ! i = p ! (i mod cs)"
  proof (cases "off \<le> i")
    case True
    obtain q where "off = cs * q" using assms(2) by blast
    then have "i = (i - off) + cs * q" using True by simp
    then have "i mod cs = (i - off) mod cs" by (metis mod_mult_self2)
    then have "i mod cs = i - off" using i True by simp
    then show ?thesis using True i len assms(3) by (simp add: nth_file_write)
  next
    case False
    then show ?thesis using assms(1) len by (simp add: nth_file_write filled_def file_byte_def)
  qed
qed

lemma prep_loop_fills:
  assumes "0 < cs" "cs dvd fsize" "length p = cs"
  shows "cs dvd off \<Longrightarrow> off \<le> fsize \<Longrightarrow> filled cs p off f \<Longrightarrow> \<exists>f'. prep_loop fsize cs once p off [] f = Inr (0, f', []) \<and> filled cs p fsize f'"
proof (induction "fsize - off" arbitrary: off f rule: less_induct)
  case less
  show ?case
  proof (cases "off < fsize")
    case False
    then show ?thesis using less.prems by (simp add: prep_loop.simps)
  next
    case True
    have "cs \<le> fsize - off" using True assms(2) less.prems(1) by (simp add: dvd_imp_le)
    then have fits: "off + cs \<le> fsize" using True by simp
    have "\<exists>f'. prep_loop fsize cs once p (off + cs) [] (file_write off p f) = Inr (0, f', []) \<and> filled cs p fsize f'"
      by (rule less.hyps) (use True assms less.prems fits filled_write in auto)
    then show ?thesis using True fits assms(1,3) by (subst prep_loop.simps) (cases once; simp)
  qed
qed

lemma prep_fills:
  assumes "vt_env s = []" "0 < cs" "cs dvd fsize" "length (vt_pattern s) = cs"
  shows "\<exists>f. prep_file_with_pattern fsize cs once s = Inr (0, s\<lparr>vt_file := Some f, vt_env := []\<rparr>) \<and> filled cs (vt_pattern s) fsize f"
  using prep_loop_fills [OF assms(2-4), of 0 "case vt_file s of None \<Rightarrow> [] | Some f \<Rightarrow> f" once] assms(1)
  by (auto simp: prep_file_with_pattern_def filled_def Let_def)

text \<open>A truncated file, extended to a whole cluster, is accepted.\<close>

lemma filled_cluster:
  assumes "filled cs p n g" "(i + 1) * cs \<le> n" "length p = cs"
  shows "cluster cs g i = p"
proof (rule clusterI)
  show "(i + 1) * cs \<le> length g" using assms(1,2) by (simp add: filled_def)
  show "g ! (i * cs + k) = p ! k" if "k < cs" for k
  proof -
    have "i * cs + k < n" using that assms(2) by (simp add: algebra_simps)
    then show ?thesis using assms(1) that by (simp add: filled_def)
  qed
qed (rule assms(3))

lemma verified:
  assumes "vt_env s = []" "vt_file s = Some g" "length (vt_pattern s) = cs" "length g = (L + 1) * cs" "vt_last_cluster s = int L"
    "filled cs (vt_pattern s) (L * cs) g" "cluster cs g L = vt_last s"
  shows "verify_truncate cs s = (0, s)"
proof -
  have "cluster cs g i = vt_pattern s" if "i < nat (vt_last_cluster s - 1)" for i
  proof (rule filled_cluster [OF assms(6) _ assms(3)])
    have "i + 1 \<le> L" using that assms(5) by simp
    then show "(i + 1) * cs \<le> L * cs" by (rule mult_le_mono1)
  qed
  with verify_truncate_full [OF assms(1,2) _ _ assms(3)] assms(4,5,7) show ?thesis by simp
qed

lemma filled_take: "filled cs p n f \<Longrightarrow> m \<le> n \<Longrightarrow> filled cs p m (take m f @ zs)"
  by (simp add: filled_def nth_append)

lemma filled_mono: "filled cs p n f \<Longrightarrow> m \<le> n \<Longrightarrow> filled cs p m f"
  by (simp add: filled_def)

lemma vt_truncate_ideal: "vt_env s = [] \<Longrightarrow> vt_file s = Some f \<Longrightarrow> vt_truncate n s = (0, s\<lparr>vt_file := Some (file_truncate n f)\<rparr>)"
  by (cases s) (simp add: vt_truncate_def)

lemma vt_file_truncate_ideal:
  assumes "vt_env s = []" "vt_file s = Some f"
  shows "vt_file_truncate cs n s = (0, s\<lparr>vt_file := Some (file_truncate n f),
    vt_last := if n mod cs \<noteq> 0 then patch (n mod cs) (replicate (cs - n mod cs) 0) (vt_pattern s) else vt_pattern s,
    vt_last_cluster := int (n div cs) - (if n mod cs \<noteq> 0 then 0 else 1)\<rparr>)"
  using assms vt_truncate_ideal [of "s\<lparr>vt_last := vt_pattern s\<rparr>" f n] by (cases s) (simp add: vt_file_truncate_def Let_def)

lemma vt_unlink_ideal: "vt_env s = [] \<Longrightarrow> vt_file s = Some f \<Longrightarrow> vt_unlink s = (0, s\<lparr>vt_file := None\<rparr>)"
  by (cases s) (simp add: vt_unlink_def)

lemma truncate_verifies:
  assumes "vt_env s = []" "vt_file s = Some f" "length (vt_pattern s) = cs" "0 < cs" "filled cs (vt_pattern s) n f" "new \<le> n"
  shows "\<exists>s'. vt_then (vt_then (vt_then (vt_file_truncate cs new s)
      (\<lambda>s. if new mod cs \<noteq> 0 then vt_truncate ((new div cs + 1) * cs) s else (0, s))) (verify_truncate cs)) vt_unlink = (0, s')
    \<and> vt_env s' = [] \<and> vt_pattern s' = vt_pattern s \<and> vt_file s' = None"
proof -
  let ?p = "vt_pattern s" and ?m = "new mod cs" and ?L = "new div cs"
  have new: "new = ?L * cs + ?m" "?m < cs" using assms(4) by simp_all
  have len: "length (take new f) = new" "file_truncate new f = take new f" using assms(5,6) by (simp_all add: filled_def file_truncate_def)
  consider "?m \<noteq> 0" | "?m = 0" "new = 0" | "?m = 0" "0 < ?L" using new by fastforce
  then show ?thesis
  proof cases
    case 1
    let ?g = "take new f @ replicate ((?L + 1) * cs - new) 0" and ?last = "patch ?m (replicate (cs - ?m) 0) ?p"
    let ?s = "s\<lparr>vt_last := ?last, vt_last_cluster := int ?L, vt_file := Some ?g\<rparr>"
    have ge: "new \<le> (?L + 1) * cs" unfolding distrib_right using new by linarith
    have "verify_truncate cs ?s = (0, ?s)"
    proof (rule verified)
      show "length ?g = (?L + 1) * cs" using len ge by simp
      show "filled cs (vt_pattern ?s) (?L * cs) ?g" using filled_mono [OF filled_take [OF assms(5,6)]] by simp
      show "cluster cs ?g ?L = vt_last ?s"
      proof (rule clusterI)
        show "(?L + 1) * cs \<le> length ?g" using len ge by simp
        show "length (vt_last ?s) = cs" using assms(3) new(2) by (simp add: length_patch)
        fix k assume k: "k < cs"
        have at: "?L * cs + k < new \<longleftrightarrow> k < ?m" using new(1) by linarith
        have "?L * cs + k < (?L + 1) * cs" using k by simp
        then have "?g ! (?L * cs + k) = (if k < ?m then f ! (?L * cs + k) else 0)" using len(1) at by (auto simp: nth_append)
        moreover have "f ! (?L * cs + k) = ?p ! k" if "k < ?m"
        proof -
          have "?L * cs + k < n" using at that assms(6) by linarith
          then show ?thesis using k assms(5) by (simp add: filled_def)
        qed
        ultimately show "?g ! (?L * cs + k) = vt_last ?s ! k" using k assms(3) new(2) by (simp add: nth_patch)
      qed
    qed (use assms in simp_all)
    moreover have "vt_file_truncate cs new s = (0, s\<lparr>vt_file := Some (take new f), vt_last := ?last, vt_last_cluster := int ?L\<rparr>)"
      using vt_file_truncate_ideal [OF assms(1,2), of cs new] 1 len(2) by simp
    moreover have "file_truncate ((?L + 1) * cs) (take new f) = ?g" using len(1) ge by (simp add: file_truncate_def)
    then have "vt_truncate ((?L + 1) * cs) (s\<lparr>vt_file := Some (take new f), vt_last := ?last, vt_last_cluster := int ?L\<rparr>) = (0, ?s)"
      using vt_truncate_ideal [of "s\<lparr>vt_file := Some (take new f), vt_last := ?last, vt_last_cluster := int ?L\<rparr>" "take new f" "(?L + 1) * cs"]
        assms(1) by simp
    moreover have "vt_unlink ?s = (0, ?s\<lparr>vt_file := None\<rparr>)" using assms(1) by (intro vt_unlink_ideal) simp_all
    ultimately show ?thesis using 1 assms(1) unfolding vt_then_def by simp
  next
    case 2
    let ?s = "s\<lparr>vt_file := Some [], vt_last := ?p, vt_last_cluster := -1\<rparr>"
    have "vt_file_truncate cs new s = (0, ?s)"
      using vt_file_truncate_ideal [OF assms(1,2), of cs new] 2 by (simp add: file_truncate_def)
    moreover have "verify_truncate cs ?s = (0, ?s)" using assms(1) by (cases s) (simp add: verify_truncate_def)
    moreover have "vt_unlink ?s = (0, ?s\<lparr>vt_file := None\<rparr>)" using assms(1) by (intro vt_unlink_ideal) simp_all
    ultimately show ?thesis using 2(1) assms(1) unfolding vt_then_def by simp
  next
    case 3
    then obtain L where L: "?L = Suc L" by (metis gr0_conv_Suc)
    then have nw: "(L + 1) * cs = new" using 3(1) new(1) by simp
    let ?g = "take new f" and ?s = "s\<lparr>vt_file := Some (take new f), vt_last := ?p, vt_last_cluster := int L\<rparr>"
    have g: "filled cs ?p new ?g" using filled_take [OF assms(5,6), of "[]"] by simp
    have "verify_truncate cs ?s = (0, ?s)"
    proof (rule verified)
      show "length ?g = (L + 1) * cs" using len(1) nw by simp
      show "filled cs (vt_pattern ?s) (L * cs) ?g" using filled_mono [OF g, of "L * cs"] nw by simp
      show "cluster cs ?g L = vt_last ?s" using filled_cluster [OF g _ assms(3), of L] nw by simp
    qed (use assms in simp_all)
    moreover have "vt_file_truncate cs new s = (0, ?s)"
      using vt_file_truncate_ideal [OF assms(1,2), of cs new] 3(1) len(2) L by simp
    moreover have "vt_unlink ?s = (0, ?s\<lparr>vt_file := None\<rparr>)" using assms(1) by (intro vt_unlink_ideal) simp_all
    ultimately show ?thesis using 3(1) assms(1) unfolding vt_then_def by simp
  qed
qed

lemma vt_run_passes:
  assumes "vt_env s = []" "length (vt_pattern s) = cs" "0 < cs" "clusters * cs < 2 ^ 64 - 1"
  shows "\<exists>s'. vt_run cs clusters s = Inr (0, s') \<and> vt_env s' = [] \<and> vt_pattern s' = vt_pattern s \<and> vt_file s' = None"
proof -
  have u: "u64 (clusters * cs) = clusters * cs" using assms(4) by (simp add: width)
  obtain new rs where new: "get_rand_ull 0 (clusters * cs) (vt_rng s) = Inr (new, rs)" "new \<le> clusters * cs"
    using get_rand_ull_ok [OF assms(4)] by blast
  let ?s = "s\<lparr>vt_rng := rs\<rparr>"
  obtain f where f: "prep_file_with_pattern (clusters * cs) cs False ?s = Inr (0, ?s\<lparr>vt_file := Some f, vt_env := []\<rparr>)"
      "filled cs (vt_pattern ?s) (clusters * cs) f"
    using prep_fills [of ?s cs "clusters * cs" False] assms(1-3) by auto
  have "\<exists>s'. vt_then (vt_then (vt_then (vt_file_truncate cs new (?s\<lparr>vt_file := Some f, vt_env := []\<rparr>))
      (\<lambda>s. if new mod cs \<noteq> 0 then vt_truncate ((new div cs + 1) * cs) s else (0, s))) (verify_truncate cs)) vt_unlink = (0, s')
    \<and> vt_env s' = [] \<and> vt_pattern s' = vt_pattern (?s\<lparr>vt_file := Some f, vt_env := []\<rparr>) \<and> vt_file s' = None"
    by (rule truncate_verifies) (use assms(2,3) f(2) new(2) in simp_all)
  then show ?thesis using new(1) f(1) unfolding vt_run_def Let_def u by (simp add: vt_then_def [of "(0, _)"])
qed

text \<open>
  C6. \<open>verify_truncate\<close> passes on a file system that truncates as it should: with any options it
  accepts, any number of rounds and clusters, any random numbers and any file that was there before,
  \<open>main\<close> returns 0 when no call fails, without a fault.
\<close>

theorem truncate_test_passes:
  assumes "vt_parse_opts cos = Some opt" "vol (the (vt_device opt)) = Inr clustersize" "0 < clustersize"
    "vt_clusters_opt opt * clustersize < 2 ^ 64 - 1"
  shows "vt_main cos vol rng [] f = Inr 0"
proof -
  obtain pat rs where pat: "get_rand_buf clustersize rng = Inr (pat, rs)" "length pat = clustersize" using get_rand_buf_ok by blast
  have "\<exists>s'. vt_rounds clustersize (vt_clusters_opt opt) n s = Inr (0, s')"
    if "vt_env s = []" "vt_pattern s = pat" for n s
    using that
  proof (induction n arbitrary: s)
    case (Suc n)
    then obtain s1 where "vt_run clustersize (vt_clusters_opt opt) s = Inr (0, s1)" "vt_env s1 = []" "vt_pattern s1 = pat"
      using vt_run_passes [of s clustersize "vt_clusters_opt opt"] pat(2) assms(3,4) by auto
    with Suc.IH [of s1] show ?case by simp
  qed simp
  from this [of "\<lparr>vt_pattern = pat, vt_last = pat, vt_last_cluster = 0, vt_file = f, vt_rng = rs, vt_env = []\<rparr>" "vt_iter opt"]
  show ?thesis using assms(1,2) pat(1) by (auto simp: vt_main_def)
qed

theorem truncate_test_passes_witness:
  "vt_main [(CHR ''f'', ''x''), (CHR ''i'', ''3''), (CHR ''d'', ''/dev/sdb1'')] (\<lambda>_. Inr 4096) (sconst 5) [] None = Inr 0"
proof (rule truncate_test_passes [where clustersize = 4096])
  show "vt_parse_opts [(CHR ''f'', ''x''), (CHR ''i'', ''3''), (CHR ''d'', ''/dev/sdb1'')]
      = Some \<lparr>vt_iter = 3, vt_clusters_opt = 100, vt_filename = Some ''x'', vt_device = Some ''/dev/sdb1''\<rparr>"
    by code_simp
qed simp_all

end
