(* ===== verification/Extend_Write.thy ===== *)
theory Extend_Write
  imports Posix_File Transitions
begin

text \<open>
  \<open>programs/extend_and_write\<close>: \<open>extend_and_write.c\<close> lets two processes append blocks of \<open>A\<close> and blocks of \<open>B\<close> to
  one file, \<open>verify.c\<close> reads the file block by block and counts them. The two writers are a step relation;
  a step is a \<open>write\<close> on the descriptor they share, which is open for appending. The result of \<open>fsync\<close> is
  not looked at and it is left out.
\<close>

section \<open>Options\<close>

record ew_opts =
  ew_filename :: string
  ew_off_t :: int
  ew_loops :: int

definition ew_defaults :: ew_opts where
  "ew_defaults = \<lparr>ew_filename = ''/tmp/extend_and_write.txt'', ew_off_t = 1024, ew_loops = 10240\<rparr>"

text \<open>
  Both programs print \<open>2 * off_t * loops\<close>, computed as an \<open>int\<close>: from \<open>2 ^ 31\<close> on the product is undefined in C.
  Since neither option can be 0, \<open>2 * loops\<close>, which bounds the loop of \<open>verify\<close>, is an \<open>int\<close> as well where the product is.
\<close>

definition int_range :: "int \<Rightarrow> bool" where
  "int_range v \<longleftrightarrow> - (2 ^ 31) \<le> v \<and> v < 2 ^ 31"

definition ew_bytes_ok :: "ew_opts \<Rightarrow> bool" where
  "ew_bytes_ok opt \<longleftrightarrow> int_range (2 * ew_off_t opt) \<and> int_range (2 * ew_off_t opt * ew_loops opt)"

text \<open>Both programs have the same loop. \<open>Inl\<close>: the exit status, 1 from \<open>Usage\<close> or \<open>-EINVAL\<close>.\<close>

definition ew_opt_step :: "char \<times> string \<Rightarrow> ew_opts \<Rightarrow> int + ew_opts" where
  "ew_opt_step co opt = (case co of (c, optarg) \<Rightarrow>
     if c = CHR ''-'' then Inl (if optarg = ''help'' then 1 else -22)
     else if c = CHR ''f'' then
       let filename = take 254 optarg in
       if filename \<noteq> [] \<and> hd filename = CHR ''-'' then Inl (-22) else Inr (opt\<lparr>ew_filename := filename\<rparr>)
     else if c = CHR ''n'' then if c_atoi optarg = 0 then Inl (-22) else Inr (opt\<lparr>ew_loops := c_atoi optarg\<rparr>)
     else if c = CHR ''s'' then if c_atoi optarg = 0 then Inl (-22) else Inr (opt\<lparr>ew_off_t := c_atoi optarg\<rparr>)
     else Inl 1)"

fun ew_opt_loop :: "(char \<times> string) list \<Rightarrow> ew_opts \<Rightarrow> int + ew_opts" where
  "ew_opt_loop [] opt = Inr opt"
| "ew_opt_loop (co # cos) opt = (case ew_opt_step co opt of Inl r \<Rightarrow> Inl r | Inr opt' \<Rightarrow> ew_opt_loop cos opt')"

section \<open>The writers\<close>

text \<open>A writer in its loop, a parent that waits for the child, a process that has returned \<open>status\<close>.\<close>

datatype ew_proc = Wr nat | Waits | Left_with int

record ew_state =
  ew_file :: content
  ew_env :: io_env
  ew_parent :: ew_proc
  ew_child :: "ew_proc option"

text \<open>
  One turn of the loop; \<open>fin\<close> is what comes after it. A failed call returns -1, a short write 0.
\<close>

definition ew_turn :: "nat \<Rightarrow> int \<Rightarrow> byte \<Rightarrow> ew_proc \<Rightarrow> nat \<Rightarrow> io_env \<Rightarrow> content \<Rightarrow> ew_proc \<times> content \<times> io_env" where
  "ew_turn off loops ch fin i env f = (if \<not> int i < loops then (fin, f, env) else
     case sys_pwrite env f (replicate off ch) (length f) of
       (Inl e, f', env') \<Rightarrow> (Left_with (-1), f', env')
     | (Inr n, f', env') \<Rightarrow> (if n \<noteq> off then Left_with 0 else Wr (Suc i), f', env'))"

text \<open>The variable \<open>status\<close> after the loop: what the last \<open>write\<close> returned.\<close>

definition ew_status :: "nat \<Rightarrow> int \<Rightarrow> int" where
  "ew_status off loops = (if 0 < loops then int off else 0)"

inductive ew_step :: "nat \<Rightarrow> int \<Rightarrow> ew_state \<Rightarrow> ew_state \<Rightarrow> bool" for off loops where
  parent: "ew_parent s = Wr i \<Longrightarrow> ew_turn off loops 65 Waits i (ew_env s) (ew_file s) = (p, f, env) \<Longrightarrow>
    ew_step off loops s (s\<lparr>ew_parent := p, ew_file := f, ew_env := env\<rparr>)"
| child: "ew_child s = Some (Wr i) \<Longrightarrow>
    ew_turn off loops 66 (Left_with (ew_status off loops)) i (ew_env s) (ew_file s) = (p, f, env) \<Longrightarrow>
    ew_step off loops s (s\<lparr>ew_child := Some p, ew_file := f, ew_env := env\<rparr>)"
| wait: "ew_parent s = Waits \<Longrightarrow> (\<forall>i. ew_child s \<noteq> Some (Wr i)) \<Longrightarrow>
    ew_step off loops s (s\<lparr>ew_parent := Left_with (ew_status off loops)\<rparr>)"

text \<open>
  \<open>main\<close> up to the fork: an exit status, or the state the two go on from. A failed \<open>fork\<close> leaves a
  parent without a child. A negative size makes the array on the stack undefined, a size of the file
  that is no \<open>int\<close> the message about it.
\<close>

definition ew_main :: "nat \<Rightarrow> (char \<times> string) list \<Rightarrow> io_env \<Rightarrow> fault + (int + nat \<times> int \<times> ew_state)" where
  "ew_main argc cos env = (if argc = 1 then Inr (Inl 1) else
     case ew_opt_loop cos ew_defaults of
       Inl r \<Rightarrow> Inr (Inl r)
     | Inr opt \<Rightarrow> if ew_off_t opt < 0 then Inl Overrun else if \<not> ew_bytes_ok opt then Inl Int_overflow else
       (case sys_call env of
          (Some e, env1) \<Rightarrow> Inr (Inl (int e))
        | (None, env1) \<Rightarrow> (case sys_call env1 of
             (fork, env2) \<Rightarrow> Inr (Inr (nat (ew_off_t opt), ew_loops opt,
               \<lparr>ew_file = [], ew_env = env2, ew_parent = Wr 0, ew_child = (if fork = None then Some (Wr 0) else None)\<rparr>)))))"

section \<open>verify.c\<close>

definition checkbuff :: "byte list \<Rightarrow> byte \<Rightarrow> bool" where
  "checkbuff buffer c = (\<not> list_all (\<lambda>b. b = c) buffer)"

text \<open>
  The loop, with the number of turns left; \<open>None\<close> is a failure. The bound \<open>2*loops\<close> is an \<open>int\<close>: where it
  is not one the loop is undefined (\<open>Int_overflow\<close>).
\<close>

fun vf_loop :: "nat \<Rightarrow> nat \<Rightarrow> io_env \<Rightarrow> content \<Rightarrow> nat \<Rightarrow> nat \<Rightarrow> (nat \<times> nat) option" where
  "vf_loop 0 off env rest numas numbs = Some (numas, numbs)"
| "vf_loop (Suc n) off env rest numas numbs = (case sys_pread env rest off 0 of
     (Inl e, env') \<Rightarrow> None
   | (Inr buffer, env') \<Rightarrow>
       if length buffer \<noteq> off then None
       else if hd buffer \<noteq> 65 \<and> hd buffer \<noteq> 66 then None
       else if checkbuff buffer (hd buffer) then None
       else vf_loop n off env' (drop off rest) (if hd buffer = 65 then Suc numas else numas)
              (if hd buffer = 65 then numbs else Suc numbs))"

definition vf_check :: "nat \<Rightarrow> int \<Rightarrow> io_env \<Rightarrow> content \<Rightarrow> fault + int" where
  "vf_check off loops env f = (if \<not> int_range (2 * loops) then Inl Int_overflow else
     case vf_loop (nat (2 * loops)) off env f 0 0 of
       None \<Rightarrow> Inr 1
     | Some (numas, numbs) \<Rightarrow> Inr (if numas \<noteq> numbs \<or> int numas < loops \<or> int numbs < loops then 1 else 0))"

definition vf_main :: "nat \<Rightarrow> (char \<times> string) list \<Rightarrow> io_env \<Rightarrow> (string \<rightharpoonup> content) \<Rightarrow> fault + int" where
  "vf_main argc cos env vol = (if argc < 5 then Inr 1 else
     case ew_opt_loop cos ew_defaults of
       Inl r \<Rightarrow> Inr r
     | Inr opt \<Rightarrow> if ew_off_t opt < 0 then Inl Overrun else if \<not> ew_bytes_ok opt then Inl Int_overflow else
       (case (sys_call env, vol (ew_filename opt)) of
          ((None, env'), Some f) \<Rightarrow> vf_check (nat (ew_off_t opt)) (ew_loops opt) env' f
        | _ \<Rightarrow> Inr 1))"

section \<open>Blocks\<close>

text \<open>A file of blocks, by their letters, and what the verifier makes of one.\<close>

definition blocks :: "nat \<Rightarrow> byte list \<Rightarrow> content" where
  "blocks off bl = concat (map (replicate off) bl)"

definition tally :: "nat \<Rightarrow> nat \<Rightarrow> byte list \<Rightarrow> bool" where
  "tally a b bl \<longleftrightarrow> set bl \<subseteq> {65, 66} \<and> count_list bl 65 = a \<and> count_list bl 66 = b"

lemma blocks_simps [simp]: "blocks off [] = []" "blocks off (c # bl) = replicate off c @ blocks off bl"
  "blocks off (bl @ bl') = blocks off bl @ blocks off bl'"
  by (simp_all add: blocks_def)

lemma length_blocks: "length (blocks off bl) = off * length bl"
  by (induction bl) simp_all

lemma tally_length: "tally a b bl \<Longrightarrow> length bl = a + b"
  by (induction bl arbitrary: a b) (auto simp: tally_def split: if_splits)

lemma checkbuff_block [simp]: "\<not> checkbuff (replicate n c) c"
  by (simp add: checkbuff_def list_all_iff)

lemma block_unique: "0 < off \<Longrightarrow> length bs = off \<Longrightarrow> \<not> checkbuff bs (hd bs) \<Longrightarrow> bs = replicate off (hd bs)"
  by (simp add: checkbuff_def list_all_iff replicate_eqI)

lemma vf_loop_complete:
  "0 < off \<Longrightarrow> set bl \<subseteq> {65, 66} \<Longrightarrow> take (off * length bl) f = blocks off bl \<Longrightarrow>
   vf_loop (length bl) off [] f a b = Some (a + count_list bl 65, b + count_list bl 66)"
proof (induction bl arbitrary: f a b)
  case (Cons c bl)
  have "take off f = take off (take (off * length (c # bl)) f)" by (simp add: min_absorb1)
  also have "\<dots> = replicate off c" unfolding Cons.prems(3) by simp
  finally have first: "take off f = replicate off c" .
  have "take (off * length bl) (drop off f) = drop off (take (off * length (c # bl)) f)" by (simp add: drop_take)
  also have "\<dots> = blocks off bl" unfolding Cons.prems(3) by simp
  finally have "vf_loop (length bl) off [] (drop off f) a' b' = Some (a' + count_list bl 65, b' + count_list bl 66)" for a' b'
    using Cons.IH Cons.prems(1,2) by simp
  with first Cons.prems(1,2) show ?case by auto
qed simp

text \<open>Whatever the kernel answers, what the loop counts is there.\<close>

lemma vf_loop_sound:
  "0 < off \<Longrightarrow> vf_loop n off env f a b = Some (a', b') \<Longrightarrow>
   \<exists>bl. length bl = n \<and> set bl \<subseteq> {65, 66} \<and> take (off * n) f = blocks off bl \<and> a' = a + count_list bl 65 \<and> b' = b + count_list bl 66"
proof (induction n arbitrary: env f a b)
  case (Suc n)
  obtain bs env' where rd: "sys_pread env f off 0 = (Inr bs, env')" "length bs = off" "hd bs = 65 \<or> hd bs = 66" "\<not> checkbuff bs (hd bs)"
      and rest: "vf_loop n off env' (drop off f) (if hd bs = 65 then Suc a else a) (if hd bs = 65 then b else Suc b) = Some (a', b')"
    using Suc.prems(2) by (auto split: sum.splits prod.splits if_splits)
  have bs: "take off f = replicate off (hd bs)"
    using sys_pread_InrD(1) [OF rd(1)] rd(2) block_unique [OF Suc.prems(1) rd(2,4)] by simp
  obtain bl where bl: "length bl = n" "set bl \<subseteq> {65, 66}" "take (off * n) (drop off f) = blocks off bl"
      "a' = (if hd bs = 65 then Suc a else a) + count_list bl 65" "b' = (if hd bs = 65 then b else Suc b) + count_list bl 66"
    using Suc.IH [OF Suc.prems(1) rest] by blast
  have "take (off * Suc n) f = take off f @ take (off * n) (drop off f)" by (simp add: take_add)
  with bs bl rd(3) show ?case by (intro exI [of _ "hd bs # bl"]) auto
qed simp

text \<open>What the verifier decides.\<close>

lemma vf_check_exact:
  assumes "0 < off" "0 < loops" "2 * loops < 2 ^ 31"
  shows "vf_check off loops [] f = Inr 0 \<longleftrightarrow>
    (\<exists>bl. take (2 * nat loops * off) f = blocks off bl \<and> tally (nat loops) (nat loops) bl)"
proof
  assume "vf_check off loops [] f = Inr 0"
  then obtain n where n: "vf_loop (nat (2 * loops)) off [] f 0 0 = Some (n, n)" "loops \<le> int n"
    by (auto simp: vf_check_def split: option.splits if_splits)
  then obtain bl where bl: "length bl = nat (2 * loops)" "set bl \<subseteq> {65, 66}" "take (off * nat (2 * loops)) f = blocks off bl"
      "count_list bl 65 = n" "count_list bl 66 = n"
    using vf_loop_sound [OF assms(1) n(1)] by auto
  have t: "tally n n bl" using bl by (simp add: tally_def)
  moreover have "n = nat loops" using tally_length [OF t] bl(1) n(2) by linarith
  moreover have "off * nat (2 * loops) = 2 * nat loops * off" by (simp add: nat_mult_distrib)
  ultimately show "\<exists>bl. take (2 * nat loops * off) f = blocks off bl \<and> tally (nat loops) (nat loops) bl" using bl(3) by metis
next
  assume "\<exists>bl. take (2 * nat loops * off) f = blocks off bl \<and> tally (nat loops) (nat loops) bl"
  then obtain bl where bl: "take (2 * nat loops * off) f = blocks off bl" "tally (nat loops) (nat loops) bl" by blast
  have len: "length bl = nat (2 * loops)" using tally_length [OF bl(2)] assms(2) by simp
  have "2 * nat loops * off = off * length bl" using tally_length [OF bl(2)] by simp
  then have "take (off * length bl) f = blocks off bl" using bl(1) by metis
  with bl have "vf_loop (length bl) off [] f 0 0 = Some (nat loops, nat loops)"
    using vf_loop_complete [OF assms(1), of bl f 0 0] by (simp add: tally_def)
  with len assms(2) show "vf_check off loops [] f = Inr 0" using assms(3) by (simp add: vf_check_def int_range_def)
qed

section \<open>Runs of the writers\<close>

text \<open>
  Until a process has failed, the file consists of the blocks written so far; a process that has left
  with the size of its last write has written all of them.
\<close>

fun ew_written :: "int \<Rightarrow> ew_proc \<Rightarrow> nat" where
  "ew_written loops (Wr i) = i"
| "ew_written loops Waits = nat loops"
| "ew_written loops (Left_with r) = nat loops"

fun ew_failed :: "nat \<Rightarrow> ew_proc \<Rightarrow> bool" where
  "ew_failed off (Left_with r) = (r \<noteq> int off)"
| "ew_failed off p = False"

fun ew_in_loop :: "int \<Rightarrow> ew_proc \<Rightarrow> bool" where
  "ew_in_loop loops (Wr i) = (int i \<le> loops)"
| "ew_in_loop loops p = True"

definition ew_inv :: "nat \<Rightarrow> int \<Rightarrow> ew_state \<Rightarrow> bool" where
  "ew_inv off loops s \<longleftrightarrow> 0 < off \<and> 0 < loops \<and> (case ew_child s of None \<Rightarrow> True | Some c \<Rightarrow>
     ew_failed off (ew_parent s) \<or> ew_failed off c \<or> (ew_in_loop loops (ew_parent s) \<and> ew_in_loop loops c
       \<and> (\<exists>bl. ew_file s = blocks off bl \<and> tally (ew_written loops (ew_parent s)) (ew_written loops c) bl)))"

lemma ew_append: "file_write (length f) bs f = f @ bs"
  by (simp add: file_write_def patch_def)

lemma ew_turn_cases:
  assumes "ew_turn off loops ch fin i env f = (p, f', env')" "0 < off" "int i \<le> loops"
  obtains "p = fin" "f' = f" "int i = loops" | "ew_failed off p" | "p = Wr (Suc i)" "f' = f @ replicate off ch" "int (Suc i) \<le> loops"
proof (cases "int i < loops")
  case True
  obtain r g e' where w: "sys_pwrite env f (replicate off ch) (length f) = (r, g, e')" by (cases rule: prod_cases3)
  show ?thesis
  proof (cases "r = Inr off")
    case True
    then have "g = f @ replicate off ch" using w sys_pwrite_InrD(1) [of env f "replicate off ch" "length f" off g e'] by (simp add: ew_append)
    with True w assms(1) \<open>int i < loops\<close> show ?thesis by (intro that(3)) (auto simp: ew_turn_def)
  next
    case False
    with w assms(1,2) \<open>int i < loops\<close> show ?thesis by (intro that(2)) (auto simp: ew_turn_def split: sum.splits)
  qed
qed (use assms that in \<open>auto simp: ew_turn_def\<close>)

lemma tally_snoc: "tally a b bl \<Longrightarrow> tally (Suc a) b (bl @ [65])" "tally a b bl \<Longrightarrow> tally a (Suc b) (bl @ [66])"
  by (auto simp: tally_def)

lemma ew_inv_step:
  assumes "ew_step off loops s s'" "ew_inv off loops s"
  shows "ew_inv off loops s'"
proof (cases "ew_child s")
  case None
  with assms show ?thesis by (auto simp: ew_inv_def elim: ew_step.cases)
next
  case (Some c)
  have pos: "0 < off" "0 < loops" using assms(2) by (simp_all add: ew_inv_def)
  show ?thesis
  proof (cases "ew_failed off (ew_parent s) \<or> ew_failed off c")
    case True
    then show ?thesis using assms Some by (auto simp: ew_inv_def elim!: ew_step.cases)
  next
    case False
    then obtain bl where bl: "ew_file s = blocks off bl" "tally (ew_written loops (ew_parent s)) (ew_written loops c) bl"
        "ew_in_loop loops (ew_parent s)" "ew_in_loop loops c" using assms(2) Some by (auto simp: ew_inv_def)
    show ?thesis using assms(1)
    proof (cases rule: ew_step.cases)
      case (parent i p f env)
      have i: "int i \<le> loops" using bl(3) parent(2) by simp
      show ?thesis using parent(3) pos(1) i
      proof (cases rule: ew_turn_cases)
        case 3
        have "ew_file s @ replicate off 65 = blocks off (bl @ [65])" "tally (Suc i) (ew_written loops c) (bl @ [65])"
          using bl parent(2) by (simp_all add: tally_snoc)
        with 3 parent Some bl pos show ?thesis by (auto simp: ew_inv_def intro!: exI [of _ "bl @ [65]"])
      qed (use parent Some bl pos in \<open>auto simp: ew_inv_def\<close>)
    next
      case (child i p f env)
      have c: "c = Wr i" using child(2) Some by simp
      then have i: "int i \<le> loops" using bl(4) by simp
      show ?thesis using child(3) pos(1) i
      proof (cases rule: ew_turn_cases)
        case 3
        have "ew_file s @ replicate off 66 = blocks off (bl @ [66])" "tally (ew_written loops (ew_parent s)) (Suc i) (bl @ [66])"
          using bl c by (simp_all add: tally_snoc)
        with 3 child Some bl pos show ?thesis by (auto simp: ew_inv_def intro!: exI [of _ "bl @ [66]"])
      qed (use child Some c bl pos in \<open>auto simp: ew_inv_def ew_status_def\<close>)
    next
      case wait
      then show ?thesis using Some bl pos by (auto simp: ew_inv_def ew_status_def)
    qed
  qed
qed

interpretation ew: step_system "ew_step off loops" "ew_inv off loops" for off loops
  by unfold_locales (rule ew_inv_step)

text \<open>On a kernel that does not fail no process does; the child never waits.\<close>

definition ew_quiet :: "nat \<Rightarrow> int \<Rightarrow> ew_state \<Rightarrow> bool" where
  "ew_quiet off loops s \<longleftrightarrow> 0 < loops \<and> ew_env s = [] \<and> \<not> ew_failed off (ew_parent s)
     \<and> (\<exists>c. ew_child s = Some c \<and> \<not> ew_failed off c \<and> c \<noteq> Waits)"

lemma ew_turn_quiet:
  "ew_turn off loops ch fin i [] f = (p, f', env') \<Longrightarrow> env' = [] \<and> (p = fin \<or> p = Wr (Suc i))"
  by (auto simp: ew_turn_def split: if_splits)

interpretation ewq: step_system "ew_step off loops" "ew_quiet off loops" for off loops
proof unfold_locales
  show "ew_quiet off loops s'" if "ew_step off loops s s'" "ew_quiet off loops s" for s s'
    using that by (cases rule: ew_step.cases) (auto simp: ew_quiet_def ew_status_def dest!: ew_turn_quiet)
qed

text \<open>Every step uses up one of the turns that are left.\<close>

fun ew_left :: "int \<Rightarrow> ew_proc \<Rightarrow> nat" where
  "ew_left loops (Wr i) = nat (loops - int i) + 2"
| "ew_left loops Waits = 1"
| "ew_left loops (Left_with r) = 0"

definition ew_work :: "int \<Rightarrow> ew_state \<Rightarrow> nat" where
  "ew_work loops s = ew_left loops (ew_parent s) + (case ew_child s of None \<Rightarrow> 0 | Some c \<Rightarrow> ew_left loops c)"

lemma ew_turn_left:
  "ew_turn off loops ch fin i env f = (p, f', env') \<Longrightarrow> ew_left loops fin \<le> 1 \<Longrightarrow> ew_left loops p < ew_left loops (Wr i)"
  by (auto simp: ew_turn_def split: if_splits sum.splits prod.splits)

interpretation ewb: bounded_system "ew_step off loops" "\<lambda>_. True" "ew_work loops" for off loops
proof unfold_locales
  show "ew_work loops s' < ew_work loops s" if "ew_step off loops s s'" for s s'
    using that by (cases rule: ew_step.cases) (auto simp: ew_work_def dest!: ew_turn_left)
qed simp

lemma ew_stuck:
  assumes "ew_quiet off loops s" "\<nexists>s'. ew_step off loops s s'"
  shows "ew_parent s = Left_with (int off) \<and> ew_child s = Some (Left_with (int off))"
proof -
  obtain c where c: "ew_child s = Some c" "\<not> ew_failed off c" "c \<noteq> Waits" "\<not> ew_failed off (ew_parent s)"
    using assms(1) by (auto simp: ew_quiet_def)
  have "ew_parent s \<noteq> Wr i" for i using assms(2) ew_step.parent [of s i off loops] by (metis prod_cases3)
  moreover have child: "c \<noteq> Wr i" for i using assms(2) ew_step.child [of s i off loops] c(1) by (metis prod_cases3)
  moreover have "ew_parent s \<noteq> Waits" using assms(2) ew_step.wait [of s off loops] c(1) child by auto
  ultimately show ?thesis using c by (cases "ew_parent s"; cases c) auto
qed

lemma ew_opt_step_size: "ew_opt_step co opt = Inr opt' \<Longrightarrow> ew_off_t opt \<noteq> 0 \<Longrightarrow> ew_off_t opt' \<noteq> 0"
  by (auto simp: ew_opt_step_def Let_def split: prod.splits if_splits)

lemma ew_opt_loop_size: "ew_opt_loop cos opt = Inr opt' \<Longrightarrow> ew_off_t opt \<noteq> 0 \<Longrightarrow> ew_off_t opt' \<noteq> 0"
proof (induction cos arbitrary: opt)
  case (Cons co cos)
  then obtain o1 where o1: "ew_opt_step co opt = Inr o1" "ew_opt_loop cos o1 = Inr opt'" by (auto split: sum.splits)
  with Cons.IH [OF o1(2)] ew_opt_step_size [OF o1(1) Cons.prems(2)] show ?case by simp
qed simp

lemma ew_main_start:
  assumes "ew_main argc cos env = Inr (Inr (off, loops, s))" "ew_opt_loop cos ew_defaults = Inr opt" "0 < ew_loops opt"
  shows "off = nat (ew_off_t opt)" "loops = ew_loops opt" "0 < off" "0 \<le> ew_off_t opt" "ew_inv off loops s"
    "env = [] \<Longrightarrow> ew_quiet off loops s" "ew_bytes_ok opt"
proof -
  have "ew_off_t opt \<noteq> 0" using ew_opt_loop_size [OF assms(2)] by (simp add: ew_defaults_def)
  then show "off = nat (ew_off_t opt)" "loops = ew_loops opt" "0 < off" "0 \<le> ew_off_t opt" "ew_inv off loops s"
      "env = [] \<Longrightarrow> ew_quiet off loops s" "ew_bytes_ok opt"
    using assms by (auto simp: ew_main_def ew_inv_def ew_quiet_def split: if_splits prod.splits option.splits
        intro!: exI [of _ "[]"]) (auto simp: tally_def)
qed

text \<open>The size of the file and the number of blocks within the range of an \<open>int\<close>.\<close>

lemma ew_bytes_okD:
  assumes "ew_bytes_ok opt" "0 < ew_off_t opt" "0 < ew_loops opt"
  shows "2 * ew_loops opt < 2 ^ 31" "2 * nat (ew_off_t opt) * nat (ew_loops opt) < 2 ^ 31"
proof -
  have sz: "2 * ew_off_t opt * ew_loops opt < 2 ^ 31" using assms(1) by (simp add: ew_bytes_ok_def int_range_def)
  have "2 * ew_loops opt \<le> 2 * ew_loops opt * ew_off_t opt"
    using mult_left_mono [of 1 "ew_off_t opt" "2 * ew_loops opt"] assms(2,3) by simp
  with sz show "2 * ew_loops opt < 2 ^ 31" by (simp add: mult.commute mult.left_commute)
  have "int (2 * nat (ew_off_t opt) * nat (ew_loops opt)) < int (2 ^ 31)" using sz assms(2,3) by simp
  then show "2 * nat (ew_off_t opt) * nat (ew_loops opt) < 2 ^ 31" by (simp only: of_nat_less_iff)
qed

text \<open>
  C31. For options whose size of the file, \<open>2 * off_t * loops\<close> bytes, is an \<open>int\<close> (both programs compute it
  as one; beyond, they are undefined and a run is a fault of the model), every interleaving of the two
  writers leaves a file the verifier accepts: when parent and child have left with the size of their
  last write, the file has that size and \<open>verify\<close> run with the same options returns 0. On a
  kernel on which no call fails every run ends, after at most \<open>2 * numwrites + 4\<close> steps, and ends so.
\<close>

theorem extend_and_write_verifies:
  assumes "ew_main argc cos env = Inr (Inr (off, loops, s0))" "ew_opt_loop cos ew_defaults = Inr opt" "0 < ew_loops opt"
    "(ew_step off loops ^^ k) s0 s" "5 \<le> argc" "vol (ew_filename opt) = Some (ew_file s)"
  shows "(ew_parent s = Left_with (int off) \<and> ew_child s = Some (Left_with (int off)) \<longrightarrow>
      length (ew_file s) = 2 * off * nat loops \<and> vf_main argc cos [] vol = Inr 0)
    \<and> 2 * off * nat loops < 2 ^ 31
    \<and> k \<le> 2 * nat loops + 4
    \<and> (env = [] \<and> (\<nexists>s'. ew_step off loops s s') \<longrightarrow> ew_parent s = Left_with (int off) \<and> ew_child s = Some (Left_with (int off)))"
proof (intro conjI impI)
  note start = ew_main_start [OF assms(1-3)]
  have range: "2 * loops < 2 ^ 31" using ew_bytes_okD(1) [OF start(7) _ assms(3)] start(1,2,3) by simp
  have inv: "ew_inv off loops s" using ew.runs_inv [OF assms(4) start(5)] .
  assume left: "ew_parent s = Left_with (int off) \<and> ew_child s = Some (Left_with (int off))"
  then obtain bl where bl: "ew_file s = blocks off bl" "tally (nat loops) (nat loops) bl" using inv by (auto simp: ew_inv_def)
  show len: "length (ew_file s) = 2 * off * nat loops" using bl tally_length [OF bl(2)] by (simp add: length_blocks)
  then have "vf_check off loops [] (ew_file s) = Inr 0"
    using vf_check_exact [of off loops "ew_file s"] range bl start(2,3) assms(3) by (auto simp: mult.commute mult.left_commute)
  then show "vf_main argc cos [] vol = Inr 0" using assms(2,5,6) start(1,2,4,7) by (simp add: vf_main_def)
next
  note start = ew_main_start [OF assms(1-3)]
  show "2 * off * nat loops < 2 ^ 31" using ew_bytes_okD(2) [OF start(7) _ assms(3)] start(1,2,3) by simp
next
  show "k \<le> 2 * nat loops + 4" using ewb.runs_work [OF assms(4)] assms(1)
    by (auto simp: ew_main_def ew_work_def split: if_splits sum.splits prod.splits option.splits)
next
  assume "env = [] \<and> (\<nexists>s'. ew_step off loops s s')"
  then show "ew_parent s = Left_with (int off)" "ew_child s = Some (Left_with (int off))"
    using ew_stuck [OF ewq.runs_inv [OF assms(4)]] ew_main_start(6) [OF assms(1-3)] by blast+
qed

theorem extend_and_write_verifies_witness:
  "vf_main 7 [(CHR ''f'', ''x''), (CHR ''s'', ''1''), (CHR ''n'', ''1'')] [] [''x'' \<mapsto> [66, 65]] = Inr 0"
proof -
  let ?cos = "[(CHR ''f'', ''x''), (CHR ''s'', ''1''), (CHR ''n'', ''1'')]"
  let ?opt = "\<lparr>ew_filename = ''x'', ew_off_t = 1, ew_loops = 1\<rparr>"
  let ?s = "\<lambda>f p c. \<lparr>ew_file = f, ew_env = [], ew_parent = p, ew_child = Some c\<rparr>"
  have opt: "ew_opt_loop ?cos ew_defaults = Inr ?opt" by code_simp
  have start: "ew_main 7 ?cos [] = Inr (Inr (1, 1, ?s [] (Wr 0) (Wr 0)))" unfolding ew_main_def opt by (simp add: ew_bytes_ok_def int_range_def)
  have "ew_step 1 1 (?s [] (Wr 0) (Wr 0)) (?s [66] (Wr 0) (Wr 1))"
    using ew_step.child [of "?s [] (Wr 0) (Wr 0)" 0 1 1 "Wr 1" "[66]" "[]"] by (simp add: ew_turn_def ew_append [of "[]", simplified])
  moreover have "ew_step 1 1 (?s [66] (Wr 0) (Wr 1)) (?s [66, 65] (Wr 1) (Wr 1))"
    using ew_step.parent [of "?s [66] (Wr 0) (Wr 1)" 0 1 1 "Wr 1" "[66, 65]" "[]"] by (simp add: ew_turn_def ew_append [of "[66]", simplified])
  moreover have "ew_step 1 1 (?s [66, 65] (Wr 1) (Wr 1)) (?s [66, 65] Waits (Wr 1))"
    using ew_step.parent [of "?s [66, 65] (Wr 1) (Wr 1)" 1 1 1 Waits "[66, 65]" "[]"] by (simp add: ew_turn_def)
  moreover have "ew_step 1 1 (?s [66, 65] Waits (Wr 1)) (?s [66, 65] Waits (Left_with 1))"
    using ew_step.child [of "?s [66, 65] Waits (Wr 1)" 1 1 1 "Left_with 1" "[66, 65]" "[]"] by (simp add: ew_turn_def ew_status_def)
  moreover have "ew_step 1 1 (?s [66, 65] Waits (Left_with 1)) (?s [66, 65] (Left_with 1) (Left_with 1))"
    using ew_step.wait [of "?s [66, 65] Waits (Left_with 1)" 1 1] by (simp add: ew_status_def)
  ultimately have run: "(ew_step 1 1 ^^ Suc (Suc (Suc (Suc (Suc 0))))) (?s [] (Wr 0) (Wr 0)) (?s [66, 65] (Left_with 1) (Left_with 1))"
    by (blast intro: relpowp_Suc_I2 relpowp_0_I)
  show ?thesis using extend_and_write_verifies [OF start opt _ run, of "[''x'' \<mapsto> [66, 65]]"] by simp
qed

end
