(* ===== verification/Reflink.thy ===== *)
theory Reflink
  imports Sequencing Aio
begin

text \<open>
  \<open>programs/reflink_tests\<close>, \<open>reflink_test_utils.c\<close> and \<open>compat_reflink.c\<close>: a file is prepared from a
  pattern kept in memory, reflinks of it are made, read, written, truncated, appended to and
  removed, and the file is compared with the pattern after every round.

  The state is the volume, the pattern \<open>orig_pattern\<close>, an endless supply of results of \<open>rand()\<close>
  and the decisions of the kernel. A file that is open and has no name any more is \<open>rl_anon\<close>. The
  globals that do not change after \<open>setup\<close> are the configuration \<open>rl_conf\<close>. What the file system
  puts into a reflink is the parameter \<open>rc_snap\<close> there; the tests rely on its length only. Paths are
  shorter than \<open>PATH_MAX\<close>; memory can always be allocated.
\<close>

section \<open>Configuration and state\<close>

definition HUNK_SIZE :: nat where
  "HUNK_SIZE = 1024 * 1024"

definition M_SIZE :: nat where
  "M_SIZE = 1024 * 1024"

definition G_SIZE :: nat where
  "G_SIZE = 1024 * 1024 * 1024"

definition PATTERN_SIZE :: nat where
  "PATTERN_SIZE = 1024 * 1024 * 100"

definition RL_DIRECTIO_SLICE :: nat where
  "RL_DIRECTIO_SLICE = 512"

record rl_conf =
  rc_rand :: bool
  rc_mmap :: bool
  rc_odct :: bool
  rc_asio :: bool
  rc_file_size :: nat
  rc_page :: nat
  rc_block :: nat
  rc_cluster :: nat
  rc_max_inline :: nat
  rc_ref_counts :: nat
  rc_workplace :: string
  rc_snap :: "content \<Rightarrow> content"

record rl_state =
  rl_vol :: fs
  rl_anon :: content
  rl_pattern :: "byte list"
  rl_rng :: "nat stream"
  rl_env :: io_env

type_synonym rl_op = "rl_state op"

text \<open>An open descriptor: of a named file, of the file that lost its name, or of a failed \<open>open\<close>.\<close>

datatype rl_fd = Named string | Nameless | Bad_fd

fun rl_get :: "rl_fd \<Rightarrow> rl_state \<Rightarrow> content" where
  "rl_get (Named p) s = (case rl_vol s p of None \<Rightarrow> [] | Some f \<Rightarrow> f)"
| "rl_get Nameless s = rl_anon s"
| "rl_get Bad_fd s = []"

fun rl_put :: "rl_fd \<Rightarrow> content \<Rightarrow> rl_state \<Rightarrow> rl_state" where
  "rl_put (Named p) f s = s\<lparr>rl_vol := (rl_vol s)(p \<mapsto> f)\<rparr>"
| "rl_put Nameless f s = s\<lparr>rl_anon := f\<rparr>"
| "rl_put Bad_fd f s = s"

section \<open>System calls on the state\<close>

text \<open>The return value 0 stands for the descriptor.\<close>

definition rl_open_creat :: "string \<Rightarrow> rl_op" where
  "rl_open_creat p s = (case sys_open_creat (rl_env s) (rl_vol s) p of
     (Inl e, env') \<Rightarrow> Inr (-1, s\<lparr>rl_env := env'\<rparr>)
   | (Inr f, env') \<Rightarrow> Inr (0, s\<lparr>rl_vol := (rl_vol s)(p \<mapsto> f), rl_env := env'\<rparr>))"

definition rl_open_ro :: "string \<Rightarrow> rl_op" where
  "rl_open_ro p s = (case sys_open_ro (rl_env s) (rl_vol s) p of
     (Inl e, env') \<Rightarrow> Inr (-1, s\<lparr>rl_env := env'\<rparr>)
   | (Inr f, env') \<Rightarrow> Inr (0, s\<lparr>rl_env := env'\<rparr>))"

definition do_unlink :: "string \<Rightarrow> rl_op" where
  "do_unlink p s = (case sys_call (rl_env s) of
     (Some e, env') \<Rightarrow> Inr (-1, s\<lparr>rl_env := env'\<rparr>)
   | (None, env') \<Rightarrow> (case rl_vol s p of
        None \<Rightarrow> Inr (-1, s\<lparr>rl_env := env'\<rparr>)
      | Some f \<Rightarrow> Inr (0, s\<lparr>rl_vol := (rl_vol s)(p := None), rl_env := env'\<rparr>)))"

text \<open>\<open>unlink(tmp_path)\<close> after the \<open>open64\<close> of it: the name goes, the descriptor stays.\<close>

definition rl_unname :: "string \<Rightarrow> bool \<Rightarrow> (rl_fd \<Rightarrow> rl_op) \<Rightarrow> rl_op" where
  "rl_unname p opened k s = (case do_unlink p s of Inl e \<Rightarrow> Inl e | Inr (ret, s') \<Rightarrow>
     if \<not> opened then k Bad_fd s'
     else if ret < 0 then k (Named p) s'
     else k Nameless (s'\<lparr>rl_anon := rl_get (Named p) s\<rparr>))"

text \<open>\<open>write_at\<close>, through the asynchronous interface or with the loop over \<open>pwrite\<close>.\<close>

definition rl_write_at :: "rl_conf \<Rightarrow> rl_fd \<Rightarrow> byte list \<Rightarrow> nat \<Rightarrow> rl_op" where
  "rl_write_at c fd bs off s = (if fd = Bad_fd then Inr (-1, s)
     else if rc_asio c then
       (case aio_write_back (rl_env s) (rl_get fd s) bs off of
          Inl e \<Rightarrow> Inl e | Inr (ret, f', env') \<Rightarrow> Inr (ret, rl_put fd f' (s\<lparr>rl_env := env'\<rparr>)))
     else (case File_Ops.write_at (rl_env s) (rl_get fd s) bs off of
             (ret, f', env') \<Rightarrow> Inr (ret, rl_put fd f' (s\<lparr>rl_env := env'\<rparr>))))"

definition rl_mmap_write_at :: "rl_conf \<Rightarrow> rl_fd \<Rightarrow> byte list \<Rightarrow> nat \<Rightarrow> rl_op" where
  "rl_mmap_write_at c fd bs off s = (case File_Ops.mmap_write_at (rl_env s) (rl_get fd s) bs off (rc_page c) of
     Inl e \<Rightarrow> Inl e | Inr (ret, f', env') \<Rightarrow> Inr (ret, rl_put fd f' (s\<lparr>rl_env := env'\<rparr>)))"

text \<open>
  \<open>read_at\<close> into a buffer that is not looked at. It does not return when it meets the end of
  the file before \<open>count\<close> bytes.
\<close>

definition rl_read_at :: "rl_fd \<Rightarrow> nat \<Rightarrow> nat \<Rightarrow> rl_op" where
  "rl_read_at fd count off s = (case File_Ops.read_at (Suc count) (rl_env s) (rl_get fd s) count off of
     Inl e \<Rightarrow> Inl e | Inr (ret, bs, env') \<Rightarrow> Inr (ret, s\<lparr>rl_env := env'\<rparr>))"

definition rl_mmap_read_at :: "rl_conf \<Rightarrow> rl_fd \<Rightarrow> nat \<Rightarrow> nat \<Rightarrow> rl_op" where
  "rl_mmap_read_at c fd count off s = (case File_Ops.mmap_read_at (rl_env s) (rl_get fd s) count off (rc_page c) of
     Inl e \<Rightarrow> Inl e | Inr (ret, bs, env') \<Rightarrow> Inr (ret, s\<lparr>rl_env := env'\<rparr>))"

definition rl_ftruncate :: "string \<Rightarrow> nat \<Rightarrow> rl_op" where
  "rl_ftruncate p n s = (case sys_ftruncate (rl_env s) (rl_get (Named p) s) n of
     (Some e, f', env') \<Rightarrow> Inr (-1, s\<lparr>rl_env := env'\<rparr>)
   | (None, f', env') \<Rightarrow> Inr (0, rl_put (Named p) f' (s\<lparr>rl_env := env'\<rparr>)))"

text \<open>\<open>write\<close> on a descriptor opened with \<open>O_APPEND\<close>: one call, the count is the return value.\<close>

definition rl_append :: "string \<Rightarrow> byte list \<Rightarrow> rl_op" where
  "rl_append p bs s = (case sys_pwrite (rl_env s) (rl_get (Named p) s) bs (length (rl_get (Named p) s)) of
     (Inl e, f', env') \<Rightarrow> Inr (-1, s\<lparr>rl_env := env'\<rparr>)
   | (Inr n, f', env') \<Rightarrow> Inr (int n, rl_put (Named p) f' (s\<lparr>rl_env := env'\<rparr>)))"

text \<open>\<open>get_rand\<close> and \<open>get_rand_buf\<close> on the state.\<close>

definition rl_draw :: "nat \<Rightarrow> nat \<Rightarrow> rl_state \<Rightarrow> fault + nat \<times> rl_state" where
  "rl_draw mn mx s = (case draw mn mx (rl_rng s) of
     Inl e \<Rightarrow> Inl e | Inr (v, rs) \<Rightarrow> Inr (v, s\<lparr>rl_rng := rs\<rparr>))"

definition rl_rand :: "nat \<Rightarrow> nat \<Rightarrow> (nat \<Rightarrow> rl_op) \<Rightarrow> rl_op" where
  "rl_rand mn mx k s = (case rl_draw mn mx s of Inl e \<Rightarrow> Inl e | Inr (v, s') \<Rightarrow> k v s')"

definition rl_rand_buf :: "nat \<Rightarrow> nat \<Rightarrow> (byte list \<Rightarrow> rl_op) \<Rightarrow> rl_op" where
  "rl_rand_buf cap n k s = (if cap < n then Inl Overrun else
     case pattern_chars n (rl_rng s) of Inl e \<Rightarrow> Inl e | Inr (cs, rs) \<Rightarrow> k cs (s\<lparr>rl_rng := rs\<rparr>))"

section \<open>Preparing the original\<close>

definition rl_fill_pattern :: "nat \<Rightarrow> rl_op" where
  "rl_fill_pattern n s = rl_rand_buf PATTERN_SIZE n
     (\<lambda>cs s'. Inr (0, s'\<lparr>rl_pattern := patch 0 cs (replicate PATTERN_SIZE 0)\<rparr>)) s"

text \<open>The bytes of a buffer from \<open>off\<close> on.\<close>

definition buf_slice :: "byte list \<Rightarrow> nat \<Rightarrow> nat \<Rightarrow> fault + byte list" where
  "buf_slice buf off n = (if length buf < off + n then Inl Overrun else Inr (take n (drop off buf)))"

fun rl_write_all :: "rl_conf \<Rightarrow> rl_fd list \<Rightarrow> byte list \<Rightarrow> nat \<Rightarrow> rl_op" where
  "rl_write_all c [] bs off = all_done"
| "rl_write_all c (fd # fds) bs off = unless_neg (rl_write_at c fd bs off) (rl_write_all c fds bs off)"

text \<open>
  The loop of all the \<open>prep_orig_file\<close> functions: the size of the next piece, clipped at the end
  of the file; the piece, from where it is taken for this offset, to every descriptor in turn. A piece of no
  bytes would repeat for ever.
\<close>

function rl_pieces :: "rl_conf \<Rightarrow> rl_fd list \<Rightarrow> (rl_state \<Rightarrow> fault + nat \<times> rl_state)
    \<Rightarrow> (rl_state \<Rightarrow> nat \<Rightarrow> nat \<Rightarrow> fault + byte list) \<Rightarrow> nat \<Rightarrow> nat \<Rightarrow> rl_op" where
  "rl_pieces c fds pick src sz offset s = (if \<not> offset < sz then Inr (0, s) else
     case pick s of Inl e \<Rightarrow> Inl e | Inr (n, s1) \<Rightarrow>
     let write_size = (if sz < offset + n then sz - offset else n) in
     if write_size = 0 then Inl Out_of_fuel else
     case src s1 offset write_size of Inl e \<Rightarrow> Inl e | Inr bs \<Rightarrow>
     case rl_write_all c fds bs offset s1 of Inl e \<Rightarrow> Inl e | Inr (ret, s2) \<Rightarrow>
     if ret < 0 then Inr (ret, s2) else rl_pieces c fds pick src sz (offset + write_size) s2)"
  by pat_completeness auto
termination by (relation "measure (\<lambda>(c, fds, pick, src, sz, offset, s). sz - offset)") auto

declare rl_pieces.simps [simp del]

definition always :: "nat \<Rightarrow> rl_state \<Rightarrow> fault + nat \<times> rl_state" where
  "always n s = Inr (n, s)"

definition prep_piece :: "rl_conf \<Rightarrow> nat \<Rightarrow> rl_state \<Rightarrow> fault + nat \<times> rl_state" where
  "prep_piece c sz s = (if rc_rand c then if HUNK_SIZE * 2 \<le> sz then rl_draw 1 (HUNK_SIZE * 2) s else rl_draw 1 sz s
     else Inr (HUNK_SIZE, s))"

definition tmp_path :: "string \<Rightarrow> string" where
  "tmp_path file_name = file_name @ ''-tmp-file''"

text \<open>The second file, with the result of its \<open>open64\<close> not looked at.\<close>

definition with_tmp :: "string \<Rightarrow> (rl_fd \<Rightarrow> rl_op) \<Rightarrow> rl_op" where
  "with_tmp file_name k s = (case rl_open_creat (tmp_path file_name) s of
     Inl e \<Rightarrow> Inl e | Inr (fdt, s') \<Rightarrow> rl_unname (tmp_path file_name) (0 \<le> fdt) k s')"

text \<open>A file larger than the pattern: the pattern over and over.\<close>

definition prep_huge :: "rl_conf \<Rightarrow> string \<Rightarrow> nat \<Rightarrow> bool \<Rightarrow> rl_op" where
  "prep_huge c file_name sz once = and_then (rl_fill_pattern PATTERN_SIZE) (
     if once then rl_pieces c [Named file_name] (always PATTERN_SIZE) (\<lambda>s off n. buf_slice (rl_pattern s) 0 n) sz 0
     else with_tmp file_name (\<lambda>fdt. rl_pieces c [Named file_name, fdt] (always M_SIZE)
            (\<lambda>s off n. buf_slice (rl_pattern s) (off mod PATTERN_SIZE) n) sz 0))"

text \<open>
  A file within the pattern: in one call, or in pieces by turns with the file that keeps its
  extents apart. Here a failure to open that file is looked at.
\<close>

definition prep_within :: "rl_conf \<Rightarrow> string \<Rightarrow> nat \<Rightarrow> bool \<Rightarrow> rl_op" where
  "prep_within c file_name sz once = and_then (rl_fill_pattern sz) (
     if once then unless_neg (\<lambda>s. case buf_slice (rl_pattern s) 0 sz of Inl e \<Rightarrow> Inl e
         | Inr bs \<Rightarrow> rl_write_at c (Named file_name) bs 0 s) all_done
     else unless_neg (rl_open_creat (tmp_path file_name)) (rl_unname (tmp_path file_name) True
       (\<lambda>fdt. rl_pieces c [Named file_name, fdt] (prep_piece c sz) (\<lambda>s off n. buf_slice (rl_pattern s) off n) sz 0)))"

definition prep_orig_file :: "rl_conf \<Rightarrow> string \<Rightarrow> nat \<Rightarrow> bool \<Rightarrow> rl_op" where
  "prep_orig_file c file_name sz once = unless_neg (rl_open_creat file_name)
     (if PATTERN_SIZE < sz then prep_huge c file_name sz once else prep_within c file_name sz once)"

definition prep_orig_file_with_pattern :: "rl_conf \<Rightarrow> string \<Rightarrow> nat \<Rightarrow> nat \<Rightarrow> byte list \<Rightarrow> bool \<Rightarrow> rl_op" where
  "prep_orig_file_with_pattern c file_name sz chunk_size pattern_buf once = unless_neg (rl_open_creat file_name)
     (if once then rl_pieces c [Named file_name] (always chunk_size) (\<lambda>s off n. buf_slice pattern_buf 0 n) sz 0
      else with_tmp file_name (\<lambda>fdt. rl_pieces c [Named file_name, fdt] (always chunk_size)
             (\<lambda>s off n. buf_slice pattern_buf 0 n) sz 0))"

text \<open>
  \<open>prep_orig_file_dio\<close>: slices of one character, each with one \<open>pwrite\<close> whose count is not looked at;
  a failed write returns the error number, a positive value.
\<close>

function prep_dio_loop :: "string \<Rightarrow> nat \<Rightarrow> nat \<Rightarrow> rl_op" where
  "prep_dio_loop p sz offset s = (if \<not> offset < sz then Inr (0, s) else
     let write_size = (if sz < offset + RL_DIRECTIO_SLICE then sz - offset else RL_DIRECTIO_SLICE) in
     case pattern_chars 1 (rl_rng s) of Inl e \<Rightarrow> Inl e | Inr (cs, rs) \<Rightarrow>
     case sys_pwrite (rl_env s) (rl_get (Named p) s) (replicate write_size (hd cs)) offset of
       (Inl e, f', env') \<Rightarrow> Inr (int e, s\<lparr>rl_rng := rs, rl_env := env'\<rparr>)
     | (Inr n, f', env') \<Rightarrow>
         prep_dio_loop p sz (offset + write_size) (rl_put (Named p) f' (s\<lparr>rl_rng := rs, rl_env := env'\<rparr>)))"
  by pat_completeness auto
termination by (relation "measure (\<lambda>(p, sz, offset, s). sz - offset)") (auto simp: RL_DIRECTIO_SLICE_def split: if_splits)

declare prep_dio_loop.simps [simp del]

definition prep_orig_file_dio :: "string \<Rightarrow> nat \<Rightarrow> rl_op" where
  "prep_orig_file_dio file_name sz s = (if sz mod RL_DIRECTIO_SLICE \<noteq> 0 then Inr (-1, s)
     else unless_neg (rl_open_creat file_name) (prep_dio_loop file_name sz 0) s)"

section \<open>Reflinks\<close>

text \<open>
  \<open>reflink\<close>: the ioctl fails on a name that exists. Its result is 0 or -1.
\<close>

definition reflink :: "rl_conf \<Rightarrow> string \<Rightarrow> string \<Rightarrow> rl_op" where
  "reflink c oldpath newpath = unless_neg (rl_open_ro oldpath) (\<lambda>s.
     case sys_call (rl_env s) of
       (Some e, env') \<Rightarrow> Inr (-1, s\<lparr>rl_env := env'\<rparr>)
     | (None, env') \<Rightarrow> if rl_vol s newpath \<noteq> None then Inr (-1, s\<lparr>rl_env := env'\<rparr>)
         else Inr (0, rl_put (Named newpath) (rc_snap c (rl_get (Named oldpath) s)) (s\<lparr>rl_env := env'\<rparr>)))"

definition ref_path :: "string \<Rightarrow> nat \<Rightarrow> string" where
  "ref_path ref_pfx i = ref_pfx @ CHR ''r'' # show_dec i"

text \<open>Where reflink \<open>i\<close> is taken from: reflink 0 stands for the original itself.\<close>

definition reflink_from :: "string \<Rightarrow> string \<Rightarrow> nat \<Rightarrow> string" where
  "reflink_from src dest_prefix j = (if j = 0 then src else ref_path dest_prefix j)"

definition do_reflinks :: "rl_conf \<Rightarrow> string \<Rightarrow> string \<Rightarrow> nat \<Rightarrow> int \<Rightarrow> rl_op" where
  "do_reflinks c src dest_prefix iter manner = for_each [0..<iter] (\<lambda>i.
     if i = 0 then reflink c src (ref_path dest_prefix i)
     else if manner = 1 then reflink c (reflink_from src dest_prefix (i - 1)) (ref_path dest_prefix i)
     else if 1 < manner then rl_rand 0 (i - 1) (\<lambda>j. reflink c (reflink_from src dest_prefix j) (ref_path dest_prefix i))
     else reflink c src (ref_path dest_prefix i))"

text \<open>Two thirds of the reflinks, those whose number is not a multiple of 3.\<close>

definition for_two_thirds :: "nat \<Rightarrow> (nat \<Rightarrow> rl_op) \<Rightarrow> rl_op" where
  "for_two_thirds iter body = for_each [0..<iter] (\<lambda>i. if i mod 3 = 0 then all_done else body i)"

text \<open>The buffer of a loop, the size of its next piece, the distance to the one after.\<close>

definition buf_cap :: "rl_conf \<Rightarrow> nat \<Rightarrow> nat" where
  "buf_cap c n = (if rc_odct c then RL_DIRECTIO_SLICE else n)"

definition rl_piece :: "rl_conf \<Rightarrow> nat \<Rightarrow> rl_state \<Rightarrow> fault + nat \<times> rl_state" where
  "rl_piece c i s = (if rc_rand c then if i mod 2 = 0 then rl_draw 1 HUNK_SIZE s else rl_draw HUNK_SIZE (HUNK_SIZE * 2) s
     else if rc_odct c then Inr (RL_DIRECTIO_SLICE, s) else Inr (HUNK_SIZE, s))"

definition rl_gap :: "rl_conf \<Rightarrow> nat \<Rightarrow> rl_state \<Rightarrow> fault + nat \<times> rl_state" where
  "rl_gap c interval s = (if rc_rand c then rl_draw 0 interval s else Inr (interval, s))"

text \<open>
  The loops over one reflink. The buffer is cleared or filled for the whole piece before the piece
  is clipped at \<open>sz\<close>. A round that moves by no byte would never end the loop.
\<close>

definition read_piece :: "rl_conf \<Rightarrow> string \<Rightarrow> nat \<Rightarrow> nat \<Rightarrow> nat \<Rightarrow> rl_op" where
  "read_piece c p n clipped offset s = (if buf_cap c (HUNK_SIZE * 2) < n then Inl Overrun
     else if rc_mmap c then rl_mmap_read_at c (Named p) clipped offset s
     else rl_read_at (Named p) clipped offset s)"

definition cow_piece :: "rl_conf \<Rightarrow> string \<Rightarrow> nat \<Rightarrow> nat \<Rightarrow> nat \<Rightarrow> rl_op" where
  "cow_piece c p n clipped offset = rl_rand_buf (buf_cap c (HUNK_SIZE * 2)) n (\<lambda>bs.
     if rc_mmap c then rl_mmap_write_at c (Named p) (take clipped bs) offset
     else rl_write_at c (Named p) (take clipped bs) offset)"

function rl_walk :: "rl_conf \<Rightarrow> nat \<Rightarrow> (nat \<Rightarrow> nat \<Rightarrow> nat \<Rightarrow> rl_op) \<Rightarrow> nat \<Rightarrow> nat \<Rightarrow> nat \<Rightarrow> rl_op" where
  "rl_walk c i act sz interval offset s = (if \<not> offset < sz then Inr (0, s) else
     case rl_piece c i s of Inl e \<Rightarrow> Inl e | Inr (n, s1) \<Rightarrow>
     let clipped = (if sz < offset + n then sz - offset else n) in
     case act n clipped offset s1 of Inl e \<Rightarrow> Inl e | Inr (ret, s2) \<Rightarrow>
     if ret \<noteq> 0 then Inr (ret, s2) else
     case rl_gap c interval s2 of Inl e \<Rightarrow> Inl e | Inr (g, s3) \<Rightarrow>
     if clipped + g = 0 then Inl Out_of_fuel else rl_walk c i act sz interval (offset + clipped + g) s3)"
  by pat_completeness auto
termination by (relation "measure (\<lambda>(c, i, act, sz, interval, offset, s). sz - offset)") auto

declare rl_walk.simps [simp del]

definition do_reads_on_reflinks :: "rl_conf \<Rightarrow> string \<Rightarrow> nat \<Rightarrow> nat \<Rightarrow> nat \<Rightarrow> rl_op" where
  "do_reads_on_reflinks c ref_pfx iter sz interval = for_two_thirds iter (\<lambda>i. let p = ref_path ref_pfx i in
     unless_neg (rl_open_ro p) (rl_walk c i (read_piece c p) sz interval 0))"

definition do_cows_on_write :: "rl_conf \<Rightarrow> string \<Rightarrow> nat \<Rightarrow> nat \<Rightarrow> nat \<Rightarrow> rl_op" where
  "do_cows_on_write c ref_pfx iter sz interval = for_two_thirds iter (\<lambda>i. let p = ref_path ref_pfx i in
     unless_neg (rl_open_creat p) (rl_walk c i (cow_piece c p) sz interval 0))"

text \<open>A failed \<open>open64\<close> returns the error number here, a positive value.\<close>

definition rl_open_errno :: "string \<Rightarrow> rl_op" where
  "rl_open_errno p s = (case sys_open_creat (rl_env s) (rl_vol s) p of
     (Inl e, env') \<Rightarrow> Inr (int e, s\<lparr>rl_env := env'\<rparr>)
   | (Inr f, env') \<Rightarrow> Inr (0, s\<lparr>rl_vol := (rl_vol s)(p \<mapsto> f), rl_env := env'\<rparr>))"

definition truncate_size :: "rl_conf \<Rightarrow> nat \<Rightarrow> nat \<Rightarrow> nat \<Rightarrow> (nat \<Rightarrow> rl_op) \<Rightarrow> rl_op" where
  "truncate_size c iter sz i k = (if rc_rand c then rl_rand 0 sz k
     else if rc_odct c then k (sz div RL_DIRECTIO_SLICE div iter * i * RL_DIRECTIO_SLICE)
     else k (sz div iter * i))"

definition do_cows_on_ftruncate :: "rl_conf \<Rightarrow> string \<Rightarrow> nat \<Rightarrow> nat \<Rightarrow> rl_op" where
  "do_cows_on_ftruncate c ref_pfx iter sz = for_each [0..<iter] (\<lambda>i. let p = ref_path ref_pfx i in
     and_then (rl_open_errno p) (truncate_size c iter sz i (rl_ftruncate p)))"

text \<open>The return value is that of the last \<open>write\<close>, the number of bytes appended.\<close>

definition append_size :: "rl_conf \<Rightarrow> (nat \<Rightarrow> rl_op) \<Rightarrow> rl_op" where
  "append_size c k = (if rc_rand c then rl_rand 1 HUNK_SIZE k else if rc_odct c then k RL_DIRECTIO_SLICE else k HUNK_SIZE)"

fun appends_from :: "rl_conf \<Rightarrow> string \<Rightarrow> int \<Rightarrow> nat list \<Rightarrow> rl_op" where
  "appends_from c ref_pfx ret [] s = Inr (ret, s)"
| "appends_from c ref_pfx ret (i # js) s = (let p = ref_path ref_pfx i in
     case unless_neg (rl_open_creat p) (append_size c (\<lambda>n. rl_rand_buf (buf_cap c HUNK_SIZE) n (rl_append p))) s of
       Inl e \<Rightarrow> Inl e
     | Inr (ret', s') \<Rightarrow> if ret' < 0 then Inr (ret', s') else appends_from c ref_pfx ret' js s')"

definition do_appends :: "rl_conf \<Rightarrow> string \<Rightarrow> nat \<Rightarrow> rl_op" where
  "do_appends c ref_pfx iter = appends_from c ref_pfx 0 [0..<iter]"

definition do_unlinks :: "string \<Rightarrow> nat \<Rightarrow> rl_op" where
  "do_unlinks ref_pfx iter = for_each [0..<iter] (\<lambda>i. do_unlink (ref_path ref_pfx i))"

section \<open>Verification\<close>

text \<open>\<open>memcmp\<close>: the sign of the first difference.\<close>

fun memcmp :: "byte list \<Rightarrow> byte list \<Rightarrow> int" where
  "memcmp (x # xs) (y # ys) = (if x = y then memcmp xs ys else if x < y then -1 else 1)"
| "memcmp _ _ = 0"

text \<open>A \<open>read\<close> that returns bytes leaves fewer of them.\<close>

lemma read_progress:
  assumes "(Inr bs, env') = sys_pread env f n i" "bs \<noteq> []"
  shows "length f - (i + length bs) < length f - i"
proof -
  have "0 < length bs" using assms(2) by simp
  with sys_pread_InrD(3) [OF assms(1) [symmetric]] show ?thesis by linarith
qed

text \<open>
  \<open>verify_reflink_pair\<close>. The results of \<open>read\<close> are \<open>unsigned long\<close>, so a failed one is the largest number;
  two failed ones are equal, and \<open>memcmp\<close> runs out of the buffers.
\<close>

function pair_loop :: "io_env \<Rightarrow> content \<Rightarrow> content \<Rightarrow> nat \<Rightarrow> nat \<Rightarrow> fault + int \<times> io_env" where
  "pair_loop env f g i j = (case sys_pread env f HUNK_SIZE i of
     (Inl e, env1) \<Rightarrow> (case sys_pread env1 g HUNK_SIZE j of
        (Inl e, env2) \<Rightarrow> Inl Overrun
      | (Inr bufd, env2) \<Rightarrow> if bufd = [] then Inr (0, env2) else Inr (1, env2))
   | (Inr bufs, env1) \<Rightarrow> if bufs = [] then Inr (0, env1) else
       (case sys_pread env1 g HUNK_SIZE j of
          (Inl e, env2) \<Rightarrow> Inr (1, env2)
        | (Inr bufd, env2) \<Rightarrow> if bufd = [] then Inr (0, env2)
            else if length bufs \<noteq> length bufd then Inr (1, env2)
            else if memcmp bufs bufd \<noteq> 0 then Inr (memcmp bufs bufd, env2)
            else pair_loop env2 f g (i + length bufs) (j + length bufd)))"
  by pat_completeness auto
termination
  by (relation "measure (\<lambda>(env, f, g, i, j). length f - i)") (auto dest!: read_progress)

declare pair_loop.simps [simp del]

definition verify_reflink_pair :: "string \<Rightarrow> string \<Rightarrow> rl_op" where
  "verify_reflink_pair src dest = unless_neg (rl_open_ro src) (unless_neg (rl_open_ro dest) (\<lambda>s.
     case pair_loop (rl_env s) (rl_get (Named src) s) (rl_get (Named dest) s) 0 0 of
       Inl e \<Rightarrow> Inl e | Inr (ret, env') \<Rightarrow> Inr (ret, s\<lparr>rl_env := env'\<rparr>)))"

text \<open>
  \<open>verify_pattern\<close> compares byte by byte up to the first difference; only past the last byte of
  \<open>orig_pattern\<close> does it leave the object.
\<close>

definition rl_verify_pattern :: "byte list \<Rightarrow> byte list \<Rightarrow> nat \<Rightarrow> fault + int" where
  "rl_verify_pattern pat buf offset = (let k = min (length buf) (length pat - offset) in
     if take k buf \<noteq> take k (drop offset pat) then Inr (-1)
     else if k < length buf then Inl Overrun else Inr 0)"

text \<open>The same on a mapping.\<close>

fun verify_mapping :: "nat \<Rightarrow> content \<Rightarrow> byte list \<Rightarrow> nat \<Rightarrow> nat \<Rightarrow> fault + int" where
  "verify_mapping page f pat i 0 = Inr 0"
| "verify_mapping page f pat i (Suc n) = (case map_load page f i 1 of
     Inl e \<Rightarrow> Inl e
   | Inr bs \<Rightarrow> if length pat \<le> i then Inl Overrun else if bs \<noteq> [pat ! i] then Inr (-1)
       else verify_mapping page f pat (Suc i) n)"

text \<open>
  The loop over \<open>read\<close>. A failed \<open>read\<close> counts as the largest \<open>unsigned long\<close>: what is compared then
  is what earlier reads left in the buffer (\<open>stale\<close>, its bytes that have been set), up to the first difference or out of it.
\<close>

function orig_loop :: "io_env \<Rightarrow> content \<Rightarrow> byte list \<Rightarrow> byte list \<Rightarrow> nat \<Rightarrow> fault + int \<times> io_env" where
  "orig_loop env f pat stale offset = (case sys_pread env f HUNK_SIZE offset of
     (Inl e, env') \<Rightarrow> (case rl_verify_pattern pat stale offset of
        Inl e \<Rightarrow> Inl e
      | Inr ret \<Rightarrow> if ret \<noteq> 0 then Inr (ret, env')
          else if length stale < HUNK_SIZE then Inl Uninit else Inl Overrun)
   | (Inr bs, env') \<Rightarrow> if bs = [] then Inr (0, env') else
       (case rl_verify_pattern pat bs offset of
          Inl e \<Rightarrow> Inl e
        | Inr ret \<Rightarrow> if ret \<noteq> 0 then Inr (ret, env')
            else if PATTERN_SIZE \<le> offset + length bs then Inr (0, env')
            else orig_loop env' f pat (patch 0 bs stale) (offset + length bs)))"
  by pat_completeness auto
termination by (relation "measure (\<lambda>(env, f, pat, stale, offset). PATTERN_SIZE - offset)")
    (auto simp: neq_Nil_conv)

declare orig_loop.simps [simp del]

text \<open>A failed \<open>mmap\<close> is reported and the function returns 0.\<close>

definition verify_orig_file :: "rl_conf \<Rightarrow> string \<Rightarrow> rl_op" where
  "verify_orig_file c orig = unless_neg (rl_open_ro orig) (\<lambda>s.
     let verify_size = (if PATTERN_SIZE < rc_file_size c then PATTERN_SIZE else rc_file_size c); f = rl_get (Named orig) s in
     if rc_mmap c then
       (case mmap_size_loop (rc_page c) (rc_page c) verify_size of Inl e \<Rightarrow> Inl e | Inr _ \<Rightarrow>
        (case sys_call (rl_env s) of
           (Some e, env') \<Rightarrow> Inr (0, s\<lparr>rl_env := env'\<rparr>)
         | (None, env') \<Rightarrow> (case verify_mapping (rc_page c) f (rl_pattern s) 0 verify_size of
              Inl e \<Rightarrow> Inl e | Inr ret \<Rightarrow> Inr (ret, s\<lparr>rl_env := env'\<rparr>))))
     else (case orig_loop (rl_env s) f (rl_pattern s) [] 0 of
             Inl e \<Rightarrow> Inl e | Inr (ret, env') \<Rightarrow> Inr (ret, s\<lparr>rl_env := env'\<rparr>)))"

end
