(* ===== verification/Reflink_Laws.thy ===== *)
theory Reflink_Laws
  imports Reflink
begin

text \<open>
  Lemmas on the operations of \<open>reflink_test_utils.c\<close>. First what holds whatever the kernel
  decides: an operation on the reflinks leaves the original and the pattern alone. Then
  what the operations do when every call succeeds, and exactly what the two comparisons accept.
\<close>

section \<open>Names\<close>

lemma show_dec_inj: "show_dec i = show_dec j \<longleftrightarrow> i = j"
  by (metis dec_val_show_dec)

lemma ref_path_inj [simp]: "ref_path pfx i = ref_path pfx j \<longleftrightarrow> i = j"
  by (simp add: ref_path_def show_dec_inj)

lemma ref_path_neq [simp]: "ref_path pfx i \<noteq> pfx" "pfx \<noteq> ref_path pfx i"
  by (simp_all add: ref_path_def)

lemma tmp_path_neq [simp]: "tmp_path p \<noteq> p" "p \<noteq> tmp_path p"
  by (simp_all add: tmp_path_def)

lemma ref_path_tmp [simp]: "ref_path p i \<noteq> tmp_path p" "tmp_path p \<noteq> ref_path p i"
  by (simp_all add: ref_path_def tmp_path_def)

section \<open>Isolation\<close>

text \<open>The file \<open>o\<close> and the pattern are as they were.\<close>

definition untouched :: "string \<Rightarrow> content option \<Rightarrow> byte list \<Rightarrow> rl_state \<Rightarrow> bool" where
  "untouched p v pat s \<longleftrightarrow> rl_vol s p = v \<and> rl_pattern s = pat"

lemma untouched_upd [simp]:
  "untouched p v pat (s\<lparr>rl_rng := rs\<rparr>) = untouched p v pat s" "untouched p v pat (s\<lparr>rl_env := env\<rparr>) = untouched p v pat s"
  "untouched p v pat (s\<lparr>rl_anon := f\<rparr>) = untouched p v pat s"
  by (simp_all add: untouched_def)

lemma untouched_put [simp]: "fd \<noteq> Named p \<Longrightarrow> untouched p v pat (rl_put fd f s) = untouched p v pat s"
  by (cases fd) (auto simp: untouched_def)

lemma keeps_open_ro [keep_rules]: "keeps (untouched p v pat) (rl_open_ro q)"
  by (rule keepsI) (auto simp: rl_open_ro_def split: prod.splits sum.splits)

lemma keeps_open_creat [keep_rules]: "q \<noteq> p \<Longrightarrow> keeps (untouched p v pat) (rl_open_creat q)"
  by (rule keepsI) (auto simp: rl_open_creat_def untouched_def split: prod.splits sum.splits)

lemma keeps_open_errno [keep_rules]: "q \<noteq> p \<Longrightarrow> keeps (untouched p v pat) (rl_open_errno q)"
  by (rule keepsI) (auto simp: rl_open_errno_def untouched_def split: prod.splits sum.splits)

lemma keeps_unlink [keep_rules]: "q \<noteq> p \<Longrightarrow> keeps (untouched p v pat) (do_unlink q)"
  by (rule keepsI) (auto simp: do_unlink_def untouched_def split: prod.splits option.splits)

lemma keeps_write_at [keep_rules]: "fd \<noteq> Named p \<Longrightarrow> keeps (untouched p v pat) (rl_write_at c fd bs off)"
  by (rule keepsI) (auto simp: rl_write_at_def split: prod.splits sum.splits if_splits)

lemma keeps_mmap_write_at [keep_rules]: "fd \<noteq> Named p \<Longrightarrow> keeps (untouched p v pat) (rl_mmap_write_at c fd bs off)"
  by (rule keepsI) (auto simp: rl_mmap_write_at_def split: prod.splits sum.splits)

lemma keeps_read_at [keep_rules]: "keeps (untouched p v pat) (rl_read_at fd n off)"
  by (rule keepsI) (auto simp: rl_read_at_def split: prod.splits sum.splits)

lemma keeps_mmap_read_at [keep_rules]: "keeps (untouched p v pat) (rl_mmap_read_at c fd n off)"
  by (rule keepsI) (auto simp: rl_mmap_read_at_def split: prod.splits sum.splits)

lemma keeps_ftruncate [keep_rules]: "q \<noteq> p \<Longrightarrow> keeps (untouched p v pat) (rl_ftruncate q n)"
  by (rule keepsI) (auto simp: rl_ftruncate_def simp del: rl_put.simps rl_get.simps split: prod.splits option.splits)

lemma keeps_append [keep_rules]: "q \<noteq> p \<Longrightarrow> keeps (untouched p v pat) (rl_append q bs)"
  by (rule keepsI) (auto simp: rl_append_def simp del: rl_put.simps rl_get.simps split: prod.splits sum.splits)

lemma untouched_draw: "rl_draw a b s = Inr (n, s') \<Longrightarrow> untouched p v pat s' = untouched p v pat s"
  by (auto simp: rl_draw_def split: sum.splits)

lemma keeps_rand [keep_rules]: "(\<And>n. keeps (untouched p v pat) (k n)) \<Longrightarrow> keeps (untouched p v pat) (rl_rand a b k)"
  by (rule keepsI) (auto simp: rl_rand_def split: sum.splits, metis keepsD untouched_draw)

lemma keeps_rand_buf [keep_rules]: "(\<And>bs. keeps (untouched p v pat) (k bs)) \<Longrightarrow> keeps (untouched p v pat) (rl_rand_buf cap n k)"
  by (rule keepsI) (auto simp: rl_rand_buf_def split: sum.splits if_splits, metis keepsD untouched_upd(1))

lemma keeps_reflink [keep_rules]: "q \<noteq> p \<Longrightarrow> keeps (untouched p v pat) (reflink c src q)"
  unfolding reflink_def
  by (intro keep_rules keepsI) (auto simp del: rl_put.simps rl_get.simps split: prod.splits option.splits if_splits)

lemma untouched_piece: "rl_piece c i s = Inr (n, s') \<Longrightarrow> untouched p v pat s' = untouched p v pat s"
  by (auto simp: rl_piece_def untouched_draw split: if_splits)

lemma untouched_gap: "rl_gap c i s = Inr (n, s') \<Longrightarrow> untouched p v pat s' = untouched p v pat s"
  by (auto simp: rl_gap_def untouched_draw split: if_splits)

text \<open>One round of the loop over a reflink.\<close>

lemma rl_walk_InrE:
  assumes "rl_walk c i act sz interval offset s = Inr (ret, s')" "offset < sz"
  obtains n s1 k r s2 where "rl_piece c i s = Inr (n, s1)" "act n k offset s1 = Inr (r, s2)"
    "r \<noteq> 0 \<and> ret = r \<and> s' = s2 \<or> (\<exists>g s3. rl_gap c interval s2 = Inr (g, s3) \<and> 0 < k + g
       \<and> rl_walk c i act sz interval (offset + k + g) s3 = Inr (ret, s'))"
proof -
  note w = assms(1) [unfolded rl_walk.simps [of c i act sz interval offset s]]
  obtain n s1 where n: "rl_piece c i s = Inr (n, s1)" using w assms(2) by (auto split: sum.splits)
  define k where "k = (if sz < offset + n then sz - offset else n)"
  note w1 = w [unfolded n, simplified assms(2) not_True_eq_False if_False sum.case prod.case Let_def k_def [symmetric]]
  obtain r s2 where r: "act n k offset s1 = Inr (r, s2)" using w1 by (auto split: sum.splits)
  show thesis
    using that [OF n r] w1 [unfolded r] by (auto split: if_splits sum.splits)
qed

lemma keeps_walk [keep_rules]:
  assumes act: "\<And>n k off. keeps (untouched p v pat) (act n k off)"
  shows "keeps (untouched p v pat) (rl_walk c i act sz interval offset)"
proof (rule keepsI)
  fix s ret s' assume "untouched p v pat s" "rl_walk c i act sz interval offset s = Inr (ret, s')"
  then show "untouched p v pat s'"
  proof (induction "sz - offset" arbitrary: offset s rule: less_induct)
    case less
    show ?case
    proof (cases "offset < sz")
      case True
      with less.prems(2) show ?thesis
      proof (rule rl_walk_InrE)
        fix n s1 k r s2 assume 1: "rl_piece c i s = Inr (n, s1)" "act n k offset s1 = Inr (r, s2)"
        then have s2: "untouched p v pat s2" using keepsD [OF act] untouched_piece less.prems(1) by blast
        assume "r \<noteq> 0 \<and> ret = r \<and> s' = s2 \<or> (\<exists>g s3. rl_gap c interval s2 = Inr (g, s3) \<and> 0 < k + g
          \<and> rl_walk c i act sz interval (offset + k + g) s3 = Inr (ret, s'))"
        then show ?thesis
        proof (elim disjE exE conjE)
          fix g s3 assume "rl_gap c interval s2 = Inr (g, s3)" "0 < k + g"
            and "rl_walk c i act sz interval (offset + k + g) s3 = Inr (ret, s')"
          with s2 True show ?thesis by (intro less.hyps [of "offset + k + g" s3]) (auto simp: untouched_gap)
        qed (use s2 in simp)
      qed
    qed (use less.prems in \<open>simp add: rl_walk.simps\<close>)
  qed
qed

text \<open>The operations of the tests on reflinks.\<close>

lemma keeps_read_piece [keep_rules]: "keeps (untouched p v pat) (read_piece c q n k off)"
  by (rule keepsI) (auto simp: read_piece_def split: if_splits elim: keepsD [OF keeps_mmap_read_at] keepsD [OF keeps_read_at])

lemma keeps_cow_piece [keep_rules]: "q \<noteq> p \<Longrightarrow> keeps (untouched p v pat) (cow_piece c q n k off)"
  unfolding cow_piece_def by (intro keep_rules) (auto intro: keep_rules)

lemma keeps_if [keep_rules]: "keeps I f \<Longrightarrow> keeps I g \<Longrightarrow> keeps I (if b then f else g)"
  by simp

lemma keeps_do_reflinks: "q \<notin> range (ref_path p) \<Longrightarrow> keeps (untouched q v pat) (do_reflinks c src p n manner)"
  unfolding do_reflinks_def by (intro keep_rules) auto

lemma keeps_do_reads: "q \<notin> range (ref_path p) \<Longrightarrow> keeps (untouched q v pat) (do_reads_on_reflinks c p n sz interval)"
  unfolding do_reads_on_reflinks_def for_two_thirds_def Let_def by (intro keep_rules)

lemma keeps_do_cows: "q \<notin> range (ref_path p) \<Longrightarrow> keeps (untouched q v pat) (do_cows_on_write c p n sz interval)"
  unfolding do_cows_on_write_def for_two_thirds_def Let_def by (intro keep_rules) auto

lemma keeps_do_truncates: "q \<notin> range (ref_path p) \<Longrightarrow> keeps (untouched q v pat) (do_cows_on_ftruncate c p n sz)"
  unfolding do_cows_on_ftruncate_def truncate_size_def Let_def by (intro keep_rules) auto

lemma keeps_do_unlinks: "q \<notin> range (ref_path p) \<Longrightarrow> keeps (untouched q v pat) (do_unlinks p n)"
  unfolding do_unlinks_def by (intro keep_rules) auto

lemma keeps_do_appends:
  assumes "q \<notin> range (ref_path p)"
  shows "keeps (untouched q v pat) (do_appends c p n)"
proof -
  have 1: "keeps (untouched q v pat) (unless_neg (rl_open_creat (ref_path p i))
      (append_size c (\<lambda>n. rl_rand_buf (buf_cap c HUNK_SIZE) n (rl_append (ref_path p i)))))" for i
    unfolding append_size_def by (intro keep_rules) (use assms in auto)
  have "untouched q v pat s \<Longrightarrow> appends_from c p ret js s = Inr (ret', s') \<Longrightarrow> untouched q v pat s'" for ret js s ret' s'
    by (induction js arbitrary: ret s) (auto simp: Let_def split: sum.splits if_splits dest: keepsD [OF 1])
  then show ?thesis by (auto simp: do_appends_def intro: keepsI)
qed

lemma keeps_verify_orig: "keeps (untouched p v pat) (verify_orig_file c q)"
  unfolding verify_orig_file_def by (intro keep_rules keepsI) (auto simp: Let_def split: sum.splits prod.splits option.splits if_splits)

lemma keeps_verify_pair: "keeps (untouched p v pat) (verify_reflink_pair a b)"
  unfolding verify_reflink_pair_def by (intro keep_rules keepsI) (auto split: sum.splits)

section \<open>Every call succeeds\<close>

lemma rl_env_same: "rl_env s = [] \<Longrightarrow> s\<lparr>rl_env := []\<rparr> = s"
  by (cases s) simp

lemma rl_write_at_ideal:
  "rl_env s = [] \<Longrightarrow> fd \<noteq> Bad_fd \<Longrightarrow> rl_write_at c fd bs off s = Inr (0, rl_put fd (file_write off bs (rl_get fd s)) s)"
  by (simp add: rl_write_at_def aio_write_back_Nil File_Ops.write_at_def write_at_loop.simps rl_env_same)

lemma rl_mmap_write_at_ideal:
  assumes "rl_env s = []" "0 < rc_page c" "off + length bs \<le> length (rl_get fd s)"
  shows "rl_mmap_write_at c fd bs off s = Inr (0, rl_put fd (file_write off bs (rl_get fd s)) s)"
  using assms mmap_size_loop_ok [of "rc_page c" "rc_page c" "off + length bs"]
  by (auto simp: rl_mmap_write_at_def mmap_write_at_def map_store_inside rl_env_same)

lemma rl_read_at_ideal:
  "rl_env s = [] \<Longrightarrow> off + n \<le> length (rl_get fd s) \<Longrightarrow> rl_read_at fd n off s = Inr (0, s)"
  by (simp add: rl_read_at_def File_Ops.read_at_def rl_env_same)

lemma rl_mmap_read_at_ideal:
  assumes "rl_env s = []" "0 < rc_page c" "off + n \<le> length (rl_get fd s)"
  shows "rl_mmap_read_at c fd n off s = Inr (0, s)"
  using assms mmap_size_loop_ok [of "rc_page c" "rc_page c" "off + n"]
  by (auto simp: rl_mmap_read_at_def mmap_read_at_def map_load_inside rl_env_same)

text \<open>
  The state in a test: the original \<open>p\<close> holds \<open>f\<close>, the pattern over and over; the files \<open>N\<close> exist,
  with lengths in \<open>L\<close>; every other file is as in \<open>base\<close>.
\<close>

definition repeats :: "byte list \<Rightarrow> content \<Rightarrow> bool" where
  "repeats pat f \<longleftrightarrow> (\<forall>i < length f. f ! i = pat ! (i mod PATTERN_SIZE))"

definition ready :: "rl_state \<Rightarrow> bool" where
  "ready s \<longleftrightarrow> rl_env s = [] \<and> length (rl_pattern s) = PATTERN_SIZE"

definition linked :: "fs \<Rightarrow> string \<Rightarrow> string set \<Rightarrow> (nat \<Rightarrow> bool) \<Rightarrow> content \<Rightarrow> rl_state \<Rightarrow> bool" where
  "linked base p N L f s \<longleftrightarrow> ready s \<and> repeats (rl_pattern s) f \<and> rl_vol s p = Some f \<and> p \<notin> N
     \<and> (\<forall>q \<in> N. \<exists>g. rl_vol s q = Some g \<and> L (length g)) \<and> (\<forall>q. q \<noteq> p \<longrightarrow> q \<notin> N \<longrightarrow> rl_vol s q = base q)"

lemma ready_rng [simp]: "ready (s\<lparr>rl_rng := rs\<rparr>) = ready s"
  by (simp add: ready_def)

lemma linked_rng [simp]: "linked base p N L f (s\<lparr>rl_rng := rs\<rparr>) = linked base p N L f s"
  by (simp add: linked_def)

lemma linked_env: "linked base p N L f s \<Longrightarrow> rl_env s = []"
  by (simp add: linked_def ready_def)

lemma linked_get: "linked base p N L f s \<Longrightarrow> q \<in> N \<Longrightarrow> L (length (rl_get (Named q) s))"
  by (auto simp: linked_def)

lemma linked_put:
  "linked base p N L f s \<Longrightarrow> q \<in> N \<Longrightarrow> L (length g) \<Longrightarrow> linked base p N L f (rl_put (Named q) g s)"
  by (auto simp: linked_def ready_def)

lemma linked_mono: "linked base p N L f s \<Longrightarrow> (\<And>n. L n \<Longrightarrow> L' n) \<Longrightarrow> linked base p N L' f s"
  unfolding linked_def by blast

lemma linked_drop: "linked base p N L f s \<Longrightarrow> q \<in> N \<Longrightarrow> base q = None
    \<Longrightarrow> linked base p (N - {q}) L f (s\<lparr>rl_vol := (rl_vol s)(q := None)\<rparr>)"
  by (auto simp: linked_def ready_def)

lemma linked_add: "linked base p N L f s \<Longrightarrow> q \<notin> N \<Longrightarrow> q \<noteq> p \<Longrightarrow> L (length g)
    \<Longrightarrow> linked base p (insert q N) L f (rl_put (Named q) g s)"
  by (auto simp: linked_def ready_def)

lemma rl_draw_ok:
  assumes "a \<le> b" "b < 2 ^ 64 - 1"
  obtains v rs where "rl_draw a b s = Inr (v, s\<lparr>rl_rng := rs\<rparr>)" "a \<le> v" "v \<le> b"
  using draw_ok [OF assms, of "rl_rng s"] by (auto simp: rl_draw_def intro: that)

lemma gives_rl_rand:
  assumes "a \<le> b" "b < 2 ^ 64 - 1" "\<And>v rs. a \<le> v \<Longrightarrow> v \<le> b \<Longrightarrow> gives (k v) Q (s\<lparr>rl_rng := rs\<rparr>)"
  shows "gives (rl_rand a b k) Q s"
proof -
  obtain v rs where "rl_draw a b s = Inr (v, s\<lparr>rl_rng := rs\<rparr>)" "a \<le> v" "v \<le> b" by (rule rl_draw_ok [OF assms(1,2)])
  with assms(3) [of v rs] show ?thesis by (simp add: gives_def rl_rand_def)
qed

lemma gives_rand_buf:
  assumes "n \<le> cap" "\<And>bs rs. length bs = n \<Longrightarrow> gives (k bs) Q (s\<lparr>rl_rng := rs\<rparr>)"
  shows "gives (rl_rand_buf cap n k) Q s"
proof -
  obtain bs rs where "pattern_chars n (rl_rng s) = Inr (bs, rs)" "length bs = n" using pattern_chars_ok by blast
  with assms(1) assms(2) [of bs rs] show ?thesis by (simp add: gives_def rl_rand_buf_def)
qed

lemma linked_exists: "linked base p N L f s \<Longrightarrow> q \<in> insert p N \<Longrightarrow> \<exists>g. rl_vol s q = Some g"
  by (auto simp: linked_def)

lemma vol_same: "rl_vol s q = Some g \<Longrightarrow> s\<lparr>rl_vol := (rl_vol s)(q \<mapsto> g)\<rparr> = s"
  by (cases s) (simp add: fun_upd_idem)

lemma linked_open_ro: "linked base p N L f s \<Longrightarrow> q \<in> insert p N \<Longrightarrow> gives (rl_open_ro q) (linked base p N L f) s"
  using linked_exists [of base p N L f s q]
  by (auto simp: gives_def rl_open_ro_def sys_open_ro_def linked_env rl_env_same)

lemma linked_open_creat: "linked base p N L f s \<Longrightarrow> q \<in> insert p N \<Longrightarrow> gives (rl_open_creat q) (linked base p N L f) s"
  using linked_exists [of base p N L f s q]
  by (auto simp: gives_def rl_open_creat_def sys_open_creat_def linked_env rl_env_same vol_same)

lemma linked_open_errno: "linked base p N L f s \<Longrightarrow> q \<in> insert p N \<Longrightarrow> gives (rl_open_errno q) (linked base p N L f) s"
  using linked_exists [of base p N L f s q]
  by (auto simp: gives_def rl_open_errno_def sys_open_creat_def linked_env rl_env_same vol_same)

lemma do_unlink_ideal: "rl_env s = [] \<Longrightarrow> rl_vol s q = Some g \<Longrightarrow> do_unlink q s = Inr (0, s\<lparr>rl_vol := (rl_vol s)(q := None)\<rparr>)"
  by (cases s) (simp add: do_unlink_def)

lemma linked_unlink:
  assumes "linked base p N L f s" "q \<in> N" "base q = None"
  shows "gives (do_unlink q) (linked base p (N - {q}) L f) s"
proof -
  obtain g where "rl_vol s q = Some g" using linked_exists assms(1,2) by blast
  with linked_drop [OF assms] show ?thesis by (simp add: gives_def do_unlink_ideal linked_env [OF assms(1)])
qed

lemma linked_reflink:
  assumes "linked base p N L f s" "q \<in> insert p N" "q' \<notin> N" "q' \<noteq> p" "base q' = None"
    and "L (length f)" "\<And>g. length (rc_snap c g) = length g"
  shows "gives (reflink c q q') (linked base p (insert q' N) L f) s"
  unfolding reflink_def
proof (rule gives_unless_neg [OF linked_open_ro [OF assms(1,2)]])
  fix s assume s: "linked base p N L f s"
  have "rl_vol s q' = None" using s assms(3-5) by (simp add: linked_def)
  moreover have "L (length (rc_snap c (rl_get (Named q) s)))" using s assms(2,6,7) by (auto simp: linked_def)
  ultimately show "gives (\<lambda>s. case sys_call (rl_env s) of
       (None, env') \<Rightarrow> if rl_vol s q' \<noteq> None then Inr (-1, s\<lparr>rl_env := env'\<rparr>)
         else Inr (0, rl_put (Named q') (rc_snap c (rl_get (Named q) s)) (s\<lparr>rl_env := env'\<rparr>))
     | (Some e, env') \<Rightarrow> Inr (-1, s\<lparr>rl_env := env'\<rparr>)) (linked base p (insert q' N) L f) s"
    using s linked_add [OF s assms(3,4)] by (simp add: gives_def linked_env rl_env_same del: rl_put.simps rl_get.simps)
qed

section \<open>The loops over reflinks\<close>

lemma rng_same: "s\<lparr>rl_rng := rl_rng s\<rparr> = (s :: rl_state)"
  by simp

lemma rl_piece_ok:
  assumes "\<not> (rc_rand c \<and> rc_odct c)"
  obtains n rs where "rl_piece c i s = Inr (n, s\<lparr>rl_rng := rs\<rparr>)" "1 \<le> n" "n \<le> buf_cap c (HUNK_SIZE * 2)"
proof (cases "rc_rand c")
  case True
  with assms have cap: "buf_cap c (HUNK_SIZE * 2) = HUNK_SIZE * 2" by (simp add: buf_cap_def)
  show thesis
  proof (cases "i mod 2 = 0")
    case True': True
    obtain n rs where "rl_draw 1 HUNK_SIZE s = Inr (n, s\<lparr>rl_rng := rs\<rparr>)" "1 \<le> n" "n \<le> HUNK_SIZE"
      by (rule rl_draw_ok [of 1 HUNK_SIZE s]) (auto simp: HUNK_SIZE_def)
    with True True' cap show thesis by (intro that) (auto simp: rl_piece_def)
  next
    case False
    obtain n rs where "rl_draw HUNK_SIZE (HUNK_SIZE * 2) s = Inr (n, s\<lparr>rl_rng := rs\<rparr>)" "HUNK_SIZE \<le> n" "n \<le> HUNK_SIZE * 2"
      by (rule rl_draw_ok [of HUNK_SIZE "HUNK_SIZE * 2" s]) (auto simp: HUNK_SIZE_def)
    with True False cap show thesis by (intro that) (auto simp: rl_piece_def HUNK_SIZE_def)
  qed
next
  case False
  show thesis
    by (rule that [of "if rc_odct c then RL_DIRECTIO_SLICE else HUNK_SIZE" "rl_rng s"])
      (auto simp: rl_piece_def False buf_cap_def HUNK_SIZE_def RL_DIRECTIO_SLICE_def)
qed

lemma rl_gap_ok:
  assumes "interval < 2 ^ 64 - 1"
  obtains g rs where "rl_gap c interval s = Inr (g, s\<lparr>rl_rng := rs\<rparr>)"
proof (cases "rc_rand c")
  case True
  obtain g rs where "rl_draw 0 interval s = Inr (g, s\<lparr>rl_rng := rs\<rparr>)" by (rule rl_draw_ok [OF _ assms, of 0]) simp
  with True show thesis by (intro that) (simp add: rl_gap_def)
next
  case False
  then show thesis by (intro that [of interval "rl_rng s"]) (simp add: rl_gap_def)
qed

lemma gives_walk:
  assumes "\<not> (rc_rand c \<and> rc_odct c)" "interval < 2 ^ 64 - 1"
    and rng: "\<And>s rs. Q s \<Longrightarrow> Q (s\<lparr>rl_rng := rs\<rparr>)"
    and act: "\<And>n k off s. Q s \<Longrightarrow> n \<le> buf_cap c (HUNK_SIZE * 2) \<Longrightarrow> k \<le> n \<Longrightarrow> off + k \<le> sz \<Longrightarrow> gives (act n k off) Q s"
    and "Q s"
  shows "gives (rl_walk c i act sz interval offset) Q s"
  using assms(5)
proof (induction "sz - offset" arbitrary: offset s rule: less_induct)
  case less
  show ?case
  proof (cases "offset < sz")
    case True
    obtain n rs where n: "rl_piece c i s = Inr (n, s\<lparr>rl_rng := rs\<rparr>)" "1 \<le> n" "n \<le> buf_cap c (HUNK_SIZE * 2)"
      by (rule rl_piece_ok [OF assms(1)])
    define k where "k = (if sz < offset + n then sz - offset else n)"
    have k: "k \<le> n" "offset + k \<le> sz" "0 < k" using True n(2) by (auto simp: k_def)
    obtain s2 where s2: "act n k offset (s\<lparr>rl_rng := rs\<rparr>) = Inr (0, s2)" "Q s2"
      using act [OF rng [OF less.prems] n(3) k(1,2), of rs] by (auto simp: gives_def)
    obtain g rs2 where g: "rl_gap c interval s2 = Inr (g, s2\<lparr>rl_rng := rs2\<rparr>)" by (rule rl_gap_ok [OF assms(2)])
    have "gives (rl_walk c i act sz interval (offset + k + g)) Q (s2\<lparr>rl_rng := rs2\<rparr>)"
      using True k rng [OF s2(2)] by (intro less.hyps) auto
    moreover have "rl_walk c i act sz interval offset s = rl_walk c i act sz interval (offset + k + g) (s2\<lparr>rl_rng := rs2\<rparr>)"
      using True n(1) s2(1) g k(3) by (subst rl_walk.simps) (simp add: Let_def flip: k_def)
    ultimately show ?thesis by (simp add: gives_def)
  next
    case False
    with less.prems show ?thesis by (simp add: gives_def rl_walk.simps)
  qed
qed

lemma linked_read_piece:
  assumes "linked base p N ((\<le>) sz) f s" "q \<in> N" "0 < rc_page c" "n \<le> buf_cap c (HUNK_SIZE * 2)" "off + k \<le> sz"
  shows "gives (read_piece c q n k off) (linked base p N ((\<le>) sz) f) s"
proof -
  have "off + k \<le> length (rl_get (Named q) s)" using linked_get [OF assms(1,2)] assms(5) by simp
  with assms show ?thesis
    by (simp add: gives_def read_piece_def rl_read_at_ideal rl_mmap_read_at_ideal linked_env del: rl_get.simps)
qed

lemma linked_cow_piece:
  assumes "linked base p N ((\<le>) sz) f s" "q \<in> N" "0 < rc_page c" "n \<le> buf_cap c (HUNK_SIZE * 2)" "k \<le> n" "off + k \<le> sz"
  shows "gives (cow_piece c q n k off) (linked base p N ((\<le>) sz) f) s"
  unfolding cow_piece_def
proof (rule gives_rand_buf [OF assms(4)])
  fix bs :: "byte list" and rs
  assume bs: "length bs = n"
  define s' where "s' = s\<lparr>rl_rng := rs\<rparr>"
  have s': "linked base p N ((\<le>) sz) f s'" using assms(1) by (simp add: s'_def)
  have le: "sz \<le> length (rl_get (Named q) s')" by (rule linked_get [OF s' assms(2)])
  then have "off + length (take k bs) \<le> length (rl_get (Named q) s')" using assms(5,6) bs by simp
  moreover have "linked base p N ((\<le>) sz) f (rl_put (Named q) (file_write off (take k bs) (rl_get (Named q) s')) s')"
    using le by (intro linked_put [OF s' assms(2)]) (auto simp: buf_simps simp del: rl_get.simps)
  ultimately show "gives (if rc_mmap c then rl_mmap_write_at c (Named q) (take k bs) off
      else rl_write_at c (Named q) (take k bs) off) (linked base p N ((\<le>) sz) f) (s\<lparr>rl_rng := rs\<rparr>)"
    using assms(3) linked_env [OF s']
    by (simp add: gives_def rl_write_at_ideal rl_mmap_write_at_ideal flip: s'_def del: rl_get.simps rl_put.simps)
qed

definition links :: "string \<Rightarrow> nat \<Rightarrow> string set" where
  "links p n = ref_path p ` {..<n}"

lemma ref_in_links [simp]: "ref_path p i \<in> links p n \<longleftrightarrow> i < n"
  by (auto simp: links_def)

lemma links_Suc: "links p (Suc n) = insert (ref_path p n) (links p n)"
  by (auto simp: links_def lessThan_Suc)

lemma links_0 [simp]: "links p 0 = {}"
  by (simp add: links_def)

lemma linked_do_reads:
  assumes "linked base p (links p n) ((\<le>) sz) f s" "0 < rc_page c" "\<not> (rc_rand c \<and> rc_odct c)" "interval < 2 ^ 64 - 1"
  shows "gives (do_reads_on_reflinks c p n sz interval) (linked base p (links p n) ((\<le>) sz) f) s"
  unfolding do_reads_on_reflinks_def for_two_thirds_def Let_def
proof (rule gives_for, rule assms(1))
  fix i s assume "i \<in> set [0..<n]" and s: "linked base p (links p n) ((\<le>) sz) f s"
  then have i: "ref_path p i \<in> links p n" by simp
  show "gives (if i mod 3 = 0 then all_done else unless_neg (rl_open_ro (ref_path p i))
      (rl_walk c i (read_piece c (ref_path p i)) sz interval 0)) (linked base p (links p n) ((\<le>) sz) f) s"
    using s i by (auto intro!: op_rules gives_walk [OF assms(3,4)] linked_read_piece [OF _ i assms(2)] linked_open_ro)
qed

lemma linked_do_cows:
  assumes "linked base p (links p n) ((\<le>) sz) f s" "0 < rc_page c" "\<not> (rc_rand c \<and> rc_odct c)" "interval < 2 ^ 64 - 1"
  shows "gives (do_cows_on_write c p n sz interval) (linked base p (links p n) ((\<le>) sz) f) s"
  unfolding do_cows_on_write_def for_two_thirds_def Let_def
proof (rule gives_for, rule assms(1))
  fix i s assume "i \<in> set [0..<n]" and s: "linked base p (links p n) ((\<le>) sz) f s"
  then have i: "ref_path p i \<in> links p n" by simp
  show "gives (if i mod 3 = 0 then all_done else unless_neg (rl_open_creat (ref_path p i))
      (rl_walk c i (cow_piece c (ref_path p i)) sz interval 0)) (linked base p (links p n) ((\<le>) sz) f) s"
    using s i by (auto intro!: op_rules gives_walk [OF assms(3,4)] linked_cow_piece [OF _ i assms(2)] linked_open_creat)
qed

lemma linked_do_reflinks:
  assumes "linked base p {} L f s" "\<And>i. i < n \<Longrightarrow> base (ref_path p i) = None" "L (length f)"
    and "\<And>g. length (rc_snap c g) = length g" "n < 2 ^ 64"
  shows "gives (do_reflinks c p p n manner) (linked base p (links p n) L f) s"
  unfolding do_reflinks_def
proof (rule gives_for_upto)
  show "linked base p (links p 0) L f s" using assms(1) by simp
next
  fix i s assume i: "i < n" and s: "linked base p (links p i) L f s"
  have step: "gives (reflink c (reflink_from p p j) (ref_path p i)) (linked base p (links p (Suc i)) L f) s"
    if "linked base p (links p i) L f s" "j = 0 \<or> j < i" for j s
    using that i assms(2-4) unfolding links_Suc
    by (intro linked_reflink) (auto simp: reflink_from_def)
  have src: "reflink_from p p 0 = p" by (simp add: reflink_from_def)
  note step0 = step [of _ 0, unfolded src]
  show "gives (if i = 0 then reflink c p (ref_path p i)
     else if manner = 1 then reflink c (reflink_from p p (i - 1)) (ref_path p i)
     else if 1 < manner then rl_rand 0 (i - 1) (\<lambda>j. reflink c (reflink_from p p j) (ref_path p i))
     else reflink c p (ref_path p i)) (linked base p (links p (Suc i)) L f) s"
    using s step0 i assms(5) by (auto intro!: gives_rl_rand step)
qed simp

abbreviation any_len :: "nat \<Rightarrow> bool" where
  "any_len \<equiv> \<lambda>_. True"

lemma linked_ftruncate:
  "linked base p N any_len f s \<Longrightarrow> q \<in> N \<Longrightarrow> gives (rl_ftruncate q n) (linked base p N any_len f) s"
  using linked_put [of base p N any_len f s q "file_truncate n (rl_get (Named q) s)"]
  by (simp add: gives_def rl_ftruncate_def linked_env rl_env_same del: rl_get.simps rl_put.simps)

lemma linked_do_truncates:
  assumes "linked base p (links p n) any_len f s" "sz < 2 ^ 64 - 1"
  shows "gives (do_cows_on_ftruncate c p n sz) (linked base p (links p n) any_len f) s"
  unfolding do_cows_on_ftruncate_def Let_def
proof (rule gives_for, rule assms(1))
  fix i s assume "i \<in> set [0..<n]" and s: "linked base p (links p n) any_len f s"
  then have i: "ref_path p i \<in> links p n" by simp
  have "gives (truncate_size c n sz i (rl_ftruncate (ref_path p i))) (linked base p (links p n) any_len f) s"
    if "linked base p (links p n) any_len f s" for s
    using that assms(2) by (auto simp: truncate_size_def intro!: gives_rl_rand linked_ftruncate i)
  then show "gives (and_then (rl_open_errno (ref_path p i)) (truncate_size c n sz i (rl_ftruncate (ref_path p i))))
      (linked base p (links p n) any_len f) s"
    using s i by (auto intro!: op_rules linked_open_errno)
qed

text \<open>Appending returns the number of bytes, so it is stated without \<open>gives\<close>.\<close>

definition returns :: "'s op \<Rightarrow> ('s \<Rightarrow> bool) \<Rightarrow> 's \<Rightarrow> bool" where
  "returns f Q s \<longleftrightarrow> (\<exists>ret s'. f s = Inr (ret, s') \<and> 0 \<le> ret \<and> Q s')"

lemma returns_unless_neg: "gives f Q s \<Longrightarrow> (\<And>s'. Q s' \<Longrightarrow> returns g R s') \<Longrightarrow> returns (unless_neg f g) R s"
  by (auto simp: gives_def returns_def unless_neg_def)

lemma gives_returns: "gives f Q s \<Longrightarrow> returns f Q s"
  by (force simp: gives_def returns_def)

lemma linked_append:
  "linked base p N any_len f s \<Longrightarrow> q \<in> N \<Longrightarrow> returns (rl_append q bs) (linked base p N any_len f) s"
  using linked_put [of base p N any_len f s q]
  by (simp add: returns_def rl_append_def linked_env rl_env_same del: rl_get.simps rl_put.simps)

lemma linked_append_piece:
  assumes "linked base p N any_len f s" "q \<in> N" "\<not> (rc_rand c \<and> rc_odct c)"
  shows "returns (append_size c (\<lambda>n. rl_rand_buf (buf_cap c HUNK_SIZE) n (rl_append q))) (linked base p N any_len f) s"
proof -
  have buf: "returns (rl_rand_buf (buf_cap c HUNK_SIZE) n (rl_append q)) (linked base p N any_len f) s"
    if "linked base p N any_len f s" "n \<le> buf_cap c HUNK_SIZE" for n s
  proof -
    obtain bs rs where "pattern_chars n (rl_rng s) = Inr (bs, rs)" using pattern_chars_ok by blast
    with that linked_append [of base p N f "s\<lparr>rl_rng := rs\<rparr>" q bs] assms(2) show ?thesis
      by (simp add: returns_def rl_rand_buf_def)
  qed
  show ?thesis
  proof (cases "rc_rand c")
    case True
    obtain n rs where n: "rl_draw 1 HUNK_SIZE s = Inr (n, s\<lparr>rl_rng := rs\<rparr>)" "n \<le> HUNK_SIZE"
      by (rule rl_draw_ok [of 1 HUNK_SIZE s]) (auto simp: HUNK_SIZE_def)
    with buf [of "s\<lparr>rl_rng := rs\<rparr>" n] True assms(1,3) show ?thesis
      by (simp add: append_size_def rl_rand_def returns_def buf_cap_def)
  next
    case False
    with buf assms(1) show ?thesis by (auto simp: append_size_def buf_cap_def)
  qed
qed

lemma linked_do_appends:
  assumes "linked base p (links p n) any_len f s" "\<not> (rc_rand c \<and> rc_odct c)"
  shows "returns (do_appends c p n) (linked base p (links p n) any_len f) s"
proof -
  have "returns (appends_from c p ret js) (linked base p (links p n) any_len f) s"
    if "linked base p (links p n) any_len f s" "set js \<subseteq> {..<n}" "0 \<le> ret" for js s ret
    using that
  proof (induction js arbitrary: s ret)
    case Nil
    then show ?case by (simp add: returns_def)
  next
    case (Cons i js)
    have i: "ref_path p i \<in> links p n" using Cons.prems(2) by simp
    have "returns (unless_neg (rl_open_creat (ref_path p i))
        (append_size c (\<lambda>n. rl_rand_buf (buf_cap c HUNK_SIZE) n (rl_append (ref_path p i))))) (linked base p (links p n) any_len f) s"
      by (rule returns_unless_neg [OF linked_open_creat [OF Cons.prems(1)] linked_append_piece [OF _ i assms(2)]]) (use i in auto)
    then obtain r s' where r: "unless_neg (rl_open_creat (ref_path p i))
        (append_size c (\<lambda>n. rl_rand_buf (buf_cap c HUNK_SIZE) n (rl_append (ref_path p i)))) s = Inr (r, s')"
        "0 \<le> r" "linked base p (links p n) any_len f s'"
      by (auto simp: returns_def)
    with Cons.IH [OF r(3) _ r(2)] Cons.prems(2) show ?case by (simp add: returns_def Let_def)
  qed
  with assms(1) show ?thesis by (simp add: do_appends_def atLeast0LessThan)
qed

lemma linked_do_unlinks:
  assumes "linked base p (links p n) L f s" "\<And>i. i < n \<Longrightarrow> base (ref_path p i) = None"
  shows "gives (do_unlinks p n) (linked base p {} L f) s"
proof -
  have "gives (for_each [0..<n] (\<lambda>i. do_unlink (ref_path p i))) (linked base p (links p n - links p n) L f) s"
  proof (rule gives_for_upto [where Q = "\<lambda>i. linked base p (links p n - links p i) L f"])
    show "linked base p (links p n - links p 0) L f s" using assms(1) by simp
  next
    fix i s assume i: "i < n" and s: "linked base p (links p n - links p i) L f s"
    have "links p n - links p (Suc i) = links p n - links p i - {ref_path p i}" by (auto simp: links_Suc)
    then show "gives (do_unlink (ref_path p i)) (linked base p (links p n - links p (Suc i)) L f) s"
      using linked_unlink [OF s] assms(2) i by simp
  qed simp
  then show ?thesis by (simp add: do_unlinks_def)
qed

section \<open>What the comparisons accept\<close>

text \<open>Two byte lists agree as far as both go.\<close>

definition agree :: "byte list \<Rightarrow> byte list \<Rightarrow> bool" where
  "agree xs ys \<longleftrightarrow> take (length ys) xs = take (length xs) ys"

lemma agree_Nil [simp]: "agree [] ys" "agree xs []"
  by (simp_all add: agree_def)

lemma agree_nth: "agree xs ys \<longleftrightarrow> (\<forall>i < min (length xs) (length ys). xs ! i = ys ! i)"
  by (auto simp: agree_def list_eq_iff_nth_eq)

lemma agree_split:
  assumes "n \<le> length xs" "n \<le> length ys"
  shows "agree xs ys \<longleftrightarrow> take n xs = take n ys \<and> agree (drop n xs) (drop n ys)"
proof -
  have "xs = take n xs @ drop n xs" "ys = take n ys @ drop n ys" by simp_all
  moreover have "agree (as @ xs') (bs @ ys') \<longleftrightarrow> as = bs \<and> agree xs' ys'" if "length as = length bs" for as bs xs' ys'
    using that by (auto simp: agree_def)
  ultimately show ?thesis using assms by (metis length_take min.absorb2)
qed

lemma agree_same_length: "length xs = length ys \<Longrightarrow> agree xs ys \<longleftrightarrow> xs = ys"
  by (simp add: agree_def)

lemma HUNK_pos [simp]: "0 < HUNK_SIZE" "HUNK_SIZE \<noteq> 0"
  by (simp_all add: HUNK_SIZE_def)

lemma HUNK_dvd_PATTERN: "HUNK_SIZE dvd PATTERN_SIZE"
  by (simp add: HUNK_SIZE_def PATTERN_SIZE_def)

lemma dvd_room:
  assumes "m dvd a" "m dvd b" "(a :: nat) < b"
  shows "a + m \<le> b"
proof -
  have "m dvd b - a" using assms by (simp add: dvd_diff_nat)
  with assms(3) have "m \<le> b - a" by (simp add: dvd_imp_le)
  with assms(3) show ?thesis by simp
qed

lemma orig_loop_step:
  assumes "bs = take HUNK_SIZE (drop offset f)" "bs \<noteq> []" "rl_verify_pattern pat bs offset = Inr 0"
  shows "orig_loop [] f pat stale offset = (if PATTERN_SIZE \<le> offset + length bs then Inr (0, [])
    else orig_loop [] f pat (patch 0 bs stale) (offset + length bs))"
  by (subst orig_loop.simps) (simp add: assms(2,3) flip: assms(1))

lemma orig_loop_ideal:
  assumes "length pat = PATTERN_SIZE" "HUNK_SIZE dvd offset" "offset < PATTERN_SIZE"
  shows "orig_loop [] f pat stale offset = Inr (if agree (drop offset f) (drop offset pat) then 0 else -1, [])"
  using assms(2,3)
proof (induction "PATTERN_SIZE - offset" arbitrary: offset stale rule: less_induct)
  case less
  let ?n = "length (take HUNK_SIZE (drop offset f))"
  have room: "offset + HUNK_SIZE \<le> PATTERN_SIZE" using less.prems by (intro dvd_room HUNK_dvd_PATTERN)
  show ?case
  proof (cases "length f \<le> offset")
    case True
    then show ?thesis by (simp add: orig_loop.simps)
  next
    case False
    then have n: "0 < ?n" "?n \<le> HUNK_SIZE" "?n \<le> length (drop offset f)" "?n \<le> length (drop offset pat)"
      using room assms(1) HUNK_pos by auto
    have bs: "take HUNK_SIZE (drop offset f) = take ?n (drop offset f)" by (auto simp: min_def)
    have vp: "rl_verify_pattern pat (take HUNK_SIZE (drop offset f)) offset
        = Inr (if take ?n (drop offset f) = take ?n (drop offset pat) then 0 else -1)"
      using n(4) by (auto simp: rl_verify_pattern_def Let_def min_def)
    note split = agree_split [OF n(3,4)]
    show ?thesis
    proof (cases "take ?n (drop offset f) = take ?n (drop offset pat)")
      case False
      with vp split n(1) show ?thesis by (subst orig_loop.simps) auto
    next
      case eq: True
      then have vp0: "rl_verify_pattern pat (take HUNK_SIZE (drop offset f)) offset = Inr 0" using vp by simp
      have "take HUNK_SIZE (drop offset f) \<noteq> []" using n(1) unfolding length_greater_0_conv .
      note step = orig_loop_step [OF refl this vp0, of stale]
      show ?thesis
      proof (cases "?n = HUNK_SIZE")
        case True
        have "orig_loop [] f pat stale offset = (if PATTERN_SIZE \<le> offset + HUNK_SIZE then Inr (0, [])
            else orig_loop [] f pat (patch 0 (take HUNK_SIZE (drop offset f)) stale) (offset + HUNK_SIZE))"
          using step by (simp only: True)
        moreover have "agree (drop offset f) (drop offset pat) \<longleftrightarrow> agree (drop (offset + HUNK_SIZE) f) (drop (offset + HUNK_SIZE) pat)"
          using split eq True by (simp add: add.commute)
        moreover have "HUNK_SIZE dvd offset + HUNK_SIZE" using less.prems(1) by simp
        moreover have "agree (drop (offset + HUNK_SIZE) f) (drop (offset + HUNK_SIZE) pat)" if "PATTERN_SIZE \<le> offset + HUNK_SIZE"
          using that assms(1) by simp
        moreover have "PATTERN_SIZE - (offset + HUNK_SIZE) < PATTERN_SIZE - offset" using less.prems(2) HUNK_pos(1) by linarith
        ultimately show ?thesis
          using less.hyps [of "offset + HUNK_SIZE"] by (cases "PATTERN_SIZE \<le> offset + HUNK_SIZE") (simp_all only: if_True if_False not_le)
      next
        case False
        then have end_f: "offset + ?n = length f" using n(1,2) by auto
        have "\<not> PATTERN_SIZE \<le> offset + ?n" using n(2) False room by linarith
        then have "orig_loop [] f pat stale offset = orig_loop [] f pat (patch 0 (take HUNK_SIZE (drop offset f)) stale) (offset + ?n)"
          using step by (simp only: if_False)
        also have "\<dots> = Inr (0, [])" unfolding end_f by (simp add: orig_loop.simps)
        finally show ?thesis using split eq end_f by simp
      qed
    qed
  qed
qed

lemma verify_orig_file_read:
  assumes "rl_env s = []" "rl_vol s p = Some f" "length (rl_pattern s) = PATTERN_SIZE" "\<not> rc_mmap c"
  shows "verify_orig_file c p s = Inr (if agree f (rl_pattern s) then 0 else -1, s)"
proof -
  have "rl_open_ro p s = Inr (0, s)" using assms(1,2) by (simp add: rl_open_ro_def sys_open_ro_def rl_env_same)
  moreover have "orig_loop [] f (rl_pattern s) [] 0 = Inr (if agree f (rl_pattern s) then 0 else -1, [])"
    using orig_loop_ideal [OF assms(3), of 0 f "[]"] by (simp add: PATTERN_SIZE_def)
  ultimately show ?thesis using assms by (simp add: verify_orig_file_def unless_neg_def Let_def rl_env_same)
qed

lemma verify_mapping_inside:
  assumes "0 < page" "i + n \<le> length f" "i + n \<le> length pat" "\<And>j. j < n \<Longrightarrow> f ! (i + j) = pat ! (i + j)"
  shows "verify_mapping page f pat i n = Inr 0"
  using assms(2-)
proof (induction n arbitrary: i)
  case (Suc n)
  have "map_load page f i 1 = Inr [f ! i]"
    using Suc.prems(1) assms(1) by (simp add: map_load_inside take_Suc_conv_app_nth hd_drop_conv_nth take_Suc)
  moreover have "f ! i = pat ! i" using Suc.prems(3) [of 0] by simp
  moreover have "verify_mapping page f pat (Suc i) n = Inr 0"
    using Suc.prems Suc.prems(3) [of "Suc j" for j] by (intro Suc.IH) auto
  ultimately show ?case using Suc.prems(2) by simp
qed simp

lemma repeats_agree: "repeats pat f \<Longrightarrow> length pat = PATTERN_SIZE \<Longrightarrow> agree f pat"
  by (auto simp: agree_nth repeats_def)

lemma linked_verify:
  assumes "linked base p N L f s" "rc_mmap c \<Longrightarrow> 0 < rc_page c \<and> rc_file_size c \<le> length f"
  shows "gives (verify_orig_file c p) (linked base p N L f) s"
proof (cases "rc_mmap c")
  case True
  let ?n = "if PATTERN_SIZE < rc_file_size c then PATTERN_SIZE else rc_file_size c"
  from assms(1) have s: "rl_env s = []" "rl_vol s p = Some f" "length (rl_pattern s) = PATTERN_SIZE" "repeats (rl_pattern s) f"
    by (auto simp: linked_def ready_def)
  have "verify_mapping (rc_page c) f (rl_pattern s) 0 ?n = Inr 0"
    using True assms(2) s(3,4) by (intro verify_mapping_inside) (auto simp: repeats_def split: if_splits)
  moreover obtain m where "mmap_size_loop (rc_page c) (rc_page c) ?n = Inr m" using mmap_size_loop_ok assms(2) True by blast
  moreover have "rl_open_ro p s = Inr (0, s)" using s(1,2) by (simp add: rl_open_ro_def sys_open_ro_def rl_env_same)
  ultimately show ?thesis
    using True s assms(1) by (simp only: verify_orig_file_def unless_neg_def gives_def Let_def) (simp add: rl_env_same)
next
  case False
  from assms(1) have s: "rl_env s = []" "rl_vol s p = Some f" "length (rl_pattern s) = PATTERN_SIZE" "repeats (rl_pattern s) f"
    by (auto simp: linked_def ready_def)
  from assms(1) repeats_agree [OF s(4,3)] show ?thesis by (simp add: gives_def verify_orig_file_read [OF s(1-3) False])
qed

text \<open>
  Two files are taken for equal when they agree as far as both go and the shorter one ends
  with the longer one or at the end of a hunk.
\<close>

definition pair_equal :: "content \<Rightarrow> content \<Rightarrow> bool" where
  "pair_equal f g \<longleftrightarrow> agree f g \<and> (length f = length g \<or> HUNK_SIZE dvd min (length f) (length g))"

lemma memcmp_zero: "length xs = length ys \<Longrightarrow> memcmp xs ys = 0 \<longleftrightarrow> xs = ys"
  by (induction xs ys rule: memcmp.induct) auto

lemma pair_equal_split:
  assumes "HUNK_SIZE \<le> length f" "HUNK_SIZE \<le> length g"
  shows "pair_equal f g \<longleftrightarrow> take HUNK_SIZE f = take HUNK_SIZE g \<and> pair_equal (drop HUNK_SIZE f) (drop HUNK_SIZE g)"
proof -
  have "min (length f) (length g) = min (length (drop HUNK_SIZE f)) (length (drop HUNK_SIZE g)) + HUNK_SIZE"
    using assms by (simp add: min_def) linarith
  moreover have "length f = length g \<longleftrightarrow> length (drop HUNK_SIZE f) = length (drop HUNK_SIZE g)" using assms by auto
  ultimately show ?thesis using agree_split [OF assms] by (simp add: pair_equal_def)
qed

lemma pair_equal_short:
  assumes "length f < HUNK_SIZE \<or> length g < HUNK_SIZE" "f \<noteq> []" "g \<noteq> []"
  shows "pair_equal f g \<longleftrightarrow> f = g"
proof -
  have "0 < min (length f) (length g)" "min (length f) (length g) < HUNK_SIZE" using assms by auto
  then have "\<not> HUNK_SIZE dvd min (length f) (length g)" using nat_dvd_not_less by blast
  then show ?thesis by (auto simp: pair_equal_def agree_same_length)
qed

lemma pair_loop_ideal:
  "\<exists>r. pair_loop [] f g i i = Inr (r, []) \<and> (r = 0 \<longleftrightarrow> pair_equal (drop i f) (drop i g))"
proof (induction "length f - i" arbitrary: i rule: less_induct)
  case less
  define xs ys where "xs = take HUNK_SIZE (drop i f)" and "ys = take HUNK_SIZE (drop i g)"
  have loop: "pair_loop [] f g i i = (if xs = [] \<or> ys = [] then Inr (0, []) else if length xs \<noteq> length ys then Inr (1, [])
      else if memcmp xs ys \<noteq> 0 then Inr (memcmp xs ys, []) else pair_loop [] f g (i + length xs) (i + length ys))"
    by (subst pair_loop.simps) (simp flip: xs_def ys_def)
  consider "drop i f = []" | "drop i g = []"
    | "drop i f \<noteq> []" "drop i g \<noteq> []" "HUNK_SIZE \<le> length f - i" "HUNK_SIZE \<le> length g - i"
    | "drop i f \<noteq> []" "drop i g \<noteq> []" "length f - i < HUNK_SIZE \<or> length g - i < HUNK_SIZE" by linarith
  then show ?case
  proof cases
    case 1
    then show ?thesis unfolding loop by (simp add: xs_def pair_equal_def)
  next
    case 2
    then show ?thesis unfolding loop by (simp add: ys_def pair_equal_def)
  next
    case 3
    then have len: "length xs = HUNK_SIZE" "length ys = HUNK_SIZE" by (simp_all add: xs_def ys_def)
    then have "xs \<noteq> []" "ys \<noteq> []" using HUNK_pos by auto
    then have "pair_loop [] f g i i = (if xs = ys then pair_loop [] f g (i + HUNK_SIZE) (i + HUNK_SIZE) else Inr (memcmp xs ys, []))"
      unfolding loop using len by (simp add: memcmp_zero)
    moreover have "pair_equal (drop i f) (drop i g) \<longleftrightarrow> xs = ys \<and> pair_equal (drop (i + HUNK_SIZE) f) (drop (i + HUNK_SIZE) g)"
      using 3 pair_equal_split [of "drop i f" "drop i g"] by (simp add: xs_def ys_def add.commute)
    moreover have "length f - (i + HUNK_SIZE) < length f - i" using 3(3) HUNK_pos(1) by linarith
    ultimately show ?thesis using less.hyps [of "i + HUNK_SIZE"] memcmp_zero [of xs ys] len by (cases "xs = ys") auto
  next
    case 4
    have eq: "pair_equal (drop i f) (drop i g) \<longleftrightarrow> drop i f = drop i g" using 4 by (intro pair_equal_short) auto
    have ne: "xs \<noteq> []" "ys \<noteq> []" using 4(1,2) by (simp_all add: xs_def ys_def)
    show ?thesis
    proof (cases "length xs = length ys")
      case False
      then have "drop i f \<noteq> drop i g" by (auto simp: xs_def ys_def simp del: length_take)
      with ne eq False show ?thesis unfolding loop by simp
    next
      case True
      have whole: "xs = drop i f" "ys = drop i g" using 4(3) True by (auto simp: xs_def ys_def min_def split: if_splits)
      have "pair_loop [] f g (i + length xs) (i + length ys) = Inr (0, [])"
        using whole by (subst pair_loop.simps) simp
      with ne eq True whole memcmp_zero [OF True] show ?thesis unfolding loop by auto
    qed
  qed
qed

section \<open>Preparing the original\<close>

text \<open>The first \<open>off\<close> bytes of the file are the pattern over and over.\<close>

definition prepared :: "fs \<Rightarrow> string \<Rightarrow> byte list \<Rightarrow> nat \<Rightarrow> nat \<Rightarrow> rl_state \<Rightarrow> bool" where
  "prepared base p pat sz off s \<longleftrightarrow> rl_env s = [] \<and> rl_pattern s = pat \<and> length pat = PATTERN_SIZE
     \<and> (\<exists>f. rl_vol s p = Some f \<and> off \<le> length f \<and> length f \<le> sz \<and> (\<forall>i < off. f ! i = pat ! (i mod PATTERN_SIZE)))
     \<and> (\<forall>q. q \<noteq> p \<longrightarrow> rl_vol s q = base q)"

definition continues :: "byte list \<Rightarrow> nat \<Rightarrow> byte list \<Rightarrow> bool" where
  "continues pat off bs \<longleftrightarrow> (\<forall>j < length bs. bs ! j = pat ! ((off + j) mod PATTERN_SIZE))"

lemma prepared_upd [simp]:
  "prepared base p pat sz off (s\<lparr>rl_rng := rs\<rparr>) = prepared base p pat sz off s"
  "prepared base p pat sz off (s\<lparr>rl_anon := f\<rparr>) = prepared base p pat sz off s"
  by (simp_all add: prepared_def)

lemma prepared_write:
  assumes "prepared base p pat sz off s" "continues pat off bs" "off + length bs \<le> sz"
  shows "prepared base p pat sz (off + length bs) (rl_put (Named p) (file_write off bs (rl_get (Named p) s)) s)"
proof -
  obtain f where f: "rl_vol s p = Some f" "off \<le> length f" "length f \<le> sz" "\<And>i. i < off \<Longrightarrow> f ! i = pat ! (i mod PATTERN_SIZE)"
    using assms(1) by (auto simp: prepared_def)
  have len: "off + length bs \<le> length (file_write off bs f)" "length (file_write off bs f) \<le> sz"
    using f(2,3) assms(3) by (auto simp: buf_simps)
  have "file_write off bs f ! i = pat ! (i mod PATTERN_SIZE)" if "i < off + length bs" for i
  proof (cases "i < off")
    case True
    with f that len show ?thesis by (simp add: nth_file_write file_byte_def)
  next
    case False
    with assms(2) that have "bs ! (i - off) = pat ! ((off + (i - off)) mod PATTERN_SIZE)" by (auto simp: continues_def)
    with False that len(1) show ?thesis by (simp add: nth_file_write)
  qed
  with assms(1) f(1) len show ?thesis by (auto simp: prepared_def)
qed

lemma gives_write_all:
  assumes "prepared base p pat sz off s" "continues pat off bs" "off + length bs \<le> sz" "set fds \<subseteq> {Nameless}"
  shows "gives (rl_write_all c (Named p # fds) bs off) (prepared base p pat sz (off + length bs)) s"
proof -
  have "gives (rl_write_all c fds bs off) (prepared base p pat sz n) s'" if "prepared base p pat sz n s'" for n s'
    using assms(4) that
  proof (induction fds arbitrary: s')
    case (Cons fd fds)
    then have "rl_env s' = []" "fd = Nameless" by (auto simp: prepared_def)
    with Cons show ?case by (auto intro!: op_rules simp: gives_def unless_neg_def rl_write_at_ideal)
  qed (simp add: op_rules)
  moreover have "gives (rl_write_at c (Named p) bs off) (prepared base p pat sz (off + length bs)) s"
    using prepared_write [OF assms(1-3)] assms(1)
    by (simp add: gives_def rl_write_at_ideal prepared_def del: rl_put.simps rl_get.simps)
  ultimately show ?thesis unfolding rl_write_all.simps by (blast intro: gives_unless_neg)
qed

lemma gives_pieces:
  assumes "prepared base p pat sz off s" "A off" "off \<le> sz" "set fds \<subseteq> {Nameless}"
    and pick: "\<And>s. 0 < sz \<Longrightarrow> \<exists>n rs. pick s = Inr (n, s\<lparr>rl_rng := rs\<rparr>) \<and> 0 < n"
    and align: "\<And>s n s' off. pick s = Inr (n, s') \<Longrightarrow> A off \<Longrightarrow> off + n \<le> sz \<Longrightarrow> A (off + n)"
    and src: "\<And>s n s' k off. pick s = Inr (n, s') \<Longrightarrow> A off \<Longrightarrow> k \<le> n \<Longrightarrow> off + k \<le> sz \<Longrightarrow> rl_pattern s' = pat
       \<Longrightarrow> \<exists>bs. src s' off k = Inr bs \<and> length bs = k \<and> continues pat off bs"
  shows "gives (rl_pieces c (Named p # fds) pick src sz off) (prepared base p pat sz sz) s"
  using assms(1,3) assms(2)
proof (induction "sz - off" arbitrary: off s rule: less_induct)
  case less
  show ?case
  proof (cases "off < sz")
    case True
    obtain n rs where n: "pick s = Inr (n, s\<lparr>rl_rng := rs\<rparr>)" "0 < n" using pick [of s] True by auto
    define k where "k = (if sz < off + n then sz - off else n)"
    have k: "0 < k" "k \<le> n" "off + k \<le> sz" using True n(2) by (auto simp: k_def)
    define s1 where "s1 = s\<lparr>rl_rng := rs\<rparr>"
    have s1: "prepared base p pat sz off s1" using less.prems(1) by (simp add: s1_def)
    obtain bs where bs: "src s1 off k = Inr bs" "length bs = k" "continues pat off bs"
      using src [OF n(1) less.prems(3) k(2,3)] less.prems(1) by (auto simp: prepared_def s1_def)
    obtain s2 where s2: "rl_write_all c (Named p # fds) bs off s1 = Inr (0, s2)" "prepared base p pat sz (off + k) s2"
      using gives_write_all [OF s1 bs(3) _ assms(4)] bs(2) k(3) by (auto simp: gives_def)
    have loop: "rl_pieces c (Named p # fds) pick src sz off s = rl_pieces c (Named p # fds) pick src sz (off + k) s2"
      using True n(1) k(1) bs(1) s2(1) by (subst rl_pieces.simps) (simp add: Let_def flip: k_def s1_def)
    show ?thesis
    proof (cases "off + k = sz")
      case True
      with loop s2(2) show ?thesis by (simp add: gives_def rl_pieces.simps)
    next
      case False
      with k have "k = n" by (auto simp: k_def split: if_splits)
      with less.hyps [of "off + k" s2] s2(2) k(1,3) True align [OF n(1) less.prems(3)] loop show ?thesis by (simp add: gives_def)
    qed
  qed (use less.prems in \<open>auto simp: gives_def rl_pieces.simps\<close>)
qed

text \<open>The second file comes and loses its name again.\<close>

lemma tmp_created:
  assumes "prepared base p pat sz off s" "base (tmp_path p) = None"
  obtains s1 s2 where "rl_open_creat (tmp_path p) s = Inr (0, s1)" "rl_unname (tmp_path p) True k s1 = k Nameless s2"
    "prepared base p pat sz off s2"
proof -
  let ?t = "tmp_path p"
  from assms have s: "rl_env s = []" "rl_vol s ?t = None" by (auto simp: prepared_def)
  let ?s1 = "s\<lparr>rl_vol := (rl_vol s)(?t \<mapsto> [])\<rparr>"
  let ?s2 = "s\<lparr>rl_vol := (rl_vol s)(?t := None), rl_anon := []\<rparr>"
  have "rl_open_creat ?t s = Inr (0, ?s1)" using s by (cases s) (simp add: rl_open_creat_def sys_open_creat_def)
  moreover have "rl_unname ?t True k ?s1 = k Nameless ?s2" using s by (cases s) (simp add: rl_unname_def do_unlink_def)
  moreover have "prepared base p pat sz off ?s2" using assms by (auto simp: prepared_def)
  ultimately show thesis by (rule that)
qed

lemma gives_tmp:
  assumes "prepared base p pat sz off s" "base (tmp_path p) = None"
    and "\<And>s. prepared base p pat sz off s \<Longrightarrow> gives (k Nameless) Q s"
  shows "gives (with_tmp p k) Q s" "gives (unless_neg (rl_open_creat (tmp_path p)) (rl_unname (tmp_path p) True k)) Q s"
proof -
  obtain s1 s2 where s: "rl_open_creat (tmp_path p) s = Inr (0, s1)" "rl_unname (tmp_path p) True k s1 = k Nameless s2"
    "prepared base p pat sz off s2" by (rule tmp_created [OF assms(1,2)])
  from assms(3) [OF s(3)] show "gives (with_tmp p k) Q s" by (simp add: gives_def with_tmp_def s(1,2))
  from assms(3) [OF s(3)] show "gives (unless_neg (rl_open_creat (tmp_path p)) (rl_unname (tmp_path p) True k)) Q s"
    by (simp add: gives_def unless_neg_def s(1,2))
qed

definition zero_from :: "nat \<Rightarrow> byte list \<Rightarrow> bool" where
  "zero_from n pat \<longleftrightarrow> (\<forall>i < length pat. n \<le> i \<longrightarrow> pat ! i = 0)"

lemma prepared_fill:
  assumes "rl_env s = []" "rl_vol s p = Some g" "length g \<le> sz" "\<And>q. q \<noteq> p \<Longrightarrow> rl_vol s q = base q" "n \<le> PATTERN_SIZE"
  shows "gives (rl_fill_pattern n) (\<lambda>s'. \<exists>pat. zero_from n pat \<and> prepared base p pat sz 0 s') s"
proof -
  have "gives (rl_rand_buf PATTERN_SIZE n (\<lambda>cs s'. Inr (0, s'\<lparr>rl_pattern := patch 0 cs (replicate PATTERN_SIZE 0)\<rparr>)))
      (\<lambda>s'. \<exists>pat. zero_from n pat \<and> prepared base p pat sz 0 s') s"
    using assms by (intro gives_rand_buf) (auto simp: gives_def prepared_def zero_from_def buf_simps)
  then show ?thesis by (simp add: gives_def rl_fill_pattern_def)
qed

lemma buf_slice_ok:
  assumes "length pat = PATTERN_SIZE" "from + k \<le> PATTERN_SIZE" "off mod PATTERN_SIZE = from"
  shows "\<exists>bs. buf_slice pat from k = Inr bs \<and> length bs = k \<and> continues pat off bs"
proof -
  have "(off + j) mod PATTERN_SIZE = from + j" if "j < k" for j
    using that assms(2,3) by (metis (no_types) add_less_cancel_left mod_add_left_eq mod_less order_less_le_trans)
  with assms(1,2) show ?thesis by (auto simp: buf_slice_def continues_def)
qed

lemma gives_huge:
  assumes "prepared base p pat sz 0 s" "base (tmp_path p) = None" "PATTERN_SIZE < sz"
  shows "gives (if once then rl_pieces c [Named p] (always PATTERN_SIZE) (\<lambda>s off n. buf_slice (rl_pattern s) 0 n) sz 0
     else with_tmp p (\<lambda>fdt. rl_pieces c [Named p, fdt] (always M_SIZE)
            (\<lambda>s off n. buf_slice (rl_pattern s) (off mod PATTERN_SIZE) n) sz 0)) (prepared base p pat sz sz) s"
proof -
  have pat: "length pat = PATTERN_SIZE" using assms(1) by (simp add: prepared_def)
  have P: "0 < PATTERN_SIZE" "0 < M_SIZE" "M_SIZE dvd PATTERN_SIZE" by (simp_all add: PATTERN_SIZE_def M_SIZE_def)
  have pieces: "gives (rl_pieces c (Named p # fds) (always d) (\<lambda>s off n. buf_slice (rl_pattern s) (src off) n) sz 0)
      (prepared base p pat sz sz) s"
    if "prepared base p pat sz 0 s" "0 < d" "set fds \<subseteq> {Nameless}"
      "\<And>off k. d dvd off \<Longrightarrow> k \<le> d \<Longrightarrow> src off + k \<le> PATTERN_SIZE \<and> off mod PATTERN_SIZE = src off" for d fds src s
  proof (rule gives_pieces [where A = "(dvd) d", OF that(1) _ _ that(3)])
    show "\<exists>n rs. always d s = Inr (n, s\<lparr>rl_rng := rs\<rparr>) \<and> 0 < n" for s
      using that(2) by (intro exI [of _ d] exI [of _ "rl_rng s"]) (simp add: always_def)
  qed (use that(4) buf_slice_ok [OF pat] in \<open>auto simp: always_def\<close>)
  have "gives (rl_pieces c [Named p] (always PATTERN_SIZE) (\<lambda>s off n. buf_slice (rl_pattern s) 0 n) sz 0) (prepared base p pat sz sz) s"
    using pieces [OF assms(1) P(1), of "[]" "\<lambda>_. 0"] by auto
  moreover have "off mod PATTERN_SIZE + k \<le> PATTERN_SIZE" if "M_SIZE dvd off" "k \<le> M_SIZE" for off k
    using dvd_room [of M_SIZE "off mod PATTERN_SIZE" PATTERN_SIZE] that P by (simp add: dvd_mod)
  then have "gives (rl_pieces c [Named p, Nameless] (always M_SIZE) (\<lambda>s off n. buf_slice (rl_pattern s) (off mod PATTERN_SIZE) n) sz 0)
      (prepared base p pat sz sz) s" if "prepared base p pat sz 0 s" for s
    using pieces [OF that P(2), of "[Nameless]" "\<lambda>off. off mod PATTERN_SIZE"] by auto
  ultimately show ?thesis using gives_tmp(1) [OF assms(1,2)] by auto
qed

lemma prep_piece_ok:
  assumes "0 < sz" "sz \<le> PATTERN_SIZE"
  shows "\<exists>n rs. prep_piece c sz s = Inr (n, s\<lparr>rl_rng := rs\<rparr>) \<and> 0 < n"
proof (cases "rc_rand c")
  case True
  define mx where "mx = (if HUNK_SIZE * 2 \<le> sz then HUNK_SIZE * 2 else sz)"
  have "1 \<le> mx" "mx < 2 ^ 64 - 1" using assms by (auto simp: mx_def HUNK_SIZE_def PATTERN_SIZE_def)
  then obtain n rs where "rl_draw 1 mx s = Inr (n, s\<lparr>rl_rng := rs\<rparr>)" "1 \<le> n" by (rule rl_draw_ok)
  with True show ?thesis by (auto simp: prep_piece_def mx_def split: if_splits)
next
  case False
  then show ?thesis by (intro exI [of _ HUNK_SIZE] exI [of _ "rl_rng s"]) (simp add: prep_piece_def)
qed

lemma gives_within:
  assumes "prepared base p pat sz 0 s" "base (tmp_path p) = None" "sz \<le> PATTERN_SIZE"
  shows "gives (if once then unless_neg (\<lambda>s. case buf_slice (rl_pattern s) 0 sz of Inl e \<Rightarrow> Inl e
         | Inr bs \<Rightarrow> rl_write_at c (Named p) bs 0 s) all_done
     else unless_neg (rl_open_creat (tmp_path p)) (rl_unname (tmp_path p) True
       (\<lambda>fdt. rl_pieces c [Named p, fdt] (prep_piece c sz) (\<lambda>s off n. buf_slice (rl_pattern s) off n) sz 0)))
     (prepared base p pat sz sz) s"
proof -
  have pat: "length pat = PATTERN_SIZE" "rl_pattern s = pat" using assms(1) by (simp_all add: prepared_def)
  obtain bs where bs: "buf_slice pat 0 sz = Inr bs" "length bs = sz" "continues pat 0 bs"
    using buf_slice_ok [OF pat(1), of 0 sz 0] assms(3) by auto
  have "gives (rl_write_all c [Named p] bs 0) (prepared base p pat sz sz) s"
    using gives_write_all [OF assms(1) bs(3), of "[]"] bs(2) by simp
  then have "gives (unless_neg (\<lambda>s. case buf_slice (rl_pattern s) 0 sz of Inl e \<Rightarrow> Inl e
         | Inr bs \<Rightarrow> rl_write_at c (Named p) bs 0 s) all_done) (prepared base p pat sz sz) s"
    using bs(1) pat(2) by (simp add: gives_def unless_neg_def)
  moreover have "gives (rl_pieces c [Named p, Nameless] (prep_piece c sz) (\<lambda>s off n. buf_slice (rl_pattern s) off n) sz 0)
      (prepared base p pat sz sz) s" if "prepared base p pat sz 0 s" for s
  proof (rule gives_pieces [where A = "\<lambda>_. True", OF that])
    fix s' :: rl_state and k off assume "off + k \<le> sz" "rl_pattern s' = pat"
    moreover have "off mod PATTERN_SIZE = off \<or> k = 0" using assms(3) calculation by (auto intro: mod_less)
    ultimately show "\<exists>bs. buf_slice (rl_pattern s') off k = Inr bs \<and> length bs = k \<and> continues pat off bs"
      using buf_slice_ok [OF pat(1), of off k off] assms(3) pat(1) by (auto simp: buf_slice_def continues_def)
  qed (use assms(3) prep_piece_ok in auto)
  ultimately show ?thesis using gives_tmp(2) [OF assms(1,2)] by auto
qed

text \<open>A file of the given size with the pattern over and over; nothing else has changed.\<close>

lemma gives_prep:
  assumes "rl_env s = []" "\<And>q. q \<noteq> p \<Longrightarrow> rl_vol s q = base q" "\<And>g. rl_vol s p = Some g \<Longrightarrow> length g \<le> sz"
    and "base (tmp_path p) = None"
  shows "gives (prep_orig_file c p sz once) (\<lambda>s'. \<exists>f. length f = sz \<and> linked base p {} L f s' \<and> zero_from sz (rl_pattern s')) s"
proof -
  obtain g where "rl_open_creat p s = Inr (0, s\<lparr>rl_vol := (rl_vol s)(p \<mapsto> g)\<rparr>)" "length g \<le> sz"
    using assms(1,3) by (cases "rl_vol s p"; cases s) (auto simp: rl_open_creat_def sys_open_creat_def)
  then have opened: "gives (rl_open_creat p) (\<lambda>s'. rl_env s' = [] \<and> (\<exists>g. rl_vol s' p = Some g \<and> length g \<le> sz)
      \<and> (\<forall>q. q \<noteq> p \<longrightarrow> rl_vol s' q = base q)) s"
    using assms(1,2) by (auto simp: gives_def)
  have "gives (prep_orig_file c p sz once) (\<lambda>s'. \<exists>pat. zero_from sz pat \<and> prepared base p pat sz sz s') s"
    unfolding prep_orig_file_def
  proof (rule gives_unless_neg [OF opened], elim conjE exE)
    fix s' :: rl_state and g assume s': "rl_env s' = []" "\<forall>q. q \<noteq> p \<longrightarrow> rl_vol s' q = base q" "rl_vol s' p = Some g" "length g \<le> sz"
    have fill: "gives (rl_fill_pattern n) (\<lambda>s'. \<exists>pat. zero_from n pat \<and> prepared base p pat sz 0 s') s'" if "n \<le> PATTERN_SIZE" for n
      using s' that by (intro prepared_fill) auto
    show "gives (if PATTERN_SIZE < sz then prep_huge c p sz once else prep_within c p sz once) (\<lambda>s'. \<exists>pat. zero_from sz pat \<and> prepared base p pat sz sz s') s'"
    proof (cases "PATTERN_SIZE < sz")
      case True
      have "gives (prep_huge c p sz once) (\<lambda>s'. \<exists>pat. zero_from sz pat \<and> prepared base p pat sz sz s') s'"
        unfolding prep_huge_def
        by (rule gives_then [OF fill], simp, elim exE conjE, rule gives_mono, erule gives_huge) (use True assms(4) in \<open>auto simp: zero_from_def prepared_def\<close>)
      with True show ?thesis by simp
    next
      case False
      have "gives (prep_within c p sz once) (\<lambda>s'. \<exists>pat. zero_from sz pat \<and> prepared base p pat sz sz s') s'"
        unfolding prep_within_def
        by (rule gives_then [OF fill], use False in simp, elim exE conjE, rule gives_mono, erule gives_within) (use False assms(4) in auto)
      with False show ?thesis by simp
    qed
  qed
  then show ?thesis
    by (rule gives_mono) (auto simp: prepared_def linked_def ready_def repeats_def)
qed

end
