(* ===== verification/Reflink_Tests.thy ===== *)
theory Reflink_Tests
  imports Reflink_Laws
begin

text \<open>
  \<open>programs/reflink_tests/reflink_test.c\<close>: the basic test and the boundary test, as the sequences of
  operations the code has, and the properties of the reflink tests.
\<close>

section \<open>The tests\<close>

text \<open>\<open>ret = f; should_exit(ret)\<close>: only a negative value ends the program, with status 1.\<close>

definition rl_should_exit :: "rl_op \<Rightarrow> rl_op" where
  "rl_should_exit f s = (case f s of Inl e \<Rightarrow> Inl e | Inr (ret, s') \<Rightarrow> Inr (if ret < 0 then 1 else 0, s'))"

definition exits_all :: "rl_op list \<Rightarrow> rl_op" where
  "exits_all fs = foldr (\<lambda>f. and_then (rl_should_exit f)) fs all_done"

definition basic_cows :: "rl_conf \<Rightarrow> string \<Rightarrow> rl_op list" where
  "basic_cows c p = (let cow = do_cows_on_write c p (rc_ref_counts c) (rc_file_size c); verify = verify_orig_file c p in
     if rc_rand c then [cow HUNK_SIZE, verify]
     else [cow (rc_block c), verify, cow (rc_cluster c), verify, cow HUNK_SIZE, verify])"

definition basic_round :: "rl_conf \<Rightarrow> string \<Rightarrow> bool \<Rightarrow> rl_op" where
  "basic_round c p once = (let n = rc_ref_counts c; sz = rc_file_size c; verify = verify_orig_file c p in
     exits_all ([prep_orig_file c p sz once, do_reflinks c p p n 0, do_reads_on_reflinks c p n sz (rc_cluster c)] @ basic_cows c p @
       [do_reads_on_reflinks c p n sz (rc_cluster c), do_unlinks p n, verify,
        do_reflinks c p p n 1, do_cows_on_ftruncate c p n sz, verify, do_unlinks p n, verify,
        do_reflinks c p p n 2, do_appends c p n, verify, do_unlinks p n, verify, do_unlink p]))"

definition basic_orig :: "rl_conf \<Rightarrow> string" where
  "basic_orig c = rc_workplace c @ ''/original_basic_refile''"

definition basic_test :: "rl_conf \<Rightarrow> rl_op" where
  "basic_test c = for_each [0..<2] (\<lambda>i. basic_round c (basic_orig c) (i \<noteq> 0))"

text \<open>
  The boundary test: a byte of a reflink is overwritten, the reflink removed, for originals of growing
  sizes. \<open>pos\<close> chooses the offset, after the reflink has been made.
\<close>

definition rl_write_at_file :: "rl_conf \<Rightarrow> string \<Rightarrow> byte list \<Rightarrow> nat \<Rightarrow> rl_op" where
  "rl_write_at_file c p bs off = unless_neg (rl_open_creat p) (rl_write_at c (Named p) bs off)"

definition rl_truncate :: "string \<Rightarrow> nat \<Rightarrow> rl_op" where
  "rl_truncate p n s = (case sys_call (rl_env s) of
     (Some e, env') \<Rightarrow> Inr (-1, s\<lparr>rl_env := env'\<rparr>)
   | (None, env') \<Rightarrow> (case rl_vol s p of
        None \<Rightarrow> Inr (-1, s\<lparr>rl_env := env'\<rparr>)
      | Some f \<Rightarrow> Inr (0, rl_put (Named p) (file_truncate n f) (s\<lparr>rl_env := env'\<rparr>))))"

definition cow_byte :: "rl_conf \<Rightarrow> string \<Rightarrow> nat \<Rightarrow> rl_op" where
  "cow_byte c dest off = rl_rand_buf (HUNK_SIZE * 2) 1 (\<lambda>bs. rl_write_at_file c dest bs off)"

definition one_cow :: "rl_conf \<Rightarrow> string \<Rightarrow> string \<Rightarrow> ((nat \<Rightarrow> rl_op) \<Rightarrow> rl_op) \<Rightarrow> rl_op \<Rightarrow> rl_op" where
  "one_cow c p dest pos after = and_then (reflink c p dest) (and_then (pos (cow_byte c dest)) (and_then after (do_unlink dest)))"

definition at_offset :: "nat \<Rightarrow> (nat \<Rightarrow> rl_op) \<Rightarrow> rl_op" where
  "at_offset off k = k off"

text \<open>One byte in every megabyte of a file of one gigabyte.\<close>

definition cow_all_over :: "(nat \<Rightarrow> rl_op) \<Rightarrow> rl_op" where
  "cow_all_over act = for_each [0..<G_SIZE div M_SIZE] (\<lambda>j. rl_rand (j * M_SIZE) (j * M_SIZE + M_SIZE - 1) act)"

text \<open>The contiguous gigabyte: in the last round the byte of the round before is written again.\<close>

definition cow_reused :: "rl_conf \<Rightarrow> string \<Rightarrow> string \<Rightarrow> rl_op" where
  "cow_reused c p dest = and_then (reflink c p dest) (rl_rand 0 (G_SIZE - 1) (\<lambda>off.
     rl_rand_buf (HUNK_SIZE * 2) 1 (\<lambda>bs. and_then (rl_write_at_file c dest bs off) (and_then (do_unlink dest)
       (and_then (reflink c p dest) (and_then (cow_all_over (rl_write_at_file c dest bs)) (do_unlink dest)))))))"

definition boundary_small :: "rl_conf \<Rightarrow> string \<Rightarrow> string \<Rightarrow> rl_op" where
  "boundary_small c p dest = (let mx = rc_max_inline c in
     and_then (prep_orig_file c p (mx + 1) True)
     (and_then (one_cow c p dest (at_offset 0) (ignoring (rl_truncate dest 0)))
     (and_then (one_cow c p dest (at_offset mx) (ignoring (rl_truncate dest 0)))
     (and_then (one_cow c p dest (rl_rand 0 mx) (ignoring (rl_truncate dest mx)))
     (verify_orig_file c p)))))"

definition boundary_medium :: "rl_conf \<Rightarrow> string \<Rightarrow> string \<Rightarrow> nat \<Rightarrow> rl_op" where
  "boundary_medium c p dest sz = and_then (prep_orig_file c p sz True)
     (and_then (one_cow c p dest (rl_rand 0 (sz - 1)) all_done) (verify_orig_file c p))"

definition boundary_large :: "rl_conf \<Rightarrow> string \<Rightarrow> string \<Rightarrow> rl_op" where
  "boundary_large c p dest = and_then (prep_orig_file c p G_SIZE True)
     (and_then (one_cow c p dest (at_offset 0) all_done)
     (and_then (one_cow c p dest (at_offset (G_SIZE - 1)) all_done)
     (and_then (cow_reused c p dest)
     (and_then (prep_orig_file c p G_SIZE False)
     (and_then (one_cow c p dest (at_offset 0) all_done)
     (and_then (one_cow c p dest (at_offset (G_SIZE - 1)) all_done)
     (and_then (one_cow c p dest (rl_rand 0 (G_SIZE - 1)) all_done)
     (and_then (reflink c p dest) (and_then (cow_all_over (cow_byte c dest)) (and_then (do_unlink dest) (do_unlink p)))))))))))"

definition boundary_orig :: "rl_conf \<Rightarrow> string" where
  "boundary_orig c = rc_workplace c @ ''/original_bound_refile''"

definition boundary_test :: "rl_conf \<Rightarrow> rl_op" where
  "boundary_test c = (let p = boundary_orig c; dest = p @ ''_target'' in
     rl_should_exit (and_then (boundary_small c p dest)
       (and_then (rl_rand (rc_max_inline c + 1) M_SIZE (boundary_medium c p dest))
       (and_then (boundary_medium c p dest M_SIZE) (boundary_large c p dest)))))"

section \<open>Lemmas\<close>

lemma gives_should_exit: "returns f Q s \<Longrightarrow> gives (rl_should_exit f) Q s"
  by (auto simp: gives_def returns_def rl_should_exit_def)

lemma exits_Nil: "Q s \<Longrightarrow> gives (exits_all []) Q s"
  by (simp add: exits_all_def gives_done)

lemma exits_Cons: "returns f Q s \<Longrightarrow> (\<And>s'. Q s' \<Longrightarrow> gives (exits_all fs) R s') \<Longrightarrow> gives (exits_all (f # fs)) R s"
  by (auto simp: exits_all_def intro: gives_then gives_should_exit)

lemma exits_append:
  "gives (exits_all fs) Q s \<Longrightarrow> (\<And>s'. Q s' \<Longrightarrow> gives (exits_all gs) R s') \<Longrightarrow> gives (exits_all (fs @ gs)) R s"
proof (induction fs arbitrary: s)
  case (Cons f fs)
  then show ?case
    by (cases "rl_should_exit f s") (auto simp: exits_all_def gives_def and_then_def split: if_splits)
qed (auto simp: exits_all_def gives_def all_done_def)

lemmas exits_step = exits_Cons [OF gives_returns]

lemma linked_none: "linked base p {} L f s \<Longrightarrow> linked base p {} L' f s"
  by (simp add: linked_def)

text \<open>What the tests need of the configuration.\<close>

definition conf_ok :: "rl_conf \<Rightarrow> bool" where
  "conf_ok c \<longleftrightarrow> 0 < rc_page c \<and> \<not> (rc_rand c \<and> rc_odct c) \<and> rc_file_size c < 2 ^ 64 - 1 \<and> rc_block c < 2 ^ 64 - 1
     \<and> rc_cluster c < 2 ^ 64 - 1 \<and> rc_ref_counts c < 2 ^ 64"

lemma gives_basic_cows:
  assumes "conf_ok c" "linked base p (links p (rc_ref_counts c)) ((\<le>) (rc_file_size c)) f s" "length f = rc_file_size c"
  shows "gives (exits_all (basic_cows c p)) (linked base p (links p (rc_ref_counts c)) ((\<le>) (rc_file_size c)) f) s"
proof -
  let ?Q = "linked base p (links p (rc_ref_counts c)) ((\<le>) (rc_file_size c)) f"
  have cow: "gives (do_cows_on_write c p (rc_ref_counts c) (rc_file_size c) i) ?Q s" if "?Q s" "i < 2 ^ 64 - 1" for i s
    using linked_do_cows [OF that(1)] that(2) assms(1) by (simp add: conf_ok_def)
  have ver: "gives (verify_orig_file c p) ?Q s" if "?Q s" for s
    using linked_verify [OF that] assms(1,3) by (simp add: conf_ok_def)
  have "HUNK_SIZE < 2 ^ 64 - 1" by (simp add: HUNK_SIZE_def)
  with assms(1,2) show ?thesis
    unfolding basic_cows_def Let_def
    by (auto intro!: exits_step [OF cow] exits_step [OF ver] exits_Nil simp: conf_ok_def)
qed

text \<open>The three rounds on the reflinks: written and read, truncated, appended to.\<close>

definition basic_rest :: "rl_conf \<Rightarrow> string \<Rightarrow> rl_op list" where
  "basic_rest c p = (let n = rc_ref_counts c; sz = rc_file_size c; verify = verify_orig_file c p in
     [do_reflinks c p p n 1, do_cows_on_ftruncate c p n sz, verify, do_unlinks p n, verify,
      do_reflinks c p p n 2, do_appends c p n, verify, do_unlinks p n, verify, do_unlink p])"

lemma linked_unlink_orig:
  "linked base p {} L f s \<Longrightarrow> base p = None \<Longrightarrow> gives (do_unlink p) (\<lambda>s'. rl_env s' = [] \<and> rl_vol s' = base) s"
  by (auto simp: gives_def do_unlink_def linked_def ready_def)

lemma gives_basic_rest:
  assumes c: "conf_ok c" "\<And>g. length (rc_snap c g) = length g"
    and base: "base p = None" "\<And>i. i < rc_ref_counts c \<Longrightarrow> base (ref_path p i) = None"
    and "linked base p {} any_len f s" "length f = rc_file_size c"
  shows "gives (exits_all (basic_rest c p)) (\<lambda>s'. rl_env s' = [] \<and> rl_vol s' = base) s"
proof -
  let ?n = "rc_ref_counts c" and ?sz = "rc_file_size c"
  let ?E = "linked base p {} any_len f" and ?Q = "linked base p (links p ?n) any_len f"
  have ref: "gives (do_reflinks c p p ?n m) ?Q s" if "?E s" for m s
    using linked_do_reflinks [OF that base(2)] c by (simp add: conf_ok_def)
  have unl: "gives (do_unlinks p ?n) ?E s" if "?Q s" for s by (rule linked_do_unlinks [OF that base(2)])
  have ver: "gives (verify_orig_file c p) (linked base p N any_len f) s" if "linked base p N any_len f s" for N s
    using linked_verify [OF that] c(1) assms(6) by (simp add: conf_ok_def)
  have tru: "gives (do_cows_on_ftruncate c p ?n ?sz) ?Q s" if "?Q s" for s
    using linked_do_truncates [OF that] c(1) by (simp add: conf_ok_def)
  have app: "returns (do_appends c p ?n) ?Q s" if "?Q s" for s
    using linked_do_appends [OF that] c(1) by (simp add: conf_ok_def)
  show ?thesis
    unfolding basic_rest_def Let_def
    by (rule exits_step [OF ref], rule assms(5), rule exits_step [OF tru], assumption, rule exits_step [OF ver], assumption,
        rule exits_step [OF unl], assumption, rule exits_step [OF ver], assumption,
        rule exits_step [OF ref], assumption, rule exits_Cons [OF app], assumption, rule exits_step [OF ver], assumption,
        rule exits_step [OF unl], assumption, rule exits_step [OF ver], assumption,
        rule exits_step [OF linked_unlink_orig], assumption, rule base(1), rule exits_Nil, assumption)
qed

lemma gives_basic_round:
  assumes c: "conf_ok c" "\<And>g. length (rc_snap c g) = length g"
    and base: "base p = None" "base (tmp_path p) = None" "\<And>i. i < rc_ref_counts c \<Longrightarrow> base (ref_path p i) = None"
    and "rl_env s = [] \<and> rl_vol s = base"
  shows "gives (basic_round c p once) (\<lambda>s'. rl_env s' = [] \<and> rl_vol s' = base) s"
proof -
  let ?n = "rc_ref_counts c" and ?sz = "rc_file_size c"
  have "gives (prep_orig_file c p ?sz once) (\<lambda>s'. \<exists>f. length f = ?sz \<and> linked base p {} ((\<le>) ?sz) f s') s"
    by (rule gives_mono, rule gives_prep [where base = base]) (use assms(6) base(1,2) in auto)
  moreover have "gives (exits_all ([do_reflinks c p p ?n 0, do_reads_on_reflinks c p ?n ?sz (rc_cluster c)] @ basic_cows c p
      @ [do_reads_on_reflinks c p ?n ?sz (rc_cluster c), do_unlinks p ?n, verify_orig_file c p] @ basic_rest c p))
      (\<lambda>s'. rl_env s' = [] \<and> rl_vol s' = base) s"
    if s: "linked base p {} ((\<le>) ?sz) f s" and f: "length f = ?sz" for f s
  proof -
    let ?E = "linked base p {} ((\<le>) ?sz) f" and ?Q = "linked base p (links p ?n) ((\<le>) ?sz) f"
    have ref: "gives (do_reflinks c p p ?n 0) ?Q s"
      using linked_do_reflinks [OF s base(3)] c f by (simp add: conf_ok_def)
    have rd: "gives (do_reads_on_reflinks c p ?n ?sz (rc_cluster c)) ?Q s" if "?Q s" for s
      using linked_do_reads [OF that] c(1) by (simp add: conf_ok_def)
    have unl: "gives (do_unlinks p ?n) ?E s" if "?Q s" for s by (rule linked_do_unlinks [OF that base(3)])
    have ver: "gives (verify_orig_file c p) ?E s" if "?E s" for s
      using linked_verify [OF that] c(1) f by (simp add: conf_ok_def)
    have "gives (exits_all [do_reflinks c p p ?n 0, do_reads_on_reflinks c p ?n ?sz (rc_cluster c)]) ?Q s"
      by (rule exits_step [OF ref], rule exits_step [OF rd], assumption, rule exits_Nil, assumption)
    moreover have "gives (exits_all ([do_reads_on_reflinks c p ?n ?sz (rc_cluster c), do_unlinks p ?n, verify_orig_file c p])) ?E s"
      if "?Q s" for s
      by (rule exits_step [OF rd], rule that, rule exits_step [OF unl], assumption, rule exits_step [OF ver], assumption,
          rule exits_Nil, assumption)
    moreover have "gives (exits_all (basic_rest c p)) (\<lambda>s'. rl_env s' = [] \<and> rl_vol s' = base) s" if "?E s" for s
      by (rule gives_basic_rest [OF c base(1,3) linked_none [OF that] f])
    ultimately show ?thesis
      by (intro exits_append [of _ ?Q] exits_append [of _ ?Q] exits_append [of _ ?E] gives_basic_cows [OF c(1) _ f])
  qed
  moreover have "basic_round c p once = exits_all (prep_orig_file c p ?sz once #
      [do_reflinks c p p ?n 0, do_reads_on_reflinks c p ?n ?sz (rc_cluster c)] @ basic_cows c p
      @ [do_reads_on_reflinks c p ?n ?sz (rc_cluster c), do_unlinks p ?n, verify_orig_file c p] @ basic_rest c p)"
    by (simp add: basic_round_def basic_rest_def Let_def)
  ultimately show ?thesis by (auto elim!: exits_step)
qed

text \<open>The boundary test.\<close>

lemma linked_write_at_file:
  assumes "linked base p N any_len f s" "q \<in> N"
  shows "gives (rl_write_at_file c q bs off) (linked base p N any_len f) s"
  unfolding rl_write_at_file_def
proof (rule gives_unless_neg [OF linked_open_creat [OF assms(1)]])
  fix s assume s: "linked base p N any_len f s"
  show "gives (rl_write_at c (Named q) bs off) (linked base p N any_len f) s"
    using linked_put [OF s assms(2)] linked_env [OF s] by (simp add: gives_def rl_write_at_ideal del: rl_put.simps rl_get.simps)
qed (use assms(2) in simp)

lemma linked_cow_byte:
  "linked base p N any_len f s \<Longrightarrow> q \<in> N \<Longrightarrow> gives (cow_byte c q off) (linked base p N any_len f) s"
  unfolding cow_byte_def by (intro gives_rand_buf linked_write_at_file) (auto simp: HUNK_SIZE_def)

lemma linked_truncate:
  assumes "linked base p N any_len f s" "q \<in> N"
  shows "gives (ignoring (rl_truncate q n)) (linked base p N any_len f) s"
proof -
  obtain g where g: "rl_vol s q = Some g" using linked_exists [OF assms(1), of q] assms(2) by blast
  have "gives (rl_truncate q n) (linked base p N any_len f) s"
    using linked_put [OF assms] g by (simp add: gives_def rl_truncate_def linked_env [OF assms(1)] rl_env_same [OF linked_env [OF assms(1)]] del: rl_put.simps)
  then show ?thesis by (rule gives_ignoring)
qed

lemma linked_rand:
  assumes "linked base p N L f s" "a \<le> b" "b < 2 ^ 64 - 1" "\<And>v s. a \<le> v \<Longrightarrow> v \<le> b \<Longrightarrow> linked base p N L f s \<Longrightarrow> gives (k v) Q s"
  shows "gives (rl_rand a b k) Q s"
  using assms by (intro gives_rl_rand) simp_all

lemma linked_cow_all_over:
  assumes "linked base p N any_len f s" "\<And>off s. linked base p N any_len f s \<Longrightarrow> gives (act off) (linked base p N any_len f) s"
  shows "gives (cow_all_over act) (linked base p N any_len f) s"
  unfolding cow_all_over_def
proof (rule gives_for, rule assms(1))
  fix j s assume "j \<in> set [0..<G_SIZE div M_SIZE]" "linked base p N any_len f s"
  then show "gives (rl_rand (j * M_SIZE) (j * M_SIZE + M_SIZE - 1) act) (linked base p N any_len f) s"
    by (intro linked_rand [OF _ _ _ assms(2)]) (auto simp: G_SIZE_def M_SIZE_def)
qed

text \<open>The files of the boundary test, and the rounds on one original.\<close>

definition snaps :: "rl_conf \<Rightarrow> fs \<Rightarrow> string \<Rightarrow> string \<Rightarrow> bool" where
  "snaps c base p dest \<longleftrightarrow> base p = None \<and> base dest = None \<and> base (tmp_path p) = None \<and> dest \<noteq> p \<and> (\<forall>g. length (rc_snap c g) = length g)"

lemma linked_reflink_to:
  "snaps c base p dest \<Longrightarrow> linked base p {} any_len f s \<Longrightarrow> gives (reflink c p dest) (linked base p {dest} any_len f) s"
  by (rule linked_reflink) (auto simp: snaps_def)

lemma linked_unlink_dest:
  "snaps c base p dest \<Longrightarrow> linked base p {dest} any_len f s \<Longrightarrow> gives (do_unlink dest) (linked base p {} any_len f) s"
  using linked_unlink [of base p "{dest}" any_len f s dest] by (simp add: snaps_def)

lemma linked_one_cow:
  assumes b: "snaps c base p dest" and s: "linked base p {} any_len f s"
    and pos: "\<And>s. linked base p {dest} any_len f s \<Longrightarrow> gives (pos (cow_byte c dest)) (linked base p {dest} any_len f) s"
    and after: "\<And>s. linked base p {dest} any_len f s \<Longrightarrow> gives after (linked base p {dest} any_len f) s"
  shows "gives (one_cow c p dest pos after) (linked base p {} any_len f) s"
  unfolding one_cow_def
  by (rule gives_then [OF linked_reflink_to [OF b s]], rule gives_then [OF pos], assumption, rule gives_then [OF after], assumption,
      rule linked_unlink_dest [OF b])

lemma linked_at:
  "linked base p {dest} any_len f s \<Longrightarrow> gives (at_offset off (cow_byte c dest)) (linked base p {dest} any_len f) s"
  unfolding at_offset_def by (rule linked_cow_byte) auto

lemma linked_somewhere:
  assumes "b < 2 ^ 64 - 1" "linked base p {dest} any_len f s"
  shows "gives (rl_rand 0 b (cow_byte c dest)) (linked base p {dest} any_len f) s"
  using assms by (intro linked_rand [OF assms(2) _ _ linked_cow_byte]) auto

lemma linked_cow_at:
  assumes "snaps c base p dest" "linked base p {} any_len f s"
    and "\<And>s. linked base p {dest} any_len f s \<Longrightarrow> gives after (linked base p {dest} any_len f) s"
  shows "gives (one_cow c p dest (at_offset off) after) (linked base p {} any_len f) s"
  using assms linked_at by (intro linked_one_cow)

lemma linked_cow_somewhere:
  assumes "snaps c base p dest" "linked base p {} any_len f s" "b < 2 ^ 64 - 1"
    and "\<And>s. linked base p {dest} any_len f s \<Longrightarrow> gives after (linked base p {dest} any_len f) s"
  shows "gives (one_cow c p dest (rl_rand 0 b) after) (linked base p {} any_len f) s"
  using assms linked_somewhere by (intro linked_one_cow)

lemma linked_cow_reused:
  assumes b: "snaps c base p dest" and s: "linked base p {} any_len f s"
  shows "gives (cow_reused c p dest) (linked base p {} any_len f) s"
  unfolding cow_reused_def
proof (rule gives_then [OF linked_reflink_to [OF b s]], rule linked_rand, assumption)
  fix off s assume s: "linked base p {dest} any_len f s"
  have wr: "gives (rl_write_at_file c dest bs off) (linked base p {dest} any_len f) s" if "linked base p {dest} any_len f s" for bs off s
    using that by (rule linked_write_at_file) simp
  show "gives (rl_rand_buf (HUNK_SIZE * 2) 1 (\<lambda>bs. and_then (rl_write_at_file c dest bs off) (and_then (do_unlink dest)
       (and_then (reflink c p dest) (and_then (cow_all_over (rl_write_at_file c dest bs)) (do_unlink dest)))))) (linked base p {} any_len f) s"
  proof (rule gives_rand_buf)
    fix bs rs
    show "gives (and_then (rl_write_at_file c dest bs off) (and_then (do_unlink dest)
       (and_then (reflink c p dest) (and_then (cow_all_over (rl_write_at_file c dest bs)) (do_unlink dest))))) (linked base p {} any_len f) (s\<lparr>rl_rng := rs\<rparr>)"
      by (rule gives_then [OF wr], use s in simp, rule gives_then [OF linked_unlink_dest [OF b]], assumption,
          rule gives_then [OF linked_reflink_to [OF b]], assumption, rule gives_then [OF linked_cow_all_over [OF _ wr]], assumption, assumption,
          rule linked_unlink_dest [OF b])
  qed (simp add: HUNK_SIZE_def)
qed (auto simp: G_SIZE_def)

lemma prep_again:
  assumes b: "snaps c base p dest" and s: "linked base p {} any_len f s" and "length f \<le> sz"
  shows "gives (prep_orig_file c p sz once) (\<lambda>s'. \<exists>f. length f = sz \<and> linked base p {} any_len f s') s"
  by (rule gives_mono, rule gives_prep [where base = base]) (use assms in \<open>auto simp: snaps_def linked_def ready_def\<close>)

lemma linked_boundary_medium:
  assumes b: "snaps c base p dest" and s: "linked base p {} any_len f s" "length f \<le> sz" "sz < 2 ^ 64 - 1" and "\<not> rc_mmap c"
  shows "gives (boundary_medium c p dest sz) (\<lambda>s'. \<exists>f. length f = sz \<and> linked base p {} any_len f s') s"
  unfolding boundary_medium_def
proof (rule gives_then [OF prep_again [OF b s(1,2)]], elim exE conjE)
  fix f' s assume f: "length f' = sz" and s: "linked base p {} any_len f' s"
  have "gives (and_then (one_cow c p dest (rl_rand 0 (sz - 1)) all_done) (verify_orig_file c p)) (linked base p {} any_len f') s"
    by (rule gives_then, rule linked_cow_somewhere [OF b s]) (use assms(4,5) in \<open>auto intro: gives_done linked_verify\<close>)
  with f show "gives (and_then (one_cow c p dest (rl_rand 0 (sz - 1)) all_done) (verify_orig_file c p))
      (\<lambda>s'. \<exists>f. length f = sz \<and> linked base p {} any_len f s') s"
    by (auto elim!: gives_mono)
qed

lemma linked_boundary_large:
  assumes b: "snaps c base p dest" and s: "linked base p {} any_len f s" "length f \<le> G_SIZE"
  shows "gives (boundary_large c p dest) (\<lambda>s'. rl_env s' = [] \<and> rl_vol s' = base) s"
proof -
  have G: "G_SIZE - 1 < 2 ^ 64 - 1" by (simp add: G_SIZE_def)
  have cow: "gives (one_cow c p dest (at_offset off) all_done) (linked base p {} any_len f) s" if "linked base p {} any_len f s" for f off s
    by (rule linked_cow_at [OF b that]) (rule gives_done)
  have second: "gives (and_then (one_cow c p dest (at_offset 0) all_done)
     (and_then (one_cow c p dest (at_offset (G_SIZE - 1)) all_done)
     (and_then (one_cow c p dest (rl_rand 0 (G_SIZE - 1)) all_done)
     (and_then (reflink c p dest) (and_then (cow_all_over (cow_byte c dest)) (and_then (do_unlink dest) (do_unlink p)))))))
      (\<lambda>s'. rl_env s' = [] \<and> rl_vol s' = base) s" if "linked base p {} any_len f s" for f s
    by (rule gives_then [OF cow], rule that, rule gives_then [OF cow], assumption,
        rule gives_then, rule linked_cow_somewhere [OF b _ G], assumption, erule gives_done,
        rule gives_then [OF linked_reflink_to [OF b]], assumption,
        rule gives_then [OF linked_cow_all_over [OF _ linked_cow_byte]], assumption, assumption, simp,
        rule gives_then [OF linked_unlink_dest [OF b]], assumption, rule linked_unlink_orig, assumption)
      (use b in \<open>simp add: snaps_def\<close>)
  have first: "gives (and_then (one_cow c p dest (at_offset 0) all_done)
     (and_then (one_cow c p dest (at_offset (G_SIZE - 1)) all_done) (and_then (cow_reused c p dest) g))) Q s"
    if "linked base p {} any_len f s" "\<And>s. linked base p {} any_len f s \<Longrightarrow> gives g Q s" for f s g Q
    by (rule gives_then [OF cow], rule that(1), rule gives_then [OF cow], assumption,
        rule gives_then [OF linked_cow_reused [OF b]], assumption, rule that(2))
  show ?thesis
    unfolding boundary_large_def
  proof (rule gives_then [OF prep_again [OF b s]], elim exE conjE, rule first, assumption)
    fix f s assume f: "length f = G_SIZE" "linked base p {} any_len f s"
    show "gives (and_then (prep_orig_file c p G_SIZE False) (and_then (one_cow c p dest (at_offset 0) all_done)
     (and_then (one_cow c p dest (at_offset (G_SIZE - 1)) all_done)
     (and_then (one_cow c p dest (rl_rand 0 (G_SIZE - 1)) all_done)
     (and_then (reflink c p dest) (and_then (cow_all_over (cow_byte c dest)) (and_then (do_unlink dest) (do_unlink p))))))))
      (\<lambda>s'. rl_env s' = [] \<and> rl_vol s' = base) s"
      by (rule gives_then [OF prep_again [OF b f(2)]]) (use f(1) second in auto)
  qed
qed

text \<open>Up to the first comparison the boundary test is the same with and without \<open>mmap\<close>.\<close>

lemma gives_keeps: "gives f Q s \<Longrightarrow> keeps I f \<Longrightarrow> I s \<Longrightarrow> gives f (\<lambda>s. Q s \<and> I s) s"
  by (auto simp: gives_def dest: keepsD)

lemma keeps_truncate [keep_rules]: "q \<noteq> p \<Longrightarrow> keeps (untouched p v pat) (rl_truncate q n)"
  by (rule keepsI) (auto simp: rl_truncate_def simp del: rl_put.simps split: prod.splits option.splits)

lemma keeps_cow_byte [keep_rules]: "q \<noteq> p \<Longrightarrow> keeps (untouched p v pat) (cow_byte c q off)"
  unfolding cow_byte_def rl_write_at_file_def by (intro keep_rules) auto

lemma keeps_one_cow [keep_rules]:
  assumes "dest \<noteq> p" "keeps (untouched p v pat) after" "keeps (untouched p v pat) (pos (cow_byte c dest))"
  shows "keeps (untouched p v pat) (one_cow c p dest pos after)"
  unfolding one_cow_def by (intro keep_rules assms)

lemma small_cow:
  assumes b: "snaps c base p dest" and s: "linked base p {} any_len f s" and "pos = at_offset off \<or> pos = rl_rand 0 b" "b < 2 ^ 64 - 1"
  obtains s' where "one_cow c p dest pos (ignoring (rl_truncate dest n)) s = Inr (0, s')"
    "linked base p {} any_len f s'" "rl_pattern s' = rl_pattern s"
proof -
  let ?f = "one_cow c p dest pos (ignoring (rl_truncate dest n))"
  have "dest \<noteq> p" using b by (simp add: snaps_def)
  then have k: "keeps (untouched p (rl_vol s p) (rl_pattern s)) ?f"
    using assms(3) by (auto simp: at_offset_def intro!: keep_rules)
  have g: "gives ?f (linked base p {} any_len f) s"
    using assms(3,4) b s by (auto intro!: linked_cow_at linked_cow_somewhere linked_truncate)
  have "gives ?f (\<lambda>s'. linked base p {} any_len f s' \<and> untouched p (rl_vol s p) (rl_pattern s) s') s"
    by (rule gives_keeps [OF g k]) (simp add: untouched_def)
  then show thesis by (auto simp: gives_def untouched_def intro: that)
qed

lemma boundary_small_until:
  assumes b: "snaps c base p dest" and s: "rl_env s = []" "rl_vol s = base" and mx: "rc_max_inline c < 2 ^ 64 - 1"
  obtains f s' where "boundary_small c p dest s = verify_orig_file c p s'" "linked base p {} any_len f s'"
    "length f = rc_max_inline c + 1" "zero_from (rc_max_inline c + 1) (rl_pattern s')"
proof -
  let ?mx = "rc_max_inline c"
  have "gives (prep_orig_file c p (?mx + 1) True)
      (\<lambda>s'. \<exists>f. length f = ?mx + 1 \<and> linked base p {} any_len f s' \<and> zero_from (?mx + 1) (rl_pattern s')) s"
    using b s by (intro gives_prep) (auto simp: snaps_def)
  then obtain f s0 where s0: "prep_orig_file c p (?mx + 1) True s = Inr (0, s0)" "length f = ?mx + 1"
    "linked base p {} any_len f s0" "zero_from (?mx + 1) (rl_pattern s0)" by (auto simp: gives_def)
  obtain s1 where s1: "one_cow c p dest (at_offset 0) (ignoring (rl_truncate dest 0)) s0 = Inr (0, s1)"
    "linked base p {} any_len f s1" "rl_pattern s1 = rl_pattern s0" by (rule small_cow [OF b s0(3) disjI1 [OF refl] mx])
  obtain s2 where s2: "one_cow c p dest (at_offset ?mx) (ignoring (rl_truncate dest 0)) s1 = Inr (0, s2)"
    "linked base p {} any_len f s2" "rl_pattern s2 = rl_pattern s1" by (rule small_cow [OF b s1(2) disjI1 [OF refl] mx])
  obtain s3 where s3: "one_cow c p dest (rl_rand 0 ?mx) (ignoring (rl_truncate dest ?mx)) s2 = Inr (0, s3)"
    "linked base p {} any_len f s3" "rl_pattern s3 = rl_pattern s2" by (rule small_cow [OF b s2(2) disjI2 [OF refl] mx])
  have "boundary_small c p dest s = verify_orig_file c p s3"
    using s0(1) s1(1) s2(1) s3(1) by (simp add: boundary_small_def Let_def and_then_def)
  with s0 s1 s2 s3 show thesis by (intro that [of s3 f]) simp_all
qed

text \<open>Comparing a mapping with the pattern beyond the last page of the file.\<close>

lemma verify_mapping_bus:
  assumes "0 < page" "i \<le> page_ceil page (length f)" "page_ceil page (length f) < i + n" "i + n \<le> length pat"
    and "\<And>j. j < page_ceil page (length f) \<Longrightarrow> file_byte f j = pat ! j"
  shows "verify_mapping page f pat i n = Inl Bus_error"
  using assms(2-4)
proof (induction n arbitrary: i)
  case (Suc n)
  show ?case
  proof (cases "i < page_ceil page (length f)")
    case True
    then have "map_load page f i 1 = Inr [pat ! i]" using assms(5) by (simp add: map_load_def)
    with Suc True show ?thesis by simp
  next
    case False
    with Suc.prems show ?thesis by (simp add: map_load_def)
  qed
qed simp

lemma linked_verify_bus:
  assumes s: "linked base p N L f s" "zero_from (length f) (rl_pattern s)"
    and "rc_mmap c" "0 < rc_page c" "page_ceil (rc_page c) (length f) < rc_file_size c" "page_ceil (rc_page c) (length f) < PATTERN_SIZE"
  shows "verify_orig_file c p s = Inl Bus_error"
proof -
  let ?n = "if PATTERN_SIZE < rc_file_size c then PATTERN_SIZE else rc_file_size c"
  from s(1) have r: "rl_env s = []" "rl_vol s p = Some f" "length (rl_pattern s) = PATTERN_SIZE" "repeats (rl_pattern s) f"
    by (auto simp: linked_def ready_def)
  have "file_byte f j = rl_pattern s ! j" if "j < page_ceil (rc_page c) (length f)" for j
    using that assms(6) s(2) r(3,4) by (auto simp: file_byte_def repeats_def zero_from_def)
  then have "verify_mapping (rc_page c) f (rl_pattern s) 0 ?n = Inl Bus_error"
    using assms(4-6) r(3) by (intro verify_mapping_bus) auto
  moreover obtain m where "mmap_size_loop (rc_page c) (rc_page c) ?n = Inr m" using mmap_size_loop_ok assms(4) by blast
  moreover have "rl_open_ro p s = Inr (0, s)" using r(1,2) by (simp add: rl_open_ro_def sys_open_ro_def rl_env_same)
  ultimately show ?thesis
    using assms(3) r by (simp only: verify_orig_file_def unless_neg_def Let_def) simp
qed

lemma boundary_passes:
  assumes b: "snaps c base p dest" and s: "rl_env s = []" "rl_vol s = base" and mx: "rc_max_inline c < M_SIZE" and "\<not> rc_mmap c"
  shows "gives (and_then (boundary_small c p dest) (and_then (rl_rand (rc_max_inline c + 1) M_SIZE (boundary_medium c p dest))
       (and_then (boundary_medium c p dest M_SIZE) (boundary_large c p dest)))) (\<lambda>s'. rl_env s' = [] \<and> rl_vol s' = base) s"
proof -
  have M: "M_SIZE < 2 ^ 64 - 1" "M_SIZE \<le> G_SIZE" by (simp_all add: M_SIZE_def G_SIZE_def)
  obtain f s' where u: "boundary_small c p dest s = verify_orig_file c p s'" "linked base p {} any_len f s'" "length f = rc_max_inline c + 1"
    by (rule boundary_small_until [OF b s]) (use mx M in auto)
  then have small: "gives (boundary_small c p dest) (linked base p {} any_len f) s"
    using linked_verify [OF u(2), of c] assms(5) by (simp add: gives_def)
  have med: "gives (boundary_medium c p dest n) (\<lambda>s'. \<exists>f. length f \<le> M_SIZE \<and> linked base p {} any_len f s') s"
    if "linked base p {} any_len f s" "length f \<le> n" "n \<le> M_SIZE" for f n s
    by (rule gives_mono, rule linked_boundary_medium [OF b that(1,2) _ assms(5)]) (use that(3) M in auto)
  show ?thesis
  proof (rule gives_then [OF small], rule gives_then, rule linked_rand, assumption)
    fix v s' assume "rc_max_inline c + 1 \<le> v" "v \<le> M_SIZE" "linked base p {} any_len f s'"
    then show "gives (boundary_medium c p dest v) (\<lambda>s'. \<exists>f. length f \<le> M_SIZE \<and> linked base p {} any_len f s') s'"
      using u(3) by (intro med) auto
  next
    fix s assume "\<exists>f. length f \<le> M_SIZE \<and> linked base p {} any_len f s"
    then obtain f where f: "length f \<le> M_SIZE" "linked base p {} any_len f s" by blast
    show "gives (and_then (boundary_medium c p dest M_SIZE) (boundary_large c p dest)) (\<lambda>s'. rl_env s' = [] \<and> rl_vol s' = base) s"
      by (rule gives_then [OF med [OF f(2,1) order_refl]]) (use linked_boundary_large [OF b] M in fastforce)
  qed (use mx M in auto)
qed

section \<open>Properties\<close>

text \<open>
  C22. When no call fails, \<open>basic_test\<close> returns 0, whatever the size of the file, the number of reflinks, the
  random numbers and the ways of reading and writing (the random test with direct I/O apart, whose
  pieces do not fit into \<open>buf_dio\<close>), and leaves the volume as it found it. Of the file system it relies
  on a reflink being as long as what it was taken from. The names the test uses have to be free.
\<close>

theorem basic_test_passes:
  assumes "conf_ok c" "\<And>g. length (rc_snap c g) = length g" "rl_env s = []"
    and "rl_vol s (basic_orig c) = None" "rl_vol s (tmp_path (basic_orig c)) = None"
    and "\<And>i. i < rc_ref_counts c \<Longrightarrow> rl_vol s (ref_path (basic_orig c) i) = None"
  shows "\<exists>s'. basic_test c s = Inr (0, s') \<and> rl_vol s' = rl_vol s"
proof -
  have "gives (basic_test c) (\<lambda>s'. rl_env s' = [] \<and> rl_vol s' = rl_vol s) s"
    unfolding basic_test_def
    by (rule gives_for, use assms(3) in simp, rule gives_basic_round [OF assms(1,2,4,5,6)]) auto
  then show ?thesis by (auto simp: gives_def)
qed

definition sample_conf :: "bool \<Rightarrow> nat \<Rightarrow> rl_conf" where
  "sample_conf m sz = \<lparr>rc_rand = False, rc_mmap = m, rc_odct = False, rc_asio = False, rc_file_size = sz, rc_page = 16,
     rc_block = 16, rc_cluster = 16, rc_max_inline = 5, rc_ref_counts = 4, rc_workplace = ''/w'', rc_snap = (\<lambda>f. f)\<rparr>"

definition sample_state :: "fs \<Rightarrow> rl_state" where
  "sample_state vol = \<lparr>rl_vol = vol, rl_anon = [], rl_pattern = [], rl_rng = sconst 7, rl_env = []\<rparr>"

theorem basic_test_passes_witness:
  "\<exists>s'. basic_test (sample_conf True 50) (sample_state Map.empty) = Inr (0, s') \<and> rl_vol s' = Map.empty"
  using basic_test_passes [of "sample_conf True 50" "sample_state Map.empty"]
  by (simp add: sample_conf_def sample_state_def conf_ok_def)

text \<open>
  C25. Whatever the kernel decides, and whether the operation succeeds or not: no operation of the tests on the
  reflinks of a file changes a file that is not one of them, nor the pattern. So what \<open>verify_orig_file\<close> sees of the original
  is the file system's doing.
\<close>

theorem reflinks_isolated:
  assumes "f \<in> {do_reflinks c src p n manner, do_reads_on_reflinks c p n sz interval, do_cows_on_write c p n sz interval,
      do_cows_on_ftruncate c p n sz, do_appends c p n, do_unlinks p n, verify_orig_file c src, verify_reflink_pair src p}"
    and "f s = Inr (ret, s')" "q \<notin> range (ref_path p)"
  shows "rl_vol s' q = rl_vol s q \<and> rl_pattern s' = rl_pattern s"
proof -
  have "keeps (untouched q v pat) f" for v pat
    using assms(1) keeps_do_reflinks [OF assms(3)] keeps_do_reads keeps_do_cows [OF assms(3)] keeps_do_truncates [OF assms(3)]
      keeps_do_appends [OF assms(3)] keeps_do_unlinks [OF assms(3)] keeps_verify_orig keeps_verify_pair assms(3) by auto
  from keepsD [OF this _ assms(2), of "rl_vol s q" "rl_pattern s"] show ?thesis by (simp add: untouched_def)
qed

theorem reflinks_isolated_witness:
  "\<exists>s'. do_unlinks ''o'' 1 (sample_state [''or0'' \<mapsto> [1], ''o'' \<mapsto> [2]]) = Inr (0, s') \<and> rl_vol s' ''o'' = Some [2]"
proof -
  let ?s = "sample_state [''or0'' \<mapsto> [1], ''o'' \<mapsto> [2]]"
  have "show_dec 0 = ''0''" by code_simp
  then obtain s' where s': "do_unlinks ''o'' 1 ?s = Inr (0, s')"
    by (simp add: do_unlinks_def do_unlink_def and_then_def all_done_def sample_state_def ref_path_def)
  have "rl_vol s' ''o'' = rl_vol ?s ''o''"
    using reflinks_isolated [where f = "do_unlinks ''o'' 1" and p = "''o''" and n = 1 and q = "''o''" and s = ?s and s' = s' and ret = 0]
      s' by (simp add: image_iff)
  with s' show ?thesis by (simp add: sample_state_def)
qed

text \<open>
  C26. When no call fails, \<open>verify_reflink_pair\<close> returns 0 exactly if the two files agree as far as both go and
  either have one length or the shorter one ends at a multiple of \<open>HUNK_SIZE\<close>: an empty file passes for a copy of every file.
\<close>

theorem verify_reflink_pair_exact:
  assumes "rl_env s = []" "rl_vol s a = Some f" "rl_vol s b = Some g"
  shows "\<exists>r. verify_reflink_pair a b s = Inr (r, s) \<and>
    (r = 0 \<longleftrightarrow> take (length g) f = take (length f) g \<and> (length f = length g \<or> HUNK_SIZE dvd min (length f) (length g)))"
proof -
  have "rl_open_ro a s = Inr (0, s)" "rl_open_ro b s = Inr (0, s)"
    using assms by (simp_all add: rl_open_ro_def sys_open_ro_def rl_env_same)
  with pair_loop_ideal [of f g 0] assms show ?thesis
    by (auto simp: verify_reflink_pair_def unless_neg_def pair_equal_def agree_def rl_env_same)
qed

theorem verify_reflink_pair_exact_witness:
  "\<exists>s. verify_reflink_pair ''a'' ''b'' (sample_state [''a'' \<mapsto> [], ''b'' \<mapsto> [1, 2]]) = Inr (0, s)"
  using verify_reflink_pair_exact [of "sample_state [''a'' \<mapsto> [], ''b'' \<mapsto> [1, 2]]" "''a''" "[]" "''b''" "[1, 2]"]
  by (auto simp: sample_state_def)

text \<open>
  C37. The boundary test with \<open>mmap\<close>: \<open>verify_orig_file\<close> compares \<open>file_size\<close> bytes of a mapping of a file of \<open>max_inline_size + 1\<close>
  bytes, so, with no call failing, the program is killed by SIGBUS at the first comparison when \<open>file_size\<close> goes beyond the
  last page of that file. Without \<open>mmap\<close> it returns 0 and leaves the volume as it found it.
\<close>

theorem boundary_test_outcome:
  assumes "rl_env s = []" "rl_vol s (boundary_orig c) = None" "rl_vol s (boundary_orig c @ ''_target'') = None"
    and "rl_vol s (tmp_path (boundary_orig c)) = None" "\<And>g. length (rc_snap c g) = length g"
    and "rc_max_inline c < M_SIZE" "0 < rc_page c"
    and "page_ceil (rc_page c) (rc_max_inline c + 1) < min (rc_file_size c) PATTERN_SIZE"
  shows "if rc_mmap c then boundary_test c s = Inl Bus_error
    else \<exists>s'. boundary_test c s = Inr (0, s') \<and> rl_vol s' = rl_vol s"
proof -
  let ?p = "boundary_orig c"
  have b: "snaps c (rl_vol s) ?p (?p @ ''_target'')" using assms(2-5) by (simp add: snaps_def)
  have mx: "rc_max_inline c < 2 ^ 64 - 1" using assms(6) by (simp add: M_SIZE_def)
  obtain f s' where u: "boundary_small c ?p (?p @ ''_target'') s = verify_orig_file c ?p s'" "linked (rl_vol s) ?p {} any_len f s'"
    "length f = rc_max_inline c + 1" "zero_from (rc_max_inline c + 1) (rl_pattern s')"
    by (rule boundary_small_until [OF b assms(1) refl mx])
  show ?thesis
  proof (cases "rc_mmap c")
    case True
    with linked_verify_bus [OF u(2), of c] u(3,4) assms(7,8) have "verify_orig_file c ?p s' = Inl Bus_error" by simp
    with True u(1) show ?thesis by (simp add: boundary_test_def rl_should_exit_def and_then_def Let_def)
  next
    case False
    with boundary_passes [OF b assms(1) refl assms(6)] have "gives (boundary_test c) (\<lambda>s'. rl_env s' = [] \<and> rl_vol s' = rl_vol s) s"
      unfolding boundary_test_def Let_def by (intro gives_should_exit gives_returns)
    with False show ?thesis by (auto simp: gives_def)
  qed
qed

theorem boundary_test_outcome_witness:
  "boundary_test (sample_conf True 50) (sample_state Map.empty) = Inl Bus_error"
  using boundary_test_outcome [of "sample_state Map.empty" "sample_conf True 50"]
  by (simp add: sample_conf_def sample_state_def M_SIZE_def PATTERN_SIZE_def page_ceil_def)

end
