(* ===== verification/Reflink_Cow.thy ===== *)
theory Reflink_Cow
  imports Reflink_Tests
begin

text \<open>
  \<open>reflink_test.c\<close>, the two tests that change the original and then look at its reflinks:
  \<open>verify_punch_hole_cow_test\<close> and \<open>verify_truncate_cow_test\<close>. The original is one cluster of random characters
  over and over. What the ioctl that punches a hole does to the volume is an argument (\<open>punch\<close>); the second property relies on its
  keeping the sizes of all files.
\<close>

section \<open>The tests\<close>

text \<open>
  \<open>fd = open_file(...); if (fd < 0) goto bail\<close>: \<open>ret\<close> is not set and still is what the operation before
  returned, 0, and the test returns it.
\<close>

definition or_bail :: "rl_op \<Rightarrow> rl_op \<Rightarrow> rl_op" where
  "or_bail f g s = (case f s of Inl e \<Rightarrow> Inl e | Inr (fd, s') \<Rightarrow> if fd < 0 then Inr (0, s') else g s')"

text \<open>\<open>open_file\<close> has an argument \<open>flags\<close> and does not use it: every file is opened for writing and created when it is missing.\<close>

definition rl_open_file :: "string \<Rightarrow> rl_op" where
  "rl_open_file filename = rl_open_creat filename"

definition rl_punch_hole :: "(string \<Rightarrow> nat \<Rightarrow> nat \<Rightarrow> fs \<Rightarrow> fs) \<Rightarrow> string \<Rightarrow> nat \<Rightarrow> nat \<Rightarrow> rl_op" where
  "rl_punch_hole punch p start len s = (case sys_call (rl_env s) of
     (Some e, env') \<Rightarrow> Inr (-1, s\<lparr>rl_env := env'\<rparr>)
   | (None, env') \<Rightarrow> Inr (0, s\<lparr>rl_vol := punch p start len (rl_vol s), rl_env := env'\<rparr>))"

text \<open>
  The next hole. The offset moves first, and may leave the file; the length is then cut by an
  unsigned subtraction.
\<close>

definition next_hole :: "nat \<Rightarrow> nat \<Rightarrow> nat \<Rightarrow> rl_state \<Rightarrow> fault + (nat \<times> nat) \<times> rl_state" where
  "next_hole cluster sz offset s = (case rl_draw 0 cluster s of Inl e \<Rightarrow> Inl e | Inr (d, s1) \<Rightarrow>
     (case rl_draw cluster (2 * cluster) s1 of Inl e \<Rightarrow> Inl e | Inr (len, s2) \<Rightarrow>
        let off = u64 (offset + d) in
        Inr ((off, if sz < u64 (off + len) then sub64 sz off else len), s2)))"

fun punch_loop :: "(string \<Rightarrow> nat \<Rightarrow> nat \<Rightarrow> fs \<Rightarrow> fs) \<Rightarrow> nat \<Rightarrow> nat \<Rightarrow> string \<Rightarrow> nat \<Rightarrow> nat \<Rightarrow> rl_op" where
  "punch_loop punch 0 cluster p sz offset s = Inl Out_of_fuel"
| "punch_loop punch (Suc fuel) cluster p sz offset s = (if \<not> offset < sz then Inr (0, s) else
     case next_hole cluster sz offset s of Inl e \<Rightarrow> Inl e | Inr ((off, len), s1) \<Rightarrow>
     case rl_punch_hole punch p off len s1 of Inl e \<Rightarrow> Inl e | Inr (ret, s2) \<Rightarrow>
     if ret < 0 then Inr (ret, s2) else punch_loop punch fuel cluster p sz (u64 (off + len)) s2)"

text \<open>The size is drawn down until it is 0; a draw of 0 repeats the call.\<close>

fun truncate_loop :: "nat \<Rightarrow> string \<Rightarrow> nat \<Rightarrow> rl_op" where
  "truncate_loop 0 p new_size s = Inl Out_of_fuel"
| "truncate_loop (Suc fuel) p new_size s =
     (case rl_ftruncate p new_size s of Inl e \<Rightarrow> Inl e | Inr (ret, s1) \<Rightarrow>
        if ret < 0 then Inr (ret, s1)
        else if new_size = 0 then Inr (0, s1)
        else case rl_draw 0 new_size s1 of Inl e \<Rightarrow> Inl e | Inr (trunc_size, s2) \<Rightarrow> truncate_loop fuel p (new_size - trunc_size) s2)"

text \<open>A reflink, cluster by cluster. A cluster of no bytes would never end the loop.\<close>

function check_loop :: "byte list \<Rightarrow> string \<Rightarrow> nat \<Rightarrow> nat \<Rightarrow> rl_op" where
  "check_loop pat p sz offset s = (if \<not> offset < sz then Inr (0, s) else
     let read_size = (if sz < offset + length pat then sz - offset else length pat) in
     case File_Ops.read_at (Suc read_size) (rl_env s) (rl_get (Named p) s) read_size offset of
       Inl e \<Rightarrow> Inl e
     | Inr (ret, bs, env') \<Rightarrow> let s' = s\<lparr>rl_env := env'\<rparr> in
         if ret < 0 then Inr (ret, s')
         else if memcmp bs (take read_size pat) \<noteq> 0 then Inr (-1, s')
         else if read_size = 0 then Inl Out_of_fuel
         else check_loop pat p sz (offset + read_size) s')"
  by pat_completeness auto
termination by (relation "measure (\<lambda>(pat, p, sz, offset, s). sz - offset)") auto

declare check_loop.simps [simp del]

text \<open>The loop over the reflinks; a failed \<open>open_file\<close> ends the test, not only the loop.\<close>

fun check_links :: "byte list \<Rightarrow> string \<Rightarrow> nat \<Rightarrow> nat list \<Rightarrow> rl_op \<Rightarrow> rl_op" where
  "check_links pat p sz [] rest = rest"
| "check_links pat p sz (i # js) rest = or_bail (rl_open_file (ref_path p i))
     (unless_neg (check_loop pat (ref_path p i) sz 0) (check_links pat p sz js rest))"

text \<open>Both tests; \<open>change\<close> is what happens to the original.\<close>

definition cow_test :: "rl_conf \<Rightarrow> string \<Rightarrow> rl_op \<Rightarrow> rl_op" where
  "cow_test c p change = rl_rand_buf (rc_cluster c) (rc_cluster c) (\<lambda>pat.
     unless_neg (prep_orig_file_with_pattern c p (rc_file_size c) (rc_cluster c) pat False)
     (unless_neg (do_reflinks c p p (rc_ref_counts c) 0)
     (or_bail (rl_open_file p) (unless_neg change
     (check_links pat p (rc_file_size c) [0..<rc_ref_counts c]
     (unless_neg (do_unlinks p (rc_ref_counts c)) (do_unlink p)))))))"

definition punch_orig :: "rl_conf \<Rightarrow> string" where
  "punch_orig c = rc_workplace c @ ''/original_verify_cow_punch_hole_refile''"

definition verify_punch_hole_cow_test :: "(string \<Rightarrow> nat \<Rightarrow> nat \<Rightarrow> fs \<Rightarrow> fs) \<Rightarrow> nat \<Rightarrow> rl_conf \<Rightarrow> rl_op" where
  "verify_punch_hole_cow_test punch fuel c =
     cow_test c (punch_orig c) (punch_loop punch fuel (rc_cluster c) (punch_orig c) (rc_file_size c) 0)"

definition truncate_orig :: "rl_conf \<Rightarrow> string" where
  "truncate_orig c = rc_workplace c @ ''/original_verify_cow_truncate_refile''"

definition verify_truncate_cow_test :: "nat \<Rightarrow> rl_conf \<Rightarrow> rl_op" where
  "verify_truncate_cow_test fuel c = cow_test c (truncate_orig c) (truncate_loop fuel (truncate_orig c) (rc_file_size c))"

section \<open>Lemmas\<close>

text \<open>A pattern over and over.\<close>

definition cyclic :: "byte list \<Rightarrow> nat \<Rightarrow> content" where
  "cyclic pat n = map (\<lambda>i. pat ! (i mod length pat)) [0..<n]"

lemma length_cyclic [simp]: "length (cyclic pat n) = n"
  by (simp add: cyclic_def)

lemma cyclic_piece:
  assumes "length pat dvd off" "k \<le> length pat" "off + k \<le> n"
  shows "take k (drop off (cyclic pat n)) = take k pat"
proof (rule nth_equalityI)
  fix i assume "i < length (take k (drop off (cyclic pat n)))"
  with assms have "i < k" "(off + i) mod length pat = i" by (auto simp: mod_add_eq [symmetric] dvd_eq_mod_eq_0 mod_add_left_eq [symmetric])
  with assms show "take k (drop off (cyclic pat n)) ! i = take k pat ! i" by (simp add: cyclic_def)
qed (use assms in simp)

lemma take_cyclic: "m \<le> n \<Longrightarrow> take m (cyclic pat n) = cyclic pat m"
  by (simp add: cyclic_def take_map)

lemma cyclic_add:
  assumes "length pat dvd off" "k \<le> length pat"
  shows "cyclic pat (off + k) = cyclic pat off @ take k pat"
proof -
  have "cyclic pat (off + k) = take off (cyclic pat (off + k)) @ take k (drop off (cyclic pat (off + k)))" by simp
  also have "\<dots> = cyclic pat off @ take k pat" using cyclic_piece [OF assms, of "off + k"] by (simp only: take_cyclic le_add1 order_refl)
  finally show ?thesis .
qed

text \<open>No call fails, the volume is \<open>v\<close> and \<open>rs\<close> are the results of \<open>rand()\<close> to come.\<close>

definition holds :: "nat stream \<Rightarrow> fs \<Rightarrow> rl_state \<Rightarrow> bool" where
  "holds rs v s \<longleftrightarrow> rl_env s = [] \<and> rl_vol s = v \<and> rl_rng s = rs"

lemma holds_open: "holds rs v s \<Longrightarrow> v q = Some g \<Longrightarrow> rl_open_file q s = Inr (0, s)"
  by (cases s) (auto simp: holds_def rl_open_file_def rl_open_creat_def sys_open_creat_def fun_upd_idem)

lemma gives_or_bail: "gives f Q s \<Longrightarrow> (\<And>s'. Q s' \<Longrightarrow> gives g R s') \<Longrightarrow> gives (or_bail f g) R s"
  by (auto simp: gives_def or_bail_def)


text \<open>The original, from nothing, in pieces of one cluster.\<close>

lemma file_write_at_end: "file_write (length f) bs f = f @ bs"
proof (rule file_eqI)
  fix i show "file_byte (file_write (length f) bs f) i = file_byte (f @ bs) i"
    by (auto simp: buf_simps file_byte_def nth_append)
qed (auto simp: buf_simps)

lemma holds_write_all:
  assumes "holds rs (base(p \<mapsto> f)) s"
  shows "gives (rl_write_all c [Named p, Nameless] bs (length f)) (holds rs (base(p \<mapsto> f @ bs))) s"
  using assms by (simp add: gives_def unless_neg_def all_done_def holds_def rl_write_at_ideal file_write_at_end)

lemma holds_pieces:
  assumes "holds rs (base(p \<mapsto> cyclic pat off)) s" "length pat dvd off" "off \<le> sz" "0 < length pat"
  shows "gives (rl_pieces c [Named p, Nameless] (always (length pat)) (\<lambda>s off n. buf_slice pat 0 n) sz off)
    (holds rs (base(p \<mapsto> cyclic pat sz))) s"
  using assms(1-3)
proof (induction "sz - off" arbitrary: off s rule: less_induct)
  case less
  show ?case
  proof (cases "off < sz")
    case True
    define k where "k = (if sz < off + length pat then sz - off else length pat)"
    have k: "0 < k" "k \<le> length pat" "off + k \<le> sz" using True assms(4) by (auto simp: k_def)
    obtain s2 where s2: "rl_write_all c [Named p, Nameless] (take k pat) off s = Inr (0, s2)"
      "holds rs (base(p \<mapsto> cyclic pat (off + k))) s2"
      using holds_write_all [OF less.prems(1), of c "take k pat"] cyclic_add [OF less.prems(2) k(2)] by (auto simp: gives_def)
    have loop: "rl_pieces c [Named p, Nameless] (always (length pat)) (\<lambda>s off n. buf_slice pat 0 n) sz off s
        = rl_pieces c [Named p, Nameless] (always (length pat)) (\<lambda>s off n. buf_slice pat 0 n) sz (off + k) s2"
      using True k(1,2) s2(1) by (subst rl_pieces.simps) (simp add: Let_def always_def buf_slice_def flip: k_def)
    show ?thesis
    proof (cases "off + k = sz")
      case True
      with loop s2(2) show ?thesis by (simp add: gives_def rl_pieces.simps)
    next
      case False
      with k have "k = length pat" by (auto simp: k_def split: if_splits)
      with less.prems(2) have "length pat dvd off + k" by simp
      moreover have "sz - (off + k) < sz - off" using k(1) True by linarith
      ultimately show ?thesis using less.hyps [of "off + k" s2] s2(2) k(3) by (simp add: gives_def loop)
    qed
  qed (use less.prems in \<open>auto simp: gives_def rl_pieces.simps\<close>)
qed

lemma holds_prep:
  assumes "holds rs base s" "base p = None" "base (tmp_path p) = None" "0 < length pat"
  shows "gives (prep_orig_file_with_pattern c p sz (length pat) pat False) (holds rs (base(p \<mapsto> cyclic pat sz))) s"
proof -
  let ?t = "tmp_path p"
  let ?s1 = "s\<lparr>rl_vol := base(p \<mapsto> [])\<rparr>" and ?s2 = "s\<lparr>rl_vol := base(p \<mapsto> [], ?t \<mapsto> [])\<rparr>"
  let ?s3 = "s\<lparr>rl_vol := base(p \<mapsto> []), rl_anon := []\<rparr>"
  have 1: "rl_open_creat p s = Inr (0, ?s1)"
    using assms by (cases s) (simp add: holds_def rl_open_creat_def sys_open_creat_def)
  have 2: "rl_open_creat ?t ?s1 = Inr (0, ?s2)"
    using assms by (cases s) (simp add: holds_def rl_open_creat_def sys_open_creat_def)
  have 3: "rl_unname ?t True k ?s2 = k Nameless ?s3" for k
    using assms by (cases s) (auto simp: holds_def rl_unname_def do_unlink_def intro!: arg_cong [of _ _ "k Nameless"])
  have "holds rs (base(p \<mapsto> cyclic pat 0)) ?s3" using assms(1) by (simp add: holds_def cyclic_def)
  from holds_pieces [OF this _ _ assms(4), of sz c] show ?thesis
    by (simp add: gives_def prep_orig_file_with_pattern_def unless_neg_def with_tmp_def 1 2 3)
qed

text \<open>The reflinks.\<close>

definition with_links :: "fs \<Rightarrow> string \<Rightarrow> nat \<Rightarrow> content \<Rightarrow> fs" where
  "with_links v p n g = (\<lambda>q. if q \<in> links p n then Some g else v q)"

lemma with_links_at [simp]:
  "with_links v p n g p = v p" "with_links v p n g (ref_path p i) = (if i < n then Some g else v (ref_path p i))"
  by (auto simp: with_links_def links_def)

lemma with_links_Suc: "with_links v p (Suc n) g = (with_links v p n g)(ref_path p n \<mapsto> g)"
  by (auto simp: with_links_def links_Suc)

lemma with_links_upd: "(with_links v p n g)(p \<mapsto> f) = with_links (v(p \<mapsto> f)) p n g"
  by (rule ext) (auto simp: with_links_def links_def)

lemma holds_reflink:
  assumes "holds rs v s" "v p = Some f" "v q = None"
  shows "gives (reflink c p q) (holds rs (v(q \<mapsto> rc_snap c f))) s"
  using assms by (auto simp: holds_def gives_def reflink_def unless_neg_def rl_open_ro_def sys_open_ro_def)

lemma holds_do_reflinks:
  assumes "holds rs v s" "v p = Some f" "\<And>i. i < n \<Longrightarrow> v (ref_path p i) = None"
  shows "gives (do_reflinks c p p n 0) (holds rs (with_links v p n (rc_snap c f))) s"
  unfolding do_reflinks_def
proof (rule gives_for_upto)
  show "holds rs (with_links v p 0 (rc_snap c f)) s" using assms(1) by (simp add: with_links_def)
next
  fix j s assume "j < n" "holds rs (with_links v p j (rc_snap c f)) s"
  then show "gives (if j = 0 then reflink c p (ref_path p j)
     else if (0 :: int) = 1 then reflink c (reflink_from p p (j - 1)) (ref_path p j)
     else if 1 < (0 :: int) then rl_rand 0 (j - 1) (\<lambda>ja. reflink c (reflink_from p p ja) (ref_path p j))
     else reflink c p (ref_path p j)) (holds rs (with_links v p (Suc j) (rc_snap c f))) s"
    using holds_reflink [of rs "with_links v p j (rc_snap c f)" s p f "ref_path p j" c] assms(2,3) by (cases "j = 0") (simp_all add: with_links_Suc)
qed simp

text \<open>Removing the files.\<close>

lemma holds_unlink: "holds rs v s \<Longrightarrow> v q = Some g \<Longrightarrow> gives (do_unlink q) (holds rs (v(q := None))) s"
  by (auto simp: holds_def gives_def do_unlink_ideal)

lemma restrict_drop: "(v |` (- A))(q := None) = v |` (- insert q A)"
  by (auto simp: restrict_map_def)

lemma holds_remove:
  assumes "holds rs v s" "\<And>i. i < n \<Longrightarrow> \<exists>g. v (ref_path p i) = Some g" "v p = Some f"
  shows "gives (unless_neg (do_unlinks p n) (do_unlink p)) (holds rs (v |` (- insert p (links p n)))) s"
proof (rule gives_unless_neg)
  show "gives (do_unlinks p n) (holds rs (v |` (- links p n))) s"
    unfolding do_unlinks_def
  proof (rule gives_for_upto)
    fix j s assume j: "j < n" and s: "holds rs (v |` (- links p j)) s"
    obtain g where "v (ref_path p j) = Some g" using assms(2) [OF j] by blast
    with holds_unlink [OF s, of "ref_path p j" g] show "gives (do_unlink (ref_path p j)) (holds rs (v |` (- links p (Suc j)))) s"
      unfolding links_Suc restrict_drop [symmetric] by (simp add: restrict_in)
  qed (use assms(1) in auto)
next
  fix s' assume "holds rs (v |` (- links p n)) s'"
  moreover have "p \<notin> links p n" by (auto simp: links_def)
  ultimately show "gives (do_unlink p) (holds rs (v |` (- insert p (links p n)))) s'"
    using holds_unlink [of rs "v |` (- links p n)" s' p f] assms(3) unfolding restrict_drop [symmetric] by (simp add: restrict_in)
qed


text \<open>A reflink of the right size passes exactly if it holds the pattern.\<close>

lemma check_loop_ideal:
  assumes "holds rs v s" "v q = Some g" "length g = sz" "0 < length pat" "length pat dvd off"
  shows "check_loop pat q sz off s = Inr (if drop off g = drop off (cyclic pat sz) then 0 else -1, s)"
  using assms(5)
proof (induction "sz - off" arbitrary: off rule: less_induct)
  case less
  show ?case
  proof (cases "off < sz")
    case True
    define k where "k = (if sz < off + length pat then sz - off else length pat)"
    have k: "0 < k" "k \<le> length pat" "off + k \<le> sz" using True assms(4) by (auto simp: k_def)
    have read: "File_Ops.read_at (Suc k) [] g k off = Inr (0, take k (drop off g), [])"
      using k(3) assms(3) by (simp add: File_Ops.read_at_def)
    have cmp: "memcmp (take k (drop off g)) (take k pat) = 0 \<longleftrightarrow> take k (drop off g) = take k (drop off (cyclic pat sz))"
      using cyclic_piece [OF less.prems k(2,3)] k(2,3) assms(3) memcmp_zero [of "take k (drop off g)" "take k pat"] by simp
    have same: "rl_env s = []" "rl_vol s q = Some g" "s\<lparr>rl_env := []\<rparr> = s"
      using assms(1,2) rl_env_same [of s] by (auto simp: holds_def)
    have loop: "check_loop pat q sz off s = (if take k (drop off g) = take k (drop off (cyclic pat sz))
        then check_loop pat q sz (off + k) s else Inr (-1, s))"
      using True k(1) by (subst check_loop.simps) (simp add: Let_def same read cmp flip: k_def)
    have split: "drop off xs = drop off ys \<longleftrightarrow> take k (drop off xs) = take k (drop off ys) \<and> drop (off + k) xs = drop (off + k) ys"
      for xs ys :: content
      by (metis append_take_drop_id drop_drop add.commute)
    have "check_loop pat q sz (off + k) s = Inr (if drop (off + k) g = drop (off + k) (cyclic pat sz) then 0 else -1, s)"
    proof (cases "off + k = sz")
      case True
      then show ?thesis using assms(3) by (simp add: check_loop.simps)
    next
      case False
      with k have "k = length pat" by (auto simp: k_def split: if_splits)
      with less.prems have "length pat dvd off + k" by simp
      moreover have "sz - (off + k) < sz - off" using k(1) True by linarith
      ultimately show ?thesis by (intro less.hyps)
    qed
    with loop split [of g "cyclic pat sz"] show ?thesis by simp
  next
    case False
    then show ?thesis using assms(3) by (simp add: check_loop.simps)
  qed
qed

lemma check_links_ideal:
  assumes "holds rs v s" "0 < length pat" "\<And>i. i \<in> set js \<Longrightarrow> \<exists>g. v (ref_path p i) = Some g \<and> length g = sz"
  shows "check_links pat p sz js rest s
    = (if \<forall>i \<in> set js. v (ref_path p i) = Some (cyclic pat sz) then rest s else Inr (-1, s))"
  using assms(3)
proof (induction js)
  case (Cons i js)
  obtain g where g: "v (ref_path p i) = Some g" "length g = sz" using Cons.prems by auto
  show ?case
    using Cons check_loop_ideal [OF assms(1) g assms(2), of 0]
    by (simp add: or_bail_def unless_neg_def holds_open [OF assms(1) g(1)] g(1))
qed simp

text \<open>One of the tests, for whatever the change makes of the volume.\<close>

lemma pattern_chars_rest: "pattern_chars n rs = Inr (cs, rs') \<Longrightarrow> rs' = sdrop n rs"
  by (induction n arbitrary: rs cs) (auto split: sum.splits)

definition cow_start :: "rl_conf \<Rightarrow> fs \<Rightarrow> string \<Rightarrow> content \<Rightarrow> fs" where
  "cow_start c base p f = with_links (base(p \<mapsto> f)) p (rc_ref_counts c) (rc_snap c f)"

definition cow_ready :: "rl_conf \<Rightarrow> fs \<Rightarrow> string \<Rightarrow> bool" where
  "cow_ready c base p \<longleftrightarrow> 0 < rc_cluster c \<and> base p = None \<and> base (tmp_path p) = None
     \<and> (\<forall>i < rc_ref_counts c. base (ref_path p i) = None) \<and> (\<forall>g. length (rc_snap c g) = length g)"

lemma cow_test_start:
  assumes s: "rl_env s = []" "cow_ready c (rl_vol s) p" "pattern_chars (rc_cluster c) (rl_rng s) = Inr (pat, rs)"
    and f: "f = cyclic pat (rc_file_size c)"
  obtains s0 where "holds rs (cow_start c (rl_vol s) p f) s0"
    "\<And>change. cow_test c p change s = unless_neg change (check_links pat p (rc_file_size c) [0..<rc_ref_counts c]
       (unless_neg (do_unlinks p (rc_ref_counts c)) (do_unlink p))) s0"
proof -
  have pat: "length pat = rc_cluster c" "0 < length pat" using pattern_chars_length [OF s(3)] s(2) by (auto simp: cow_ready_def)
  let ?base = "rl_vol s" and ?s0 = "s\<lparr>rl_rng := rs\<rparr>"
  have "holds rs ?base ?s0" using s(1) by (simp add: holds_def)
  from holds_prep [OF this _ _ pat(2), of p c "rc_file_size c"] s(2)
  obtain s1 where s1: "prep_orig_file_with_pattern c p (rc_file_size c) (rc_cluster c) pat False ?s0 = Inr (0, s1)"
    "holds rs (?base(p \<mapsto> f)) s1" by (auto simp: gives_def cow_ready_def pat(1) f)
  from holds_do_reflinks [OF s1(2), of p f "rc_ref_counts c" c] s(2)
  obtain s2 where s2: "do_reflinks c p p (rc_ref_counts c) 0 s1 = Inr (0, s2)" "holds rs (cow_start c ?base p f) s2"
    by (auto simp: gives_def cow_ready_def cow_start_def)
  have op: "rl_open_file p s2 = Inr (0, s2)" by (rule holds_open [OF s2(2), of _ f]) (simp add: cow_start_def)
  show thesis
    by (rule that [OF s2(2)]) (simp add: cow_test_def rl_rand_buf_def s(3) or_bail_def op s1(1) s2(1)
        unless_neg_def [of "prep_orig_file_with_pattern _ _ _ _ _ _"] unless_neg_def [of "do_reflinks _ _ _ _ _"])
qed

lemma cow_test_end:
  assumes change: "gives change (\<lambda>s'. \<exists>rs. holds rs v s') s" and pat: "0 < length pat" "f = cyclic pat sz"
    and v: "v p = Some g" "\<And>i. i < n \<Longrightarrow> \<exists>g. v (ref_path p i) = Some g \<and> length g = sz"
  shows "\<exists>s'. unless_neg change (check_links pat p sz [0..<n] (unless_neg (do_unlinks p n) (do_unlink p))) s
      = Inr (if \<forall>i < n. v (ref_path p i) = Some f then 0 else -1, s')
    \<and> rl_vol s' = (if \<forall>i < n. v (ref_path p i) = Some f then v |` (- insert p (links p n)) else v)"
proof -
  from change obtain s3 rs3 where s3: "change s = Inr (0, s3)" "holds rs3 v s3" by (auto simp: gives_def)
  let ?rest = "unless_neg (do_unlinks p n) (do_unlink p)"
  have "\<exists>g. v (ref_path p i) = Some g" if "i < n" for i using v(2) [OF that] by blast
  from holds_remove [OF s3(2) this v(1), of n] obtain s4 where s4: "?rest s3 = Inr (0, s4)" "holds rs3 (v |` (- insert p (links p n))) s4"
    by (auto simp: gives_def)
  have "check_links pat p sz [0..<n] ?rest s3 = (if \<forall>i < n. v (ref_path p i) = Some f then ?rest s3 else Inr (-1, s3))"
    using check_links_ideal [OF s3(2) pat(1), of "[0..<n]" p sz ?rest] v(2) pat(2) by (simp add: Ball_def)
  moreover have "unless_neg change (check_links pat p sz [0..<n] ?rest) s = check_links pat p sz [0..<n] ?rest s3"
    by (simp add: unless_neg_def [of change] s3(1))
  ultimately show ?thesis using s4 s3(2) by (cases "\<forall>i < n. v (ref_path p i) = Some f") (auto simp: holds_def)
qed

text \<open>Truncating ends when draws other than 0 keep coming.\<close>

definition restless :: "nat stream \<Rightarrow> bool" where
  "restless rs \<longleftrightarrow> (\<forall>n > 0. \<forall>m. \<exists>k \<ge> m. rs !! k mod (n + 1) \<noteq> 0)"

lemma restless_stl: "restless rs \<Longrightarrow> restless (stl rs)"
  unfolding restless_def by (metis Suc_le_D Suc_le_mono snth.simps(2))

lemma restless_sdrop: "restless rs \<Longrightarrow> restless (sdrop n rs)"
  by (induction n arbitrary: rs) (auto intro: restless_stl)

lemma draw_down: "0 < n \<Longrightarrow> n < 2 ^ 64 - 1 \<Longrightarrow> draw 0 n rs = Inr (shd rs mod (n + 1), stl rs)"
proof -
  assume n: "0 < n" "n < 2 ^ 64 - 1"
  then have "shd rs mod (n + 1) < 2 ^ 64" using mod_less_divisor [of "n + 1" "shd rs"] by linarith
  with n show ?thesis by (simp add: draw_def get_rand_def width)
qed

lemma truncate_round:
  assumes "holds rs v s" "v p = Some g" "0 < n" "n < 2 ^ 64 - 1"
  obtains s' where "holds (stl rs) (v(p \<mapsto> file_truncate n g)) s'"
    "\<And>fuel. truncate_loop (Suc fuel) p n s = truncate_loop fuel p (n - shd rs mod (n + 1)) s'"
  using assms that [of "s\<lparr>rl_vol := v(p \<mapsto> file_truncate n g), rl_rng := stl rs\<rparr>"]
  by (cases s) (simp add: holds_def rl_ftruncate_def rl_draw_def draw_down)

definition truncates :: "string \<Rightarrow> nat \<Rightarrow> nat stream \<Rightarrow> bool" where
  "truncates p n rs \<longleftrightarrow> (\<exists>m. \<forall>fuel \<ge> m. \<forall>s v g. holds rs v s \<longrightarrow> v p = Some g
     \<longrightarrow> gives (truncate_loop fuel p n) (\<lambda>s'. \<exists>rs. holds rs (v(p \<mapsto> [])) s') s)"

lemma truncates_0: "truncates p 0 rs"
proof -
  have "gives (truncate_loop fuel p 0) (\<lambda>s'. \<exists>rs. holds rs (v(p \<mapsto> [])) s') s"
    if "1 \<le> fuel" "holds rs v s" "v p = Some g" for fuel s v g
    using that by (cases fuel) (auto simp: gives_def holds_def rl_ftruncate_def file_truncate_def)
  then show ?thesis unfolding truncates_def by blast
qed

lemma truncates_round:
  assumes "0 < n" "n < 2 ^ 64 - 1" "truncates p (n - shd rs mod (n + 1)) (stl rs)"
  shows "truncates p n rs"
proof -
  obtain m where m: "\<And>fuel s v g. m \<le> fuel \<Longrightarrow> holds (stl rs) v s \<Longrightarrow> v p = Some g
      \<Longrightarrow> gives (truncate_loop fuel p (n - shd rs mod (n + 1))) (\<lambda>s'. \<exists>rs. holds rs (v(p \<mapsto> [])) s') s"
    using assms(3) unfolding truncates_def by blast
  have "gives (truncate_loop fuel p n) (\<lambda>s'. \<exists>rs. holds rs (v(p \<mapsto> [])) s') s"
    if fuel: "Suc m \<le> fuel" and s: "holds rs v s" "v p = Some g" for fuel s v g
  proof -
    obtain fuel' where fuel': "fuel = Suc fuel'" "m \<le> fuel'" using fuel Suc_le_D by blast
    obtain s' where s': "holds (stl rs) (v(p \<mapsto> file_truncate n g)) s'"
      "\<And>fuel. truncate_loop (Suc fuel) p n s = truncate_loop fuel p (n - shd rs mod (n + 1)) s'"
      using truncate_round [OF s assms(1,2)] by blast
    from m [OF fuel'(2) s'(1) fun_upd_same] show ?thesis unfolding gives_def fuel'(1) s'(2) fun_upd_upd .
  qed
  then show ?thesis unfolding truncates_def by blast
qed

lemma truncate_loop_ends: "n < 2 ^ 64 - 1 \<Longrightarrow> restless rs \<Longrightarrow> truncates p n rs"
proof (induction n arbitrary: rs rule: less_induct)
  case (less n)
  show ?case
  proof (cases "n = 0")
    case False
    then obtain k where "rs !! k mod (n + 1) \<noteq> 0" using less.prems(2) unfolding restless_def by (metis gr0I)
    then show ?thesis
      using less.prems(2)
    proof (induction k arbitrary: rs)
      case 0
      have "truncates p (n - shd rs mod (n + 1)) (stl rs)"
        by (rule less.IH) (use False 0 less.prems(1) restless_stl in auto)
      with truncates_round False less.prems(1) show ?case by blast
    next
      case (Suc k)
      have "truncates p (n - shd rs mod (n + 1)) (stl rs)"
      proof (cases "shd rs mod (n + 1) = 0")
        case True
        with Suc restless_stl show ?thesis by simp
      next
        case nz: False
        show ?thesis by (rule less.IH) (use nz False Suc.prems(2) less.prems(1) restless_stl in auto)
      qed
      with truncates_round False less.prems(1) show ?case by blast
    qed
  qed (simp add: truncates_0)
qed

text \<open>A hole lies in the file, or begins after its end and has a length that has wrapped.\<close>

definition cow_hole :: "nat \<Rightarrow> nat \<Rightarrow> nat \<times> nat \<Rightarrow> bool" where
  "cow_hole cluster sz = (\<lambda>(off, len). off + len \<le> sz \<or> sz < off \<and> off < sz + cluster \<and> len = 2 ^ 64 - (off - sz))"

lemma next_hole_ok:
  assumes "offset < sz" "0 < cluster" "sz + 3 * cluster < 2 ^ 64"
  obtains off len rs where "next_hole cluster sz offset s = Inr ((off, len), s\<lparr>rl_rng := rs\<rparr>)"
    "cow_hole cluster sz (off, len)" "offset < u64 (off + len)"
proof -
  obtain d rs1 where d: "rl_draw 0 cluster s = Inr (d, s\<lparr>rl_rng := rs1\<rparr>)" "d \<le> cluster"
    by (rule rl_draw_ok [of 0 cluster s]) (use assms in auto)
  obtain l rs2 where l: "rl_draw cluster (2 * cluster) (s\<lparr>rl_rng := rs1\<rparr>) = Inr (l, s\<lparr>rl_rng := rs2\<rparr>)"
    "cluster \<le> l" "l \<le> 2 * cluster"
    by (rule rl_draw_ok [of cluster "2 * cluster" "s\<lparr>rl_rng := rs1\<rparr>"]) (use assms in auto)
  define off where "off = offset + d"
  have off: "u64 (offset + d) = off" "u64 (off + l) = off + l" "off < sz + cluster" "offset \<le> off"
    using assms d(2) l(3) by (auto simp: off_def width)
  define len where "len = (if sz < off + l then sub64 sz off else l)"
  have hole: "next_hole cluster sz offset s = Inr ((off, len), s\<lparr>rl_rng := rs2\<rparr>)"
    by (simp add: next_hole_def d(1) l(1) Let_def off(1,2) len_def)
  consider "off + l \<le> sz" | "sz < off + l" "off \<le> sz" | "sz < off" by linarith
  then have "cow_hole cluster sz (off, len) \<and> offset < u64 (off + len)"
  proof cases
    case 1
    with assms l(2) off(4) show ?thesis by (simp add: len_def cow_hole_def width)
  next
    case 2
    then have "len = sz - off" using assms by (simp add: len_def width)
    with 2 assms show ?thesis by (simp add: cow_hole_def width)
  next
    case 3
    then have len: "len = 2 ^ 64 - (off - sz)" using assms off(3) by (simp add: len_def sub64_def)
    then have "off + len = sz + 2 ^ 64" using 3 assms off(3) by simp
    with 3 len off(3) assms show ?thesis by (simp add: cow_hole_def u64_def)
  qed
  with hole that show thesis by blast
qed

lemma punch_loop_ends:
  assumes "holds rs v s" "0 < cluster" "sz + 3 * cluster < 2 ^ 64" "sz - offset < fuel"
  shows "\<exists>holes. list_all (cow_hole cluster sz) holes
    \<and> gives (punch_loop punch fuel cluster p sz offset) (\<lambda>s'. \<exists>rs. holds rs (fold (\<lambda>(off, len). punch p off len) holes v) s') s"
  using assms(1,4)
proof (induction fuel arbitrary: rs v s offset)
  case (Suc fuel)
  show ?case
  proof (cases "offset < sz")
    case True
    obtain off len rs' where h: "next_hole cluster sz offset s = Inr ((off, len), s\<lparr>rl_rng := rs'\<rparr>)"
      "cow_hole cluster sz (off, len)" "offset < u64 (off + len)" by (rule next_hole_ok [OF True assms(2,3)])
    define s2 where "s2 = s\<lparr>rl_rng := rs', rl_vol := punch p off len v\<rparr>"
    have "rl_punch_hole punch p off len (s\<lparr>rl_rng := rs'\<rparr>) = Inr (0, s2)" and s2: "holds rs' (punch p off len v) s2"
      using Suc.prems(1) by (cases s; simp add: holds_def rl_punch_hole_def s2_def)+
    then have loop: "punch_loop punch (Suc fuel) cluster p sz offset s = punch_loop punch fuel cluster p sz (u64 (off + len)) s2"
      using True h(1) by simp
    have "sz - u64 (off + len) < fuel" using Suc.prems(2) h(3) True by linarith
    then obtain holes where "list_all (cow_hole cluster sz) holes"
      "gives (punch_loop punch fuel cluster p sz (u64 (off + len)))
         (\<lambda>s'. \<exists>rs. holds rs (fold (\<lambda>(off, len). punch p off len) holes (punch p off len v)) s') s2"
      using Suc.IH [OF s2] by blast
    with h(2) show ?thesis by (intro exI [of _ "(off, len) # holes"]) (simp add: gives_def loop del: punch_loop.simps)
  next
    case False
    then show ?thesis using Suc.prems(1) by (intro exI [of _ "[]"]) (auto simp: gives_def)
  qed
qed simp


section \<open>Properties\<close>

text \<open>An example: clusters of one byte, five of them, and four reflinks.\<close>

definition cow_conf :: "(content \<Rightarrow> content) \<Rightarrow> rl_conf" where
  "cow_conf snap = (sample_conf False 5)\<lparr>rc_cluster := 1, rc_snap := snap\<rparr>"

definition cow_state :: rl_state where
  "cow_state = (sample_state Map.empty)\<lparr>rl_rng := sconst 1\<rparr>"

lemma cow_sample:
  assumes "\<And>g. length (snap g) = length g"
  shows "rl_env cow_state = []" "cow_ready (cow_conf snap) (rl_vol cow_state) p" "restless (rl_rng cow_state)"
    "pattern_chars (rc_cluster (cow_conf snap)) (rl_rng cow_state) = Inr ([66], sconst 1)"
    "rc_file_size (cow_conf snap) = 5" "rc_cluster (cow_conf snap) = 1" "rc_ref_counts (cow_conf snap) = 4"
    "rc_snap (cow_conf snap) = snap"
  using assms
  by (auto simp: cow_state_def sample_state_def cow_ready_def cow_conf_def sample_conf_def restless_def get_rand_char_def get_rand_def
      sub64_def u64_def)

text \<open>
  C24. When no call fails, the draws do not stay 0 for ever and a reflink has the size of its original, the test that truncates the original
  returns: 0 and with the volume as before exactly if there is no reflink or the file system puts the contents of
  the original into a reflink, and -1 otherwise, with the empty original and all reflinks left behind.
\<close>

theorem truncate_cow_exact:
  fixes c defines "p \<equiv> truncate_orig c" and "n \<equiv> rc_ref_counts c"
  assumes "rl_env s = []" "cow_ready c (rl_vol s) p" "rc_file_size c < 2 ^ 64 - 1" "restless (rl_rng s)"
    and "pattern_chars (rc_cluster c) (rl_rng s) = Inr (pat, rs)" "f = cyclic pat (rc_file_size c)"
  shows "\<exists>m. \<forall>fuel \<ge> m. \<exists>s'. verify_truncate_cow_test fuel c s = Inr (if n = 0 \<or> rc_snap c f = f then 0 else -1, s')
    \<and> rl_vol s' = (if n = 0 \<or> rc_snap c f = f then rl_vol s else with_links ((rl_vol s)(p \<mapsto> [])) p n (rc_snap c f))"
proof -
  let ?v = "with_links ((rl_vol s)(p \<mapsto> [])) p n (rc_snap c f)"
  obtain s0 where s0: "holds rs (cow_start c (rl_vol s) p f) s0"
    "\<And>change. cow_test c p change s = unless_neg change (check_links pat p (rc_file_size c) [0..<n]
       (unless_neg (do_unlinks p n) (do_unlink p))) s0"
    using cow_test_start [OF assms(3,4,7,8)] unfolding n_def by blast
  have "restless rs" using restless_sdrop [OF assms(6)] pattern_chars_rest [OF assms(7)] by simp
  moreover have "cow_start c (rl_vol s) p f p = Some f" by (simp add: cow_start_def)
  ultimately obtain m where m: "\<And>fuel. m \<le> fuel \<Longrightarrow> gives (truncate_loop fuel p (rc_file_size c)) (\<lambda>s'. \<exists>rs. holds rs ?v s') s0"
    using truncate_loop_ends [OF assms(5), of rs p] s0(1) unfolding truncates_def
    by (fastforce simp: cow_start_def with_links_upd n_def)
  have pat: "0 < length pat" using pattern_chars_length [OF assms(7)] assms(4) by (simp add: cow_ready_def)
  have len: "length (rc_snap c f) = rc_file_size c" using assms(4,8) by (simp add: cow_ready_def)
  have same: "(\<forall>i < n. ?v (ref_path p i) = Some f) \<longleftrightarrow> n = 0 \<or> rc_snap c f = f" by auto
  have gone: "?v |` (- insert p (links p n)) = rl_vol s"
    using assms(4) by (intro ext) (auto simp: cow_ready_def with_links_def restrict_map_def links_def n_def)
  have "\<exists>s'. verify_truncate_cow_test fuel c s = Inr (if n = 0 \<or> rc_snap c f = f then 0 else -1, s')
      \<and> rl_vol s' = (if n = 0 \<or> rc_snap c f = f then rl_vol s else ?v)" if "m \<le> fuel" for fuel
    using cow_test_end [OF m [OF that] pat assms(8), of p "[]" n, unfolded same gone] len
    by (simp add: verify_truncate_cow_test_def s0(2) flip: p_def)
  then show ?thesis by blast
qed

theorem truncate_cow_exact_witness:
  "\<exists>m. \<forall>fuel \<ge> m. \<exists>s'. verify_truncate_cow_test fuel (cow_conf (map (\<lambda>_. 0))) cow_state = Inr (-1, s')"
proof -
  have "map (\<lambda>_. 0) (cyclic [66] 5) \<noteq> cyclic [66] 5" by (simp add: cyclic_def upt_rec)
  moreover note c = cow_sample [of "map (\<lambda>_. 0)", OF length_map]
  have "rc_file_size (cow_conf (map (\<lambda>_. 0))) < 2 ^ 64 - 1" by (simp add: c(5))
  from truncate_cow_exact [OF c(1,2) this c(3,4) refl]
  have "\<exists>m. \<forall>fuel \<ge> m. \<exists>s'. verify_truncate_cow_test fuel (cow_conf (map (\<lambda>_. 0))) cow_state
      = Inr (if (4 :: nat) = 0 \<or> map (\<lambda>_. 0) (cyclic [66] 5) = cyclic [66] 5 then 0 else -1, s')"
    unfolding c(5,7,8) by blast
  ultimately show ?thesis by simp
qed

text \<open>
  C17. When no call fails, punching a hole keeps the sizes of files and a reflink has the size of its
  original, the test that punches holes returns for every result of \<open>rand()\<close>: 0, and
  without its files, exactly if every reflink still holds the pattern after the holes, and -1 otherwise. Every hole lies in the file or
  begins up to a cluster after its end; the length of such a hole has wrapped and is nearly 2 to the 64.
\<close>

theorem punch_hole_cow_exact:
  fixes c defines "p \<equiv> punch_orig c" and "n \<equiv> rc_ref_counts c"
  assumes "rl_env s = []" "cow_ready c (rl_vol s) p" "rc_file_size c + 3 * rc_cluster c < 2 ^ 64" "rc_file_size c < fuel"
    and punch: "\<And>off len v q. map_option length (punch p off len v q) = map_option length (v q)"
    and "pattern_chars (rc_cluster c) (rl_rng s) = Inr (pat, rs)" "f = cyclic pat (rc_file_size c)"
  shows "\<exists>holes v s'. list_all (cow_hole (rc_cluster c) (rc_file_size c)) holes
    \<and> v = fold (\<lambda>(off, len). punch p off len) holes (cow_start c (rl_vol s) p f)
    \<and> verify_punch_hole_cow_test punch fuel c s = Inr (if \<forall>i < n. v (ref_path p i) = Some f then 0 else -1, s')
    \<and> rl_vol s' = (if \<forall>i < n. v (ref_path p i) = Some f then v |` (- insert p (links p n)) else v)"
proof -
  obtain s0 where s0: "holds rs (cow_start c (rl_vol s) p f) s0"
    "\<And>change. cow_test c p change s = unless_neg change (check_links pat p (rc_file_size c) [0..<n]
       (unless_neg (do_unlinks p n) (do_unlink p))) s0"
    using cow_test_start [OF assms(3,4,8,9)] unfolding n_def by blast
  have pos: "0 < rc_cluster c" "0 < length pat" using pattern_chars_length [OF assms(8)] assms(4) by (auto simp: cow_ready_def)
  obtain holes where holes: "list_all (cow_hole (rc_cluster c) (rc_file_size c)) holes"
    "gives (punch_loop punch fuel (rc_cluster c) p (rc_file_size c) 0)
       (\<lambda>s'. \<exists>rs. holds rs (fold (\<lambda>(off, len). punch p off len) holes (cow_start c (rl_vol s) p f)) s') s0"
    using punch_loop_ends [OF s0(1) pos(1) assms(5), of 0 fuel] assms(6) by auto
  have sizes: "map_option length (fold (\<lambda>(off, len). punch p off len) holes v q) = map_option length (v q)" for v q
    using punch by (induction holes arbitrary: v) auto
  define v where "v = fold (\<lambda>(off, len). punch p off len) holes (cow_start c (rl_vol s) p f)"
  have vp: "\<exists>g. v p = Some g" using sizes [of "cow_start c (rl_vol s) p f" p] by (auto simp: v_def cow_start_def map_option_case split: option.splits)
  have vl: "\<exists>g. v (ref_path p i) = Some g \<and> length g = rc_file_size c" if "i < n" for i
    using sizes [of "cow_start c (rl_vol s) p f" "ref_path p i"] that assms(4,9)
    by (auto simp: v_def cow_start_def n_def cow_ready_def)
  show ?thesis
    using cow_test_end [OF holes(2) [folded v_def] pos(2) assms(9) _ vl] vp holes(1) v_def
    unfolding verify_punch_hole_cow_test_def s0(2) [unfolded p_def] p_def by blast
qed

text \<open>The kernel as it should be: zeros in the hole, and the other files untouched.\<close>

definition cow_zeros :: "string \<Rightarrow> nat \<Rightarrow> nat \<Rightarrow> fs \<Rightarrow> fs" where
  "cow_zeros p off len v = v(p := map_option (\<lambda>f. map (\<lambda>i. if off \<le> i \<and> i < off + len then 0 else f ! i) [0..<length f]) (v p))"

lemma cow_zeros_else: "q \<noteq> p \<Longrightarrow> fold (\<lambda>(off, len). cow_zeros p off len) holes v q = v q"
  by (induction holes arbitrary: v) (auto simp: cow_zeros_def)

theorem punch_hole_cow_exact_witness:
  "\<exists>s'. verify_punch_hole_cow_test cow_zeros 6 (cow_conf (\<lambda>f. f)) cow_state = Inr (0, s')"
proof -
  let ?c = "cow_conf (\<lambda>f. f)" and ?f = "cyclic [66] 5"
  let ?p = "punch_orig ?c"
  note c = cow_sample [of "\<lambda>f. f", OF refl]
  have "map_option length (cow_zeros ?p off len v q) = map_option length (v q)" for off len v q
    by (cases "v q") (auto simp: cow_zeros_def)
  then obtain holes v s' where h: "v = fold (\<lambda>(off, len). cow_zeros ?p off len) holes (cow_start ?c (rl_vol cow_state) ?p ?f)"
    "verify_punch_hole_cow_test cow_zeros 6 ?c cow_state = Inr (if \<forall>i < 4. v (ref_path ?p i) = Some ?f then 0 else -1, s')"
    using punch_hole_cow_exact [of cow_state ?c 6 cow_zeros "[66]" "sconst 1" ?f, OF c(1,2)] c by auto
  have "v (ref_path ?p i) = Some ?f" if "i < 4" for i
    using that c by (simp add: h(1) cow_zeros_else cow_start_def)
  with h(2) show ?thesis by auto
qed

end
