(* ===== verification/Frager.thy ===== *)
theory Frager
  imports File_Verify Sequencing "HOL-Library.Multiset"
begin

text \<open>
  \<open>programs/defrag-test\<close>: \<open>frager.c\<close> writes files chunk by chunk from many processes so that their
  extents end up scattered, with a log for each file; \<open>verify_file.c\<close> checks a file against its log
  after the defragmenter has moved it. Both use the chunks and logs of \<open>libocfs2test\<close>.

  The state of a process of \<open>frager\<close> is the volume, the logs by name, the supplies of \<open>rand()\<close> and
  \<open>gettimeofday()\<close>, the decisions of the kernel, and whether \<open>w_log.stream_log\<close> has been set: it is closed on
  every way out of \<open>append_write_file\<close>, also before the log of this file has been opened. Closing a stream twice is undefined
  (the C library aborts). The files are opened with \<open>O_APPEND\<close>, so \<open>pwrite\<close> appends whatever the offset. What
  the reflink ioctl puts into the new file is a parameter (\<open>fo_snap\<close>).
\<close>

section \<open>frager\<close>

record fg_opts =
  fo_work_place :: "string option"
  fo_log_place :: "string option"
  fo_num_files :: nat
  fo_num_processes :: nat
  fo_file_size :: nat
  fo_chunk_size :: nat
  fo_is_random :: bool
  fo_do_refcount :: bool
  fo_snap :: "content \<Rightarrow> content"

definition fg_defaults :: "(content \<Rightarrow> content) \<Rightarrow> fg_opts" where
  "fg_defaults snap = \<lparr>fo_work_place = None, fo_log_place = None, fo_num_files = 1000, fo_num_processes = 10,
     fo_file_size = 1024 * 1024, fo_chunk_size = 32 * 1024, fo_is_random = False, fo_do_refcount = False, fo_snap = snap\<rparr>"

text \<open>\<open>atol\<close> assigned to an \<open>unsigned long\<close>.\<close>

definition ul_arg :: "string \<Rightarrow> nat" where
  "ul_arg s = nat (c_atol s mod 2 ^ 64)"

text \<open>An option: \<open>None\<close> where \<open>usage\<close> ends the program with status 1.\<close>

definition fg_opt_step :: "char \<times> string \<Rightarrow> fg_opts \<Rightarrow> fg_opts option" where
  "fg_opt_step opt o0 = (case opt of (ch, arg) \<Rightarrow>
     if ch = CHR ''w'' then Some (o0\<lparr>fo_work_place := Some arg\<rparr>)
     else if ch = CHR ''n'' then Some (o0\<lparr>fo_num_files := ul_arg arg\<rparr>)
     else if ch = CHR ''m'' then Some (o0\<lparr>fo_num_processes := ul_arg arg\<rparr>)
     else if ch = CHR ''l'' then Some (o0\<lparr>fo_file_size := ul_arg arg\<rparr>)
     else if ch = CHR ''k'' then Some (o0\<lparr>fo_chunk_size := ul_arg arg\<rparr>)
     else if ch = CHR ''o'' then Some (o0\<lparr>fo_log_place := Some arg\<rparr>)
     else if ch = CHR ''r'' then Some (o0\<lparr>fo_is_random := True\<rparr>)
     else if ch = CHR ''R'' then Some (o0\<lparr>fo_do_refcount := True\<rparr>)
     else if ch = CHR ''v'' then Some o0
     else None)"

fun fg_opt_loop :: "(char \<times> string) list \<Rightarrow> fg_opts \<Rightarrow> fg_opts option" where
  "fg_opt_loop [] o0 = Some o0"
| "fg_opt_loop (a # as) o0 = (case fg_opt_step a o0 of None \<Rightarrow> None | Some o1 \<Rightarrow> fg_opt_loop as o1)"

definition fg_setup :: "(content \<Rightarrow> content) \<Rightarrow> (char \<times> string) list \<Rightarrow> fg_opts option" where
  "fg_setup snap args = (case fg_opt_loop args (fg_defaults snap) of
     None \<Rightarrow> None
   | Some op \<Rightarrow> if fo_work_place op = None \<or> fo_log_place op = None then None else Some op)"

record fg_state =
  fg_vol :: fs
  fg_logs :: "string \<rightharpoonup> string"
  fg_wlog :: bool
  fg_rng :: "nat stream"
  fg_time :: "nat stream"
  fg_env :: io_env

type_synonym fg_op = "fg_state op"

text \<open>
  The order of the chunks in random mode: number \<open>i\<close> goes to an index drawn until one is found that
  still has 0. Draws may be unlucky for ever, so the loop has fuel.
\<close>

fun random_order :: "nat \<Rightarrow> nat \<Rightarrow> nat \<Rightarrow> nat list \<Rightarrow> nat stream \<Rightarrow> fault + nat list \<times> nat stream" where
  "random_order 0 n i order rs = Inl Out_of_fuel"
| "random_order (Suc fuel) n i order rs = (if \<not> i < n then Inr (order, rs) else
     case draw 1 (n - 1) rs of
       Inl e \<Rightarrow> Inl e
     | Inr (index, rs') \<Rightarrow>
         if order ! index = 0 then random_order fuel n (i + 1) (order[index := i]) rs'
         else random_order fuel n i order rs')"

definition write_order_map :: "bool \<Rightarrow> nat \<Rightarrow> nat \<Rightarrow> nat stream \<Rightarrow> fault + nat list \<times> nat stream" where
  "write_order_map is_random fuel n rs = (if \<not> is_random then Inr ([0..<n], rs)
     else if n = 0 then Inl Overrun else random_order fuel n 1 (replicate n 0) rs)"

text \<open>\<open>do_write_chunk\<close> on a descriptor with \<open>O_APPEND\<close>.\<close>

definition append_chunk :: "io_env \<Rightarrow> content \<Rightarrow> cwu \<Rightarrow> fault + (int \<times> content \<times> io_env)" where
  "append_chunk env f wu = (case fill_chunk_pattern wu of
     Inl e \<Rightarrow> Inl e | Inr (p, _) \<Rightarrow> Inr (fv_write_at env f p (length f)))"

definition fg_get :: "string \<Rightarrow> fg_state \<Rightarrow> content" where
  "fg_get p s = (case fg_vol s p of None \<Rightarrow> [] | Some f \<Rightarrow> f)"

definition fg_chunk :: "nat \<Rightarrow> string \<Rightarrow> string \<Rightarrow> nat \<Rightarrow> fg_op" where
  "fg_chunk chunk_size p lp chunk_no s =
     (case prep_rand_dest_write_unit (shd (fg_rng s)) (shd (fg_time s)) chunk_no chunk_size of
        Inl e \<Rightarrow> Inl e
      | Inr wu \<Rightarrow> (case fill_chunk_pattern wu of Inl e \<Rightarrow> Inl e | Inr (pat, wu) \<Rightarrow>
        (case append_chunk (fg_env s) (fg_get p s) wu of
           Inl e \<Rightarrow> Inl e
         | Inr (ret, f', env') \<Rightarrow>
           let s1 = s\<lparr>fg_vol := (fg_vol s)(p \<mapsto> f'), fg_rng := stl (fg_rng s), fg_time := stl (fg_time s), fg_env := env'\<rparr> in
           if ret < 0 then Inr (ret, s1)
           else (case log_write env' False (case fg_logs s1 lp of None \<Rightarrow> [] | Some l \<Rightarrow> l) wu of (ret, l', env'') \<Rightarrow>
              Inr (ret, s1\<lparr>fg_logs := (fg_logs s1)(lp \<mapsto> l'), fg_env := env''\<rparr>)))))"

text \<open>The way out before the log of this file is open.\<close>

definition early_bail :: "int \<Rightarrow> fg_op" where
  "early_bail ret s = (if fg_wlog s then Inl Aborted else Inr (ret, s))"

definition append_write_file :: "nat \<Rightarrow> fg_opts \<Rightarrow> string \<Rightarrow> string \<Rightarrow> fg_op" where
  "append_write_file fuel op p lp s = (let chunk_size = fo_chunk_size op in
     if chunk_size = 0 then Inl Div_zero else
     let num_chunks = u64 (fo_file_size op + chunk_size - 1) div chunk_size in
     case write_order_map (fo_is_random op) fuel num_chunks (fg_rng s) of Inl e \<Rightarrow> Inl e | Inr (order, rs) \<Rightarrow>
     let s = s\<lparr>fg_rng := rs\<rparr> in
     case sys_open_creat (fg_env s) (fg_vol s) p of
       (Inl e, env1) \<Rightarrow> early_bail (-1) (s\<lparr>fg_env := env1\<rparr>)
     | (Inr f, env1) \<Rightarrow>
       let s = s\<lparr>fg_vol := (fg_vol s)(p \<mapsto> f)\<rparr> in
       (case open_logfile env1 (Some lp) of (ret, env2) \<Rightarrow>
          if ret \<noteq> 0 then early_bail ret (s\<lparr>fg_env := env2\<rparr>)
          else for_each order (fg_chunk chunk_size p lp)
                 (s\<lparr>fg_logs := (fg_logs s)(lp \<mapsto> []), fg_wlog := True, fg_env := env2\<rparr>)))"

text \<open>The program's own \<open>reflink\<close> returns the error number, a positive value.\<close>

definition fg_reflink :: "(content \<Rightarrow> content) \<Rightarrow> string \<Rightarrow> string \<Rightarrow> fg_op" where
  "fg_reflink snap oldpath newpath s = (case sys_open_ro (fg_env s) (fg_vol s) oldpath of
     (Inl e, env1) \<Rightarrow> Inr (int e, s\<lparr>fg_env := env1\<rparr>)
   | (Inr f, env1) \<Rightarrow> (case sys_call env1 of
        (Some e, env2) \<Rightarrow> Inr (int e, s\<lparr>fg_env := env2\<rparr>)
      | (None, env2) \<Rightarrow> if fg_vol s newpath \<noteq> None then Inr (17, s\<lparr>fg_env := env2\<rparr>)
          else Inr (0, s\<lparr>fg_vol := (fg_vol s)(newpath \<mapsto> snap f), fg_env := env2\<rparr>)))"

definition fg_mkdir :: fg_op where
  "fg_mkdir s = (case sys_call (fg_env s) of
     (Some e, env') \<Rightarrow> Inr (-1, s\<lparr>fg_env := env'\<rparr>) | (None, env') \<Rightarrow> Inr (0, s\<lparr>fg_env := env'\<rparr>))"

definition fg_path :: "string \<Rightarrow> string \<Rightarrow> nat \<Rightarrow> string \<Rightarrow> nat \<Rightarrow> string" where
  "fg_path dir hostname pid nam j = dir @ ''/'' @ hostname @ ''-'' @ show_dec pid @ ''/'' @ nam @ ''-'' @ show_dec j"

text \<open>A child of \<open>write_files\<close>; the result is the argument of \<open>exit\<close>.\<close>

definition fg_child :: "nat \<Rightarrow> fg_opts \<Rightarrow> string \<Rightarrow> nat \<Rightarrow> string \<Rightarrow> string \<Rightarrow> fg_op" where
  "fg_child fuel op hostname pid dir log_dir = unless_neg fg_mkdir (unless_neg fg_mkdir
     (for_each [0..<fo_num_files op] (\<lambda>j. let p = fg_path dir hostname pid ''file'' j in
        unless_neg (append_write_file fuel op p (fg_path log_dir hostname pid ''logfile'' j))
          (if fo_do_refcount op then unless_neg (fg_reflink (fo_snap op) p (fg_path dir hostname pid ''refile'' j)) all_done
           else all_done))))"

section \<open>verify\_file\<close>

record vf_opts =
  vo_filename :: "string option"
  vo_logname :: "string option"
  vo_filesize :: nat
  vo_chunksize :: nat

text \<open>The case of \<open>-f\<close> has no \<open>break\<close>: it sets the name of the log as well.\<close>

definition vf_opt_step :: "char \<times> string \<Rightarrow> vf_opts \<Rightarrow> vf_opts option" where
  "vf_opt_step opt o0 = (case opt of (ch, arg) \<Rightarrow>
     if ch = CHR ''l'' then Some (o0\<lparr>vo_filesize := ul_arg arg\<rparr>)
     else if ch = CHR ''k'' then Some (o0\<lparr>vo_chunksize := ul_arg arg\<rparr>)
     else if ch = CHR ''f'' then Some (o0\<lparr>vo_filename := Some arg, vo_logname := Some arg\<rparr>)
     else if ch = CHR ''o'' then Some (o0\<lparr>vo_logname := Some arg\<rparr>)
     else if ch = CHR ''v'' then Some o0
     else None)"

fun vf_opt_loop :: "(char \<times> string) list \<Rightarrow> vf_opts \<Rightarrow> vf_opts option" where
  "vf_opt_loop [] o0 = Some o0"
| "vf_opt_loop (a # as) o0 = (case vf_opt_step a o0 of None \<Rightarrow> None | Some o1 \<Rightarrow> vf_opt_loop as o1)"

text \<open>
  \<open>main\<close>: 1 where \<open>usage\<close> ends the program. A log that does not exist or cannot be opened is \<open>-EINVAL\<close>; a data file
  can be opened as a log. The chunk size is passed as an \<open>unsigned int\<close>.
\<close>

definition log_text :: "fs \<Rightarrow> (string \<rightharpoonup> string) \<Rightarrow> string \<Rightarrow> string option" where
  "log_text vol logs nam = (case logs nam of Some l \<Rightarrow> Some l | None \<Rightarrow> map_option (map char_of_byte) (vol nam))"

definition vf_verify_main :: "nat \<Rightarrow> (nat \<Rightarrow> byte list) \<Rightarrow> io_env \<Rightarrow> fs \<Rightarrow> (string \<rightharpoonup> string) \<Rightarrow> (char \<times> string) list \<Rightarrow> fault + int" where
  "vf_verify_main fuel junk env vol logs args =
     (case vf_opt_loop args \<lparr>vo_filename = None, vo_logname = None, vo_filesize = 0, vo_chunksize = 0\<rparr> of
        None \<Rightarrow> Inr 1
      | Some op \<Rightarrow> (case (vo_filename op, vo_logname op) of
          (Some fnam, Some lnam) \<Rightarrow>
            if vo_filesize op = 0 \<or> vo_chunksize op = 0 then Inr 1 else
            (case open_logfile env (Some lnam) of (ret, env1) \<Rightarrow>
               if ret \<noteq> 0 then Inr ret else
               (case log_text vol logs lnam of None \<Rightarrow> Inr (- int EINVAL)
                | Some l \<Rightarrow> verify_file fuel junk env1 vol (Inl l) fnam (vo_filesize op) (u32 (vo_chunksize op))))
        | _ \<Rightarrow> Inr 1))"

section \<open>The order of the chunks\<close>

text \<open>After \<open>i - 1\<close> placements: the numbers below \<open>i\<close> once each, and zeros, one of them at index 0.\<close>

definition partial_order :: "nat \<Rightarrow> nat \<Rightarrow> nat list \<Rightarrow> bool" where
  "partial_order n i order \<longleftrightarrow> length order = n \<and> 1 \<le> i \<and> i \<le> n \<and> order ! 0 = 0
     \<and> mset order = mset [1..<i] + replicate_mset (n + 1 - i) 0"

lemma partial_order_start: "0 < n \<Longrightarrow> partial_order n 1 (replicate n 0)"
  by (simp add: partial_order_def)

lemma partial_order_step:
  assumes "partial_order n i order" "i < n" "1 \<le> index" "index < n" "order ! index = 0"
  shows "partial_order n (i + 1) (order[index := i])"
proof -
  have n: "n + 1 - i = Suc (n + 1 - (i + 1))" using assms(2) by simp
  have "mset (order[index := i]) = add_mset i (mset order - {#0#})"
    using assms by (simp add: partial_order_def mset_update)
  also have "\<dots> = mset [1..<i + 1] + replicate_mset (n + 1 - (i + 1)) 0"
    using assms(1) unfolding partial_order_def n by (simp add: upt_Suc_append)
  finally show ?thesis using assms by (simp add: partial_order_def)
qed

lemma partial_order_end:
  assumes "partial_order n i order" "\<not> i < n"
  shows "mset order = mset [0..<n]"
proof -
  have "i = n" "0 < n" using assms by (auto simp: partial_order_def)
  then have "[0..<n] = 0 # [1..<n]" by (simp add: upt_conv_Cons)
  with assms(1) \<open>i = n\<close> show ?thesis by (simp add: partial_order_def)
qed

lemma partial_order_free:
  assumes "partial_order n i order" "i < n"
  obtains j where "1 \<le> j" "j < n" "order ! j = 0"
proof -
  obtain x xs where o: "order = x # xs" "x = 0" "length xs = n - 1"
    using assms by (cases order) (auto simp: partial_order_def)
  have n: "n + 1 - i = Suc (Suc (n - 1 - i))" using assms(2) by simp
  have "add_mset 0 (mset xs) = mset [1..<i] + replicate_mset (Suc (Suc (n - 1 - i))) 0"
    using assms(1) o(1,2) unfolding partial_order_def n by simp
  then have "mset xs = mset [1..<i] + replicate_mset (Suc (n - 1 - i)) 0" by simp
  then have "0 \<in># mset xs" by simp
  then obtain j where "j < length xs" "xs ! j = 0" by (auto simp: in_set_conv_nth)
  with o show thesis by (intro that [of "Suc j"]) auto
qed

lemma draw_index:
  assumes "2 \<le> n" "n < 2 ^ 63"
  shows "draw (Suc 0) (n - Suc 0) rs = Inr (Suc (shd rs mod (n - Suc 0)), stl rs)"
proof -
  have "shd rs mod (n - Suc 0) < n - Suc 0" using assms(1) by simp
  then have "u64 (Suc 0 + shd rs mod (n - Suc 0)) = Suc (shd rs mod (n - Suc 0))" using assms(2) by (subst u64_id) simp_all
  moreover have "u64 (sub64 (n - Suc 0) (Suc 0) + 1) = n - Suc 0" using assms by (simp add: width)
  ultimately show ?thesis using assms(1) by (simp add: draw_def get_rand_def)
qed

lemma random_order_perm:
  assumes "random_order fuel n i order rs = Inr (order', rs')" "partial_order n i order" "n < 2 ^ 63"
  shows "mset order' = mset [0..<n]"
  using assms
proof (induction fuel n i order rs rule: random_order.induct)
  case (2 fuel n i order rs)
  show ?case
  proof (cases "i < n")
    case True
    then have n: "2 \<le> n" using "2.prems"(2) unfolding partial_order_def by linarith
    let ?j = "Suc (shd rs mod (n - 1))"
    have j: "?j < n" using n mod_less_divisor [of "n - 1" "shd rs"] by linarith
    have "partial_order n (i + 1) (order[?j := i])" if "order ! ?j = 0"
      using partial_order_step [OF "2.prems"(2) True _ j that] by simp
    then show ?thesis
      using "2.IH" [OF _ draw_index [OF n "2.prems"(3), folded One_nat_def] refl] "2.prems" True
      by (simp add: draw_index [OF n] split: if_splits)
  next
    case False
    with "2.prems" partial_order_end show ?thesis by auto
  qed
qed simp

text \<open>Every index comes up again and again.\<close>

definition fair :: "nat \<Rightarrow> nat stream \<Rightarrow> bool" where
  "fair n rs \<longleftrightarrow> (\<forall>m. \<forall>j < n - 1. \<exists>k \<ge> m. rs !! k mod (n - 1) = j)"

lemma fair_stl: "fair n rs \<Longrightarrow> fair n (stl rs)"
  unfolding fair_def
proof (intro allI impI)
  fix m j assume f: "\<forall>m. \<forall>j < n - 1. \<exists>k \<ge> m. rs !! k mod (n - 1) = j" and j: "j < n - 1"
  then obtain k where "Suc m \<le> k" "rs !! k mod (n - 1) = j" by blast
  then show "\<exists>k \<ge> m. stl rs !! k mod (n - 1) = j" by (intro exI [of _ "k - 1"]) (auto simp flip: snth.simps(2))
qed

lemma random_order_hit:
  assumes "2 \<le> n" "n < 2 ^ 63" "i < n" "fair n rs" "order ! Suc (rs !! k mod (n - 1)) = 0"
  obtains fuel index rs' where "1 \<le> index" "index < n" "order ! index = 0" "fair n rs'"
    "\<And>m. random_order (fuel + m) n i order rs = random_order m n (i + 1) (order[index := i]) rs'"
  using assms(4,5)
proof (induction k arbitrary: rs thesis)
  case 0
  let ?j = "Suc (shd rs mod (n - 1))"
  have "?j < n" using assms(1) mod_less_divisor [of "n - 1" "shd rs"] by linarith
  moreover have "random_order (1 + m) n i order rs = random_order m n (i + 1) (order[?j := i]) (stl rs)" for m
    using 0(3) assms(3) by (simp add: draw_index [OF assms(1,2)] del: random_order.simps(1))
  ultimately show ?case using 0 fair_stl by (intro "0.prems"(1) [of ?j "stl rs" 1]) auto
next
  case (Suc k)
  let ?j = "Suc (shd rs mod (n - 1))"
  show ?case
  proof (cases "order ! ?j = 0")
    case True
    have "?j < n" using assms(1) mod_less_divisor [of "n - 1" "shd rs"] by linarith
    moreover have "random_order (1 + m) n i order rs = random_order m n (i + 1) (order[?j := i]) (stl rs)" for m
      using True assms(3) by (simp add: draw_index [OF assms(1,2)] del: random_order.simps(1))
    ultimately show ?thesis using Suc.prems True fair_stl by (intro Suc.prems(1) [of ?j "stl rs" 1]) auto
  next
    case False
    obtain fuel index rs' where r: "1 \<le> index" "index < n" "order ! index = 0" "fair n rs'"
      "\<And>m. random_order (fuel + m) n i order (stl rs) = random_order m n (i + 1) (order[index := i]) rs'"
      using Suc.IH [OF _ fair_stl [OF Suc.prems(2)]] Suc.prems(3) by auto
    have "random_order (Suc fuel + m) n i order rs = random_order m n (i + 1) (order[index := i]) rs'" for m
      using False assms(3) r(5) by (simp add: draw_index [OF assms(1,2)])
    then show ?thesis by (rule Suc.prems(1) [OF r(1-4)])
  qed
qed

lemma random_order_ends:
  assumes "partial_order n i order" "n < 2 ^ 63" "fair n rs"
  shows "\<exists>fuel order' rs'. random_order fuel n i order rs = Inr (order', rs')"
  using assms
proof (induction "n - i" arbitrary: i order rs)
  case 0
  then have "random_order (Suc 0) n i order rs = Inr (order, rs)" by simp
  then show ?case by blast
next
  case (Suc d)
  then have i: "i < n" "2 \<le> n" by (auto simp: partial_order_def)
  obtain j where j: "1 \<le> j" "j < n" "order ! j = 0" by (rule partial_order_free [OF Suc.prems(1) i(1)])
  obtain k where "rs !! k mod (n - 1) = j - 1" using Suc.prems(3) j(1,2) unfolding fair_def by (metis diff_less_mono)
  with j have "order ! Suc (rs !! k mod (n - 1)) = 0" by simp
  then obtain fuel index rs' where r: "1 \<le> index" "index < n" "order ! index = 0" "fair n rs'"
    "\<And>m. random_order (fuel + m) n i order rs = random_order m n (i + 1) (order[index := i]) rs'"
    by (rule random_order_hit [OF i(2) Suc.prems(2) i(1) Suc.prems(3)]) blast
  have "\<exists>fuel order' rs''. random_order fuel n (i + 1) (order[index := i]) rs' = Inr (order', rs'')"
    using Suc.hyps(2) partial_order_step [OF Suc.prems(1) i(1) r(1-3)] Suc.prems(2) r(4) by (intro Suc.hyps(1)) auto
  then show ?case using r(5) by metis
qed

section \<open>The file and its log\<close>

definition fg_unit :: "nat \<Rightarrow> nat \<Rightarrow> nat \<Rightarrow> nat \<Rightarrow> cwu" where
  "fg_unit chunk_size r now k = (let u = \<lparr>wu_chunk_no = k, wu_timestamp = now, wu_chunksize = chunk_size, wu_checksum = 0,
     wu_char = 65 + of_nat (r mod 26)\<rparr> in u\<lparr>wu_checksum := body_crc u\<rparr>)"

fun fg_units :: "nat \<Rightarrow> nat list \<Rightarrow> nat stream \<Rightarrow> nat stream \<Rightarrow> cwu list" where
  "fg_units chunk_size [] rs ts = []"
| "fg_units chunk_size (k # ks) rs ts = fg_unit chunk_size (shd rs) (shd ts) k # fg_units chunk_size ks (stl rs) (stl ts)"

lemma fg_unit_fields [simp]:
  "wu_chunk_no (fg_unit c r t k) = k" "wu_timestamp (fg_unit c r t k) = t" "wu_chunksize (fg_unit c r t k) = c"
  "wu_checksum (fg_unit c r t k) = body_crc (fg_unit c r t k)" "wu_char (fg_unit c r t k) = 65 + of_nat (r mod 26)"
  by (simp_all add: fg_unit_def Let_def body_crc_def)

lemma fg_unit_crc [simp]: "(fg_unit c r t k)\<lparr>wu_checksum := body_crc (fg_unit c r t k)\<rparr> = fg_unit c r t k"
  by (simp add: fg_unit_def Let_def body_crc_def)

lemma length_fg_units [simp]: "length (fg_units c ks rs ts) = length ks"
  by (induction ks arbitrary: rs ts) simp_all

lemma fg_units_no: "map wu_chunk_no (fg_units c ks rs ts) = ks"
  by (induction ks arbitrary: rs ts) simp_all

lemma fg_units_fit: "u \<in> set (fg_units c ks rs ts) \<Longrightarrow> \<exists>r. \<exists>t \<in> sset ts. \<exists>k \<in> set ks. u = fg_unit c r t k"
proof (induction ks arbitrary: rs ts)
  case (Cons k ks)
  then show ?case by (cases ts) (auto, metis stl_sset stream.sel(2))
qed simp

lemma prep_fg_unit:
  assumes "40 \<le> c"
  shows "prep_rand_dest_write_unit r now k c = Inr (fg_unit c r now k)"
proof -
  have "fv_rand_char r = Inr (65 + of_nat (r mod 26))"
    using mod_less_divisor [of 26 r] by (simp add: fv_rand_char_def fv_get_rand_ul_def width)
  with assms show ?thesis by (simp add: prep_rand_dest_write_unit_def fill_chunk_bytes fg_unit_def Let_def)
qed

lemma write_at_end: "File_Ops.write_at [] f bs (length f) = (0, f @ bs, [])"
  by (simp add: File_Ops.write_at_def write_at_loop.simps file_write_def patch_def)

lemma fg_chunk_ideal:
  assumes "40 < c" "c < 2 ^ 31" "fg_env s = []" "fg_vol s p = Some f" "fg_logs s lp = Some l"
  shows "fg_chunk c p lp k s = Inr (0, s\<lparr>fg_vol := (fg_vol s)(p \<mapsto> f @ chunk_bytes (fg_unit c (shd (fg_rng s)) (shd (fg_time s)) k)),
    fg_logs := (fg_logs s)(lp \<mapsto> l @ show_cwu (fg_unit c (shd (fg_rng s)) (shd (fg_time s)) k)),
    fg_rng := stl (fg_rng s), fg_time := stl (fg_time s)\<rparr>)"
proof -
  let ?u = "fg_unit c (shd (fg_rng s)) (shd (fg_time s)) k"
  have "append_chunk [] f ?u = Inr (int c, f @ chunk_bytes ?u, [])"
    using assms(1,2) length_chunk_bytes [of ?u]
    by (simp add: append_chunk_def fill_chunk_bytes fv_write_at_def write_at_end to_int32_id)
  with assms show ?thesis
    by (cases s) (simp add: fg_chunk_def prep_fg_unit fill_chunk_bytes fg_get_def log_write_def Let_def)
qed

lemma fg_loop_ideal:
  assumes "40 < c" "c < 2 ^ 31" "fg_env s = []" "fg_vol s p = Some f" "fg_logs s lp = Some l"
  shows "\<exists>rs ts. for_each ks (fg_chunk c p lp) s = Inr (0, s\<lparr>
    fg_vol := (fg_vol s)(p \<mapsto> f @ concat (map chunk_bytes (fg_units c ks (fg_rng s) (fg_time s)))),
    fg_logs := (fg_logs s)(lp \<mapsto> l @ concat (map show_cwu (fg_units c ks (fg_rng s) (fg_time s)))),
    fg_rng := rs, fg_time := ts\<rparr>) \<and> sset ts \<subseteq> sset (fg_time s)"
  using assms(3-)
proof (induction ks arbitrary: s f l)
  case Nil
  then show ?case by (cases s) (auto simp: all_done_def fun_upd_idem)
next
  case (Cons k ks)
  let ?u = "fg_unit c (shd (fg_rng s)) (shd (fg_time s)) k"
  define s1 where "s1 = s\<lparr>fg_vol := (fg_vol s)(p \<mapsto> f @ chunk_bytes ?u), fg_logs := (fg_logs s)(lp \<mapsto> l @ show_cwu ?u),
    fg_rng := stl (fg_rng s), fg_time := stl (fg_time s)\<rparr>"
  have step: "fg_chunk c p lp k s = Inr (0, s1)" unfolding s1_def by (rule fg_chunk_ideal [OF assms(1,2) Cons.prems])
  have "\<exists>rs ts. for_each ks (fg_chunk c p lp) s1 = Inr (0, s1\<lparr>
    fg_vol := (fg_vol s1)(p \<mapsto> (f @ chunk_bytes ?u) @ concat (map chunk_bytes (fg_units c ks (fg_rng s1) (fg_time s1)))),
    fg_logs := (fg_logs s1)(lp \<mapsto> (l @ show_cwu ?u) @ concat (map show_cwu (fg_units c ks (fg_rng s1) (fg_time s1)))),
    fg_rng := rs, fg_time := ts\<rparr>) \<and> sset ts \<subseteq> sset (fg_time s1)"
    by (rule Cons.IH) (simp_all add: s1_def Cons.prems(1))
  moreover have "sset (fg_time s1) \<subseteq> sset (fg_time s)" by (cases "fg_time s") (auto simp: s1_def)
  ultimately obtain rs ts where r: "for_each ks (fg_chunk c p lp) s1 = Inr (0, s1\<lparr>
    fg_vol := (fg_vol s1)(p \<mapsto> (f @ chunk_bytes ?u) @ concat (map chunk_bytes (fg_units c ks (fg_rng s1) (fg_time s1)))),
    fg_logs := (fg_logs s1)(lp \<mapsto> (l @ show_cwu ?u) @ concat (map show_cwu (fg_units c ks (fg_rng s1) (fg_time s1)))),
    fg_rng := rs, fg_time := ts\<rparr>)" "sset ts \<subseteq> sset (fg_time s)" by blast
  show ?case
    by (rule exI [of _ rs], rule exI [of _ ts]) (simp add: and_then_def step r, cases s, auto simp: s1_def fun_eq_iff)
qed

text \<open>What is on the disk: the units one after the other.\<close>

lemma concat_length: "\<forall>x \<in> set xs. length (g x) = c \<Longrightarrow> length (concat (map g xs)) = length xs * c"
  by (induction xs) simp_all

lemma concat_slice:
  assumes "\<forall>x \<in> set xs. length (g x) = c" "i < length xs"
  shows "take c (drop (i * c) (concat (map g xs))) = g (xs ! i)"
  using assms
proof (induction xs arbitrary: i)
  case (Cons x xs)
  then show ?case by (cases i) auto
qed simp

lemma disk_units:
  assumes "40 < c" "\<forall>u \<in> set us. wu_chunksize u = c \<and> wu_checksum u = body_crc u \<and> wu_chunk_no u < 2 ^ 64 \<and> wu_timestamp u < 2 ^ 64"
    "i < length us"
  shows "disk_cwu (concat (map chunk_bytes us)) c i = us ! i"
proof -
  let ?f = "concat (map chunk_bytes us)"
  have len: "\<forall>u \<in> set us. length (chunk_bytes u) = c" using assms(1,2) by (auto simp: length_chunk_bytes)
  have u: "us ! i \<in> set us" using assms(3) by simp
  then have "dump_pattern (chunk_bytes (us ! i)) c = Inr (us ! i)"
    using dump_chunk_bytes [of "us ! i" "[]"] assms(1,2) by auto
  then have "Inr (disk_cwu ?f c i) = (Inr (us ! i) :: fault + cwu)"
    using dump_disk [OF assms(1), of i ?f] concat_slice [OF len assms(3)] concat_length [OF len] chunk_room [OF assms(3), of c] by simp
  then show ?thesis by simp
qed

text \<open>The table after a log with one record for each of its chunks.\<close>

lemma fold_update_other:
  "k \<notin> wu_chunk_no ` set us \<Longrightarrow> fold wus_update us wus ! k = wus ! k"
  by (induction us arbitrary: wus) (auto simp: wus_update_def)

lemma fold_update_units:
  assumes "distinct (map wu_chunk_no us)" "\<forall>u \<in> set us. wu_chunk_no u < length wus \<and> wu_timestamp (wus ! wu_chunk_no u) = 0" "u \<in> set us"
  shows "fold wus_update us wus ! wu_chunk_no u = u"
  using assms
proof (induction us arbitrary: wus)
  case (Cons v us)
  let ?wus = "wus[wu_chunk_no v := v]"
  have upd: "wus_update v wus = ?wus" using Cons.prems(2) by (simp add: wus_update_def)
  show ?case
  proof (cases "u \<in> set us")
    case True
    have "\<forall>u \<in> set us. wu_chunk_no u < length ?wus \<and> wu_timestamp (?wus ! wu_chunk_no u) = 0"
      using Cons.prems(1,2) by (auto simp: image_iff nth_list_update)
    with Cons.IH [of ?wus] Cons.prems(1) True upd show ?thesis by simp
  next
    case False
    then have "u = v" "wu_chunk_no v \<notin> wu_chunk_no ` set us" using Cons.prems(1,3) by auto
    with Cons.prems(2) upd show ?thesis by (simp add: fold_update_other)
  qed
qed simp

lemma expected_units:
  assumes "distinct (map wu_chunk_no us)" "\<forall>u \<in> set us. wu_chunk_no u < n" "u \<in> set us"
  shows "expected n c us ! wu_chunk_no u = u"
  unfolding expected_def using assms by (intro fold_update_units) (auto simp: init_wus_def cwu_zero_def)

text \<open>Units appended in some order verify exactly if that order is the order of their numbers.\<close>

lemma verify_units:
  assumes c: "40 < c" "c < 2 ^ 31" and n: "0 < n" "n * c < 2 ^ 63" and junk: "\<forall>i. length (junk i) = c"
    and perm: "mset order = mset [0..<n]" and ts: "\<forall>t \<in> sset ts. 0 < t \<and> t < 2 ^ 63"
    and us: "us = fg_units c order rs ts" "vol p = Some (concat (map chunk_bytes us))"
  shows "\<exists>r. verify_file (Suc fuel) junk [] vol (Inl (concat (map show_cwu us))) p (n * c) c = Inr r \<and> (r = 0 \<longleftrightarrow> order = [0..<n])"
proof -
  have order: "length order = n" "set order = {0..<n}" "distinct order"
    using perm [THEN mset_eq_length] perm [THEN mset_eq_setD] perm [THEN mset_eq_imp_distinct_iff] by simp_all
  have len: "length us = n" and nos: "map wu_chunk_no us = order" using order(1) by (simp_all add: us(1) fg_units_no)
  have "n < 2 ^ 63" using n c(1) mult_le_mono2 [of 1 c n] by linarith
  have fit: "wf_cwu n c u \<and> 0 < wu_timestamp u \<and> wu_checksum u = body_crc u" if u': "u \<in> set us" for u
  proof -
    obtain r t k where u: "u = fg_unit c r t k" "t \<in> sset ts" "k \<in> set order"
      using fg_units_fit [of u c order rs ts] u' [unfolded us(1)] by blast
    have "\<not> c_isspace (char_of_byte (65 + of_nat (r mod 26)))"
      using rand_letter(1) [of "r mod 26"] mod_less_divisor [of 26 r] by (simp add: RAND_CHAR_START_def)
    moreover have "k < n" using u(3) order(2) by simp
    ultimately show ?thesis using u(1,2) ts \<open>n < 2 ^ 63\<close> by (auto simp: wf_cwu_def)
  qed
  let ?f = "concat (map chunk_bytes us)"
  have lenf: "length ?f = n * c"
    using concat_length [of us chunk_bytes c] fit len c(1) by (auto simp: wf_cwu_def length_chunk_bytes)
  have disk: "disk_cwu ?f c i = us ! i" if "i < n" for i
    using that len fit by (intro disk_units c(1)) (force simp: wf_cwu_def)+
  have no: "wu_chunk_no (us ! i) = order ! i" if "i < n" for i using nos that len by (metis nth_map)
  have ex: "expected n c us ! (order ! i) = us ! i" if "i < n" for i
    using expected_units [of us n "us ! i" c] nos order(3) fit that len no by (auto simp: wf_cwu_def)
  have "chunk_passes (expected n c us ! i) i (us ! i) \<longleftrightarrow> order ! i = i" if i: "i < n" for i
  proof -
    obtain j where j: "j < n" "order ! j = i" using order(1,2) i by (metis atLeastLessThan_iff in_set_conv_nth le0)
    then have "expected n c us ! i = us ! j" "0 < wu_timestamp (us ! j)" using ex fit len by auto
    moreover have "i = j" if "order ! i = i"
      using nth_eq_iff_index_eq [OF order(3), of i j] that j i order(1) by simp
    ultimately show ?thesis using no [OF i] no [OF j(1)] j(2) by (auto simp: chunk_passes_def)
  qed
  then have "(\<forall>i < n. chunk_passes (expected n c us ! i) i (disk_cwu ?f c i)) \<longleftrightarrow> order = [0..<n]"
    using disk order(1) by (auto simp: list_eq_iff_nth_eq)
  moreover have "list_all (wf_cwu n c) us" "us \<noteq> []" using fit len n(1) by (auto simp: list_all_iff)
  ultimately show ?thesis
    using verify_file_ideal [OF c lenf _ junk, of us vol p fuel] lenf n(2) us(2) by simp
qed

lemma append_write_ideal:
  assumes c: "40 < fo_chunk_size op" "fo_chunk_size op < 2 ^ 31" and n: "fo_file_size op = n * fo_chunk_size op" "n * fo_chunk_size op < 2 ^ 63"
    and order: "write_order_map (fo_is_random op) fuel n (fg_rng s) = Inr (order, rs)" and s: "fg_env s = []" "fg_vol s p = None"
  obtains s' where "append_write_file fuel op p lp s = Inr (0, s')" "fg_env s' = []"
    "fg_vol s' = (fg_vol s)(p \<mapsto> concat (map chunk_bytes (fg_units (fo_chunk_size op) order rs (fg_time s))))"
    "fg_logs s' = (fg_logs s)(lp \<mapsto> concat (map show_cwu (fg_units (fo_chunk_size op) order rs (fg_time s))))"
    "sset (fg_time s') \<subseteq> sset (fg_time s)"
proof -
  let ?c = "fo_chunk_size op"
  have "u64 (n * ?c + ?c - 1) = n * ?c + (?c - 1)" using c n(2) by (subst u64_id) simp_all
  moreover have "(n * ?c + (?c - 1)) div ?c = n" using c(1) by (subst div_add1_eq) simp
  ultimately have chunks: "u64 (fo_file_size op + ?c - 1) div ?c = n" unfolding n(1) by simp
  let ?s = "s\<lparr>fg_rng := rs, fg_vol := (fg_vol s)(p \<mapsto> []), fg_logs := (fg_logs s)(lp \<mapsto> []), fg_wlog := True, fg_env := []\<rparr>"
  obtain rs' ts' where loop: "for_each order (fg_chunk ?c p lp) ?s = Inr (0, ?s\<lparr>
    fg_vol := (fg_vol ?s)(p \<mapsto> [] @ concat (map chunk_bytes (fg_units ?c order (fg_rng ?s) (fg_time ?s)))),
    fg_logs := (fg_logs ?s)(lp \<mapsto> [] @ concat (map show_cwu (fg_units ?c order (fg_rng ?s) (fg_time ?s)))),
    fg_rng := rs', fg_time := ts'\<rparr>)" "sset ts' \<subseteq> sset (fg_time ?s)"
    using fg_loop_ideal [OF c, of ?s p "[]" lp "[]" order] by auto
  have "append_write_file fuel op p lp s = for_each order (fg_chunk ?c p lp) ?s"
    using c(1) chunks order s by (simp add: append_write_file_def Let_def sys_open_creat_def open_logfile_def)
  then have r: "append_write_file fuel op p lp s = Inr (0, ?s\<lparr>
    fg_vol := (fg_vol s)(p \<mapsto> concat (map chunk_bytes (fg_units ?c order rs (fg_time s)))),
    fg_logs := (fg_logs s)(lp \<mapsto> concat (map show_cwu (fg_units ?c order rs (fg_time s)))),
    fg_rng := rs', fg_time := ts'\<rparr>)" unfolding loop(1) by simp
  show thesis by (rule that [OF r]) (use loop(2) in simp_all)
qed

section \<open>Writing and verifying\<close>

text \<open>\<open>verify_file\<close> as its usage shows it: the file, then the log, the sizes as numbers.\<close>

definition verify_args :: "string \<Rightarrow> string \<Rightarrow> nat \<Rightarrow> nat \<Rightarrow> (char \<times> string) list" where
  "verify_args fnam lnam sz c = [(CHR ''f'', fnam), (CHR ''o'', lnam), (CHR ''l'', show_dec sz), (CHR ''k'', show_dec c)]"

lemma ul_arg_show: "n < 2 ^ 63 \<Longrightarrow> ul_arg (show_dec n) = n"
  by (simp add: ul_arg_def c_atol_show_dec nat_mod_distrib)

lemma vf_verify_main_args:
  assumes "0 < sz" "sz < 2 ^ 63" "0 < c" "c < 2 ^ 31" "logs lnam = Some l"
  shows "vf_verify_main fuel junk [] vol logs (verify_args fnam lnam sz c) = verify_file fuel junk [] vol (Inl l) fnam sz c"
  using assms
  by (simp add: vf_verify_main_def verify_args_def vf_opt_step_def ul_arg_show open_logfile_def log_text_def u32_id)

text \<open>A file written whole, with its log.\<close>

definition written :: "nat \<Rightarrow> nat list \<Rightarrow> content \<Rightarrow> string \<Rightarrow> bool" where
  "written c order f l \<longleftrightarrow> (\<exists>rs ts. (\<forall>t \<in> sset ts. 0 < t \<and> t < 2 ^ 63) \<and> f = concat (map chunk_bytes (fg_units c order rs ts))
     \<and> l = concat (map show_cwu (fg_units c order rs ts)))"

lemma verify_written:
  assumes "40 < c" "c < 2 ^ 31" "0 < n" "n * c < 2 ^ 63" "\<forall>i. length (junk i) = c" "mset order = mset [0..<n]"
    and "written c order f l" "vol p = Some f" "logs lp = Some l"
  shows "\<exists>r. vf_verify_main (Suc fuel) junk [] vol logs (verify_args p lp (n * c) c) = Inr r \<and> (r = 0 \<longleftrightarrow> order = [0..<n])"
proof -
  obtain rs ts where w: "\<forall>t \<in> sset ts. 0 < t \<and> t < 2 ^ 63" "f = concat (map chunk_bytes (fg_units c order rs ts))"
    "l = concat (map show_cwu (fg_units c order rs ts))" using assms(7) by (auto simp: written_def)
  have "vf_verify_main (Suc fuel) junk [] vol logs (verify_args p lp (n * c) c) = verify_file (Suc fuel) junk [] vol (Inl l) p (n * c) c"
    using assms(1-4,9) by (intro vf_verify_main_args) simp_all
  with verify_units [where vol = vol and p = p, OF assms(1-6) w(1) refl, of rs fuel] assms(8) w(2,3) show ?thesis by simp
qed

definition times_ok :: "fg_state \<Rightarrow> bool" where
  "times_ok s \<longleftrightarrow> (\<forall>t \<in> sset (fg_time s). 0 < t \<and> t < 2 ^ 63)"

lemma order_perm:
  assumes "write_order_map rnd fuel n rs = Inr (order, rs')" "n < 2 ^ 63"
  shows "mset order = mset [0..<n]"
  using assms random_order_perm [OF _ partial_order_start] by (auto simp: write_order_map_def split: if_splits)

text \<open>
  With draws in which every index comes up again and again the loop that lays down the order of the
  chunks in random mode ends, and the order is a permutation: every chunk is written, and once.
\<close>

theorem write_order_covers:
  assumes "0 < n" "n < 2 ^ 63" "fair n rs"
  shows "\<exists>fuel order rs'. write_order_map True fuel n rs = Inr (order, rs') \<and> mset order = mset [0..<n]"
proof -
  obtain fuel order rs' where "random_order fuel n 1 (replicate n 0) rs = Inr (order, rs')"
    using random_order_ends [OF partial_order_start [OF assms(1)] assms(2,3)] by blast
  then have "write_order_map True fuel n rs = Inr (order, rs')" using assms(1) by (simp add: write_order_map_def)
  with order_perm [OF this assms(2)] show ?thesis by blast
qed

lemma fair_nats: "fair n (siterate Suc 0)"
  unfolding fair_def
proof (intro allI impI)
  fix m j assume "j < n - 1"
  moreover have "(Suc ^^ k) 0 = k" for k by (induction k) simp_all
  ultimately show "\<exists>k \<ge> m. siterate Suc 0 !! k mod (n - 1) = j"
    by (intro exI [of _ "j + m * (n - 1)"]) (simp add: trans_le_add2)
qed

theorem write_order_covers_witness:
  "\<exists>fuel order rs'. write_order_map True fuel 3 (siterate Suc 0) = Inr (order, rs') \<and> mset order = mset [0..<3]"
  using write_order_covers [of 3 "siterate Suc 0"] fair_nats [of 3] by simp

text \<open>
  C16. A file written by \<open>append_write_file\<close> with no call failing is accepted by \<open>verify_file\<close> exactly if the chunks were written in
  the order of their numbers. In random mode that is the one order out of all that the mode is there to avoid: the
  file is opened with \<open>O_APPEND\<close>, so the offset of a chunk is not looked at.
\<close>

theorem frager_then_verify:
  assumes "40 < fo_chunk_size op" "fo_chunk_size op < 2 ^ 31" "0 < n" "fo_file_size op = n * fo_chunk_size op"
    and "fo_file_size op < 2 ^ 63" "\<forall>i. length (junk i) = fo_chunk_size op" "fg_env s = []" "fg_vol s p = None" "times_ok s"
    and "write_order_map (fo_is_random op) fuel n (fg_rng s) = Inr (order, rs)"
  shows "\<exists>s' r. append_write_file fuel op p lp s = Inr (0, s') \<and>
    vf_verify_main (Suc fuel') junk [] (fg_vol s') (fg_logs s') (verify_args p lp (fo_file_size op) (fo_chunk_size op)) = Inr r \<and>
    (r = 0 \<longleftrightarrow> order = [0..<n])"
proof -
  let ?c = "fo_chunk_size op"
  have nc: "n * ?c < 2 ^ 63" using assms(4,5) by simp
  then have "n < 2 ^ 63" using assms(1) mult_le_mono2 [of 1 ?c n] by linarith
  note perm = order_perm [OF assms(10) this]
  obtain s' where s': "append_write_file fuel op p lp s = Inr (0, s')"
    "fg_vol s' = (fg_vol s)(p \<mapsto> concat (map chunk_bytes (fg_units ?c order rs (fg_time s))))"
    "fg_logs s' = (fg_logs s)(lp \<mapsto> concat (map show_cwu (fg_units ?c order rs (fg_time s))))"
    by (rule append_write_ideal [OF assms(1,2,4) nc assms(10,7,8)])
  have "written ?c order (concat (map chunk_bytes (fg_units ?c order rs (fg_time s))))
      (concat (map show_cwu (fg_units ?c order rs (fg_time s))))"
    using assms(9) by (auto simp: written_def times_ok_def)
  from verify_written [OF assms(1-3) nc assms(6) perm this, of "fg_vol s'" p "fg_logs s'" lp fuel'] s' show ?thesis
    unfolding assms(4) by simp
qed

definition sample_opts :: "bool \<Rightarrow> fg_opts" where
  "sample_opts rnd = (fg_defaults (\<lambda>f. f))\<lparr>fo_num_files := 2, fo_file_size := 123, fo_chunk_size := 41, fo_is_random := rnd, fo_do_refcount := True\<rparr>"

definition sample_fg :: fg_state where
  "sample_fg = \<lparr>fg_vol = Map.empty, fg_logs = Map.empty, fg_wlog = False, fg_rng = 1 ## sconst 0, fg_time = sconst 7, fg_env = []\<rparr>"

lemma sample_order: "write_order_map True 3 3 (1 ## sconst 0) = Inr ([0, 2, 1], sconst 0)"
proof -
  have "draw (Suc 0) (Suc (Suc 0)) rs = Inr (Suc (shd rs mod 2), stl rs)" for rs
  proof -
    have "draw (Suc 0) 2 rs = Inr (Suc (shd rs mod 2), stl rs)" using draw_index [of 3 rs] by simp
    then show ?thesis unfolding numeral_2_eq_2 .
  qed
  then show ?thesis by (simp add: write_order_map_def numeral_3_eq_3)
qed

theorem frager_then_verify_witness:
  "\<exists>s' r. append_write_file 3 (sample_opts True) ''f'' ''l'' sample_fg = Inr (0, s') \<and>
    vf_verify_main 1 (\<lambda>_. replicate 41 0) [] (fg_vol s') (fg_logs s') (verify_args ''f'' ''l'' 123 41) = Inr r \<and> r \<noteq> 0"
proof -
  have "[0, 2, 1] \<noteq> [0..<3 :: nat]" by (simp add: numeral_eq_Suc)
  with frager_then_verify [of "sample_opts True" 3 "\<lambda>_. replicate 41 0" sample_fg "''f''" 3 "[0, 2, 1]" "sconst 0" "''l''" 0] sample_order
  show ?thesis by (simp add: sample_opts_def sample_fg_def fg_defaults_def times_ok_def)
qed

section \<open>A process of frager\<close>

lemma fg_path_inj [simp]: "fg_path d h pid nam i = fg_path d h pid nam j \<longleftrightarrow> i = j"
  by (simp add: fg_path_def) (metis dec_val_show_dec)

lemma fg_path_kinds [simp]:
  "fg_path d h pid ''refile'' i \<noteq> fg_path d h pid ''file'' j" "fg_path d h pid ''file'' j \<noteq> fg_path d h pid ''refile'' i"
  by (simp_all add: fg_path_def)

text \<open>The files and logs of the first \<open>j\<close> rounds.\<close>

definition rounds_done :: "fg_opts \<Rightarrow> nat \<Rightarrow> (string \<Rightarrow> nat \<Rightarrow> string) \<Rightarrow> (nat \<Rightarrow> string) \<Rightarrow> nat \<Rightarrow> fg_state \<Rightarrow> bool" where
  "rounds_done op n path lpath j s \<longleftrightarrow> fg_env s = [] \<and> times_ok s
     \<and> (\<forall>i \<ge> j. fg_vol s (path ''file'' i) = None \<and> fg_vol s (path ''refile'' i) = None)
     \<and> (\<forall>i < j. \<exists>f l. written (fo_chunk_size op) [0..<n] f l \<and> fg_vol s (path ''file'' i) = Some f \<and> fg_logs s (lpath i) = Some l
          \<and> (fo_do_refcount op \<longrightarrow> fg_vol s (path ''refile'' i) = Some f))"

lemma fg_reflink_ideal:
  assumes "fg_env s = []" "fg_vol s p = Some f" "fg_vol s q = None" "snap f = f"
  shows "fg_reflink snap p q s = Inr (0, s\<lparr>fg_vol := (fg_vol s)(q \<mapsto> f)\<rparr>)"
  using assms by (cases s) (simp add: fg_reflink_def sys_open_ro_def)

lemma round_done:
  assumes c: "40 < fo_chunk_size op" "fo_chunk_size op < 2 ^ 31" "fo_file_size op = n * fo_chunk_size op" "fo_file_size op < 2 ^ 63"
    and op: "\<not> fo_is_random op" "\<And>f. fo_snap op f = f" and s: "rounds_done op n (fg_path d h pid) (fg_path ld h pid ''logfile'') j s"
  shows "gives (unless_neg (append_write_file fuel op (fg_path d h pid ''file'' j) (fg_path ld h pid ''logfile'' j))
     (if fo_do_refcount op then unless_neg (fg_reflink (fo_snap op) (fg_path d h pid ''file'' j) (fg_path d h pid ''refile'' j)) all_done
      else all_done)) (rounds_done op n (fg_path d h pid) (fg_path ld h pid ''logfile'') (Suc j)) s"
proof -
  let ?c = "fo_chunk_size op" and ?p = "fg_path d h pid" and ?l = "fg_path ld h pid ''logfile''"
  let ?us = "fg_units ?c [0..<n] (fg_rng s) (fg_time s)"
  let ?f = "concat (map chunk_bytes ?us)"
  have order: "write_order_map (fo_is_random op) fuel n (fg_rng s) = Inr ([0..<n], fg_rng s)" using op(1) by (simp add: write_order_map_def)
  have e: "fg_env s = []" "fg_vol s (?p ''file'' j) = None" using s by (simp_all add: rounds_done_def)
  obtain s' where s': "append_write_file fuel op (?p ''file'' j) (?l j) s = Inr (0, s')" "fg_env s' = []"
    "fg_vol s' = (fg_vol s)(?p ''file'' j \<mapsto> ?f)" "fg_logs s' = (fg_logs s)(?l j \<mapsto> concat (map show_cwu ?us))"
    "sset (fg_time s') \<subseteq> sset (fg_time s)"
    by (rule append_write_ideal [OF c(1,2,3) c(4) [unfolded c(3)] order e])
  have w: "written ?c [0..<n] ?f (concat (map show_cwu ?us))"
    using s by (auto simp: written_def rounds_done_def times_ok_def)
  have t: "times_ok s'" using s s'(5) by (auto simp: rounds_done_def times_ok_def)
  show ?thesis
  proof (cases "fo_do_refcount op")
    case True
    have "fg_reflink (fo_snap op) (?p ''file'' j) (?p ''refile'' j) s' = Inr (0, s'\<lparr>fg_vol := (fg_vol s')(?p ''refile'' j \<mapsto> ?f)\<rparr>)"
      using s s'(2,3) op(2) by (intro fg_reflink_ideal) (auto simp: rounds_done_def)
    moreover have "rounds_done op n ?p ?l (Suc j) (s'\<lparr>fg_vol := (fg_vol s')(?p ''refile'' j \<mapsto> ?f)\<rparr>)"
      using s s'(2-4) t w by (auto simp: rounds_done_def times_ok_def less_Suc_eq)
    ultimately show ?thesis using True s'(1) by (simp add: gives_def unless_neg_def all_done_def)
  next
    case False
    moreover have "rounds_done op n ?p ?l (Suc j) s'"
      using s s'(2-4) t w False by (auto simp: rounds_done_def less_Suc_eq)
    ultimately show ?thesis using s'(1) by (simp add: gives_def unless_neg_def all_done_def)
  qed
qed

text \<open>
  C12. In sequential mode and with no call failing, a process of \<open>frager\<close> exits with 0, and \<open>verify_file\<close>, called as its usage shows,
  returns 0 for every file it has written with the log of that file, and also for the reflinks made with \<open>-R\<close>. Of the file system it relies on
  a reflink holding what the file held.
\<close>

theorem frager_child_verifies:
  assumes "40 < fo_chunk_size op" "fo_chunk_size op < 2 ^ 31" "0 < n" "fo_file_size op = n * fo_chunk_size op"
    and "fo_file_size op < 2 ^ 63" "\<not> fo_is_random op" "\<And>f. fo_snap op f = f"
    and "fg_env s = []" "times_ok s" "\<And>i. fg_vol s (fg_path d h pid ''file'' i) = None \<and> fg_vol s (fg_path d h pid ''refile'' i) = None"
    and "\<forall>i. length (junk i) = fo_chunk_size op"
  shows "\<exists>s'. fg_child fuel op h pid d ld s = Inr (0, s') \<and> (\<forall>j < fo_num_files op.
    \<forall>nam \<in> (if fo_do_refcount op then {''file'', ''refile''} else {''file''}).
      vf_verify_main (Suc fuel') junk [] (fg_vol s') (fg_logs s')
        (verify_args (fg_path d h pid nam j) (fg_path ld h pid ''logfile'' j) (fo_file_size op) (fo_chunk_size op)) = Inr 0)"
proof -
  let ?Q = "rounds_done op n (fg_path d h pid) (fg_path ld h pid ''logfile'')"
  have mk: "fg_mkdir s = Inr (0, s)" using assms(8) by (cases s) (simp add: fg_mkdir_def)
  have "gives (for_each [0..<fo_num_files op] (\<lambda>j. unless_neg (append_write_file fuel op (fg_path d h pid ''file'' j) (fg_path ld h pid ''logfile'' j))
     (if fo_do_refcount op then unless_neg (fg_reflink (fo_snap op) (fg_path d h pid ''file'' j) (fg_path d h pid ''refile'' j)) all_done
      else all_done))) (?Q (fo_num_files op)) s"
    by (rule gives_for_upto [where Q = ?Q]) (use assms(8-10) round_done [OF assms(1,2,4-7)] in \<open>auto simp: rounds_done_def\<close>)
  then obtain s' where s': "fg_child fuel op h pid d ld s = Inr (0, s')" "?Q (fo_num_files op) s'"
    by (auto simp: gives_def fg_child_def unless_neg_def mk Let_def)
  have nc: "n * fo_chunk_size op < 2 ^ 63" using assms(4,5) by simp
  have "vf_verify_main (Suc fuel') junk [] (fg_vol s') (fg_logs s')
        (verify_args (fg_path d h pid nam j) (fg_path ld h pid ''logfile'' j) (fo_file_size op) (fo_chunk_size op)) = Inr 0"
    if j: "j < fo_num_files op" and nam: "nam \<in> (if fo_do_refcount op then {''file'', ''refile''} else {''file''})" for j nam
  proof -
    obtain f l where f: "written (fo_chunk_size op) [0..<n] f l" "fg_vol s' (fg_path d h pid nam j) = Some f"
      "fg_logs s' (fg_path ld h pid ''logfile'' j) = Some l"
      using s'(2) j nam by (fastforce simp: rounds_done_def split: if_splits)
    from verify_written [where vol = "fg_vol s'" and logs = "fg_logs s'", OF assms(1-3) nc assms(11) refl f, of fuel'] show ?thesis unfolding assms(4) by auto
  qed
  with s'(1) show ?thesis by blast
qed

theorem frager_child_verifies_witness:
  "\<exists>s'. fg_child 0 (sample_opts False) ''h'' 1 ''d'' ''g'' sample_fg = Inr (0, s') \<and>
    vf_verify_main 1 (\<lambda>_. replicate 41 0) [] (fg_vol s') (fg_logs s')
      (verify_args (fg_path ''d'' ''h'' 1 ''refile'' 1) (fg_path ''g'' ''h'' 1 ''logfile'' 1) 123 41) = Inr 0"
  using frager_child_verifies [of "sample_opts False" 3 sample_fg "''d''" "''h''" 1 "\<lambda>_. replicate 41 0" 0 "''g''" 0]
  by (auto simp: sample_opts_def sample_fg_def fg_defaults_def times_ok_def)

end
