(* ===== verification/Size_Limits.thy ===== *)
theory Size_Limits
  imports C_Stdio Posix_File
begin

text \<open>
  \<open>programs/check_file_size_limits\<close>: the largest file offset of the file system, computed as the kernel does,
  and the two tests at that offset. The limit that the file system really has is an argument (\<open>lim\<close>): beyond it
  \<open>ftruncate\<close> and \<open>write\<close> fail with \<open>EFBIG\<close>, and a \<open>write\<close> across it is cut.
\<close>

section \<open>The program\<close>

record fl_opts =
  page_cache_size :: nat
  config_lbd :: nat
  bits_per_long :: nat
  fl_bbits :: nat
  fl_cbits :: nat

text \<open>The page size is that of \<open>sysconf\<close>, \<open>bits_per_long\<close> is \<open>8 * sizeof(long)\<close>.\<close>

definition fl_defaults :: "nat \<Rightarrow> nat \<Rightarrow> fl_opts" where
  "fl_defaults page long = \<lparr>page_cache_size = page, config_lbd = 1, bits_per_long = long, fl_bbits = 0, fl_cbits = 0\<rparr>"

text \<open>\<open>1 << n\<close> is an \<open>int\<close>: from 31 on it is undefined.\<close>

definition one_shifted :: "nat \<Rightarrow> nat option" where
  "one_shifted n = (if n < 31 then Some (2 ^ n) else None)"

definition max_offset :: "nat \<Rightarrow> nat \<Rightarrow> nat \<Rightarrow> nat" where
  "max_offset bytes bitshift trim = sub64 (u64 (bytes * 2 ^ bitshift)) trim"

definition ocfs2_max_file_offset :: "fl_opts \<Rightarrow> nat \<Rightarrow> nat \<Rightarrow> nat option" where
  "ocfs2_max_file_offset op bbits cbits = (case one_shifted cbits of None \<Rightarrow> None | Some bytes \<Rightarrow>
     if bits_per_long op = 32 then
       if config_lbd op \<noteq> 0 then
         if page_cache_size op < bytes then Some (max_offset (u32 (page_cache_size op)) 31 1)
         else Some (max_offset bytes 32 bytes)
       else map_option (\<lambda>bytes. max_offset bytes 31 1) (one_shifted bbits)
     else Some (max_offset bytes 32 bytes))"

text \<open>\<open>atoi\<close> assigned to an \<open>unsigned int\<close>, \<open>atol\<close> to an \<open>unsigned long\<close>.\<close>

definition uint_arg :: "string \<Rightarrow> nat" where
  "uint_arg s = nat (c_atoi s mod 2 ^ 32)"

definition fl_opt_step :: "char \<times> string \<Rightarrow> fl_opts \<Rightarrow> fl_opts option" where
  "fl_opt_step opt op = (case opt of (ch, arg) \<Rightarrow>
     if ch = CHR ''L'' then Some (op\<lparr>config_lbd := uint_arg arg\<rparr>)
     else if ch = CHR ''P'' then Some (op\<lparr>page_cache_size := nat (c_atol arg mod 2 ^ 64)\<rparr>)
     else if ch = CHR ''B'' then Some (op\<lparr>bits_per_long := uint_arg arg\<rparr>)
     else if ch = CHR ''b'' then Some (op\<lparr>fl_bbits := uint_arg arg\<rparr>)
     else if ch = CHR ''c'' then Some (op\<lparr>fl_cbits := uint_arg arg\<rparr>)
     else None)"

fun fl_opt_loop :: "(char \<times> string) list \<Rightarrow> fl_opts \<Rightarrow> fl_opts option" where
  "fl_opt_loop [] op = Some op"
| "fl_opt_loop (a # as) op = (case fl_opt_step a op of None \<Rightarrow> None | Some op' \<Rightarrow> fl_opt_loop as op')"

text \<open>Exactly one operand, the name of the file.\<close>

definition fl_parse_opts :: "(char \<times> string) list \<Rightarrow> string list \<Rightarrow> fl_opts \<Rightarrow> (fl_opts \<times> string) option" where
  "fl_parse_opts opts operands op = (case fl_opt_loop opts op of None \<Rightarrow> None | Some op' \<Rightarrow>
     (case operands of [fname] \<Rightarrow> Some (op', fname) | _ \<Rightarrow> None))"

definition EFBIG :: nat where
  "EFBIG = 27"

text \<open>
  The calls on a file system with a limit. Offsets are signed: from 2 to the 63 on they are
  negative.
\<close>

definition lim_ftruncate :: "nat \<Rightarrow> io_env \<Rightarrow> content \<Rightarrow> nat \<Rightarrow> nat option \<times> content \<times> io_env" where
  "lim_ftruncate lim env f n = (if 2 ^ 63 \<le> n then (Some EINVAL, f, env)
     else if lim < n then (Some EFBIG, f, env) else sys_ftruncate env f n)"

definition lim_lseek :: "nat \<Rightarrow> io_env \<Rightarrow> nat \<Rightarrow> nat option \<times> io_env" where
  "lim_lseek lim env off = (if 2 ^ 63 \<le> off \<or> lim < off then (Some EINVAL, env) else sys_call env)"

definition lim_write :: "nat \<Rightarrow> io_env \<Rightarrow> content \<Rightarrow> byte list \<Rightarrow> nat \<Rightarrow> (nat + nat) \<times> content \<times> io_env" where
  "lim_write lim env f bs off = (if lim \<le> off then (Inl EFBIG, f, env) else sys_pwrite env f (take (lim - off) bs) off)"

definition test_for_efbig :: "nat \<Rightarrow> io_env \<Rightarrow> content \<Rightarrow> nat \<Rightarrow> nat \<times> content \<times> io_env" where
  "test_for_efbig lim env f max_off = (case lim_ftruncate lim env f (u64 (max_off + 1)) of
     (None, f', env') \<Rightarrow> (EINVAL, f', env')
   | (Some e, f', env') \<Rightarrow> if e \<noteq> EFBIG then (EINVAL, f', env') else (0, f', env'))"

definition TEST_STR :: "byte list" where
  "TEST_STR = map byte_of_char ''Hello World''"

text \<open>The results of \<open>write\<close> and \<open>read\<close> are only compared with -1; the buffer is zero before.\<close>

definition write_at_largest_off :: "nat \<Rightarrow> io_env \<Rightarrow> content \<Rightarrow> nat \<Rightarrow> nat \<times> content \<times> io_env" where
  "write_at_largest_off lim env f max_off = (let offset = sub64 max_off (length TEST_STR) in
     case lim_lseek lim env offset of (Some e, env1) \<Rightarrow> (EINVAL, f, env1) | (None, env1) \<Rightarrow>
     case lim_write lim env1 f TEST_STR offset of (Inl e, f1, env2) \<Rightarrow> (EINVAL, f1, env2) | (Inr n, f1, env2) \<Rightarrow>
     case lim_lseek lim env2 offset of (Some e, env3) \<Rightarrow> (EINVAL, f1, env3) | (None, env3) \<Rightarrow>
     case sys_pread env3 f1 (length TEST_STR) offset of (Inl e, env4) \<Rightarrow> (EINVAL, f1, env4) | (Inr bs, env4) \<Rightarrow>
     (if patch 0 bs (replicate (length TEST_STR) 0) \<noteq> TEST_STR then EINVAL else 0, f1, env4))"

text \<open>\<open>main\<close>: the exit status, \<open>None\<close> where a shift is undefined. The file is opened with \<open>O_TRUNC\<close>.\<close>

definition fl_main :: "nat \<Rightarrow> nat \<Rightarrow> nat \<Rightarrow> (char \<times> string) list \<Rightarrow> string list \<Rightarrow> io_env \<Rightarrow> fs \<Rightarrow> (nat \<times> fs \<times> io_env) option" where
  "fl_main lim page long opts operands env vol = (case fl_parse_opts opts operands (fl_defaults page long) of
     None \<Rightarrow> Some (1, vol, env)
   | Some (op, fname) \<Rightarrow> if fl_bbits op = 0 \<or> fl_cbits op = 0 then Some (1, vol, env) else
     (case ocfs2_max_file_offset op (fl_bbits op) (fl_cbits op) of None \<Rightarrow> None | Some max_off \<Rightarrow>
     (case sys_open_creat env vol fname of
        (Inl e, env1) \<Rightarrow> Some (e, vol, env1)
      | (Inr _, env1) \<Rightarrow> (case test_for_efbig lim env1 [] max_off of (ret, f, env2) \<Rightarrow>
          if ret \<noteq> 0 then Some (ret, vol(fname \<mapsto> f), env2)
          else (case write_at_largest_off lim env2 f max_off of (ret, f, env3) \<Rightarrow> Some (ret, vol(fname \<mapsto> f), env3))))))"

section \<open>Lemmas\<close>

lemma length_TEST_STR [simp]: "length TEST_STR = 11"
  by (simp add: TEST_STR_def)

lemma one_shifted_Some: "one_shifted n = Some b \<longleftrightarrow> n < 31 \<and> b = 2 ^ n"
  by (auto simp: one_shifted_def)

text \<open>The three formulas, with every operation within its width.\<close>

lemma max_offset_exact:
  assumes "bytes < 2 ^ 31" "bitshift \<le> 32" "trim \<le> bytes * 2 ^ bitshift"
  shows "max_offset bytes bitshift trim = bytes * 2 ^ bitshift - trim"
proof -
  have "bytes * 2 ^ bitshift < 2 ^ 31 * 2 ^ bitshift" using assms(1) by simp
  also have "\<dots> \<le> 2 ^ 31 * 2 ^ 32" using assms(2) by (intro mult_le_mono2 power_increasing) auto
  finally have "bytes * 2 ^ bitshift < 2 ^ 64" by simp
  with assms(3) show ?thesis by (simp add: max_offset_def width)
qed

lemma pow_31: "n < 31 \<Longrightarrow> (2 :: nat) ^ n < 2 ^ 31"
  by (rule power_strict_increasing) auto

lemma max_file_offset_cases:
  assumes "ocfs2_max_file_offset op bbits cbits = Some m" "0 < bbits" "0 < cbits" "0 < page_cache_size op"
  obtains (cluster) "cbits < 31" "m = 2 ^ cbits * 2 ^ 32 - 2 ^ cbits" "bits_per_long op \<noteq> 32 \<or> 2 ^ cbits \<le> page_cache_size op"
      "bits_per_long op = 32 \<Longrightarrow> config_lbd op \<noteq> 0"
  | (page) "cbits < 31" "m = page_cache_size op * 2 ^ 31 - 1" "page_cache_size op < 2 ^ cbits" "bits_per_long op = 32" "config_lbd op \<noteq> 0"
  | (sector) "bbits < 31" "cbits < 31" "m = 2 ^ bbits * 2 ^ 31 - 1" "bits_per_long op = 32" "config_lbd op = 0"
proof -
  have whole: "max_offset (2 ^ cbits) 32 (2 ^ cbits) = 2 ^ cbits * 2 ^ 32 - 2 ^ cbits" if "cbits < 31"
    using that pow_31 [OF that] by (intro max_offset_exact) auto
  have part: "max_offset b 31 1 = b * 2 ^ 31 - 1" if "b < 2 ^ 31" "0 < b" for b
    using that by (intro max_offset_exact) auto
  from assms(1) have c: "cbits < 31" by (auto simp: ocfs2_max_file_offset_def one_shifted_def split: if_splits)
  note m = assms(1) [unfolded ocfs2_max_file_offset_def one_shifted_def, simplified c if_True option.case]
  show thesis
  proof (cases "bits_per_long op = 32")
    case long: True
    show thesis
    proof (cases "config_lbd op = 0")
      case True
      with m long have b: "bbits < 31" "m = max_offset (2 ^ bbits) 31 1" by (auto split: if_splits)
      with part [OF pow_31 [OF b(1)]] c long True show thesis by (intro sector) auto
    next
      case False
      show thesis
      proof (cases "page_cache_size op < 2 ^ cbits")
        case True
        with pow_31 [OF c] have "page_cache_size op < 2 ^ 31" by linarith
        then have "m = page_cache_size op * 2 ^ 31 - 1"
          using m long False True part [of "page_cache_size op"] assms(4) by (simp add: u32_def)
        with c True long False show thesis by (intro page)
      qed (use m long False c whole in \<open>auto intro: cluster\<close>)
    qed
  qed (use m c whole in \<open>auto intro: cluster\<close>)
qed

lemma div_bound: "m < k * n \<Longrightarrow> m div n < (k :: nat)"
  by (rule less_mult_imp_div_less)

text \<open>On every branch the offset can be a signed 64-bit offset, and the number of its cluster fits the 32 bits of \<open>i_clusters\<close>.\<close>

lemma max_file_offset_bounds:
  assumes "ocfs2_max_file_offset op bbits cbits = Some m" "0 < bbits" "bbits \<le> cbits" "0 < page_cache_size op"
  shows "11 \<le> m" "m + 1 < 2 ^ 63" "m div 2 ^ cbits < 2 ^ 32"
proof -
  have c: "0 < cbits" using assms(2,3) by simp
  have c2: "(2 :: nat) \<le> 2 ^ cbits" using power_increasing [of 1 cbits "2 :: nat"] c by simp
  have b2: "(2 :: nat) \<le> 2 ^ bbits" using power_increasing [of 1 bbits "2 :: nat"] assms(2) by simp
  have bc: "(2 :: nat) ^ bbits \<le> 2 ^ cbits" using assms(3) by (intro power_increasing) auto
  from assms(1,2) c assms(4) have "11 \<le> m \<and> m + 1 < 2 ^ 63 \<and> m < 2 ^ 32 * 2 ^ cbits"
  proof (cases rule: max_file_offset_cases)
    case cluster
    then show ?thesis using c2 pow_31 [OF cluster(1)] by simp
  next
    case page
    have "11 \<le> m" "m + 1 < 2 ^ 63" "m < 2 ^ 32 * 2 ^ cbits" using page(2,3) assms(4) pow_31 [OF page(1)] by simp_all
    then show ?thesis by blast
  next
    case sector
    have "2 ^ 31 * 2 ^ bbits \<le> (2 :: nat) ^ 32 * 2 ^ cbits" using bc by (intro mult_le_mono) auto
    moreover have "11 \<le> m" "m + 1 < 2 ^ 63" "m < 2 ^ 31 * 2 ^ bbits" using sector(3) b2 pow_31 [OF sector(1)] by simp_all
    ultimately show ?thesis by (blast intro: less_le_trans)
  qed
  then show "11 \<le> m" "m + 1 < 2 ^ 63" "m div 2 ^ cbits < 2 ^ 32" using div_bound by blast+
qed

text \<open>The two tests when no call fails for another reason.\<close>

lemma test_for_efbig_ideal:
  assumes "m + 1 < 2 ^ 63"
  shows "test_for_efbig lim [] f m = (if m < lim then (EINVAL, file_truncate (m + 1) f, []) else (0, f, []))"
proof -
  have "u64 (m + 1) = m + 1" using assms by (simp add: width)
  with assms show ?thesis by (simp add: test_for_efbig_def lim_ftruncate_def)
qed

lemma file_read_written:
  assumes "off + length bs = length (file_write off bs f)" "length bs \<le> n"
  shows "take n (drop off (file_write off bs f)) = bs"
  using file_slice_write_same [of bs off f] assms by simp

lemma write_at_largest_off_ideal:
  assumes "11 \<le> m" "m < 2 ^ 63" "lim \<le> m" "f = []"
  shows "fst (write_at_largest_off lim [] f m) = (if lim = m then 0 else EINVAL)"
proof -
  have off: "sub64 m 11 = m - 11" using assms(1,2) by (simp add: width)
  show ?thesis
  proof (cases "lim \<le> m - 11")
    case True
    moreover have "lim \<noteq> m" using True assms(1) by simp
    ultimately show ?thesis using assms by (simp add: write_at_largest_off_def Let_def off lim_lseek_def lim_write_def)
  next
    case False
    define bs where "bs = take (lim - (m - 11)) TEST_STR"
    have len: "length bs = lim - (m - 11)" using assms(3) by (simp add: bs_def)
    have rd: "take 11 (drop (m - 11) (file_write (m - 11) bs f)) = bs"
      using len False assms(3,4) by (intro file_read_written) (auto simp: buf_simps)
    have "patch 0 bs (replicate 11 0) = TEST_STR \<longleftrightarrow> lim = m"
    proof
      assume "patch 0 bs (replicate 11 0) = TEST_STR"
      then have "drop (length bs) TEST_STR = replicate (11 - length bs) 0" by (metis add_0 append_eq_conv_conj drop_replicate patch_def append_Nil take0)
      moreover have "0 \<notin> set TEST_STR" by (simp add: TEST_STR_def byte_of_char_def)
      ultimately have "11 - length bs = 0" by (metis in_set_dropD in_set_replicate)
      with len False assms(1,3) show "lim = m" by simp
    next
      assume "lim = m"
      then have "bs = TEST_STR" using assms(1) by (simp add: bs_def)
      then show "patch 0 bs (replicate 11 0) = TEST_STR" by (simp add: patch_def)
    qed
    moreover have "m - 11 < 2 ^ 63" using assms(2) by simp
    then have "write_at_largest_off lim [] f m
        = (if patch 0 bs (replicate 11 0) \<noteq> TEST_STR then EINVAL else 0, file_write (m - 11) bs f, [])"
      using False \<open>m - 11 < 2 ^ 63\<close> rd by (simp add: write_at_largest_off_def Let_def off lim_lseek_def lim_write_def flip: bs_def)
    ultimately show ?thesis by simp
  qed
qed

section \<open>Properties\<close>

text \<open>
  \<open>MAX_LFS_FILESIZE\<close> of a kernel of 32 bits, which the comment wants the offset not to exceed: the last byte of
  the first \<open>2 ^ 31\<close> pages.
\<close>

definition max_lfs_filesize :: "nat \<Rightarrow> nat" where
  "max_lfs_filesize page = page * 2 ^ 31 - 1"

text \<open>
  Where the cluster limits the offset, the bound of the page cache holds only for clusters of at most half a page:
  the test \<open>bytes > page_cache_size\<close> lets a cluster of the size of a page keep the shift by 32.
\<close>

lemma cluster_lfs:
  assumes "0 < c" "c < 31" "2 ^ c \<le> page"
  shows "(2 ^ 32 - 1) * 2 ^ c \<le> max_lfs_filesize page \<longleftrightarrow> 2 * 2 ^ c \<le> page"
proof
  assume "2 * 2 ^ c \<le> page"
  then have "2 ^ 31 * (2 * 2 ^ c) \<le> 2 ^ 31 * page" by (rule mult_le_mono2)
  moreover have "(2 :: nat) \<le> 2 ^ c" using assms(1) power_increasing [of 1 c "2 :: nat"] by simp
  ultimately show "(2 ^ 32 - 1) * 2 ^ c \<le> max_lfs_filesize page" by (simp add: max_lfs_filesize_def)
next
  assume a: "(2 ^ 32 - 1) * 2 ^ c \<le> max_lfs_filesize page"
  show "2 * 2 ^ c \<le> page"
  proof (rule ccontr)
    assume "\<not> 2 * 2 ^ c \<le> page"
    then have "page + 1 \<le> 2 * 2 ^ c" by simp
    then have "2 ^ 31 * (page + 1) \<le> 2 ^ 31 * (2 * 2 ^ c)" by (rule mult_le_mono2)
    then have up: "page * 2147483648 + 2147483648 \<le> 4294967296 * 2 ^ c" by simp
    show False using a up pow_31 [OF assms(2)] by (simp add: max_lfs_filesize_def)
  qed
qed

text \<open>
  C36. When no call fails for another reason, the program exits with 0 exactly if the limit of the file system is
  the offset it computes, and with \<open>EINVAL\<close> otherwise. That offset is, without any overflow in its computation: on a
  machine of 64 bits, and on one of 32 bits with large block devices and clusters no larger than a page, as many whole
  clusters as 32 bits can count; with larger clusters \<open>MAX_LFS_FILESIZE\<close>, the last byte of \<open>2 ^ 31\<close> pages; without
  large block devices the last byte of \<open>2 ^ 31\<close> blocks. It is positive as a signed 64-bit number and its cluster has a
  number of 32 bits. What the comment in the code asks for, that on a machine of 32 bits with large block devices the
  offset does not exceed \<open>MAX_LFS_FILESIZE\<close>, holds exactly for clusters that are larger than a page or at most half
  of one; for a cluster of the size of a page the offset exceeds it.
\<close>

theorem size_limits_exact:
  assumes "fl_parse_opts opts operands (fl_defaults page long) = Some (op, fname)"
    and "0 < fl_bbits op" "fl_bbits op \<le> fl_cbits op" "fl_cbits op < 31" "0 < page_cache_size op"
  shows "\<exists>m. ocfs2_max_file_offset op (fl_bbits op) (fl_cbits op) = Some m
    \<and> m = (if bits_per_long op \<noteq> 32 \<or> config_lbd op \<noteq> 0 \<and> 2 ^ fl_cbits op \<le> page_cache_size op
        then (2 ^ 32 - 1) * 2 ^ fl_cbits op
        else if config_lbd op \<noteq> 0 then page_cache_size op * 2 ^ 31 - 1 else 2 ^ fl_bbits op * 2 ^ 31 - 1)
    \<and> 11 \<le> m \<and> m < 2 ^ 63 \<and> m div 2 ^ fl_cbits op < 2 ^ 32
    \<and> (bits_per_long op = 32 \<and> config_lbd op \<noteq> 0 \<longrightarrow>
        (m \<le> max_lfs_filesize (page_cache_size op)
          \<longleftrightarrow> page_cache_size op < 2 ^ fl_cbits op \<or> 2 * 2 ^ fl_cbits op \<le> page_cache_size op))
    \<and> (\<exists>vol'. fl_main lim page long opts operands [] vol = Some (if lim = m then 0 else EINVAL, vol', []))"
proof -
  let ?b = "fl_bbits op" and ?c = "fl_cbits op"
  have "ocfs2_max_file_offset op ?b ?c \<noteq> None"
    using assms(3,4) by (simp add: ocfs2_max_file_offset_def one_shifted_def)
  then obtain m where m: "ocfs2_max_file_offset op ?b ?c = Some m" by blast
  note bounds = max_file_offset_bounds [OF m assms(2,3,5)]
  have "\<exists>vol'. fl_main lim page long opts operands [] vol = Some (if lim = m then 0 else EINVAL, vol', [])"
  proof (cases "m < lim")
    case True
    with test_for_efbig_ideal [OF bounds(2), of lim "[]"] assms(1-3) m show ?thesis
      by (auto simp: fl_main_def sys_open_creat_def EINVAL_def split: option.splits)
  next
    case False
    then have w: "fst (write_at_largest_off lim [] [] m) = (if lim = m then 0 else EINVAL)"
      using bounds(1,2) by (intro write_at_largest_off_ideal) auto
    obtain ret f env where r: "write_at_largest_off lim [] [] m = (ret, f, env)" by (cases "write_at_largest_off lim [] [] m")
    have "env = []"
      using r by (auto simp: write_at_largest_off_def Let_def lim_lseek_def lim_write_def split: if_splits)
    with w r test_for_efbig_ideal [OF bounds(2), of lim "[]"] assms(1-3) m False show ?thesis
      by (auto simp: fl_main_def sys_open_creat_def split: option.splits)
  qed
  moreover have c: "0 < ?c" using assms(2,3) by simp
  have val: "m = (if bits_per_long op \<noteq> 32 \<or> config_lbd op \<noteq> 0 \<and> 2 ^ ?c \<le> page_cache_size op then (2 ^ 32 - 1) * 2 ^ ?c
      else if config_lbd op \<noteq> 0 then page_cache_size op * 2 ^ 31 - 1 else 2 ^ ?b * 2 ^ 31 - 1)"
    using m assms(2) c assms(5) by (cases rule: max_file_offset_cases) auto
  moreover have "m \<le> max_lfs_filesize (page_cache_size op) \<longleftrightarrow> page_cache_size op < 2 ^ ?c \<or> 2 * 2 ^ ?c \<le> page_cache_size op"
    if "bits_per_long op = 32" "config_lbd op \<noteq> 0"
  proof (cases "2 ^ ?c \<le> page_cache_size op")
    case True
    with cluster_lfs [OF c assms(4) True] val that show ?thesis by simp
  qed (use val that in \<open>simp add: max_lfs_filesize_def\<close>)
  ultimately show ?thesis using m bounds by auto
qed

theorem size_limits_exact_witness:
  "\<exists>vol'. fl_main (2 ^ 44 - 2 ^ 12) 4096 64 [(CHR ''b'', ''12''), (CHR ''c'', ''12'')] [''f''] [] Map.empty = Some (0, vol', [])"
proof -
  let ?opts = "[(CHR ''b'', ''12''), (CHR ''c'', ''12'')]"
  have "uint_arg ''12'' = 12" by code_simp
  then have op: "fl_parse_opts ?opts [''f''] (fl_defaults 4096 64)
      = Some ((fl_defaults 4096 64)\<lparr>fl_bbits := 12, fl_cbits := 12\<rparr>, ''f'')"
    by (simp add: fl_parse_opts_def fl_opt_step_def fl_defaults_def)
  show ?thesis
    using size_limits_exact [OF op, of "2 ^ 44 - 2 ^ 12" Map.empty]
    by (simp add: fl_defaults_def ocfs2_max_file_offset_def one_shifted_def max_offset_def width)
qed

end
