(* ===== verification/Write_Append_Truncate.thy ===== *)
theory Write_Append_Truncate
  imports C_Stdio Posix_File Transitions "HOL-Library.Stream"
begin

text \<open>
  \<open>programs/write_append_truncate\<close>: in every round rank 0 writes a chunk to an empty file, then one rank appends while
  another truncates, and rank 0 looks whether the file is one of the two that can come out.

  The state is shared by the ranks of the MPI program: the file, the place of each rank in \<open>main\<close>, the read buffer of
  rank 0, the values it has broadcast, and whether the program was aborted. A step is one system call of one rank with an
  answer of the kernel, or a barrier that all ranks have reached. \<open>rand()\<close> is never seeded, so all ranks
  draw the same numbers \<open>rs\<close>. Of \<open>memcmp\<close> only is used that it returns 0 exactly for equal bytes (\<open>cmp\<close>). A file is read whole however
  \<open>read\<close> divides it: no other rank writes meanwhile.
\<close>

section \<open>The program\<close>

definition DEFAULT_ITER :: nat where
  "DEFAULT_ITER = 50000"

definition CHUNK_SIZE_MAX :: nat where
  "CHUNK_SIZE_MAX = 123456"

definition APPEND_SIZE_MAX :: nat where
  "APPEND_SIZE_MAX = 123456"

definition TRUNC_SIZE_MAX :: nat where
  "TRUNC_SIZE_MAX = CHUNK_SIZE_MAX + APPEND_SIZE_MAX"

definition CHUNK_CHAR :: byte where
  "CHUNK_CHAR = byte_of_char CHR ''C''"

definition APPEND_CHAR :: byte where
  "APPEND_CHAR = byte_of_char CHR ''A''"

text \<open>The number of rounds from the arguments after the program name; \<open>None\<close> where \<open>usage\<close> ends the program. A negative number is no round.\<close>

definition wat_nloops :: "string list \<Rightarrow> nat option" where
  "wat_nloops args = (case args of
     [fname] \<Rightarrow> Some DEFAULT_ITER
   | [fname, x] \<Rightarrow> (let nloops = to_int32 (int (strtoull0 x)) in Some (if nloops = 0 then DEFAULT_ITER else nat nloops))
   | _ \<Rightarrow> None)"

record wat_sizes =
  chunk_size :: nat
  append_size :: nat
  trunc_offset :: nat

definition wat_draw :: "nat stream \<Rightarrow> nat \<Rightarrow> wat_sizes" where
  "wat_draw rs n = (let chunk = rs !! (3 * n) mod (CHUNK_SIZE_MAX - 1) + 1;
       append = rs !! (3 * n + 1) mod (APPEND_SIZE_MAX - 1) + 1 in
     \<lparr>chunk_size = chunk, append_size = append, trunc_offset = chunk + rs !! (3 * n + 2) mod append\<rparr>)"

datatype wat_pc = At_create | At_prep | At_open | At_loop nat | At_chunk nat nat | At_start nat
  | At_append nat nat | At_trunc nat | At_end nat | At_check nat | At_bcast nat | Finished

datatype wat_status = Running | Abort | Fault

record wat_state =
  w_file :: "content option"
  w_pc :: "nat \<Rightarrow> wat_pc"
  w_buf :: "byte list"
  w_errors :: "int list"
  w_status :: wat_status

text \<open>What the kernel answers: everything done, a transfer of at most \<open>Suc k\<close> bytes, or an error.\<close>

datatype answer = Fine | Partial nat | Fails

definition transfer :: "answer \<Rightarrow> nat \<Rightarrow> nat" where
  "transfer a n = (case a of Partial k \<Rightarrow> min (Suc k) n | _ \<Rightarrow> n)"

definition goes :: "nat \<Rightarrow> wat_pc \<Rightarrow> wat_state \<Rightarrow> wat_state" where
  "goes rank pc s = s\<lparr>w_pc := (w_pc s)(rank := pc)\<rparr>"

text \<open>A call on the name of the file that must succeed: \<open>truncate\<close>, \<open>open\<close>, \<open>unlink\<close>; else \<open>rprintf\<close> aborts all ranks.\<close>

definition on_file :: "answer \<Rightarrow> (content \<Rightarrow> content option) \<Rightarrow> nat \<Rightarrow> wat_pc \<Rightarrow> wat_state \<Rightarrow> wat_state" where
  "on_file a op rank pc s = (case w_file s of
     Some f \<Rightarrow> if a = Fails then s\<lparr>w_status := Abort\<rparr> else goes rank pc (s\<lparr>w_file := op f\<rparr>)
   | None \<Rightarrow> s\<lparr>w_status := Abort\<rparr>)"

text \<open>One \<open>write\<close> of a loop on the descriptor with \<open>O_APPEND\<close>: \<open>todo\<close> more bytes \<open>ch\<close>, and where the rank is then.\<close>

definition append_some :: "answer \<Rightarrow> byte \<Rightarrow> nat \<Rightarrow> nat \<Rightarrow> (nat \<Rightarrow> wat_pc) \<Rightarrow> wat_state \<Rightarrow> wat_state" where
  "append_some a ch todo rank pc s = (if a = Fails then s\<lparr>w_status := Abort\<rparr>
     else goes rank (pc (transfer a todo)) (s\<lparr>w_file := map_option (\<lambda>f. f @ replicate (transfer a todo) ch) (w_file s)\<rparr>))"

text \<open>
  The comparison of rank 0. In the first case \<open>error\<close> is the result of \<open>memcmp\<close>, whatever the comparison of the
  chunk has found; in the second it is set to 1 or left.
\<close>

definition wat_error :: "(byte list \<Rightarrow> byte list \<Rightarrow> int) \<Rightarrow> wat_sizes \<Rightarrow> nat \<Rightarrow> byte list \<Rightarrow> int" where
  "wat_error cmp z st_size buf = (let chunk = chunk_size z; trunc = trunc_offset z; append = append_size z;
       base = (if cmp (take chunk buf) (replicate chunk CHUNK_CHAR) \<noteq> 0 then 1 else 0) in
     if st_size = trunc then cmp (take (trunc - chunk) (drop chunk buf)) (replicate (trunc - chunk) APPEND_CHAR)
     else if cmp (take (trunc - chunk) (drop chunk buf)) (replicate (trunc - chunk) 0) \<noteq> 0 then 1
     else if cmp (take append (drop trunc buf)) (replicate append APPEND_CHAR) \<noteq> 0 then 1
     else base)"

text \<open>Only the value 1 is taken for an error. The read buffer has room for \<open>TRUNC_SIZE_MAX + APPEND_SIZE_MAX\<close> bytes.\<close>

definition wat_check :: "(byte list \<Rightarrow> byte list \<Rightarrow> int) \<Rightarrow> wat_sizes \<Rightarrow> nat \<Rightarrow> answer \<Rightarrow> wat_state \<Rightarrow> wat_state" where
  "wat_check cmp z n a s = (case w_file s of
     None \<Rightarrow> s\<lparr>w_status := Abort\<rparr>
   | Some f \<Rightarrow> if a = Fails then s\<lparr>w_status := Abort\<rparr>
       else if length (w_buf s) < length f then s\<lparr>w_status := Fault\<rparr>
       else let buf = patch 0 f (w_buf s); error = wat_error cmp z (length f) buf;
            s' = s\<lparr>w_buf := buf, w_errors := w_errors s @ [error]\<rparr> in
         if error = 1 then s'\<lparr>w_status := Abort\<rparr> else goes 0 (At_loop (n + 1)) s')"

text \<open>One step of a rank; \<open>None\<close> when it is finished or waits for a barrier or the broadcast.\<close>

definition wat_rank :: "(byte list \<Rightarrow> byte list \<Rightarrow> int) \<Rightarrow> nat stream \<Rightarrow> nat \<Rightarrow> answer \<Rightarrow> nat \<Rightarrow> wat_state \<Rightarrow> wat_state option" where
  "wat_rank cmp rs nloops a rank s = (case w_pc s rank of
     At_create \<Rightarrow> Some (if a = Fails then s\<lparr>w_status := Abort\<rparr> else goes rank At_prep (s\<lparr>w_file := Some []\<rparr>))
   | At_open \<Rightarrow> Some (on_file a Some rank (At_loop 0) s)
   | At_loop n \<Rightarrow>
       if n < nloops then
         if rank = 0 then Some (on_file a (\<lambda>f. Some (file_truncate 0 f)) rank (At_chunk n 0) s)
         else Some (goes rank (At_start n) s)
       else if rank = 0 then Some (on_file a (\<lambda>f. None) rank Finished s)
       else Some (goes rank Finished s)
   | At_chunk n done \<Rightarrow> let chunk = chunk_size (wat_draw rs n) in
       Some (append_some a CHUNK_CHAR (chunk - done) rank (\<lambda>ret. if done + ret \<noteq> chunk then At_chunk n (done + ret) else At_start n) s)
   | At_append n done \<Rightarrow> let append = append_size (wat_draw rs n) in
       Some (append_some a APPEND_CHAR (append - done) rank (\<lambda>ret. if done + ret \<noteq> append then At_append n (done + ret) else At_end n) s)
   | At_trunc n \<Rightarrow> Some (on_file a (\<lambda>f. Some (file_truncate (trunc_offset (wat_draw rs n)) f)) rank (At_end n) s)
   | At_check n \<Rightarrow> Some (wat_check cmp (wat_draw rs n) n a s)
   | At_bcast n \<Rightarrow> if n < length (w_errors s) then
         Some (if w_errors s ! n = 1 then s\<lparr>w_status := Abort\<rparr> else goes rank (At_loop (n + 1)) s)
       else None
   | _ \<Rightarrow> None)"

text \<open>Where a rank is after the barrier it waits at.\<close>

definition after_barrier :: "nat \<Rightarrow> nat \<Rightarrow> wat_pc \<Rightarrow> wat_pc" where
  "after_barrier np rank pc = (case pc of
     At_prep \<Rightarrow> At_open
   | At_start n \<Rightarrow> if rank = n mod np then At_append n 0 else if rank = (n + 1) mod np then At_trunc n else At_end n
   | At_end n \<Rightarrow> if rank = 0 then At_check n else At_bcast n
   | _ \<Rightarrow> pc)"

definition is_barrier :: "wat_pc \<Rightarrow> bool" where
  "is_barrier pc = (case pc of At_prep \<Rightarrow> True | At_start n \<Rightarrow> True | At_end n \<Rightarrow> True | _ \<Rightarrow> False)"

definition wat_barrier :: "nat \<Rightarrow> wat_state \<Rightarrow> wat_state option" where
  "wat_barrier np s = (if is_barrier (w_pc s 0) \<and> (\<forall>i < np. w_pc s i = w_pc s 0)
     then Some (s\<lparr>w_pc := (\<lambda>i. if i < np then after_barrier np i (w_pc s i) else w_pc s i)\<rparr>) else None)"

text \<open>The steps of a program of \<open>np\<close> ranks on a kernel whose answers are in \<open>ok\<close>.\<close>

inductive wat_step :: "(byte list \<Rightarrow> byte list \<Rightarrow> int) \<Rightarrow> nat stream \<Rightarrow> nat \<Rightarrow> nat \<Rightarrow> (answer \<Rightarrow> bool) \<Rightarrow> wat_state \<Rightarrow> wat_state \<Rightarrow> bool"
  for cmp rs np nloops ok where
  rank_step: "w_status s = Running \<Longrightarrow> rank < np \<Longrightarrow> ok a \<Longrightarrow> wat_rank cmp rs nloops a rank s = Some s'
    \<Longrightarrow> wat_step cmp rs np nloops ok s s'"
| barrier_step: "w_status s = Running \<Longrightarrow> wat_barrier np s = Some s' \<Longrightarrow> wat_step cmp rs np nloops ok s s'"

text \<open>The beginning, with any contents of the read buffer.\<close>

definition wat_init :: "content option \<Rightarrow> byte list \<Rightarrow> wat_state" where
  "wat_init f buf = \<lparr>w_file = f, w_pc = (\<lambda>i. if i = 0 then At_create else At_prep), w_buf = buf, w_errors = [], w_status = Running\<rparr>"

section \<open>The sizes and the files of a round\<close>

lemma draw_bounds:
  "0 < chunk_size (wat_draw rs n)" "chunk_size (wat_draw rs n) < CHUNK_SIZE_MAX"
  "0 < append_size (wat_draw rs n)" "append_size (wat_draw rs n) < APPEND_SIZE_MAX"
  "chunk_size (wat_draw rs n) \<le> trunc_offset (wat_draw rs n)"
  "trunc_offset (wat_draw rs n) < chunk_size (wat_draw rs n) + append_size (wat_draw rs n)"
proof -
  have less: "k mod (m - 1) + 1 < m" if "1 < m" for k m :: nat using mod_less_divisor [of "m - 1" k] that by linarith
  show "chunk_size (wat_draw rs n) < CHUNK_SIZE_MAX" "append_size (wat_draw rs n) < APPEND_SIZE_MAX"
    unfolding wat_draw_def Let_def wat_sizes.simps CHUNK_SIZE_MAX_def APPEND_SIZE_MAX_def by (rule less, simp)+
qed (simp_all add: wat_draw_def Let_def)

definition the_chunk :: "wat_sizes \<Rightarrow> content" where
  "the_chunk z = replicate (chunk_size z) CHUNK_CHAR"

definition the_append :: "wat_sizes \<Rightarrow> content" where
  "the_append z = replicate (append_size z) APPEND_CHAR"

text \<open>The file of a race, by whether the append and the truncation have happened.\<close>

definition race_file :: "wat_sizes \<Rightarrow> bool \<Rightarrow> bool \<Rightarrow> content \<Rightarrow> bool" where
  "race_file z ad td f \<longleftrightarrow> (if ad then if td then
       f = file_truncate (trunc_offset z) (the_chunk z @ the_append z) \<or> f = file_truncate (trunc_offset z) (the_chunk z) @ the_append z
       else f = the_chunk z @ the_append z
     else if td then f = file_truncate (trunc_offset z) (the_chunk z) else f = the_chunk z)"

text \<open>The two files that can come out, written out; the comparison accepts both.\<close>

lemma race_file_ends:
  assumes "race_file z True True f" "chunk_size z \<le> trunc_offset z" "trunc_offset z < chunk_size z + append_size z"
  obtains "f = the_chunk z @ replicate (trunc_offset z - chunk_size z) APPEND_CHAR"
  | "f = the_chunk z @ replicate (trunc_offset z - chunk_size z) 0 @ the_append z"
proof -
  have "file_truncate (trunc_offset z) (the_chunk z @ the_append z) = the_chunk z @ replicate (trunc_offset z - chunk_size z) APPEND_CHAR"
    using assms(2,3) by (simp add: file_truncate_def the_chunk_def the_append_def min_absorb1)
  moreover have "file_truncate (trunc_offset z) (the_chunk z) = the_chunk z @ replicate (trunc_offset z - chunk_size z) 0"
    using assms(2) by (simp add: file_truncate_def the_chunk_def)
  ultimately show thesis using assms(1) that by (auto simp: race_file_def)
qed

definition cmp_ok :: "(byte list \<Rightarrow> byte list \<Rightarrow> int) \<Rightarrow> bool" where
  "cmp_ok cmp \<longleftrightarrow> (\<forall>xs ys. length xs = length ys \<longrightarrow> (cmp xs ys = 0 \<longleftrightarrow> xs = ys))"

lemma cmp_refl: "cmp_ok cmp \<Longrightarrow> cmp xs xs = 0"
  by (simp add: cmp_ok_def)

lemma wat_error_0:
  assumes "cmp_ok cmp" "race_file z True True f" "chunk_size z \<le> trunc_offset z" "trunc_offset z < chunk_size z + append_size z"
    and "0 < append_size z" "length f \<le> length buf"
  shows "wat_error cmp z (length f) (patch 0 f buf) = 0"
proof -
  from assms(2-4) show ?thesis
  proof (rule race_file_ends)
    assume f: "f = the_chunk z @ replicate (trunc_offset z - chunk_size z) APPEND_CHAR"
    then have "length f = trunc_offset z" using assms(3) by (simp add: the_chunk_def)
    with f show ?thesis by (simp add: wat_error_def Let_def patch_def the_chunk_def cmp_refl [OF assms(1)])
  next
    assume f: "f = the_chunk z @ replicate (trunc_offset z - chunk_size z) 0 @ the_append z"
    then have "length f \<noteq> trunc_offset z" using assms(3,5) by (simp add: the_chunk_def the_append_def)
    with f assms(3) show ?thesis
      by (simp add: wat_error_def Let_def patch_def the_chunk_def the_append_def cmp_refl [OF assms(1)])
  qed
qed

lemma race_file_length:
  assumes "race_file (wat_draw rs n) True True f"
  shows "length f \<le> TRUNC_SIZE_MAX + APPEND_SIZE_MAX"
proof -
  note d = draw_bounds [of rs n]
  from assms d(5,6) show ?thesis
    by (rule race_file_ends) (use d in \<open>auto simp: the_chunk_def the_append_def TRUNC_SIZE_MAX_def\<close>)
qed


section \<open>The invariant of a kernel that does everything\<close>

text \<open>A rank other than 0 in the round \<open>n\<close> before its first barrier.\<close>

definition early :: "nat \<Rightarrow> nat \<Rightarrow> wat_pc set" where
  "early nloops n = {At_loop n, if n < nloops then At_start n else Finished, if n = 0 then At_open else At_bcast (n - 1)}"

definition creating :: "nat \<Rightarrow> wat_state \<Rightarrow> bool" where
  "creating np s \<longleftrightarrow> (w_pc s 0 = At_create \<or> w_pc s 0 = At_prep \<and> w_file s \<noteq> None)
     \<and> (\<forall>i. 0 < i \<and> i < np \<longrightarrow> w_pc s i = At_prep) \<and> w_errors s = []"

definition preparing :: "nat stream \<Rightarrow> nat \<Rightarrow> nat \<Rightarrow> nat \<Rightarrow> wat_state \<Rightarrow> bool" where
  "preparing rs np nloops n s \<longleftrightarrow> n \<le> nloops \<and> w_errors s = replicate n 0
     \<and> (\<forall>i. 0 < i \<and> i < np \<longrightarrow> w_pc s i \<in> early nloops n)
     \<and> (n = 0 \<and> w_pc s 0 = At_open \<and> w_file s \<noteq> None \<or> w_pc s 0 = At_loop n \<and> w_file s \<noteq> None
        \<or> n < nloops \<and> w_pc s 0 = At_chunk n 0 \<and> w_file s = Some []
        \<or> n < nloops \<and> w_pc s 0 = At_start n \<and> w_file s = Some (the_chunk (wat_draw rs n))
        \<or> n = nloops \<and> w_pc s 0 = Finished \<and> w_file s = None)"

definition racer :: "nat \<Rightarrow> nat \<Rightarrow> bool \<Rightarrow> bool \<Rightarrow> nat \<Rightarrow> wat_pc" where
  "racer np n ad td i = (if i = n mod np then if ad then At_end n else At_append n 0
     else if i = (n + 1) mod np then if td then At_end n else At_trunc n else At_end n)"

definition racing :: "nat stream \<Rightarrow> nat \<Rightarrow> nat \<Rightarrow> nat \<Rightarrow> bool \<Rightarrow> bool \<Rightarrow> wat_state \<Rightarrow> bool" where
  "racing rs np nloops n ad td s \<longleftrightarrow> n < nloops \<and> w_errors s = replicate n 0 \<and> (\<forall>i < np. w_pc s i = racer np n ad td i)
     \<and> (\<exists>f. w_file s = Some f \<and> race_file (wat_draw rs n) ad td f)"

definition comparing :: "nat stream \<Rightarrow> nat \<Rightarrow> nat \<Rightarrow> nat \<Rightarrow> wat_state \<Rightarrow> bool" where
  "comparing rs np nloops n s \<longleftrightarrow> n < nloops \<and> w_errors s = replicate n 0 \<and> w_pc s 0 = At_check n
     \<and> (\<forall>i. 0 < i \<and> i < np \<longrightarrow> w_pc s i = At_bcast n) \<and> (\<exists>f. w_file s = Some f \<and> race_file (wat_draw rs n) True True f)"

definition sound :: "wat_state \<Rightarrow> bool" where
  "sound s \<longleftrightarrow> w_status s = Running \<and> length (w_buf s) = TRUNC_SIZE_MAX + APPEND_SIZE_MAX"

definition wat_inv :: "nat stream \<Rightarrow> nat \<Rightarrow> nat \<Rightarrow> wat_state \<Rightarrow> bool" where
  "wat_inv rs np nloops s \<longleftrightarrow> sound s \<and> (creating np s \<or> (\<exists>n. preparing rs np nloops n s)
     \<or> (\<exists>n ad td. racing rs np nloops n ad td s) \<or> (\<exists>n. comparing rs np nloops n s))"

text \<open>How far a rank is from its end.\<close>

fun left :: "nat \<Rightarrow> wat_pc \<Rightarrow> nat" where
  "left nloops At_create = 10 * nloops + 4"
| "left nloops At_prep = 10 * nloops + 3"
| "left nloops At_open = 10 * nloops + 2"
| "left nloops (At_loop n) = 10 * (nloops - n) + 1"
| "left nloops (At_chunk n d) = 10 * (nloops - n)"
| "left nloops (At_start n) = 10 * (nloops - n) - 1"
| "left nloops (At_append n d) = 10 * (nloops - n) - 2"
| "left nloops (At_trunc n) = 10 * (nloops - n) - 2"
| "left nloops (At_end n) = 10 * (nloops - n) - 3"
| "left nloops (At_check n) = 10 * (nloops - n) - 4"
| "left nloops (At_bcast n) = 10 * (nloops - n) - 4"
| "left nloops Finished = 0"

definition moves :: "nat \<Rightarrow> nat \<Rightarrow> wat_state \<Rightarrow> wat_state \<Rightarrow> bool" where
  "moves nloops rank s s' \<longleftrightarrow> (\<exists>pc. w_pc s' = (w_pc s)(rank := pc) \<and> left nloops pc < left nloops (w_pc s rank))"

lemma moves_goes: "left nloops pc < left nloops (w_pc s rank) \<Longrightarrow> w_pc s' = w_pc s \<Longrightarrow> moves nloops rank s (goes rank pc s')"
  by (auto simp: moves_def goes_def)

lemma fine_simps [simp]:
  "transfer Fine n = n"
  "w_file s = Some f \<Longrightarrow> on_file Fine op rank pc s = goes rank pc (s\<lparr>w_file := op f\<rparr>)"
  "append_some Fine ch todo rank pcs s = goes rank (pcs todo) (s\<lparr>w_file := map_option (\<lambda>f. f @ replicate todo ch) (w_file s)\<rparr>)"
  by (simp_all add: transfer_def on_file_def append_some_def)

lemma goes_simps [simp]:
  "w_pc (goes r pc s) = (w_pc s)(r := pc)" "w_file (goes r pc s) = w_file s" "w_errors (goes r pc s) = w_errors s"
  "sound (goes r pc s) = sound s" "sound (s\<lparr>w_file := f\<rparr>) = sound s" "sound (s\<lparr>w_errors := es\<rparr>) = sound s"
  by (simp_all add: goes_def sound_def)

text \<open>The steps of the ranks, phase by phase.\<close>

lemma creating_rank:
  assumes "creating np s" "sound s" "rank < np" "wat_rank cmp rs nloops Fine rank s = Some s'"
  shows "wat_inv rs np nloops s'" "moves nloops rank s s'"
proof -
  have 0: "rank = 0" "w_pc s 0 = At_create"
    using assms(1,3,4) by (cases "rank = 0"; auto simp: creating_def wat_rank_def)+
  then have s': "s' = goes 0 At_prep (s\<lparr>w_file := Some []\<rparr>)" using assms(4) by (simp add: wat_rank_def)
  then have "creating np s'" using assms(1) by (auto simp: creating_def)
  then show "wat_inv rs np nloops s'" using assms(2) s' by (simp add: wat_inv_def)
  show "moves nloops rank s s'" using 0 unfolding s' by (auto intro!: moves_goes)
qed

lemma preparing_other:
  assumes "preparing rs np nloops n s" "sound s" "0 < nloops" "0 < rank" "rank < np" "wat_rank cmp rs nloops Fine rank s = Some s'"
  shows "wat_inv rs np nloops s'" "moves nloops rank s s'"
proof -
  have there: "w_file s \<noteq> None" if "n = 0" using assms(1,3) that by (auto simp: preparing_def)
  obtain pc where pc: "s' = goes rank pc s" "pc \<in> early nloops n" "left nloops pc < left nloops (w_pc s rank)"
  proof -
    have "w_pc s rank \<in> early nloops n" using assms(1,4,5) by (auto simp: preparing_def)
    then consider "w_pc s rank = At_loop n" | "w_pc s rank = At_open" "n = 0" | "w_pc s rank = At_bcast (n - 1)" "0 < n"
      using assms(6) by (auto simp: early_def wat_rank_def split: if_splits)
    then show thesis
    proof cases
      case 1
      with assms(4,6) show thesis by (intro that [of "if n < nloops then At_start n else Finished"]) (auto simp: wat_rank_def early_def)
    next
      case 2
      with there obtain f where f: "w_file s = Some f" by blast
      with 2 assms(6) have "s' = goes rank (At_loop 0) (s\<lparr>w_file := Some f\<rparr>)" by (simp add: wat_rank_def)
      moreover have "s\<lparr>w_file := Some f\<rparr> = s" using f by (cases s) simp
      ultimately show thesis using 2 by (intro that [of "At_loop 0"]) (auto simp: early_def)
    next
      case 3
      have "n \<le> nloops" "w_errors s = replicate n 0" using assms(1) by (auto simp: preparing_def)
      with 3 assms(6) show thesis by (intro that [of "At_loop n"]) (auto simp: wat_rank_def early_def split: if_splits)
    qed
  qed
  then have "preparing rs np nloops n s'" using assms(1,4) by (auto simp: preparing_def)
  then show "wat_inv rs np nloops s'" using assms(2) pc(1) by (auto simp: wat_inv_def)
  show "moves nloops rank s s'" using pc by (auto intro!: moves_goes)
qed

lemma preparing_first:
  assumes "preparing rs np nloops n s" "sound s" "wat_rank cmp rs nloops Fine 0 s = Some s'"
  shows "wat_inv rs np nloops s'" "moves nloops 0 s s'"
proof -
  have "preparing rs np nloops n s' \<and> sound s' \<and> moves nloops 0 s s'"
  proof -
    have n: "n \<le> nloops" using assms(1) by (simp add: preparing_def)
    from assms(1,3) consider "w_pc s 0 = At_open" "n = 0" "w_file s \<noteq> None" | "w_pc s 0 = At_loop n" "w_file s \<noteq> None"
      | "w_pc s 0 = At_chunk n 0" "n < nloops" "w_file s = Some []"
      by (auto simp: preparing_def wat_rank_def)
    then show ?thesis
    proof cases
      case 1
      then obtain f where f: "w_file s = Some f" by blast
      with 1 assms(3) have s': "s' = goes 0 (At_loop 0) (s\<lparr>w_file := Some f\<rparr>)" by (simp add: wat_rank_def)
      with assms(1,2) 1 show ?thesis unfolding s' by (auto simp: preparing_def intro!: moves_goes)
    next
      case 2
      then obtain f where f: "w_file s = Some f" by blast
      show ?thesis
      proof (cases "n < nloops")
        case True
        with f 2 assms(3) have s': "s' = goes 0 (At_chunk n 0) (s\<lparr>w_file := Some []\<rparr>)" by (simp add: wat_rank_def file_truncate_def)
        with assms(1,2) 2 True show ?thesis unfolding s' by (auto simp: preparing_def intro!: moves_goes)
      next
        case False
        with f 2 assms(3) have s': "s' = goes 0 Finished (s\<lparr>w_file := None\<rparr>)" by (simp add: wat_rank_def)
        with assms(1,2) 2 False n show ?thesis unfolding s' by (auto simp: preparing_def intro!: moves_goes)
      qed
    next
      case 3
      with assms(3) have s': "s' = goes 0 (At_start n) (s\<lparr>w_file := Some (the_chunk (wat_draw rs n))\<rparr>)"
        by (simp add: wat_rank_def the_chunk_def)
      with assms(1,2) 3 show ?thesis unfolding s' by (auto simp: preparing_def intro!: moves_goes)
    qed
  qed
  then show "wat_inv rs np nloops s'" "moves nloops 0 s s'" by (auto simp: wat_inv_def)
qed


lemma racers_differ: "2 \<le> np \<Longrightarrow> n mod np \<noteq> (n + 1) mod (np :: nat)"
  by (auto simp: mod_Suc)

lemma racing_rank:
  assumes "racing rs np nloops n ad td s" "sound s" "2 \<le> np" "rank < np" "wat_rank cmp rs nloops Fine rank s = Some s'"
  shows "wat_inv rs np nloops s'" "moves nloops rank s s'"
proof -
  let ?z = "wat_draw rs n"
  have pc: "w_pc s rank = racer np n ad td rank" using assms(1,4) by (simp add: racing_def)
  obtain f where f: "w_file s = Some f" "race_file ?z ad td f" using assms(1) by (auto simp: racing_def)
  have n: "n < nloops" using assms(1) by (simp add: racing_def)
  consider (app) "rank = n mod np" "\<not> ad" | (trunc) "rank = (n + 1) mod np" "rank \<noteq> n mod np" "\<not> td"
    using pc assms(5) by (auto simp: racer_def wat_rank_def split: if_splits)
  then have "(\<exists>ad td. racing rs np nloops n ad td s') \<and> sound s' \<and> moves nloops rank s s'"
  proof cases
    case app
    then have s': "s' = goes rank (At_end n) (s\<lparr>w_file := Some (f @ the_append ?z)\<rparr>)"
      using pc assms(5) f(1) by (simp add: racer_def wat_rank_def the_append_def)
    have "race_file ?z True td (f @ the_append ?z)" using f(2) app(2) by (auto simp: race_file_def split: if_splits)
    moreover have "((w_pc s)(rank := At_end n)) i = racer np n True td i" if "i < np" for i
      using that assms(1) app(1) by (simp add: racing_def racer_def)
    ultimately have "racing rs np nloops n True td s'" using assms(1) unfolding s' by (auto simp: racing_def)
    moreover have "moves nloops rank s s'" unfolding s' by (rule moves_goes) (use pc app n in \<open>auto simp: racer_def\<close>)
    ultimately show ?thesis using assms(2) s' by auto
  next
    case trunc
    then have s': "s' = goes rank (At_end n) (s\<lparr>w_file := Some (file_truncate (trunc_offset ?z) f)\<rparr>)"
      using pc assms(5) f(1) by (simp add: racer_def wat_rank_def)
    have "race_file ?z ad True (file_truncate (trunc_offset ?z) f)" using f(2) trunc(3) by (auto simp: race_file_def split: if_splits)
    moreover have "((w_pc s)(rank := At_end n)) i = racer np n ad True i" if "i < np" for i
      using that assms(1) trunc(1,2) by (simp add: racing_def racer_def)
    ultimately have "racing rs np nloops n ad True s'" using assms(1) unfolding s' by (auto simp: racing_def)
    moreover have "moves nloops rank s s'" unfolding s' by (rule moves_goes) (use pc trunc n in \<open>auto simp: racer_def\<close>)
    ultimately show ?thesis using assms(2) s' by auto
  qed
  then show "wat_inv rs np nloops s'" "moves nloops rank s s'" by (auto simp: wat_inv_def)
qed

lemma comparing_rank:
  assumes "comparing rs np nloops n s" "sound s" "cmp_ok cmp" "rank < np" "wat_rank cmp rs nloops Fine rank s = Some s'"
  shows "wat_inv rs np nloops s'" "moves nloops rank s s'"
proof -
  let ?z = "wat_draw rs n"
  have 0: "rank = 0" using assms(1,4,5) by (cases "rank = 0") (auto simp: comparing_def wat_rank_def)
  obtain f where f: "w_file s = Some f" "race_file ?z True True f" using assms(1) by (auto simp: comparing_def)
  have n: "n < nloops" using assms(1) by (simp add: comparing_def)
  have len: "length f \<le> length (w_buf s)" using race_file_length [OF f(2)] assms(2) by (simp add: sound_def)
  note d = draw_bounds [of rs n]
  have "wat_error cmp ?z (length f) (patch 0 f (w_buf s)) = 0" by (rule wat_error_0 [OF assms(3) f(2) d(5,6,3) len])
  then have s': "s' = goes 0 (At_loop (n + 1)) (s\<lparr>w_buf := patch 0 f (w_buf s), w_errors := w_errors s @ [0]\<rparr>)"
    using assms(1,5) f(1) len 0 by (simp add: comparing_def wat_rank_def wat_check_def Let_def)
  have "sound s'" using assms(2) len unfolding s' by (simp add: sound_def goes_def buf_simps)
  moreover have "preparing rs np nloops (n + 1) s'"
    using assms(1) f(1) unfolding s' by (auto simp: preparing_def comparing_def early_def replicate_append_same)
  ultimately show "wat_inv rs np nloops s'" by (auto simp: wat_inv_def)
  show "moves nloops rank s s'" unfolding s' 0 by (rule moves_goes) (use assms(1) n in \<open>auto simp: comparing_def\<close>)
qed

lemma wat_rank_inv:
  assumes "wat_inv rs np nloops s" "cmp_ok cmp" "2 \<le> np" "0 < nloops" "rank < np" "wat_rank cmp rs nloops Fine rank s = Some s'"
  shows "wat_inv rs np nloops s' \<and> moves nloops rank s s'"
proof -
  from assms(1) have snd: "sound s" by (simp add: wat_inv_def)
  from assms(1) consider (cr) "creating np s" | (pr) n where "preparing rs np nloops n s"
    | (ra) n ad td where "racing rs np nloops n ad td s" | (co) n where "comparing rs np nloops n s"
    unfolding wat_inv_def by blast
  then show ?thesis
  proof cases
    case cr
    then show ?thesis using creating_rank [OF cr snd assms(5,6)] by blast
  next
    case pr
    then show ?thesis
      using preparing_first [OF pr snd] preparing_other [OF pr snd assms(4) _ assms(5,6)] assms(6) by (cases "rank = 0") blast+
  next
    case ra
    then show ?thesis using racing_rank [OF ra snd assms(3,5,6)] by blast
  next
    case co
    then show ?thesis using comparing_rank [OF co snd assms(2,5,6)] by blast
  qed
qed

text \<open>The barriers.\<close>

lemma barrier_Some:
  assumes "wat_barrier np s = Some s'" "0 < np"
  obtains "is_barrier (w_pc s 0)" "\<And>i. i < np \<Longrightarrow> w_pc s i = w_pc s 0"
    "s' = s\<lparr>w_pc := (\<lambda>i. if i < np then after_barrier np i (w_pc s 0) else w_pc s i)\<rparr>"
proof -
  define P where "P \<longleftrightarrow> is_barrier (w_pc s 0) \<and> (\<forall>i < np. w_pc s i = w_pc s 0)"
  define s0 where "s0 = s\<lparr>w_pc := (\<lambda>i. if i < np then after_barrier np i (w_pc s i) else w_pc s i)\<rparr>"
  have "wat_barrier np s = (if P then Some s0 else None)" unfolding wat_barrier_def P_def s0_def ..
  with assms(1) have "P" "s' = s0" by (auto split: if_splits)
  then have bar: "is_barrier (w_pc s 0)" and all: "\<And>i. i < np \<Longrightarrow> w_pc s i = w_pc s 0" unfolding P_def by blast+
  have "(\<lambda>i. if i < np then after_barrier np i (w_pc s i) else w_pc s i) = (\<lambda>i. if i < np then after_barrier np i (w_pc s 0) else w_pc s i)"
    using all by (metis (full_types))
  with \<open>s' = s0\<close> have "s' = s\<lparr>w_pc := (\<lambda>i. if i < np then after_barrier np i (w_pc s 0) else w_pc s i)\<rparr>" by (simp only: s0_def)
  with bar all show thesis by (rule that)
qed

lemma wat_barrier_inv:
  assumes inv: "wat_inv rs np nloops s" and np: "2 \<le> np" and s': "wat_barrier np s = Some s'"
  shows "wat_inv rs np nloops s'" "\<And>i. i < np \<Longrightarrow> left nloops (w_pc s' i) < left nloops (w_pc s i)"
proof -
  have "0 < np" using np by simp
  then obtain bar: "is_barrier (w_pc s 0)" and all: "\<And>i. i < np \<Longrightarrow> w_pc s i = w_pc s 0"
    and eq: "s' = s\<lparr>w_pc := (\<lambda>i. if i < np then after_barrier np i (w_pc s 0) else w_pc s i)\<rparr>"
    using barrier_Some [OF s'] by blast
  have snd: "sound s'" using inv unfolding eq by (simp add: wat_inv_def sound_def)
  from inv consider (cr) "creating np s" | (pr) n where "preparing rs np nloops n s"
    | (ra) n ad td where "racing rs np nloops n ad td s" | (co) n where "comparing rs np nloops n s"
    unfolding wat_inv_def by blast
  then have "wat_inv rs np nloops s' \<and> (\<forall>i < np. left nloops (w_pc s' i) < left nloops (w_pc s i))"
  proof cases
    case cr
    then have 0: "w_pc s 0 = At_prep" "w_file s \<noteq> None" "w_errors s = []" using bar by (auto simp: creating_def is_barrier_def)
    then have "preparing rs np nloops 0 s'" using \<open>0 < np\<close> unfolding eq by (auto simp: preparing_def early_def after_barrier_def)
    moreover have "w_pc s i = At_prep" if "i < np" for i using all [OF that] 0(1) by metis
    ultimately show ?thesis using snd 0(1) unfolding eq by (auto simp: wat_inv_def after_barrier_def)
  next
    case pr
    then have 0: "w_pc s 0 = At_start n" "n < nloops" "w_file s = Some (the_chunk (wat_draw rs n))" "w_errors s = replicate n 0"
      using bar by (auto simp: preparing_def is_barrier_def)
    then have "racing rs np nloops n False False s'" unfolding eq by (auto simp: racing_def racer_def race_file_def after_barrier_def)
    moreover have "w_pc s i = At_start n" if "i < np" for i using all [OF that] 0(1) by metis
    ultimately show ?thesis using snd 0(1,2) unfolding eq by (auto simp: wat_inv_def after_barrier_def)
  next
    case ra
    have 0: "w_pc s 0 = At_end n"
      using ra bar \<open>0 < np\<close> by (auto simp: racing_def racer_def is_barrier_def split: if_splits)
    have pcs: "w_pc s i = At_end n" if "i < np" for i using all [OF that] 0 by metis
    have "n mod np < np" "(n + 1) mod np < np" using \<open>0 < np\<close> by simp_all
    then have "racer np n ad td (n mod np) = At_end n" "racer np n ad td ((n + 1) mod np) = At_end n"
      using ra pcs by (metis racing_def)+
    then have "ad" "td" using racers_differ [OF np, of n] by (auto simp: racer_def split: if_splits)
    with ra have "comparing rs np nloops n s'" using 0 \<open>0 < np\<close> unfolding eq by (auto simp: racing_def comparing_def after_barrier_def)
    moreover have "n < nloops" using ra by (simp add: racing_def)
    ultimately show ?thesis using snd 0 pcs unfolding eq by (auto simp: wat_inv_def after_barrier_def)
  next
    case co
    with bar show ?thesis by (auto simp: comparing_def is_barrier_def)
  qed
  then show "wat_inv rs np nloops s'" "\<And>i. i < np \<Longrightarrow> left nloops (w_pc s' i) < left nloops (w_pc s i)" by auto
qed


text \<open>What remains decreases with every step, and there is a step as long as a rank is not finished.\<close>

definition wat_left :: "nat \<Rightarrow> nat \<Rightarrow> wat_state \<Rightarrow> nat" where
  "wat_left np nloops s = (\<Sum>i < np. left nloops (w_pc s i))"

lemma moves_less:
  assumes "moves nloops rank s s'" "rank < np"
  shows "wat_left np nloops s' < wat_left np nloops s"
  unfolding wat_left_def
proof (rule sum_strict_mono_ex1)
  show "\<forall>i \<in> {..<np}. left nloops (w_pc s' i) \<le> left nloops (w_pc s i)" using assms(1) by (auto simp: moves_def)
  show "\<exists>i \<in> {..<np}. left nloops (w_pc s' i) < left nloops (w_pc s i)" using assms by (auto simp: moves_def)
qed simp

lemma wat_step_inv:
  assumes "wat_step cmp rs np nloops (\<lambda>a. a = Fine) s s'" "wat_inv rs np nloops s" "cmp_ok cmp" "2 \<le> np" "0 < nloops"
  shows "wat_inv rs np nloops s' \<and> wat_left np nloops s' < wat_left np nloops s"
  using assms(1)
proof cases
  case (rank_step rank a)
  then show ?thesis using wat_rank_inv [OF assms(2-5)] moves_less by blast
next
  case barrier_step
  note b = wat_barrier_inv [OF assms(2,4) barrier_step(2)]
  have "wat_left np nloops s' < wat_left np nloops s"
    unfolding wat_left_def using assms(4) b(2) by (intro sum_strict_mono) (auto simp: lessThan_empty_iff)
  with b(1) show ?thesis by blast
qed

lemma barrier_ready: "is_barrier pc \<Longrightarrow> (\<And>i. i < np \<Longrightarrow> w_pc s i = pc) \<Longrightarrow> 0 < np \<Longrightarrow> wat_barrier np s \<noteq> None"
  unfolding wat_barrier_def by (metis option.distinct(1))

text \<open>A rank that is neither finished nor waiting has a step.\<close>

definition waits :: "wat_pc \<Rightarrow> bool" where
  "waits pc \<longleftrightarrow> is_barrier pc \<or> pc = Finished \<or> (\<exists>n. pc = At_bcast n)"

lemma rank_ready: "\<not> waits (w_pc s rank) \<Longrightarrow> wat_rank cmp rs nloops a rank s \<noteq> None"
  by (cases "w_pc s rank") (simp_all add: waits_def is_barrier_def wat_rank_def Let_def)

lemma preparing_progress:
  assumes "preparing rs np nloops n s" "0 < np"
  shows "(\<forall>i < np. w_pc s i = Finished) \<and> w_file s = None \<or> wat_barrier np s \<noteq> None
    \<or> (\<exists>rank < np. wat_rank cmp rs nloops Fine rank s \<noteq> None)"
proof (cases "\<exists>rank < np. wat_rank cmp rs nloops Fine rank s \<noteq> None")
  case False
  then have stuck: "wat_rank cmp rs nloops Fine i s = None" "waits (w_pc s i)" if "i < np" for i using that rank_ready by blast+
  have z: "w_pc s 0 = At_start n \<and> n < nloops \<or> w_pc s 0 = Finished \<and> n = nloops \<and> w_file s = None"
    using assms(1) stuck(2) [OF assms(2)] by (auto simp: preparing_def waits_def is_barrier_def)
  have e: "w_errors s = replicate n 0" using assms(1) by (simp add: preparing_def)
  have others: "w_pc s i = At_start n \<and> n < nloops \<or> w_pc s i = Finished \<and> n = nloops" if i: "0 < i" "i < np" for i
  proof -
    have "w_pc s i \<in> early nloops n" "n \<le> nloops" using assms(1) i by (simp_all add: preparing_def)
    then show ?thesis
      using stuck [OF i(2)] e by (auto simp: early_def waits_def is_barrier_def wat_rank_def split: if_splits)
  qed
  have all: "w_pc s i = At_start n \<and> n < nloops \<or> w_pc s i = Finished \<and> n = nloops" if "i < np" for i
    using others [of i] z that by (cases "i = 0") auto
  show ?thesis
  proof (cases "n < nloops")
    case True
    with all have "wat_barrier np s \<noteq> None" using assms(2) by (intro barrier_ready [of "At_start n"]) (auto simp: is_barrier_def)
    then show ?thesis by blast
  qed (use all z in auto)
qed simp

lemma wat_progress:
  assumes "wat_inv rs np nloops s" "2 \<le> np"
  shows "(\<forall>i < np. w_pc s i = Finished) \<and> w_file s = None \<or> (\<exists>s'. wat_step cmp rs np nloops (\<lambda>a. a = Fine) s s')"
proof -
  have run: "w_status s = Running" "0 < np" using assms by (auto simp: wat_inv_def sound_def)
  have step: "\<exists>s'. wat_step cmp rs np nloops (\<lambda>a. a = Fine) s s'"
    if "wat_barrier np s \<noteq> None \<or> (\<exists>rank < np. wat_rank cmp rs nloops Fine rank s \<noteq> None)"
    using that run(1) by (auto intro: wat_step.intros)
  from assms(1) consider (cr) "creating np s" | (pr) n where "preparing rs np nloops n s"
    | (ra) n ad td where "racing rs np nloops n ad td s" | (co) n where "comparing rs np nloops n s"
    unfolding wat_inv_def by blast
  then show ?thesis
  proof cases
    case cr
    have "wat_barrier np s \<noteq> None" if "w_pc s 0 = At_prep"
      using cr that run(2) by (intro barrier_ready [of At_prep]) (auto simp: creating_def is_barrier_def, metis gr0I)
    moreover have "wat_rank cmp rs nloops Fine 0 s \<noteq> None" if "w_pc s 0 = At_create"
      using that by (intro rank_ready) (simp add: waits_def is_barrier_def)
    ultimately show ?thesis using cr step run(2) by (auto simp: creating_def)
  next
    case pr
    then show ?thesis using preparing_progress [OF pr run(2)] step by blast
  next
    case ra
    then have pc: "w_pc s i = racer np n ad td i" if "i < np" for i using that by (simp add: racing_def)
    show ?thesis
    proof (cases "ad \<and> td")
      case True
      with pc have "wat_barrier np s \<noteq> None" using run(2) by (intro barrier_ready [of "At_end n"]) (auto simp: is_barrier_def racer_def)
      with step show ?thesis by blast
    next
      case False
      have lt: "n mod np < np" "(n + 1) mod np < np" using run(2) by simp_all
      have "\<not> waits (w_pc s (n mod np)) \<or> \<not> waits (w_pc s ((n + 1) mod np))"
        using False pc [OF lt(1)] pc [OF lt(2)] racers_differ [OF assms(2), of n] by (auto simp: racer_def waits_def is_barrier_def)
      with lt step rank_ready show ?thesis by blast
    qed
  next
    case co
    then have "\<not> waits (w_pc s 0)" by (simp add: comparing_def waits_def is_barrier_def)
    with step rank_ready run(2) show ?thesis by blast
  qed
qed

lemma wat_init_inv:
  assumes "length buf = TRUNC_SIZE_MAX + APPEND_SIZE_MAX"
  shows "wat_inv rs np nloops (wat_init f buf)"
proof -
  have "creating np (wat_init f buf)" by (simp add: creating_def wat_init_def)
  with assms show ?thesis by (simp add: wat_inv_def sound_def wat_init_def)
qed

text \<open>With the conditions on the program the steps form a bounded system.\<close>

definition wat_good :: "(byte list \<Rightarrow> byte list \<Rightarrow> int) \<Rightarrow> nat stream \<Rightarrow> nat \<Rightarrow> nat \<Rightarrow> wat_state \<Rightarrow> bool" where
  "wat_good cmp rs np nloops s \<longleftrightarrow> cmp_ok cmp \<and> 2 \<le> np \<and> 0 < nloops \<and> wat_inv rs np nloops s"

interpretation watb: bounded_system "wat_step cmp rs np nloops (\<lambda>a. a = Fine)" "wat_good cmp rs np nloops" "wat_left np nloops"
  for cmp rs np nloops
  by unfold_locales (use wat_step_inv in \<open>auto simp: wat_good_def\<close>)

section \<open>Properties\<close>

text \<open>
  C40. On a kernel that fails no call and writes everything it is asked to, whatever the order of the ranks and the
  numbers drawn: the program is never aborted and leaves no buffer, every value broadcast is 0, no run is longer than
  the work at its start, and a run that cannot go on has all ranks finished and the file removed.
\<close>

theorem wat_passes:
  assumes "(wat_step cmp rs np nloops (\<lambda>a. a = Fine) ^^ k) (wat_init f buf) s" "length buf = TRUNC_SIZE_MAX + APPEND_SIZE_MAX"
    and "cmp_ok cmp" "2 \<le> np" "0 < nloops"
  shows "w_status s = Running \<and> set (w_errors s) \<subseteq> {0} \<and> k \<le> wat_left np nloops (wat_init f buf)
    \<and> ((\<nexists>s'. wat_step cmp rs np nloops (\<lambda>a. a = Fine) s s') \<longrightarrow> (\<forall>i < np. w_pc s i = Finished) \<and> w_file s = None)"
proof -
  have init: "wat_good cmp rs np nloops (wat_init f buf)" using assms(2-5) wat_init_inv by (simp add: wat_good_def)
  have inv: "wat_inv rs np nloops s" using watb.runs_inv [OF assms(1) init] by (simp add: wat_good_def)
  have "w_status s = Running" "set (w_errors s) \<subseteq> {0}"
    using inv by (auto simp: wat_inv_def sound_def creating_def preparing_def racing_def comparing_def)
  with watb.runs_work [OF assms(1) init] wat_progress [OF inv assms(4)] show ?thesis by fastforce
qed

text \<open>A \<open>memcmp\<close>: the difference of the first bytes that differ.\<close>

fun byte_diff :: "byte list \<Rightarrow> byte list \<Rightarrow> int" where
  "byte_diff (x # xs) (y # ys) = (if x = y then byte_diff xs ys else uint x - uint y)"
| "byte_diff _ _ = 0"

lemma byte_diff_ok: "cmp_ok byte_diff"
proof -
  have "length xs = length ys \<Longrightarrow> byte_diff xs ys = 0 \<longleftrightarrow> xs = ys" for xs ys by (induction xs ys rule: byte_diff.induct) (auto simp: word_uint_eq_iff)
  then show ?thesis by (simp add: cmp_ok_def)
qed

theorem wat_passes_witness:
  "\<exists>s. w_status s = Running \<and> (wat_step byte_diff (sconst 7) 2 1 (\<lambda>a. a = Fine) ^^ 1)
     (wat_init None (replicate (TRUNC_SIZE_MAX + APPEND_SIZE_MAX) 0)) s \<and> s \<noteq> wat_init None (replicate (TRUNC_SIZE_MAX + APPEND_SIZE_MAX) 0)"
proof -
  let ?R = "wat_step byte_diff (sconst 7) 2 1 (\<lambda>a. a = Fine)" and ?i = "wat_init None (replicate (TRUNC_SIZE_MAX + APPEND_SIZE_MAX) 0)"
  have "?R ?i (goes 0 At_prep (?i\<lparr>w_file := Some []\<rparr>))"
    by (rule rank_step [of _ 0 _ _ Fine]) (simp_all add: wat_init_def wat_rank_def)
  then have r: "(?R ^^ 1) ?i (goes 0 At_prep (?i\<lparr>w_file := Some []\<rparr>))" by (simp add: relcompp_apply)
  then have "w_status (goes 0 At_prep (?i\<lparr>w_file := Some []\<rparr>)) = Running"
    using wat_passes [OF r _ byte_diff_ok] by simp
  moreover have "goes 0 At_prep (?i\<lparr>w_file := Some []\<rparr>) \<noteq> ?i" by (simp add: goes_def wat_init_def)
  ultimately show ?thesis using r by blast
qed

text \<open>
  C34. What rank 0 accepts. In a file of the size after the truncation the bytes after the chunk must compare with
  another result than 1, and the chunk itself may be anything; with a \<open>memcmp\<close> that returns another number than 1 for
  different bytes nothing is rejected. In a file of another size, not too short, the chunk, the zeros and the appended bytes must be right, and what follows may be anything.
\<close>

theorem wat_check_decides:
  assumes "cmp_ok cmp" "w_status s = Running" "w_file s = Some f" "length f \<le> length (w_buf s)" "chunk_size z \<le> trunc_offset z"
    and "length f = trunc_offset z \<or> trunc_offset z + append_size z \<le> length f"
  shows "w_status (wat_check cmp z n Fine s) = Running \<longleftrightarrow> (if length f = trunc_offset z
      then cmp (drop (chunk_size z) f) (replicate (trunc_offset z - chunk_size z) APPEND_CHAR) \<noteq> 1
      else take (trunc_offset z + append_size z) f
        = replicate (chunk_size z) CHUNK_CHAR @ replicate (trunc_offset z - chunk_size z) 0 @ replicate (append_size z) APPEND_CHAR)"
proof -
  let ?c = "chunk_size z" and ?t = "trunc_offset z" and ?p = "append_size z"
  have run: "w_status (wat_check cmp z n Fine s) = Running \<longleftrightarrow> wat_error cmp z (length f) (patch 0 f (w_buf s)) \<noteq> 1"
    using assms(2-4) by (simp add: wat_check_def Let_def goes_def)
  show ?thesis
  proof (cases "length f = ?t")
    case True
    then show ?thesis using assms(5) unfolding run by (simp add: wat_error_def Let_def patch_def)
  next
    case False
    then have len: "?t + ?p \<le> length f" using assms(6) by simp
    have eq: "cmp xs ys = 0 \<longleftrightarrow> xs = ys" if "length xs = length ys" for xs ys using assms(1) that by (simp add: cmp_ok_def)
    have part: "take a (drop b (patch 0 f (w_buf s))) = take a (drop b f)" if "a + b \<le> length f" for a b
      using that by (simp add: patch_def)
    have "wat_error cmp z (length f) (patch 0 f (w_buf s)) \<noteq> 1 \<longleftrightarrow> take ?c f = replicate ?c CHUNK_CHAR
        \<and> take (?t - ?c) (drop ?c f) = replicate (?t - ?c) 0 \<and> take ?p (drop ?t f) = replicate ?p APPEND_CHAR"
      using False len assms(5) part [of ?c 0] part [of "?t - ?c" ?c] part [of ?p ?t]
      by (simp add: wat_error_def Let_def eq)
    also have "\<dots> \<longleftrightarrow> take (?t + ?p) f = replicate ?c CHUNK_CHAR @ replicate (?t - ?c) 0 @ replicate ?p APPEND_CHAR"
    proof -
      have "?t + ?p = ?c + ((?t - ?c) + ?p)" using assms(5) by simp
      then have "take (?t + ?p) f = take ?c f @ take (?t - ?c) (drop ?c f) @ take ?p (drop (?t - ?c) (drop ?c f))"
        by (simp only: take_add)
      also have "drop (?t - ?c) (drop ?c f) = drop ?t f" using assms(5) by simp
      finally have "take (?t + ?p) f = take ?c f @ take (?t - ?c) (drop ?c f) @ take ?p (drop ?t f)" .
      moreover have "length (take ?c f) = length (replicate ?c CHUNK_CHAR)"
        "length (take (?t - ?c) (drop ?c f)) = length (replicate (?t - ?c) (0 :: byte))" using len assms(5) by simp_all
      ultimately show ?thesis by (simp only: append_eq_append_conv simp_thms)
    qed
    finally show ?thesis using False unfolding run by simp
  qed
qed

theorem wat_check_decides_witness:
  "w_status (wat_check byte_diff \<lparr>chunk_size = 2, append_size = 3, trunc_offset = 4\<rparr> 0 Fine
     \<lparr>w_file = Some [1, 2, 3, 4], w_pc = (\<lambda>_. At_check 0), w_buf = [0, 0, 0, 0], w_errors = [], w_status = Running\<rparr>) = Running"
proof -
  have "byte_diff [3, 4] (replicate 2 APPEND_CHAR) \<noteq> 1" by code_simp
  then show ?thesis
    by (subst wat_check_decides [OF byte_diff_ok, where f = "[1, 2, 3, 4]"]) (simp_all add: drop_Cons')
qed

text \<open>
  A false alarm: the appending rank writes one of two bytes, the other truncates, then the second byte is written. The file
  is neither of the two, and the program is aborted although the kernel has done what it may.
\<close>

fun wat_run :: "(byte list \<Rightarrow> byte list \<Rightarrow> int) \<Rightarrow> nat stream \<Rightarrow> nat \<Rightarrow> nat \<Rightarrow> (nat \<times> answer) option list \<Rightarrow> wat_state \<Rightarrow> wat_state option" where
  "wat_run cmp rs np nloops [] s = Some s"
| "wat_run cmp rs np nloops (e # es) s = (if w_status s \<noteq> Running then None else
     case (case e of None \<Rightarrow> wat_barrier np s | Some (rank, a) \<Rightarrow> if rank < np then wat_rank cmp rs nloops a rank s else None) of
       None \<Rightarrow> None | Some s' \<Rightarrow> wat_run cmp rs np nloops es s')"

lemma wat_run_steps:
  assumes "wat_run cmp rs np nloops es s = Some s'" "list_all (\<lambda>e. case e of None \<Rightarrow> True | Some (rank, a) \<Rightarrow> ok a) es"
  shows "(wat_step cmp rs np nloops ok)\<^sup>*\<^sup>* s s'"
  using assms
proof (induction es arbitrary: s)
  case (Cons e es)
  then obtain s1 where "wat_step cmp rs np nloops ok s s1" "wat_run cmp rs np nloops es s1 = Some s'"
    by (auto split: if_splits option.splits prod.splits intro: wat_step.intros)
  with Cons show ?case by (simp add: converse_rtranclp_into_rtranclp)
qed simp

definition alarm_run :: "(nat \<times> answer) option list" where
  "alarm_run = [Some (0, Fine), None, Some (0, Fine), Some (1, Fine), Some (0, Fine), Some (0, Fine), Some (1, Fine), None,
     Some (0, Partial 0), Some (1, Fine), Some (0, Fine), None, Some (0, Fine)]"

lemma alarm_sizes: "wat_draw (0 ## sconst (Suc 0)) 0 = \<lparr>chunk_size = Suc 0, append_size = 2, trunc_offset = 2\<rparr>"
  by (simp add: wat_draw_def Let_def CHUNK_SIZE_MAX_def APPEND_SIZE_MAX_def numeral_2_eq_2)

text \<open>Two running ranks, and the steps on such states.\<close>

definition two_ranks :: "content option \<Rightarrow> wat_pc \<Rightarrow> wat_pc \<Rightarrow> byte list \<Rightarrow> wat_state" where
  "two_ranks f a b buf = \<lparr>w_file = f, w_pc = (\<lambda>i. if i = 0 then a else if i = Suc 0 then b else At_prep), w_buf = buf,
     w_errors = [], w_status = Running\<rparr>"

lemma two_ranks_simps [simp]:
  "w_pc (two_ranks f a b buf) 0 = a" "w_pc (two_ranks f a b buf) (Suc 0) = b" "w_file (two_ranks f a b buf) = f"
  "w_status (two_ranks f a b buf) = Running" "w_buf (two_ranks f a b buf) = buf"
  "(two_ranks f a b buf)\<lparr>w_file := g\<rparr> = two_ranks g a b buf"
  "goes 0 pc (two_ranks f a b buf) = two_ranks f pc b buf" "goes (Suc 0) pc (two_ranks f a b buf) = two_ranks f a pc buf"
  by (auto simp: two_ranks_def goes_def)

lemma two_ranks_barrier [simp]:
  "is_barrier a \<Longrightarrow> wat_barrier 2 (two_ranks f a a buf) = Some (two_ranks f (after_barrier 2 0 a) (after_barrier 2 (Suc 0) a) buf)"
proof -
  assume a: "is_barrier a"
  have all: "\<forall>i < 2. w_pc (two_ranks f a a buf) i = w_pc (two_ranks f a a buf) 0" by (auto simp: less_2_cases_iff)
  have "(\<lambda>i. if i < 2 then after_barrier 2 i (w_pc (two_ranks f a a buf) i) else w_pc (two_ranks f a a buf) i)
      = (\<lambda>i. if i = 0 then after_barrier 2 0 a else if i = Suc 0 then after_barrier 2 (Suc 0) a else At_prep)"
    by (rule ext) (auto simp: two_ranks_def less_2_cases_iff)
  with a all show ?thesis unfolding wat_barrier_def by (simp add: two_ranks_def)
qed

lemma two_ranks_init: "wat_init None buf = two_ranks None At_create At_prep buf"
  by (auto simp: wat_init_def two_ranks_def)

lemma alarm_run_races:
  "wat_run byte_diff (0 ## sconst (Suc 0)) 2 (Suc 0) alarm_run (wat_init None buf)
     = Some (wat_check byte_diff \<lparr>chunk_size = Suc 0, append_size = 2, trunc_offset = 2\<rparr> 0 Fine
         (two_ranks (Some [CHUNK_CHAR, APPEND_CHAR, APPEND_CHAR]) (At_check 0) (At_bcast 0) buf))"
  by (simp add: alarm_run_def two_ranks_init wat_rank_def is_barrier_def after_barrier_def alarm_sizes append_some_def transfer_def
      file_truncate_def Let_def)


lemma wat_false_alarm:
  assumes "length buf = TRUNC_SIZE_MAX + APPEND_SIZE_MAX"
  shows "\<exists>s. (wat_step byte_diff (0 ## sconst 1) 2 1 (\<lambda>a. a \<noteq> Fails))\<^sup>*\<^sup>* (wat_init None buf) s \<and> w_status s = Abort"
proof -
  let ?z = "\<lparr>chunk_size = Suc 0, append_size = 2, trunc_offset = 2\<rparr>"
  let ?s = "two_ranks (Some [CHUNK_CHAR, APPEND_CHAR, APPEND_CHAR]) (At_check 0) (At_bcast 0) buf"
  have "APPEND_CHAR \<noteq> 0" by code_simp
  then have "byte_diff [APPEND_CHAR] [0] \<noteq> 0" using byte_diff_ok by (simp add: cmp_ok_def del: byte_diff.simps)
  then have error: "wat_error byte_diff ?z 3 (patch 0 [CHUNK_CHAR, APPEND_CHAR, APPEND_CHAR] buf) = 1"
    by (simp add: wat_error_def Let_def patch_def del: byte_diff.simps)
  have "\<not> length buf < 3" using assms by (simp add: TRUNC_SIZE_MAX_def APPEND_SIZE_MAX_def CHUNK_SIZE_MAX_def)
  then have "w_status (wat_check byte_diff ?z 0 Fine ?s) = Abort" using error by (simp add: wat_check_def Let_def numeral_3_eq_3)
  moreover have "(wat_step byte_diff (0 ## sconst (Suc 0)) 2 (Suc 0) (\<lambda>a. a \<noteq> Fails))\<^sup>*\<^sup>* (wat_init None buf) (wat_check byte_diff ?z 0 Fine ?s)"
    by (rule wat_run_steps [OF alarm_run_races]) (simp add: alarm_run_def)
  ultimately show ?thesis by auto
qed

end
