(* ===== verification/Spec2Isabelle.thy ===== *)
theory Spec2Isabelle
  imports Punch_Holes File_Verify Fsx_Runs Dir_Trees Xattr_Ops Multi_Directio Inline_Concurrent Truncate_Test Extend_Write
    Reflink_Cow Frager Size_Limits Write_Append_Truncate
begin

text \<open>
  A verification library for \<open>ocfs2-test\<close>, the test suite of the OCFS2 cluster file system. The
  suite is a collection of programs that write files and directories in patterns they can
  recognise again, and check them. What makes such a program correct is that it accepts exactly
  what it should: a tester with a wrong memory reports faults that are not there, one with a weak
  check misses those that are. The theorems are about that.

  \<^bold>\<open>The world of the programs.\<close> \<open>Prelude\<close>: bytes, the wrap-around of C's unsigned types, buffers
  updated in place, the ways a run ends without returning (\<open>fault\<close>). \<open>C_Stdio\<close>: what the sources use
  of \<open>printf\<close> and \<open>scanf\<close>, with the round trip of a printed record as the locales \<open>text_record\<close> and
  \<open>record_reader\<close>. \<open>Posix_File\<close>: a file as a list of bytes; \<open>pread\<close>, \<open>pwrite\<close>, \<open>ftruncate\<close>,
  mappings. The kernel's answers are a list of decisions (\<open>io_env\<close>): succeed, transfer less,
  fail with an error number; when the list is used up calls succeed, so \<open>[]\<close> is a kernel on which
  no call fails, and a theorem for every list is a theorem for every kernel. \<open>Posix_Dir\<close>: the name
  space, with its interface as the locale \<open>dir_store\<close>. Results of \<open>rand()\<close> are a list the program
  draws from.

  \<^bold>\<open>fill_holes, verify_holes, punch_holes\<close> (\<open>programs/fill_verify_holes\<close>): \<open>fill_holes.c\<close> writes
  random units and logs them, \<open>punch_holes.c\<close> punches holes, \<open>verify_holes.c\<close> replays the log into a
  tree of disjoint chunks and compares the file with it. \<open>Fill_Holes\<close>, \<open>Verify_Holes\<close>,
  \<open>Punch_Holes\<close> model the three programs from the option loop to \<open>main\<close>; the red-black tree of the
  kernel's library, which is not among the sources, is a parameter (\<open>rb_laws\<close> states what it promises,
  and an unbalanced tree shows that it can be kept). C1 to C5, in this theory, put the programs
  together, for files below 4 GiB (the verifier keeps lengths in 32 bits) and, but for C2, on a kernel on which no
  call fails; \<open>punch_hides_failure\<close> shows why \<open>punch_holes\<close> needs that.

  \<^bold>\<open>libocfs2test\<close> (\<open>programs/libocfs2test\<close>): \<open>File_Ops\<close> is \<open>file_ops.c\<close>, \<open>Aio\<close> is \<open>aio.c\<close>, \<open>Crc32\<close> and
  \<open>File_Verify\<close> are \<open>file_verify.c\<close> (the checksum, chunks, the log, the verification of a file; C7 and
  C9 to C11), \<open>Dir_Ops\<close> and \<open>Dir_Trees\<close> are \<open>dir_ops.c\<close> (C18 to C21), for paths shorter than \<open>PATH_MAX\<close>, \<open>Xattr_Ops\<close> is \<open>xattr_ops.c\<close> (names, values and
  lists of extended attributes; C23), with the attributes of a file as the locale \<open>attr_map\<close>.
  \<open>Semaphore\<close> has the semaphore wrappers and, as the locale \<open>token_pool\<close>, what one token gives a pool of
  processes.

  \<^bold>\<open>fsx\<close> (\<open>programs/fsx/fsx-linux.c\<close>): the file system exerciser. \<open>Fsx\<close> models every operation, the
  operation log and \<open>main\<close>, and proves what each operation does to the invariant \<open>fx_inv\<close>, the
  equality of file and image; \<open>Fsx_Runs\<close> has the theorems on whole runs (C13 to C15).

  \<^bold>\<open>directio_test\<close> (\<open>programs/directio_test\<close>): \<open>Directio\<close> models the chunk routines, the options and, as
  the step relation \<open>dt_step\<close>, the forked writers, their parent, its signal handler and the clock,
  interleaved at the granularity of system calls. \<open>Directio_Runs\<close> has the invariant of the semaphore
  and the measure that every move uses up, \<open>Directio_Data\<close> the invariant of file and log (every call may fail, the
  write of a log record included, whose failure the program does not see),
  \<open>Directio_Tests\<close> the theorems on whole tests (C27 to C30, C32), \<open>Multi_Directio\<close> the multi-node test,
  of which every rank but 0 aborts.

  \<^bold>\<open>inline-data\<close> (\<open>programs/inline-data\<close>): files small enough to live in their inode. \<open>Inline_Data\<close> models
  \<open>inline-data-utils.c\<close>, the tests of \<open>inline-data.c\<close> on a regular file, its options and \<open>main\<close>; whether the
  inode holds the data, which \<open>libocfs2\<close> tells, is a parameter. Its lemmas carry the invariant \<open>st\<close> (the
  file is a prefix of the pattern) through every test; C33 is what its comparison accepts, C35 the whole program. \<open>Inline_Concurrent\<close> is the test with several processes as the step relation
  \<open>conc_step\<close> (C38, C39).

  \<^bold>\<open>reflink tests\<close> (\<open>programs/reflink_tests\<close>): reflinks of a file are read, written, truncated, appended to and
  removed, and the original must not change. \<open>Reflink\<close> models the operations of \<open>reflink_test_utils.c\<close> and
  \<open>compat_reflink.c\<close> on a volume of named files; what the ioctl puts into a reflink is the parameter \<open>rc_snap\<close>. \<open>Reflink_Laws\<close>
  shows what the operations keep on every kernel and what they do when no call fails, and what the comparisons
  accept; \<open>Reflink_Tests\<close> has the basic and the boundary test of \<open>reflink_test.c\<close> (C22, C25, C26, C37),
  \<open>Reflink_Cow\<close> the tests that punch holes into or truncate the original and then read the reflinks (C17, C24). What the ioctl that
  punches a hole does to the volume is the argument \<open>punch\<close>. The loop that truncates has fuel: a draw of 0 repeats it, and
  with draws other than 0 coming again and again some fuel is enough; for the loop that punches, more fuel than bytes in the file is.

  \<^bold>\<open>frager and verify\_file\<close> (\<open>programs/defrag-test\<close>): \<open>Frager\<close> models the program that scatters files chunk by chunk, from its
  options to a process of it, and the program that checks them afterwards, both on the chunks and logs of \<open>File_Verify\<close>.
  C12 is a whole process followed by the check of all its files, C16 one file in either mode; \<open>write_order_covers\<close> is the random order.

  \<^bold>\<open>Sequences of calls.\<close> \<open>Sequencing\<close> has the forms in which the programs look at one return value before the next
  call, for \<open>Inline_Data\<close> and the reflink tests, with the judgements \<open>gives\<close> (returns 0 in a state such that) and
  \<open>keeps\<close> (whatever it returns) and their rules.

  \<^bold>\<open>write\_append\_truncate\<close> (\<open>programs/write_append_truncate\<close>): in every round one MPI rank appends while another truncates. \<open>Write_Append_Truncate\<close> has
  the ranks as the step relation \<open>wat_step\<close>, with the barriers and the broadcast; C40 is that no order of the ranks raises an alarm
  when writes are whole, C34 what the comparison accepts, \<open>wat_false_alarm\<close> a run in which a short write does raise one.

  \<^bold>\<open>check\_file\_size\_limits\<close> (\<open>programs/check_file_size_limits\<close>): \<open>Size_Limits\<close> has the largest offset as the program computes it and the tests at
  that offset, on a file system whose limit is an argument; C36 is that it accepts exactly that limit, the value of the offset on every
  kind of machine, and when it stays below what the page cache of a 32-bit machine can address.

  \<^bold>\<open>Two small pairs.\<close> \<open>Truncate_Test\<close> is \<open>programs/truncate/verify_truncate.c\<close>, which truncates a file of equal
  clusters and verifies it (C6, C8); \<open>Extend_Write\<close> is \<open>programs/extend_and_write\<close>, two processes that append to
  one file and the program that counts their blocks (C31).

  \<^bold>\<open>Step relations.\<close> \<open>Transitions\<close> has the locales \<open>step_system\<close>, \<open>progressing\<close> and \<open>bounded_system\<close>, interpreted on
  \<open>dt_step\<close>, \<open>conc_step\<close>, \<open>ew_step\<close> and \<open>wat_step\<close>: invariants of runs, final states that can be reached, runs of bounded length.

  \<^bold>\<open>Bounds and fuel.\<close> Loops that end by themselves are functions with a termination proof. Fuel
  is used where the source need not end: \<open>read_at\<close> loops for ever at the end of a file (lemma
  \<open>read_at_loop_eof\<close>), and \<open>traverse_and_destroy\<close> recurses along the tree (C18 gives the fuel that
  is enough, one more than the depth), and the random order of \<open>frager\<close> is drawn until it is complete (\<open>write_order_covers\<close>).
  \<open>fsx\<close> without \<open>-N\<close> loops until a test stops it; the model runs it for any number of tests. Sizes and offsets keep the width of the source.

  \<^bold>\<open>Not modelled.\<close> Third-party programs in the tree (\<open>iozone\<close>, \<open>bonnie\<close>, \<open>postmark\<close>, \<open>aio-stress\<close>,
  \<open>dbench\<close>), shell and Python drivers, calls into \<open>libocfs2\<close> and MPI. Output on \<open>stdout\<close> and
  \<open>stderr\<close> is left out except where the text above says otherwise. Paths of \<open>dir_ops.c\<close> that reach \<open>PATH_MAX\<close>
  (cut by \<open>snprintf\<close>, or overrunning the buffer of \<open>sprintf\<close>). The remaining test programs are
  listed in the manifest.
\<close>

section \<open>Holes: filling, punching and verifying\<close>

lemma vh_rec_of_unit: "unit_ok n u \<or> hole_ok n u \<Longrightarrow> n < 2 ^ 62 \<Longrightarrow> vh_rec_ok u"
  by (auto simp: unit_ok_def hole_ok_def vh_rec_ok_def chunk_ok_def wf_unit_def)

lemma verify_decides:
  assumes "rb_laws ops" "list_all vh_rec_ok us" "0 < length f" "length f < 2 ^ 32"
  shows "vh_main ops [] (Some (concat (map show_unit us))) (Some f)
     = Inr (if f = replayed us (length f) then 0 else 1)"
proof -
  obtain t :: "'a file_chunk tree" where t: "vh_inv (writes t)" "map_in_file f (vh_map (writes t)) \<longleftrightarrow> f = replayed us (length f)"
    "vh_main ops [] (Some (concat (map show_unit us))) (Some f) = (if vh_check_file [] f t = 0 then Inr 0 else Inr 1)"
    using vh_main_eq [OF assms, of "[]"] by auto
  have ok: "\<forall>w \<in> set (writes t). chunk_ok w" using t(1) by (simp add: vh_inv_def)
  show ?thesis
    using t(2,3) vh_check_list_ideal [OF ok, of f] vh_map_in_file [OF ok, of f] by (simp add: vh_check_file_def)
qed

definition wu_A12 :: write_unit where
  "wu_A12 = \<lparr>w_char = 65, w_offset = 1, w_len = 2\<rparr>"

lemma wu_A12_ok: "vh_rec_ok wu_A12" "unit_ok 4 wu_A12"
  by (simp_all add: wu_A12_def vh_rec_ok_def unit_ok_def wf_unit_def chunk_ok_def letter_A MAX_WRITE_SIZE_def
      MAGIC_HOLE_CHAR_def RAND_CHAR_START_def)

lemma vh_read_A12:
  "vh_read_log bst_ops (stream_open (show_unit wu_A12)) t = (case vh_insert bst_ops wu_A12 t of
     Inl e \<Rightarrow> Inl e | Inr t' \<Rightarrow> Inr (0, t'))"
proof -
  have "scan_unit (stream_open (show_unit wu_A12)) = (3, Some wu_A12, \<lparr>st_rest = [], st_eof = True\<rparr>)"
    using scan_unit_show [of wu_A12 "[]"] wu_A12_ok(1) by (simp add: vh_rec_ok_def no_space_first_def stream_open_def)
  moreover have "unmagic wu_A12 = wu_A12" using unit_ok_unmagic wu_A12_ok(2) by blast
  moreover have "vh_read_log bst_ops \<lparr>st_rest = [], st_eof = True\<rparr> t' = Inr (0, t')" for t'
    by (subst vh_read_log.simps) (simp add: scan_unit_def scan_char_def)
  ultimately show ?thesis by (subst vh_read_log.simps) (simp split: sum.split)
qed

lemma replayed_A12: "replayed [wu_A12] (Suc (Suc (Suc (Suc 0)))) = [0, 65, 65, 0]"
  by (simp add: replayed_def unit_write_def wu_A12_def unmagic_def MAGIC_HOLE_CHAR_def RAND_CHAR_START_def
      file_write_def patch_def numeral_eq_Suc)

text \<open>
  C1. On any log of well-formed records and any file that is not empty and below 4 GiB (the code
  puts the size into a 32-bit length) \<open>verify_holes\<close> decides, when no system call fails, whether
  the file is exactly the file of zeros of its size with the records written over it in
  their order (punched holes as zeros): exit status 0 if it is, 1 if not.
\<close>

theorem verify_holes_exact:
  assumes "rb_laws ops" "list_all vh_rec_ok us" "0 < length f" "length f < 2 ^ 32"
  shows "vh_main ops [] (Some (concat (map show_unit us))) (Some f)
     = Inr (if f = replayed us (length f) then 0 else 1)"
  using assms by (rule verify_decides)

theorem verify_holes_exact_witness:
  "vh_main bst_ops [] (Some (concat (map show_unit [wu_A12]))) (Some [0, 65, 65, 0]) = Inr 0
   \<and> vh_main bst_ops [] (Some (concat (map show_unit [wu_A12]))) (Some [0, 65, 66, 0]) = Inr 1"
  using verify_holes_exact [OF rb_laws_bst, of "[wu_A12]" "[0, 65, 65, 0]"]
    verify_holes_exact [OF rb_laws_bst, of "[wu_A12]" "[0, 65, 66, 0]"]
  by (simp add: wu_A12_ok replayed_A12)

text \<open>
  C2. Whatever the kernel answers (short reads, errors), an exit status of 0 for a log of
  well-formed records and a file that is not empty and below 4 GiB means that the file is what the
  log describes: the verifier passes no corrupted file of that size.
\<close>

theorem verify_holes_sound:
  assumes "rb_laws ops" "list_all vh_rec_ok us" "0 < length f" "length f < 2 ^ 32" "env_ok env"
    and "vh_main ops env (Some (concat (map show_unit us))) (Some f) = Inr 0"
  shows "f = replayed us (length f)"
proof -
  obtain t :: "'a file_chunk tree" where t: "vh_inv (writes t)" "map_in_file f (vh_map (writes t)) \<longleftrightarrow> f = replayed us (length f)"
    "vh_main ops env (Some (concat (map show_unit us))) (Some f)
       = (if fst (sys_call env) = None \<and> vh_check_file (snd (sys_call env)) f t = 0 then Inr 0 else Inr 1)"
    using vh_main_eq [OF assms(1-4), of env] by blast
  have ok: "\<forall>w \<in> set (writes t). chunk_ok w" using t(1) by (simp add: vh_inv_def)
  have "vh_check_list (snd (sys_call env)) f (writes t) = 0"
    using t(3) assms(6) by (auto simp: vh_check_file_def split: if_splits)
  moreover have "env_ok (snd (sys_call env))"
    using assms(5) by (cases env) (auto simp: sys_call_def io_next_def env_ok_def split: io.splits)
  ultimately show ?thesis using vh_check_list_sound [OF _ _ ok] vh_map_in_file [OF ok] t(2) by blast
qed

theorem verify_holes_sound_witness:
  "[0, 65, 65, 0] = replayed [wu_A12] (length [0, 65, 65, 0 :: byte])"
proof (rule verify_holes_sound [OF rb_laws_bst, where env = "[Io_ok, Io_short 9]"])
  show "vh_main bst_ops [Io_ok, Io_short 9] (Some (concat (map show_unit [wu_A12]))) (Some [0, 65, 65, 0]) = Inr 0"
  proof -
    let ?c = "\<lambda>b off len. \<lparr>fc_write = \<lparr>w_char = b, w_offset = off, w_len = len\<rparr>, fc_node = ()\<rparr>"
    let ?t = "\<langle>\<langle>\<rangle>, ?c 0 0 1, \<langle>\<langle>\<langle>\<rangle>, ?c 65 1 2, \<langle>\<rangle>\<rangle>, ?c 0 3 1, \<langle>\<rangle>\<rangle>\<rangle>"
    have "vh_init_tree bst_ops 4 = Inr \<langle>\<langle>\<rangle>, ?c 0 0 4, \<langle>\<rangle>\<rangle>" by (simp add: vh_eval)
    moreover have "vh_insert bst_ops wu_A12 \<langle>\<langle>\<rangle>, ?c 0 0 4, \<langle>\<rangle>\<rangle> = Inr ?t" by (simp add: vh_eval wu_A12_def)
    moreover have "vh_check_file [Io_short 9] [0, 65, 65, 0] ?t = 0"
      by (simp add: vh_check_file_def vh_check_chunk_def vh_check_loop.simps sys_pread_def io_next_def writes_def
          MAX_WRITE_SIZE_def width)
    ultimately show ?thesis
      by (simp add: vh_main_def vh_read_A12 sys_call_def io_next_def numeral_eq_Suc)
  qed
qed (simp_all add: wu_A12_ok env_ok_def)

text \<open>
  C3. A run of \<open>fill_holes\<close> that ends with status 0 (no failing system call, random writes, on a
  regular file below 4 GiB) leaves a file and a log that \<open>verify_holes\<close> accepts.
\<close>

theorem fill_then_verify:
  assumes "fh_main resv opt rpl rng [] dev = Inr (0, f, log)" "resv_zero resv" "\<not> is_bdev opt"
    "replaylogname opt = None" "0 < file_size opt" "file_size opt < 2 ^ 32"
    "use_dio opt \<longrightarrow> 512 dvd file_size opt" "max_iter opt < 2 ^ 32" "rb_laws ops"
  shows "length f = file_size opt \<and> vh_main ops [] (Some log) (Some f) = Inr 0"
proof -
  obtain us where us: "list_all (unit_ok (file_size opt)) us" "log = concat (map show_unit us)"
    "f = fold unit_write us (replicate (file_size opt) 0)"
    using fh_main_trace [OF assms(1-4,5) _ assms(7,8)] assms(6) by auto
  have len: "length f = file_size opt" using length_fold_unit_write [OF us(1)] us(3) by simp
  have "map unmagic us = us" using us(1) unit_ok_unmagic by (auto simp: list_all_iff intro!: map_idI)
  then have "f = replayed us (length f)" using us(3) len by (simp add: replayed_def)
  moreover have "list_all vh_rec_ok us"
    using us(1) vh_rec_of_unit [of "file_size opt"] assms(6) by (auto simp: list_all_iff)
  moreover have "vh_main ops [] (Some log) (Some f) = Inr (if f = replayed us (length f) then 0 else 1)"
    unfolding us(2) by (rule verify_decides) (use assms len calculation(2) in auto)
  ultimately show ?thesis using len by simp
qed

text \<open>A run of one round on a file of four bytes.\<close>

definition fh_opts4 :: fh_opts where
  "fh_opts4 = fh_defaults\<lparr>max_iter := 1, file_size := 4\<rparr>"

definition resv0 :: "nat \<Rightarrow> nat \<Rightarrow> content \<Rightarrow> content" where
  "resv0 off len f = replicate len 0"

lemma resv0_zero: "resv_zero resv0"
  by (simp add: resv_zero_def resv0_def file_truncate_def)

lemma unit_write_A12: "unit_write wu_A12 (replicate 4 0) = [0, 65, 65, 0]"
  by (simp add: unit_write_def wu_A12_def file_write_def patch_def numeral_eq_Suc)

lemma fh_main_run4: "fh_main resv0 fh_opts4 (\<lambda>_. None) [0, 4, 2] [] [] = Inr (0, [0, 65, 65, 0], show_unit wu_A12)"
proof -
  obtain opt s where st: "fh_start fh_opts4 (replicate 4 0) None [0, 4, 2] [] = (opt, s)" by fastforce
  then have s: "max_iter_per_chunk s = 0" "cur_iter_offset s = 0" "file_size opt = 4" "\<not> use_dio opt" "fh_replay s = None"
    "fh_rng s = [0, 4, 2]" "fh_file s = replicate 4 0" "fh_env s = []" "fh_log s = []"
    by (auto simp: fh_start_def Let_def fh_opts4_def fh_defaults_def TWO_GIGA_BYTE_def)
  have "fh_prep_rand_write_unit opt s = Inr (wu_A12, s\<lparr>fh_rng := []\<rparr>)"
    by (simp add: fh_prep_rand_write_unit_def s fh_get_rand_def fh_again.simps fh_clip_def Let_def width
        TWO_GIGA_BYTE_def MAX_WRITE_SIZE_def RAND_CHAR_START_def wu_A12_def)
  moreover have "fh_do_write opt (fh_log_write (s\<lparr>fh_rng := []\<rparr>) wu_A12) wu_A12 =
      Inr (0, (fh_log_write (s\<lparr>fh_rng := []\<rparr>) wu_A12)\<lparr>fh_file := [0, 65, 65, 0]\<rparr>)"
    using unit_write_A12 by (subst fh_do_write_ideal) (simp_all add: fh_log_write_def s wu_A12_def MAX_WRITE_SIZE_def)
  ultimately have "fh_loop 1 opt s = Inr (0, (fh_log_write (s\<lparr>fh_rng := []\<rparr>) wu_A12)\<lparr>fh_file := [0, 65, 65, 0]\<rparr>)"
    by (simp add: fh_replay_eof_def s fh_prep_write_unit_def)
  moreover have "fh_main resv0 fh_opts4 (\<lambda>_. None) [0, 4, 2] [] [] =
     (case fh_start fh_opts4 (replicate 4 0) None [0, 4, 2] [] of (opt', s) \<Rightarrow>
      (case fh_loop 1 opt' s of Inl e \<Rightarrow> Inl e | Inr (ret, s') \<Rightarrow> Inr (ret, fh_file s', fh_log s')))"
    by (subst fh_main_ideal [OF resv0_zero, where rpl = None]) (simp_all add: fh_opts4_def fh_defaults_def)
  ultimately show ?thesis using st s by (simp add: fh_log_write_def)
qed

theorem fill_then_verify_witness:
  "length [0, 65, 65, 0 :: byte] = file_size fh_opts4
   \<and> vh_main bst_ops [] (Some (show_unit wu_A12)) (Some [0, 65, 65, 0]) = Inr 0"
  by (rule fill_then_verify [OF fh_main_run4 resv0_zero _ _ _ _ _ _ rb_laws_bst])
    (simp_all add: fh_opts4_def fh_defaults_def)

text \<open>
  C4. Given the log of a run as its replay log, \<open>fill_holes\<close> ends with status 0 and writes the same
  file and the same log again, whichever of mmap, aio and plain writes it is told to use.
\<close>

theorem fill_replays_log:
  assumes "list_all (unit_ok (file_size opt)) us" "us \<noteq> []" "length us \<le> max_iter opt"
    "replaylogname opt = Some nm" "rlog nm = Some (concat (map show_unit us))" "resv_zero resv" "\<not> is_bdev opt"
  shows "fh_main resv opt rlog rng [] dev
     = Inr (0, fold unit_write us (replicate (file_size opt) 0), concat (map show_unit us))"
proof -
  let ?f0 = "replicate (file_size opt) (0 :: byte)" and ?st = "stream_open (concat (map show_unit us))"
  obtain opt' s where st: "fh_start opt ?f0 (Some ?st) rng [] = (opt', s)" by fastforce
  then have s: "fh_file s = ?f0" "fh_log s = []" "fh_env s = []" "fh_replay s = Some ?st"
    by (auto simp: fh_start_def Let_def)
  have "fh_main resv opt rlog rng [] dev = (case fh_start opt ?f0 (Some ?st) rng [] of (opt', s) \<Rightarrow>
      (case fh_loop (max_iter opt) opt' s of Inl e \<Rightarrow> Inl e | Inr (ret, s') \<Rightarrow> Inr (ret, fh_file s', fh_log s')))"
    by (rule fh_main_ideal) (simp_all add: assms)
  moreover obtain s' where "fh_loop (max_iter opt) opt' s = Inr (0, s')" "fh_file s' = fold unit_write us ?f0"
    "fh_log s' = concat (map show_unit us)"
    using fh_loop_replay [of s us "max_iter opt" opt'] assms(1-3) s by (auto simp: stream_open_def)
  ultimately show ?thesis using st by simp
qed

theorem fill_replays_log_witness:
  "fh_main resv0 (fh_opts4\<lparr>replaylogname := Some ''l'', enable_aio := True\<rparr>) (\<lambda>_. Some (show_unit wu_A12)) [] [] []
     = Inr (0, [0, 65, 65, 0], show_unit wu_A12)"
  using fill_replays_log [of "fh_opts4\<lparr>replaylogname := Some ''l'', enable_aio := True\<rparr>" "[wu_A12]" "''l''"
      "\<lambda>_. Some (show_unit wu_A12)" resv0 "[]" "[]"] wu_A12_ok(2) resv0_zero unit_write_A12
  by (simp add: fh_opts4_def fh_defaults_def)

text \<open>
  C5. On a kernel where no system call fails, a run of \<open>punch_holes\<close> without a log to replay, on a
  regular file that is not empty and below 4 GiB, that ends with status 0 leaves a file and a log
  that \<open>verify_holes\<close> accepts: the holes it logged read as zeros, the rest as written. The condition
  on the kernel is needed, because \<open>ph_do_write\<close> drops the result of \<open>pwrite\<close>
  (\<open>punch_hides_failure\<close> below).
\<close>

theorem punch_then_verify:
  assumes "ph_main resv unresv opt rpl rng [] = Inr (0, f, log)" "resv_zero resv" "unresv_zero unresv"
    "ph_replaylogname opt = None" "0 < ph_file_size opt" "ph_file_size opt < 2 ^ 32" "rb_laws ops"
  shows "length f = ph_file_size opt \<and> vh_main ops [] (Some log) (Some f) = Inr 0"
proof -
  let ?n = "ph_file_size opt"
  obtain us where us: "list_all (\<lambda>u. unit_ok ?n u \<or> hole_ok ?n u) us" "log = concat (map show_unit us)"
    "f = replayed us ?n"
    using ph_main_trace [OF assms(1-5)] assms(6) by auto
  have "\<forall>u \<in> set (map unmagic us). w_offset u + w_len u \<le> length (replicate ?n (0 :: byte))"
    using us(1) by (auto simp: list_all_iff unit_ok_def hole_ok_def)
  from length_fold_inside [OF this] have len: "length f = ?n" using us(3) by (simp add: replayed_def)
  have rec: "list_all vh_rec_ok us"
    using us(1) vh_rec_of_unit [of ?n] assms(6) by (auto simp: list_all_iff)
  have "vh_main ops [] (Some log) (Some f) = Inr (if f = replayed us (length f) then 0 else 1)"
    unfolding us(2) by (rule verify_decides [OF assms(7) rec]) (use assms len in auto)
  then show ?thesis using us(3) len by simp
qed

definition ph_opts4 :: ph_opts where
  "ph_opts4 = ph_defaults\<lparr>ph_max_iter := 1, ph_file_size := 4\<rparr>"

definition ph_start4 :: "nat list \<Rightarrow> ph_state" where
  "ph_start4 rng = \<lparr>ph_file = [0, 0, 0, 0], ph_log = [], ph_replay = None, ph_rng = rng, ph_env = []\<rparr>"

definition unresv0 :: "nat \<Rightarrow> nat \<Rightarrow> content \<Rightarrow> content" where
  "unresv0 off len f = file_write off (replicate len 0) f"

lemmas ph_eval = ph_fill.simps ph_prep_write_unit_def ph_prep_rand_write_unit.simps ph_get_rand_def width
  MAX_WRITE_SIZE_def RAND_CHAR_START_def Let_def ph_place_def ph_log_write_def ph_do_write_def
  ph_opts4_def ph_defaults_def ph_start4_def file_write_def patch_def replicate_numeral

lemma ph_main_run4:
  "ph_main resv0 unresv0 ph_opts4 (\<lambda>_. None) [0, 0, 4, 7, 1, 2] [] = Inr (0, [65, 0, 0, 65],
     show_unit \<lparr>w_char = 65, w_offset = 0, w_len = 4\<rparr> @ show_unit \<lparr>w_char = MAGIC_HOLE_CHAR, w_offset = 1, w_len = 2\<rparr>)"
proof -
  have st: "\<lparr>ph_file = replicate (ph_file_size ph_opts4) 0, ph_log = [], ph_replay = None, ph_rng = rng, ph_env = []\<rparr>
      = ph_start4 rng" for rng
    by (simp add: ph_start4_def ph_opts4_def replicate_numeral)
  show ?thesis
    by (subst ph_main_ideal [OF resv0_zero], simp add: ph_opts4_def ph_defaults_def)
      (simp add: st, simp add: ph_eval ph_replay_eof_def ph_punch_hole_def unresv0_def, simp only: numeral_2_eq_2)
qed

theorem punch_then_verify_witness:
  "length [65, 0, 0, 65 :: byte] = ph_file_size ph_opts4
   \<and> vh_main bst_ops [] (Some (show_unit \<lparr>w_char = 65, w_offset = 0, w_len = 4\<rparr>
        @ show_unit \<lparr>w_char = MAGIC_HOLE_CHAR, w_offset = 1, w_len = 2\<rparr>)) (Some [65, 0, 0, 65]) = Inr 0"
  by (rule punch_then_verify [OF ph_main_run4 resv0_zero _ _ _ _ rb_laws_bst])
    (simp_all add: ph_opts4_def ph_defaults_def unresv_zero_def unresv0_def)

text \<open>
  \<open>ph_do_write\<close> returns 0 whatever \<open>pwrite\<close> answered: when the \<open>pwrite\<close> of this run fails (its third
  call, after the \<open>open\<close> of the file and \<open>ftruncate\<close>), \<open>punch_holes\<close> exits with 0, and \<open>verify_holes\<close>
  rejects what it left.
\<close>

lemma punch_hides_failure:
  "ph_main resv0 unresv0 ph_opts4 (\<lambda>_. None) [0, 0, 4, 7, 1, 2] [Io_ok, Io_ok, Io_err 5] = Inr (0, [0, 0, 0, 0],
     show_unit \<lparr>w_char = 65, w_offset = 0, w_len = 4\<rparr> @ show_unit \<lparr>w_char = MAGIC_HOLE_CHAR, w_offset = 1, w_len = 2\<rparr>)"
  "vh_main bst_ops [] (Some (show_unit \<lparr>w_char = 65, w_offset = 0, w_len = 4\<rparr>
     @ show_unit \<lparr>w_char = MAGIC_HOLE_CHAR, w_offset = 1, w_len = 2\<rparr>)) (Some [0, 0, 0, 0]) = Inr 1"
proof -
  show "ph_main resv0 unresv0 ph_opts4 (\<lambda>_. None) [0, 0, 4, 7, 1, 2] [Io_ok, Io_ok, Io_err 5] = Inr (0, [0, 0, 0, 0],
     show_unit \<lparr>w_char = 65, w_offset = 0, w_len = 4\<rparr> @ show_unit \<lparr>w_char = MAGIC_HOLE_CHAR, w_offset = 1, w_len = 2\<rparr>)"
    by (simp add: ph_main_def ph_prep_file_def ph_opts4_def ph_defaults_def sys_call_def io_next_def sys_ftruncate_def file_truncate_def,
        simp add: ph_eval sys_pwrite_def io_next_def ph_replay_eof_def ph_punch_hole_def unresv0_def, simp only: numeral_2_eq_2)
  have "vh_main bst_ops [] (Some (concat (map show_unit [\<lparr>w_char = 65, w_offset = 0, w_len = 4\<rparr>,
      \<lparr>w_char = MAGIC_HOLE_CHAR, w_offset = 1, w_len = 2\<rparr>]))) (Some [0, 0, 0, 0]) = Inr 1"
    by (subst verify_decides [OF rb_laws_bst])
       (simp_all add: vh_rec_ok_def chunk_ok_def wf_unit_def MAGIC_HOLE_CHAR_def replayed_def unmagic_def unit_write_def
         file_write_def patch_def replicate_numeral RAND_CHAR_START_def c_isspace_def char_of_byte_def char_of_eq_iff)
  then show "vh_main bst_ops [] (Some (show_unit \<lparr>w_char = 65, w_offset = 0, w_len = 4\<rparr>
     @ show_unit \<lparr>w_char = MAGIC_HOLE_CHAR, w_offset = 1, w_len = 2\<rparr>)) (Some [0, 0, 0, 0]) = Inr 1" by simp
qed

text \<open>
  The filling loop of \<open>punch_holes\<close> does not populate the whole file, although the usage text
  says it does: it advances by the end of the unit instead of its length, so a unit of one byte
  at offset 1 is followed by one at offset 3, and byte 2 of this file of four bytes is never written.
\<close>

theorem punch_fill_skips:
  "ph_fill ph_opts4 0 (ph_start4 [0, 0, 1, 0, 0, 1, 0, 0, 1]) = Inr (Fd_open,
     (ph_start4 [])\<lparr>ph_file := [65, 65, 0, 65],
       ph_log := show_unit \<lparr>w_char = 65, w_offset = 0, w_len = 1\<rparr> @ show_unit \<lparr>w_char = 65, w_offset = 1, w_len = 1\<rparr>
         @ show_unit \<lparr>w_char = 65, w_offset = 3, w_len = 1\<rparr>\<rparr>)"
  by (simp add: ph_eval, simp only: numeral_3_eq_3)

end
